(* ===== verification/Prelude.thy ===== *)
theory Prelude
  imports Main "HOL-Library.Word" "HOL-Library.Signed_Division"
begin

text \<open>
  Shared vocabulary of the development: the machine integers of the C++ sources, byte strings,
  the ordered containers \<open>base::flat_set\<close> and \<open>base::flat_map\<close> (kept as strictly increasing
  lists and association lists, which is the contract of these containers), and the two binary
  searches \<open>ranges::lower_bound\<close> and \<open>ranges::upper_bound\<close>. The lemmas collected in
  \<open>flat_simps\<close> carry the proofs of the components.
\<close>

unbundle bit_operations_syntax

named_theorems flat_simps "sets, maps and searches over strictly increasing lists"
named_theorems c_int_simps "two's complement values of fixed width"

section \<open>Machine integers and bytes\<close>

type_synonym byte = "8 word"
type_synonym bytes = "byte list"
type_synonym uint32 = "32 word"
type_synonym uint64 = "64 word"

text \<open>The value a signed 32 bit variable holds after the result \<open>x\<close> is stored in it.\<close>

definition wrap_int32 :: "int \<Rightarrow> int" where
  "wrap_int32 x = signed_take_bit 31 x"

definition is_int32 :: "int \<Rightarrow> bool" where
  "is_int32 x \<longleftrightarrow> - (2 ^ 31) \<le> x \<and> x < 2 ^ 31"

section \<open>Ordered sets\<close>

text \<open>\<open>flat_set::emplace\<close>: an element that is already there is left alone.\<close>

fun flat_insert :: "'a::linorder \<Rightarrow> 'a list \<Rightarrow> 'a list" where
  "flat_insert x [] = [x]"
| "flat_insert x (y # ys) =
     (if y < x then y # flat_insert x ys else if x < y then x # y # ys else y # ys)"

text \<open>\<open>flat_set::merge\<close> of a range, and the constructor from a range.\<close>

definition flat_merge :: "'a::linorder list \<Rightarrow> 'a list \<Rightarrow> 'a list" where
  "flat_merge xs more = fold flat_insert more xs"

definition flat_set_of :: "'a::linorder list \<Rightarrow> 'a list" where
  "flat_set_of more = flat_merge [] more"

definition flat_remove :: "'a \<Rightarrow> 'a list \<Rightarrow> 'a list" where
  "flat_remove x xs = filter (\<lambda>y. y \<noteq> x) xs"

text \<open>
  The index of the first element whose projection is not below (not above, for the upper bound)
  the value; the length of the range when there is none.
\<close>

definition lower_bound :: "('s \<Rightarrow> 'a::linorder) \<Rightarrow> 's list \<Rightarrow> 'a \<Rightarrow> nat" where
  "lower_bound f xs v = length (takeWhile (\<lambda>s. f s < v) xs)"

definition upper_bound :: "('s \<Rightarrow> 'a::linorder) \<Rightarrow> 's list \<Rightarrow> 'a \<Rightarrow> nat" where
  "upper_bound f xs v = length (takeWhile (\<lambda>s. \<not> v < f s) xs)"

section \<open>Ordered maps\<close>

type_synonym ('k, 'v) flat_map = "('k \<times> 'v) list"

abbreviation flat_map_ok :: "('k::linorder, 'v) flat_map \<Rightarrow> bool" where
  "flat_map_ok m \<equiv> sorted_wrt (<) (map fst m)"

text \<open>\<open>flat_map::emplace\<close> keeps an existing entry, \<open>flat_map::operator[]\<close> overwrites it.\<close>

fun flat_emplace :: "'k::linorder \<Rightarrow> 'v \<Rightarrow> ('k, 'v) flat_map \<Rightarrow> ('k, 'v) flat_map" where
  "flat_emplace k v [] = [(k, v)]"
| "flat_emplace k v ((k', v') # m) =
     (if k' < k then (k', v') # flat_emplace k v m
      else if k < k' then (k, v) # (k', v') # m else (k', v') # m)"

fun flat_put :: "'k::linorder \<Rightarrow> 'v \<Rightarrow> ('k, 'v) flat_map \<Rightarrow> ('k, 'v) flat_map" where
  "flat_put k v [] = [(k, v)]"
| "flat_put k v ((k', v') # m) =
     (if k' < k then (k', v') # flat_put k v m
      else if k < k' then (k, v) # (k', v') # m else (k, v) # m)"

definition flat_erase :: "'k \<Rightarrow> ('k, 'v) flat_map \<Rightarrow> ('k, 'v) flat_map" where
  "flat_erase k m = filter (\<lambda>e. fst e \<noteq> k) m"

section \<open>Lemmas on machine integers\<close>

lemma wrap_int32_id [c_int_simps]: "is_int32 x \<Longrightarrow> wrap_int32 x = x"
  by (simp add: wrap_int32_def is_int32_def signed_take_bit_int_eq_self)

lemma is_int32_wrap [c_int_simps]: "is_int32 (wrap_int32 x)"
  using signed_take_bit_int_greater_eq_minus_exp [of 31 x] signed_take_bit_int_less_exp [of 31 x]
  by (simp add: wrap_int32_def is_int32_def)

lemma is_int32_between:
  "is_int32 a \<Longrightarrow> is_int32 c \<Longrightarrow> a \<le> b \<Longrightarrow> b \<le> c \<Longrightarrow> is_int32 b"
  by (simp add: is_int32_def)

section \<open>Lemmas on ordered sets\<close>

lemma set_flat_insert [simp, flat_simps]: "set (flat_insert x xs) = insert x (set xs)"
  by (induction xs) auto

lemma sorted_flat_insert [intro, flat_simps]:
  "sorted_wrt (<) xs \<Longrightarrow> sorted_wrt (<) (flat_insert x xs)"
  by (induction xs) auto

lemma flat_insert_absorb: "sorted_wrt (<) xs \<Longrightarrow> x \<in> set xs \<Longrightarrow> flat_insert x xs = xs"
  by (induction xs) auto

lemma length_flat_insert:
  "sorted_wrt (<) xs \<Longrightarrow> length (flat_insert x xs) = (if x \<in> set xs then length xs else Suc (length xs))"
  by (induction xs) auto

lemma set_flat_merge [simp, flat_simps]: "set (flat_merge xs more) = set xs \<union> set more"
  by (induction more arbitrary: xs) (auto simp: flat_merge_def)

lemma sorted_flat_merge [intro, flat_simps]:
  "sorted_wrt (<) xs \<Longrightarrow> sorted_wrt (<) (flat_merge xs more)"
  by (induction more arbitrary: xs) (auto simp: flat_merge_def)

lemma set_flat_set_of [simp, flat_simps]: "set (flat_set_of more) = set more"
  by (simp add: flat_set_of_def)

lemma sorted_flat_set_of [intro, simp]: "sorted_wrt (<) (flat_set_of more)"
  by (simp add: flat_set_of_def sorted_flat_merge)

lemma set_flat_remove [simp, flat_simps]: "set (flat_remove x xs) = set xs - {x}"
  by (auto simp: flat_remove_def)

lemma sorted_flat_remove [intro, flat_simps]:
  "sorted_wrt (<) xs \<Longrightarrow> sorted_wrt (<) (flat_remove x xs)"
  by (simp add: flat_remove_def sorted_wrt_filter)

text \<open>A strictly increasing list is determined by its elements.\<close>

lemma strict_sorted_unique:
  fixes xs ys :: "'a::linorder list"
  assumes "sorted_wrt (<) xs" "sorted_wrt (<) ys" "set xs = set ys"
  shows "xs = ys"
  using assms by (simp add: strict_sorted_equal)

lemma strict_sorted_length:
  fixes xs :: "'a::linorder list"
  shows "sorted_wrt (<) xs \<Longrightarrow> length xs = card (set xs)"
  by (simp add: distinct_card strict_sorted_iff)

lemma strict_sorted_hd_le:
  fixes xs :: "'a::linorder list"
  shows "sorted_wrt (<) xs \<Longrightarrow> x \<in> set xs \<Longrightarrow> hd xs \<le> x"
  by (cases xs) auto

lemma strict_sorted_le_last:
  fixes xs :: "'a::linorder list"
  shows "sorted_wrt (<) xs \<Longrightarrow> x \<in> set xs \<Longrightarrow> x \<le> last xs"
  by (induction xs) (auto intro: less_imp_le)

lemma strict_sorted_nth_less:
  fixes xs :: "'a::linorder list"
  shows "sorted_wrt (<) xs \<Longrightarrow> i < j \<Longrightarrow> j < length xs \<Longrightarrow> xs ! i < xs ! j"
  by (rule sorted_wrt_nth_less)

text \<open>So is a list that increases strictly in a key, even when only the key is ordered.\<close>

lemma sorted_key_unique:
  fixes f :: "'e \<Rightarrow> 'a::linorder"
  assumes "sorted_wrt (\<lambda>a b. f a < f b) xs" "sorted_wrt (\<lambda>a b. f a < f b) ys" "set xs = set ys"
  shows "xs = ys"
  using assms
proof (induction xs arbitrary: ys)
  case (Cons x xs)
  then obtain y ys' where ys: "ys = y # ys'" by (cases ys) auto
  have "x = y"
    using Cons.prems by (auto simp: ys) (metis insert_iff order_less_asym)
  moreover have "x \<notin> set xs" "y \<notin> set ys'"
    using Cons.prems by (auto simp: ys)
  ultimately have "set xs = set ys'"
    using Cons.prems(3) by (auto simp: ys)
  with Cons ys \<open>x = y\<close> show ?case by simp
qed simp

section \<open>Lemmas on binary search\<close>

lemma lower_bound_le [simp]: "lower_bound f xs v \<le> length xs"
  by (simp add: lower_bound_def length_takeWhile_le)

lemma upper_bound_le [simp]: "upper_bound f xs v \<le> length xs"
  by (simp add: upper_bound_def length_takeWhile_le)

lemma lower_bound_below: "i < lower_bound f xs v \<Longrightarrow> f (xs ! i) < v"
  by (metis lower_bound_def nth_mem set_takeWhileD takeWhile_nth)

lemma upper_bound_below: "i < upper_bound f xs v \<Longrightarrow> f (xs ! i) \<le> v"
  by (metis linorder_not_less nth_mem set_takeWhileD takeWhile_nth upper_bound_def)

lemma lower_bound_at:
  "lower_bound f xs v < length xs \<Longrightarrow> v \<le> f (xs ! lower_bound f xs v)"
  by (metis linorder_not_less lower_bound_def nth_length_takeWhile)

lemma upper_bound_at:
  "upper_bound f xs v < length xs \<Longrightarrow> v < f (xs ! upper_bound f xs v)"
  by (metis upper_bound_def nth_length_takeWhile)

lemma lower_bound_above:
  assumes "sorted_wrt (\<lambda>s t. f s \<le> f t) xs" "lower_bound f xs v \<le> i" "i < length xs"
  shows "v \<le> f (xs ! i)"
proof (cases "i = lower_bound f xs v")
  case True
  with assms show ?thesis using lower_bound_at [of f xs v] by simp
next
  case False
  then have "f (xs ! lower_bound f xs v) \<le> f (xs ! i)"
    using sorted_wrt_nth_less [OF assms(1), of "lower_bound f xs v" i] assms(2,3) by simp
  moreover have "v \<le> f (xs ! lower_bound f xs v)"
    using assms(2,3) by (rule lower_bound_at [OF le_less_trans])
  ultimately show ?thesis by simp
qed

lemma upper_bound_above:
  assumes "sorted_wrt (\<lambda>s t. f s \<le> f t) xs" "upper_bound f xs v \<le> i" "i < length xs"
  shows "v < f (xs ! i)"
proof (cases "i = upper_bound f xs v")
  case True
  with assms show ?thesis using upper_bound_at [of f xs v] by simp
next
  case False
  then have "f (xs ! upper_bound f xs v) \<le> f (xs ! i)"
    using sorted_wrt_nth_less [OF assms(1), of "upper_bound f xs v" i] assms(2,3) by simp
  moreover have "v < f (xs ! upper_bound f xs v)"
    using assms(2,3) by (rule upper_bound_at [OF le_less_trans])
  ultimately show ?thesis by simp
qed

section \<open>Lemmas on ordered maps\<close>

lemma set_flat_emplace_keys [simp, flat_simps]:
  "fst ` set (flat_emplace k v m) = insert k (fst ` set m)"
proof (induction m)
  case (Cons e m)
  then show ?case by (cases e) (simp add: insert_commute not_less_iff_gr_or_eq)
qed simp

lemma set_flat_put_keys [simp, flat_simps]:
  "fst ` set (flat_put k v m) = insert k (fst ` set m)"
proof (induction m)
  case (Cons e m)
  then show ?case by (cases e) (simp add: insert_commute not_less_iff_gr_or_eq)
qed simp

lemma flat_map_ok_Cons [flat_simps]:
  "flat_map_ok (e # m) \<longleftrightarrow> (\<forall>k \<in> fst ` set m. fst e < k) \<and> flat_map_ok m"
  by simp

lemma flat_map_ok_emplace [intro, flat_simps]: "flat_map_ok m \<Longrightarrow> flat_map_ok (flat_emplace k v m)"
proof (induction m)
  case (Cons e m)
  then show ?case
    by (cases e) (auto simp only: flat_map_ok_Cons flat_emplace.simps set_flat_emplace_keys fst_conv
        list.set image_insert ball_simps split: if_splits)
qed simp

lemma flat_map_ok_put [intro, flat_simps]: "flat_map_ok m \<Longrightarrow> flat_map_ok (flat_put k v m)"
proof (induction m)
  case (Cons e m)
  then show ?case
    by (cases e) (auto simp only: flat_map_ok_Cons flat_put.simps set_flat_put_keys fst_conv
        list.set image_insert ball_simps not_less_iff_gr_or_eq split: if_splits)
qed simp

lemma flat_map_ok_erase [intro, flat_simps]: "flat_map_ok m \<Longrightarrow> flat_map_ok (flat_erase k m)"
  by (induction m) (auto simp: flat_erase_def)

lemma flat_map_ok_distinct: "flat_map_ok m \<Longrightarrow> distinct (map fst m)"
  by (simp add: strict_sorted_iff)

lemma map_of_flat_emplace [flat_simps]:
  "flat_map_ok m \<Longrightarrow>
     map_of (flat_emplace k v m) x = (if x = k then Some (case map_of m k of None \<Rightarrow> v | Some w \<Rightarrow> w) else map_of m x)"
proof (induction m)
  case (Cons e m)
  moreover have "k < fst e \<Longrightarrow> map_of m k = None"
    using Cons.prems by (force simp: map_of_eq_None_iff)
  ultimately show ?case by (cases e) (auto simp: not_less_iff_gr_or_eq)
qed simp

lemma map_of_flat_put [flat_simps]:
  "map_of (flat_put k v m) x = (if x = k then Some v else map_of m x)"
  by (induction k v m rule: flat_put.induct) (auto simp: not_less_iff_gr_or_eq)

lemma map_of_flat_erase [flat_simps]: "map_of (flat_erase k m) x = (if x = k then None else map_of m x)"
  by (induction m) (auto simp: flat_erase_def)

lemma set_flat_emplace_new:
  "k \<notin> fst ` set m \<Longrightarrow> set (flat_emplace k v m) = insert (k, v) (set m)"
  by (induction k v m rule: flat_emplace.induct) (auto simp: not_less_iff_gr_or_eq)

lemma length_flat_emplace:
  "flat_map_ok m \<Longrightarrow> length (flat_emplace k v m) = (if k \<in> fst ` set m then length m else Suc (length m))"
proof (induction m)
  case (Cons e m)
  then show ?case by (cases e) (force simp: not_less_iff_gr_or_eq)
qed simp

end
