(* ===== verification/ReceivedIds.thy ===== *)
theory ReceivedIds
  imports Prelude
begin

text \<open>
  \<open>MTP::details::ReceivedIdsManager\<close> (mtproto/details/mtproto_received_ids_manager.h and .cpp): the
  window of server message ids a session remembers, so that a replayed message is not handled
  again. The session calls \<open>registerMsgId\<close> for every message (once per message of a container)
  and \<open>shrink\<close> after every packet; the calls are run here in any order.
\<close>

section \<open>Definitions\<close>

type_synonym mtpMsgId = uint64

definition kIdsBufferSize :: nat where
  "kIdsBufferSize = 400"

datatype State = NotFound | NeedsAck | NoAckNeeded

datatype Result = Success | Duplicate | TooOld

record ReceivedIdsManager =
  idsNeedAck :: "(mtpMsgId, bool) flat_map"

definition ids_min :: "ReceivedIdsManager \<Rightarrow> mtpMsgId" where
  "ids_min s = (case idsNeedAck s of [] \<Rightarrow> 0 | e # _ \<Rightarrow> fst e)"

definition ids_max :: "ReceivedIdsManager \<Rightarrow> mtpMsgId" where
  "ids_max s = (if idsNeedAck s = [] then 0 else fst (last (idsNeedAck s)))"

definition registerMsgId :: "mtpMsgId \<Rightarrow> bool \<Rightarrow> ReceivedIdsManager \<Rightarrow> Result \<times> ReceivedIdsManager" where
  "registerMsgId msgId needAck s =
     (if map_of (idsNeedAck s) msgId \<noteq> None then (Duplicate, s)
      else if length (idsNeedAck s) < kIdsBufferSize \<or> msgId > ids_min s
      then (Success, s\<lparr>idsNeedAck := flat_emplace msgId needAck (idsNeedAck s)\<rparr>)
      else (TooOld, s))"

definition lookup :: "mtpMsgId \<Rightarrow> ReceivedIdsManager \<Rightarrow> State" where
  "lookup msgId s =
     (case map_of (idsNeedAck s) msgId of
        None \<Rightarrow> NotFound
      | Some needAck \<Rightarrow> if needAck then NeedsAck else NoAckNeeded)"

text \<open>The loop of \<open>shrink\<close>: \<open>size\<close> counts down, the first entry is erased each time.\<close>

fun shrink_loop :: "nat \<Rightarrow> (mtpMsgId, bool) flat_map \<Rightarrow> (mtpMsgId, bool) flat_map" where
  "shrink_loop sz m = (if sz > kIdsBufferSize then shrink_loop (sz - 1) (tl m) else m)"

declare shrink_loop.simps [simp del]

definition shrink :: "ReceivedIdsManager \<Rightarrow> ReceivedIdsManager" where
  "shrink s = s\<lparr>idsNeedAck := shrink_loop (length (idsNeedAck s)) (idsNeedAck s)\<rparr>"

definition clear :: "ReceivedIdsManager \<Rightarrow> ReceivedIdsManager" where
  "clear s = s\<lparr>idsNeedAck := []\<rparr>"

text \<open>
  What a session does with the manager between two resets: registrations and shrinks in any
  order. \<open>ids_run\<close> collects the ids whose registration succeeded, that is, the ids of the
  messages the session handles.
\<close>

datatype ids_call = Register mtpMsgId bool | Shrink

fun ids_run :: "ids_call list \<Rightarrow> ReceivedIdsManager \<Rightarrow> mtpMsgId list \<times> ReceivedIdsManager" where
  "ids_run [] s = ([], s)"
| "ids_run (Register msgId needAck # calls) s =
     (let (r, s') = registerMsgId msgId needAck s; (handled, t) = ids_run calls s'
      in (if r = Success then msgId # handled else handled, t))"
| "ids_run (Shrink # calls) s = ids_run calls (shrink s)"

definition ids_ok :: "ReceivedIdsManager \<Rightarrow> bool" where
  "ids_ok s \<longleftrightarrow> flat_map_ok (idsNeedAck s)"

text \<open>An id is spent when the manager will never accept it again.\<close>

definition spent :: "ReceivedIdsManager \<Rightarrow> mtpMsgId \<Rightarrow> bool" where
  "spent s msgId \<longleftrightarrow>
     msgId \<in> fst ` set (idsNeedAck s) \<or>
     kIdsBufferSize \<le> length (idsNeedAck s) \<and> (\<forall>k \<in> fst ` set (idsNeedAck s). msgId < k)"

section \<open>Lemmas\<close>

lemma shrink_loop_drop:
  "sz = length m \<Longrightarrow> shrink_loop sz m = drop (length m - kIdsBufferSize) m"
proof (induction sz m rule: shrink_loop.induct)
  case (1 sz m)
  show ?case
  proof (cases "sz > kIdsBufferSize")
    case True
    then obtain e m' where m: "m = e # m'"
      using "1.prems" by (cases m) auto
    moreover have "length (e # m') - kIdsBufferSize = Suc (length m' - kIdsBufferSize)"
      using True "1.prems" m by simp
    ultimately show ?thesis
      using "1.IH" True "1.prems" by (simp add: shrink_loop.simps [of "Suc (length m')" "e # m'"])
  next
    case False
    with "1.prems" show ?thesis by (simp add: shrink_loop.simps [of "length m" m])
  qed
qed

lemma shrink_eq: "idsNeedAck (shrink s) = drop (length (idsNeedAck s) - kIdsBufferSize) (idsNeedAck s)"
  by (simp add: shrink_def shrink_loop_drop)

lemma ids_min_least:
  assumes "ids_ok s" "k \<in> fst ` set (idsNeedAck s)"
  shows "ids_min s \<le> k"
proof (cases "idsNeedAck s")
  case (Cons e m)
  then show ?thesis using assms by (auto simp: ids_min_def ids_ok_def)
qed (use assms in simp)

lemma ids_min_mem: "idsNeedAck s \<noteq> [] \<Longrightarrow> ids_min s \<in> fst ` set (idsNeedAck s)"
  by (cases "idsNeedAck s") (auto simp: ids_min_def)

lemma lookup_NotFound: "lookup i s = NotFound \<longleftrightarrow> i \<notin> fst ` set (idsNeedAck s)"
  by (simp add: lookup_def map_of_eq_None_iff [symmetric] split: option.split)

lemma register_ok: "ids_ok s \<Longrightarrow> ids_ok (snd (registerMsgId i a s))"
  by (auto simp: registerMsgId_def ids_ok_def flat_map_ok_emplace)

lemma shrink_ok: "ids_ok s \<Longrightarrow> ids_ok (shrink s)"
  by (simp add: ids_ok_def shrink_eq drop_map [symmetric] sorted_wrt_drop)

lemma register_success_fresh:
  assumes "ids_ok s" "fst (registerMsgId i a s) = Success"
  shows "\<not> spent s i"
proof -
  have "i \<notin> fst ` set (idsNeedAck s)"
    using assms(2) by (auto simp: registerMsgId_def map_of_eq_None_iff split: if_splits)
  moreover have "length (idsNeedAck s) < kIdsBufferSize \<or> ids_min s < i"
    using assms(2) by (auto simp: registerMsgId_def split: if_splits)
  ultimately show ?thesis
    using ids_min_mem [of s] by (fastforce simp: spent_def kIdsBufferSize_def)
qed

lemma register_success_spent:
  "fst (registerMsgId i a s) = Success \<Longrightarrow> spent (snd (registerMsgId i a s)) i"
  by (auto simp: registerMsgId_def spent_def split: if_splits)

lemma register_keeps_spent:
  assumes "ids_ok s" "spent s j"
  shows "spent (snd (registerMsgId i a s)) j"
proof (cases "fst (registerMsgId i a s) = Success")
  case True
  let ?m = "idsNeedAck s"
  have new: "idsNeedAck (snd (registerMsgId i a s)) = flat_emplace i a ?m"
    using True by (auto simp: registerMsgId_def split: if_splits)
  have len: "length ?m \<le> length (flat_emplace i a ?m)"
    using assms(1) by (simp add: ids_ok_def length_flat_emplace)
  show ?thesis
  proof (cases "j \<in> fst ` set ?m")
    case True
    then show ?thesis by (simp add: spent_def new)
  next
    case False
    with assms(2) have full: "kIdsBufferSize \<le> length ?m" "\<forall>k \<in> fst ` set ?m. j < k"
      by (auto simp: spent_def)
    have "?m \<noteq> []" using full(1) by (auto simp: kIdsBufferSize_def)
    then have "ids_min s < i" "ids_min s \<in> fst ` set ?m"
      using full(1) \<open>fst (registerMsgId i a s) = Success\<close> ids_min_mem [of s]
      by (auto simp: registerMsgId_def kIdsBufferSize_def split: if_splits)
    then have "j < i" using full(2) by (blast intro: less_trans)
    with full len show ?thesis by (auto simp: spent_def new)
  qed
next
  case False
  then have "snd (registerMsgId i a s) = s"
    by (auto simp: registerMsgId_def)
  with assms(2) show ?thesis by simp
qed

lemma shrink_keeps_spent:
  assumes "ids_ok s" "spent s j"
  shows "spent (shrink s) j"
proof (cases "length (idsNeedAck s) \<le> kIdsBufferSize")
  case True
  then show ?thesis using assms(2) by (simp add: spent_def shrink_eq)
next
  case False
  let ?n = "length (idsNeedAck s) - kIdsBufferSize"
  let ?ks = "map fst (idsNeedAck s)"
  have srt: "sorted_wrt (<) (take ?n ?ks @ drop ?n ?ks)"
    using assms(1) by (simp add: ids_ok_def)
  have drp: "fst ` set (idsNeedAck (shrink s)) = set (drop ?n ?ks)"
    by (simp add: shrink_eq drop_map)
  have full: "kIdsBufferSize \<le> length (idsNeedAck (shrink s))"
    using False by (simp add: shrink_eq)
  have "set ?ks = set (take ?n ?ks) \<union> set (drop ?n ?ks)"
    by (metis append_take_drop_id set_append)
  then consider "j \<in> set (drop ?n ?ks)" | "j \<in> set (take ?n ?ks)" | "\<forall>k \<in> set ?ks. j < k"
    using assms(2) unfolding spent_def set_map [symmetric] by blast
  then show ?thesis
  proof cases
    case 2
    then have "\<forall>k \<in> set (drop ?n ?ks). j < k"
      using srt unfolding sorted_wrt_append by blast
    then show ?thesis using full by (simp add: spent_def drp)
  next
    case 3
    then have "\<forall>k \<in> set (drop ?n ?ks). j < k"
      using set_drop_subset [of ?n ?ks] by blast
    then show ?thesis using full by (simp add: spent_def drp)
  qed (simp add: spent_def drp)
qed

lemma ids_run_fresh:
  assumes "ids_ok s" "spent s j"
  shows "j \<notin> set (fst (ids_run calls s))"
  using assms
proof (induction calls arbitrary: s)
  case (Cons c calls)
  show ?case
  proof (cases c)
    case (Register i a)
    let ?s' = "snd (registerMsgId i a s)"
    have "j \<notin> set (fst (ids_run calls ?s'))"
      using Cons register_ok register_keeps_spent by blast
    moreover have "fst (registerMsgId i a s) = Success \<Longrightarrow> i \<noteq> j"
      using register_success_fresh Cons.prems by blast
    ultimately show ?thesis
      by (auto simp: Register split: prod.splits)
  next
    case Shrink
    then show ?thesis using Cons shrink_ok shrink_keeps_spent by auto
  qed
qed simp

lemma ids_run_distinct: "ids_ok s \<Longrightarrow> distinct (fst (ids_run calls s))"
proof (induction calls arbitrary: s)
  case (Cons c calls)
  show ?case
  proof (cases c)
    case (Register i a)
    let ?s' = "snd (registerMsgId i a s)"
    have ok: "ids_ok ?s'" using Cons.prems by (rule register_ok)
    have "fst (registerMsgId i a s) = Success \<Longrightarrow> i \<notin> set (fst (ids_run calls ?s'))"
      using ids_run_fresh [OF ok] register_success_spent by blast
    with Cons.IH [OF ok] show ?thesis
      by (auto simp: Register split: prod.splits)
  next
    case Shrink
    then show ?thesis using Cons shrink_ok by auto
  qed
qed simp

lemma kIdsBufferSize_pos: "0 < kIdsBufferSize"
  by (simp add: kIdsBufferSize_def)

section \<open>Properties\<close>

text \<open>
  C1. Replay protection: however registrations and shrinks follow each other from a cleared
  manager, no message id is handled twice, even after the window has dropped it.
\<close>

theorem no_message_handled_twice: "distinct (fst (ids_run calls (clear s)))"
  by (rule ids_run_distinct) (simp add: ids_ok_def clear_def)

text \<open>
  C7. After \<open>shrink\<close> the window holds exactly the \<open>kIdsBufferSize\<close> largest ids (all of them when
  there are fewer), with their acknowledgement flags unchanged.
\<close>

theorem shrink_keeps_newest:
  assumes "ids_ok s"
  shows "length (idsNeedAck (shrink s)) = min kIdsBufferSize (length (idsNeedAck s))
    \<and> (\<forall>i j. lookup i (shrink s) = NotFound \<longrightarrow> lookup i s \<noteq> NotFound \<longrightarrow>
          lookup j (shrink s) \<noteq> NotFound \<longrightarrow> i < j)
    \<and> (\<forall>i. lookup i (shrink s) \<noteq> NotFound \<longrightarrow> lookup i (shrink s) = lookup i s)"
proof -
  let ?n = "length (idsNeedAck s) - kIdsBufferSize"
  let ?a = "take ?n (idsNeedAck s)" and ?b = "drop ?n (idsNeedAck s)"
  have srt: "sorted_wrt (<) (map fst ?a @ map fst ?b)"
    using assms by (simp add: ids_ok_def flip: map_append)
  have keys: "fst ` set (idsNeedAck s) = fst ` set ?a \<union> fst ` set ?b"
    by (metis append_take_drop_id image_Un set_append)
  have "map_of (idsNeedAck s) i = map_of ?b i" if "i \<in> fst ` set ?b" for i
  proof -
    have "i \<notin> fst ` set ?a" using that srt by (force simp: sorted_wrt_append)
    then have "map_of ?a i = None" by (simp add: map_of_eq_None_iff)
    then have "map_of (?a @ ?b) i = map_of ?b i"
      unfolding map_of_append by (simp add: map_add_def)
    then show ?thesis by simp
  qed
  then have "lookup i (shrink s) \<noteq> NotFound \<longrightarrow> lookup i (shrink s) = lookup i s" for i
    by (auto simp: lookup_NotFound) (simp add: lookup_def shrink_eq rev_image_eqI)
  moreover have "lookup i (shrink s) = NotFound \<longrightarrow> lookup i s \<noteq> NotFound \<longrightarrow>
      lookup j (shrink s) \<noteq> NotFound \<longrightarrow> i < j" for i j
    using srt by (auto simp: lookup_NotFound keys shrink_eq sorted_wrt_append)
  ultimately show ?thesis by (auto simp: shrink_eq)
qed

text \<open>Witness for C2: a window with one id too many.\<close>

definition overfull_ids :: ReceivedIdsManager where
  "overfull_ids = \<lparr>idsNeedAck = map (\<lambda>i. (of_nat i, True)) [0..<401]\<rparr>"

lemma overfull_ids_ok: "ids_ok overfull_ids"
proof -
  have "(of_nat i :: uint64) < of_nat j" if "i < j" "j < 401" for i j
    using that by (simp add: word_less_nat_alt unat_of_nat)
  then have "sorted_wrt (\<lambda>i j. (of_nat i :: uint64) < of_nat j) [0..<401]"
    by (intro sorted_wrt_mono_rel [OF _ sorted_wrt_upt]) auto
  then show ?thesis by (simp add: ids_ok_def overfull_ids_def sorted_wrt_map comp_def)
qed

theorem shrink_keeps_newest_witness:
  "ids_ok overfull_ids \<and> length (idsNeedAck (shrink overfull_ids)) = 400"
  using shrink_keeps_newest [OF overfull_ids_ok] overfull_ids_ok
  by (simp add: kIdsBufferSize_def overfull_ids_def)

end
