(* ===== verification/PtsWaiter.thy ===== *)
theory PtsWaiter
  imports Prelude "HOL-Library.Multiset"
begin

text \<open>
  \<open>PtsWaiter\<close> (data/data_pts_waiter.h and .cpp): the sequencing of server updates. Every update
  carries the box state \<open>pts\<close> it leads to and the number \<open>count\<close> of events it stands for; an
  update that arrives too early is queued until the gap is filled. The payloads
  (\<open>MTPUpdate\<close>, \<open>MTPUpdates\<close>) and the channel are opaque; the calls the waiter makes on its owner
  (\<open>Api::Updates\<close>) are recorded, in order, in the field \<open>owner\<close>.
\<close>

section \<open>Definitions\<close>

datatype PtsSkippedQueue = SkippedUpdate | SkippedUpdates

text \<open>
  A payload handed to the owner is \<open>None\<close> when \<open>flat_map::operator[]\<close> had to make up a default
  value because the key was missing.
\<close>

datatype ('c, 'u, 'us) owner_call =
    StartTimerFor "'c option" int
  | ApplyUpdateNoPtsCheck "'u option"
  | ApplyUpdatesNoPtsCheck "'us option"

record ('c, 'u, 'us) pts_waiter =
  queue :: "(uint64, PtsSkippedQueue) flat_map"
  updateQueue :: "(uint64, 'u) flat_map"
  updatesQueue :: "(uint64, 'us) flat_map"
  good :: int
  last_pts :: int
  count :: int
  applySkippedLevel :: int
  requesting :: bool
  waitingForSkipped :: bool
  waitingForShortPoll :: bool
  skippedKey :: uint32
  owner :: "('c, 'u, 'us) owner_call list"

definition kWaitForSkippedTimeout :: int where
  "kWaitForSkippedTimeout = 1000"

definition new_PtsWaiter :: "('c, 'u, 'us) pts_waiter" where
  "new_PtsWaiter = \<lparr>queue = [], updateQueue = [], updatesQueue = [], good = 0, last_pts = 0, count = 0,
     applySkippedLevel = 0, requesting = False, waitingForSkipped = False,
     waitingForShortPoll = False, skippedKey = 0, owner = []\<rparr>"

definition call_owner :: "('c, 'u, 'us) owner_call \<Rightarrow> ('c, 'u, 'us) pts_waiter \<Rightarrow> ('c, 'u, 'us) pts_waiter" where
  "call_owner c s = s\<lparr>owner := owner s @ [c]\<rparr>"

definition clearSkippedUpdates :: "('c, 'u, 'us) pts_waiter \<Rightarrow> ('c, 'u, 'us) pts_waiter" where
  "clearSkippedUpdates s =
     s\<lparr>queue := [], updateQueue := [], updatesQueue := [], applySkippedLevel := 0\<rparr>"

definition init :: "int \<Rightarrow> ('c, 'u, 'us) pts_waiter \<Rightarrow> ('c, 'u, 'us) pts_waiter" where
  "init pts s = clearSkippedUpdates (s\<lparr>good := pts, last_pts := pts, count := pts\<rparr>)"

definition inited :: "('c, 'u, 'us) pts_waiter \<Rightarrow> bool" where
  "inited s \<longleftrightarrow> good s > 0"

definition setRequesting :: "bool \<Rightarrow> ('c, 'u, 'us) pts_waiter \<Rightarrow> ('c, 'u, 'us) pts_waiter" where
  "setRequesting isRequesting s =
     (let s = s\<lparr>requesting := isRequesting\<rparr>
      in if requesting s then clearSkippedUpdates s else s)"

text \<open>\<open>uint64(uint32(pts)) << 32 | (++_skippedKey)\<close> is the key the entry gets in the queue.\<close>

definition make_key :: "int \<Rightarrow> uint32 \<Rightarrow> uint64" where
  "make_key pts sk = push_bit 32 (ucast (word_of_int pts :: uint32)) OR ucast sk"

definition ptsKey :: "PtsSkippedQueue \<Rightarrow> int \<Rightarrow> ('c, 'u, 'us) pts_waiter \<Rightarrow> uint64 \<times> ('c, 'u, 'us) pts_waiter" where
  "ptsKey q pts s =
     (let sk = skippedKey s + 1; key = make_key pts sk
      in (key, s\<lparr>skippedKey := sk, queue := flat_emplace key q (queue s)\<rparr>))"

definition checkForWaiting :: "'c option \<Rightarrow> ('c, 'u, 'us) pts_waiter \<Rightarrow> ('c, 'u, 'us) pts_waiter" where
  "checkForWaiting channel s =
     (if \<not> waitingForSkipped s \<and> \<not> waitingForShortPoll s
      then call_owner (StartTimerFor channel (-1)) s else s)"

definition setWaitingForSkipped :: "'c option \<Rightarrow> int \<Rightarrow> ('c, 'u, 'us) pts_waiter \<Rightarrow> ('c, 'u, 'us) pts_waiter" where
  "setWaitingForSkipped channel ms s =
     (if ms \<ge> 0 then (call_owner (StartTimerFor channel ms) s)\<lparr>waitingForSkipped := True\<rparr>
      else checkForWaiting channel (s\<lparr>waitingForSkipped := False\<rparr>))"

definition setWaitingForShortPoll :: "'c option \<Rightarrow> int \<Rightarrow> ('c, 'u, 'us) pts_waiter \<Rightarrow> ('c, 'u, 'us) pts_waiter" where
  "setWaitingForShortPoll channel ms s =
     (if ms \<ge> 0 then (call_owner (StartTimerFor channel ms) s)\<lparr>waitingForShortPoll := True\<rparr>
      else checkForWaiting channel (s\<lparr>waitingForShortPoll := False\<rparr>))"

text \<open>The body of the loop of \<open>applySkippedUpdates\<close> for one entry of the queue.\<close>

definition skipped_call :: "('c, 'u, 'us) pts_waiter \<Rightarrow> uint64 \<times> PtsSkippedQueue \<Rightarrow> ('c, 'u, 'us) owner_call" where
  "skipped_call s e =
     (case snd e of
        SkippedUpdate \<Rightarrow> ApplyUpdateNoPtsCheck (map_of (updateQueue s) (fst e))
      | SkippedUpdates \<Rightarrow> ApplyUpdatesNoPtsCheck (map_of (updatesQueue s) (fst e)))"

definition applySkippedUpdates :: "'c option \<Rightarrow> ('c, 'u, 'us) pts_waiter \<Rightarrow> ('c, 'u, 'us) pts_waiter" where
  "applySkippedUpdates channel s =
     (if \<not> waitingForSkipped s then s
      else let s = setWaitingForSkipped channel (-1) s
      in if queue s = [] then s
         else clearSkippedUpdates (s\<lparr>owner := owner s @ map (skipped_call s) (queue s)\<rparr>))"

definition check :: "'c option \<Rightarrow> int \<Rightarrow> int \<Rightarrow> ('c, 'u, 'us) pts_waiter \<Rightarrow> bool \<times> ('c, 'u, 'us) pts_waiter" where
  "check channel pts cnt s =
     (if \<not> inited s then (True, init pts s)
      else let s = s\<lparr>last_pts := max (last_pts s) pts\<rparr>;
               s = s\<lparr>count := wrap_int32 (count s + cnt)\<rparr>
      in if last_pts s = count s then (True, s\<lparr>good := last_pts s\<rparr>)
         else if last_pts s < count s then (cnt = 0, setWaitingForSkipped channel 1 s)
         else (cnt = 0, setWaitingForSkipped channel kWaitForSkippedTimeout s))"

definition updated_updates ::
    "'c option \<Rightarrow> int \<Rightarrow> int \<Rightarrow> 'us \<Rightarrow> ('c, 'u, 'us) pts_waiter \<Rightarrow> bool \<times> ('c, 'u, 'us) pts_waiter" where
  "updated_updates channel pts cnt updates s =
     (if requesting s \<or> applySkippedLevel s \<noteq> 0 then (True, s)
      else if pts \<le> good s \<and> cnt > 0 then (False, s)
      else case check channel pts cnt s of
        (True, s) \<Rightarrow> (True, s)
      | (False, s) \<Rightarrow>
          (let (key, s) = ptsKey SkippedUpdates pts s
           in (False, s\<lparr>updatesQueue := flat_emplace key updates (updatesQueue s)\<rparr>)))"

definition updated_update ::
    "'c option \<Rightarrow> int \<Rightarrow> int \<Rightarrow> 'u \<Rightarrow> ('c, 'u, 'us) pts_waiter \<Rightarrow> bool \<times> ('c, 'u, 'us) pts_waiter" where
  "updated_update channel pts cnt update s =
     (if requesting s \<or> applySkippedLevel s \<noteq> 0 then (True, s)
      else if pts \<le> good s \<and> cnt > 0 then (False, s)
      else case check channel pts cnt s of
        (True, s) \<Rightarrow> (True, s)
      | (False, s) \<Rightarrow>
          (let (key, s) = ptsKey SkippedUpdate pts s
           in (False, s\<lparr>updateQueue := flat_emplace key update (updateQueue s)\<rparr>)))"

definition updated :: "'c option \<Rightarrow> int \<Rightarrow> int \<Rightarrow> ('c, 'u, 'us) pts_waiter \<Rightarrow> bool \<times> ('c, 'u, 'us) pts_waiter" where
  "updated channel pts cnt s =
     (if requesting s \<or> applySkippedLevel s \<noteq> 0 then (True, s)
      else if pts \<le> good s \<and> cnt > 0 then (False, s)
      else check channel pts cnt s)"

definition updateAndApply_updates ::
    "'c option \<Rightarrow> int \<Rightarrow> int \<Rightarrow> 'us \<Rightarrow> ('c, 'u, 'us) pts_waiter \<Rightarrow> bool \<times> ('c, 'u, 'us) pts_waiter" where
  "updateAndApply_updates channel pts cnt updates s =
     (case updated_updates channel pts cnt updates s of
        (False, s) \<Rightarrow> (False, s)
      | (True, s) \<Rightarrow>
          if \<not> waitingForSkipped s \<or> queue s = []
          then (True, call_owner (ApplyUpdatesNoPtsCheck (Some updates)) s)
          else let (key, s) = ptsKey SkippedUpdates pts s
               in (True, applySkippedUpdates channel
                    (s\<lparr>updatesQueue := flat_emplace key updates (updatesQueue s)\<rparr>)))"

definition updateAndApply_update ::
    "'c option \<Rightarrow> int \<Rightarrow> int \<Rightarrow> 'u \<Rightarrow> ('c, 'u, 'us) pts_waiter \<Rightarrow> bool \<times> ('c, 'u, 'us) pts_waiter" where
  "updateAndApply_update channel pts cnt update s =
     (case updated_update channel pts cnt update s of
        (False, s) \<Rightarrow> (False, s)
      | (True, s) \<Rightarrow>
          if \<not> waitingForSkipped s \<or> queue s = []
          then (True, call_owner (ApplyUpdateNoPtsCheck (Some update)) s)
          else let (key, s) = ptsKey SkippedUpdate pts s
               in (True, applySkippedUpdates channel
                    (s\<lparr>updateQueue := flat_emplace key update (updateQueue s)\<rparr>)))"

definition updateAndApply :: "'c option \<Rightarrow> int \<Rightarrow> int \<Rightarrow> ('c, 'u, 'us) pts_waiter \<Rightarrow> bool \<times> ('c, 'u, 'us) pts_waiter" where
  "updateAndApply channel pts cnt s =
     (case updated channel pts cnt s of
        (False, s) \<Rightarrow> (False, s)
      | (True, s) \<Rightarrow> (True, applySkippedUpdates channel s))"

text \<open>
  A stream of updates, each with its payload, given to the waiter one by one, and the calls that
  reached the owner with a payload.
\<close>

datatype ('u, 'us) pts_event = OneUpdate int int 'u | ManyUpdates int int 'us

fun ev_pts :: "('u, 'us) pts_event \<Rightarrow> int" where
  "ev_pts (OneUpdate p _ _) = p"
| "ev_pts (ManyUpdates p _ _) = p"

fun ev_count :: "('u, 'us) pts_event \<Rightarrow> int" where
  "ev_count (OneUpdate _ c _) = c"
| "ev_count (ManyUpdates _ c _) = c"

fun ev_call :: "('u, 'us) pts_event \<Rightarrow> ('c, 'u, 'us) owner_call" where
  "ev_call (OneUpdate _ _ u) = ApplyUpdateNoPtsCheck (Some u)"
| "ev_call (ManyUpdates _ _ us) = ApplyUpdatesNoPtsCheck (Some us)"

fun deliver :: "'c option \<Rightarrow> ('u, 'us) pts_event \<Rightarrow> ('c, 'u, 'us) pts_waiter \<Rightarrow> ('c, 'u, 'us) pts_waiter" where
  "deliver channel (OneUpdate p c u) s = snd (updateAndApply_update channel p c u s)"
| "deliver channel (ManyUpdates p c us) s = snd (updateAndApply_updates channel p c us s)"

fun is_apply :: "('c, 'u, 'us) owner_call \<Rightarrow> bool" where
  "is_apply (StartTimerFor _ _) = False"
| "is_apply _ = True"

definition applied :: "('c, 'u, 'us) pts_waiter \<Rightarrow> ('c, 'u, 'us) owner_call list" where
  "applied s = filter is_apply (owner s)"

text \<open>
  \<open>chain p es\<close>: the updates \<open>es\<close> in the order the server made them, from the state \<open>p\<close> on, without
  a gap. \<open>idle p s\<close>: the waiter has applied everything up to \<open>p\<close> and waits for nothing.
\<close>

fun chain :: "int \<Rightarrow> ('u, 'us) pts_event list \<Rightarrow> bool" where
  "chain p [] = True"
| "chain p (e # es) = (ev_count e > 0 \<and> ev_pts e = p + ev_count e \<and> chain (ev_pts e) es)"

fun end_pts :: "int \<Rightarrow> ('u, 'us) pts_event list \<Rightarrow> int" where
  "end_pts p [] = p"
| "end_pts p (e # es) = end_pts (ev_pts e) es"

definition idle :: "int \<Rightarrow> ('c, 'u, 'us) pts_waiter \<Rightarrow> bool" where
  "idle p s \<longleftrightarrow> good s = p \<and> last_pts s = p \<and> count s = p \<and> queue s = [] \<and> updateQueue s = []
     \<and> updatesQueue s = [] \<and> applySkippedLevel s = 0 \<and> \<not> requesting s \<and> \<not> waitingForSkipped s"

text \<open>The upper half of a key.\<close>

definition pts_word :: "int \<Rightarrow> uint64" where
  "pts_word pts = ucast (word_of_int pts :: uint32)"

text \<open>
  What the queue stands for: its entries in order, each with the upper half of its key and the
  call it leads to. \<open>queue_rel s W\<close>: the three maps are in step and hold the updates \<open>W\<close>.
\<close>

definition queued :: "('c, 'u, 'us) pts_waiter \<Rightarrow> (uint64 \<times> ('c, 'u, 'us) owner_call) list" where
  "queued s = map (\<lambda>e. (drop_bit 32 (fst e), skipped_call s e)) (queue s)"

definition queue_rel :: "('c, 'u, 'us) pts_waiter \<Rightarrow> ('u, 'us) pts_event set \<Rightarrow> bool" where
  "queue_rel s W \<longleftrightarrow> flat_map_ok (queue s) \<and> flat_map_ok (updateQueue s) \<and> flat_map_ok (updatesQueue s)
     \<and> fst ` set (updateQueue s) \<subseteq> fst ` set (queue s)
     \<and> fst ` set (updatesQueue s) \<subseteq> fst ` set (queue s)
     \<and> sorted_wrt (\<lambda>a b. fst a < fst b) (queued s)
     \<and> set (queued s) = (\<lambda>e. (pts_word (ev_pts e), ev_call e)) ` W"

text \<open>The two ways an update enters the queue.\<close>

fun enqueue :: "('u, 'us) pts_event \<Rightarrow> ('c, 'u, 'us) pts_waiter \<Rightarrow> ('c, 'u, 'us) pts_waiter" where
  "enqueue (OneUpdate p c u) s =
     (let (key, s) = ptsKey SkippedUpdate p s in s\<lparr>updateQueue := flat_emplace key u (updateQueue s)\<rparr>)"
| "enqueue (ManyUpdates p c us) s =
     (let (key, s) = ptsKey SkippedUpdates p s in s\<lparr>updatesQueue := flat_emplace key us (updatesQueue s)\<rparr>)"

text \<open>
  The state of a waiter that has applied the updates up to the state \<open>g\<close> and holds the updates \<open>W\<close>
  back, because one before them is missing.
\<close>

definition held :: "int \<Rightarrow> ('u, 'us) pts_event set \<Rightarrow> ('c, 'u, 'us) pts_waiter \<Rightarrow> bool" where
  "held g W s \<longleftrightarrow> good s = g \<and> last_pts s = Max (insert g (ev_pts ` W)) \<and> count s = g + sum ev_count W
     \<and> queue_rel s W \<and> applySkippedLevel s = 0 \<and> \<not> requesting s
     \<and> (waitingForSkipped s \<longleftrightarrow> W \<noteq> {}) \<and> (W \<noteq> {} \<longrightarrow> count s < last_pts s)"

section \<open>Lemmas\<close>

subsection \<open>Keys\<close>

lemma key_top: "drop_bit 32 (make_key pts sk) = pts_word pts"
  by (rule bit_word_eqI) (auto simp: make_key_def pts_word_def bit_simps dest: bit_imp_le_length)

lemma drop_bit_word_mono: "(a :: 'a::len word) \<le> b \<Longrightarrow> drop_bit n a \<le> drop_bit n b"
  unfolding word_le_nat_alt unat_drop_bit_eq by (simp add: drop_bit_eq_div div_le_mono)

lemma uint_pts_word: "0 \<le> p \<Longrightarrow> p < 2 ^ 31 \<Longrightarrow> uint (pts_word p) = p"
  by (simp add: pts_word_def uint_word_of_int_eq take_bit_int_eq_self unsigned_ucast_eq)

lemma pts_word_less:
  "0 \<le> a \<Longrightarrow> a < b \<Longrightarrow> b < 2 ^ 31 \<Longrightarrow> pts_word a < pts_word b"
  by (simp add: word_less_def uint_pts_word)

subsection \<open>Chains\<close>

lemma chain_append: "chain p (xs @ ys) \<longleftrightarrow> chain p xs \<and> chain (end_pts p xs) ys"
  by (induction xs arbitrary: p) auto

lemma end_pts_append: "end_pts p (xs @ ys) = end_pts (end_pts p xs) ys"
  by (induction xs arbitrary: p) auto

lemma chain_end_ge: "chain p es \<Longrightarrow> p \<le> end_pts p es"
  by (induction es arbitrary: p) force+

lemma chain_bounds: "chain p es \<Longrightarrow> e \<in> set es \<Longrightarrow> p < ev_pts e \<and> ev_pts e \<le> end_pts p es"
  by (induction es arbitrary: p) (auto dest: chain_end_ge, force+)

lemma chain_sorted: "chain p es \<Longrightarrow> sorted_wrt (\<lambda>a b. ev_pts a < ev_pts b) es"
  by (induction es arbitrary: p) (auto dest: chain_bounds)

lemma chain_distinct: "chain p es \<Longrightarrow> distinct es"
  by (induction es arbitrary: p) (auto dest: chain_bounds)

lemma chain_count_pos: "chain p es \<Longrightarrow> e \<in> set es \<Longrightarrow> 0 < ev_count e"
  by (induction es arbitrary: p) auto

lemma chain_end_sum: "chain p es \<Longrightarrow> end_pts p es = p + sum ev_count (set es)"
proof (induction es arbitrary: p)
  case (Cons e es)
  then have "e \<notin> set es" using chain_bounds [of "ev_pts e" es e] by auto
  moreover have "end_pts (ev_pts e) es = ev_pts e + sum ev_count (set es)"
    using Cons.prems unfolding chain.simps by (blast intro: Cons.IH)
  ultimately show ?case using Cons.prems by simp
qed simp

text \<open>
  The arithmetic of \<open>check\<close>: among the updates that came after the state \<open>g\<close>, the largest state
  seen is never below \<open>g\<close> plus the events seen, and the two agree exactly when there is no gap.
\<close>

lemma seen_gap:
  assumes "chain g R" "W \<subseteq> set R"
  shows "g + sum ev_count W \<le> Max (insert g (ev_pts ` W))
    \<and> (g + sum ev_count W = Max (insert g (ev_pts ` W)) \<longleftrightarrow> (\<exists>R1 R2. R = R1 @ R2 \<and> set R1 = W))"
  using assms
proof (induction R arbitrary: g W)
  case (Cons e R)
  let ?g = "ev_pts e" and ?W = "W - {e}"
  have fin: "finite W" using Cons.prems(2) finite_subset by blast
  have g: "g < ?g" "ev_count e = ?g - g" and ch: "chain ?g R"
    using Cons.prems(1) by auto
  have eR: "e \<notin> set R" using chain_bounds [OF ch, of e] by auto
  have IH: "?g + sum ev_count ?W \<le> Max (insert ?g (ev_pts ` ?W))"
    "(?g + sum ev_count ?W = Max (insert ?g (ev_pts ` ?W))) = (\<exists>R1 R2. R = R1 @ R2 \<and> set R1 = ?W)"
    using Cons.IH [OF ch, of ?W] Cons.prems(2) by auto
  show ?case
  proof (cases "W = {}")
    case True
    then show ?thesis by auto
  next
    case False
    have lower: "?g \<le> ev_pts x" if "x \<in> W" for x
      using that Cons.prems(2) chain_bounds [OF ch] by force
    have max_eq: "Max (insert g (ev_pts ` W)) = Max (insert ?g (ev_pts ` ?W))"
    proof (rule antisym)
      have ge: "a \<le> Max (insert ?g (ev_pts ` ?W))" if "a \<in> insert ?g (ev_pts ` ?W)" for a
        using fin that by (intro Max_ge) auto
      have "a \<le> Max (insert ?g (ev_pts ` ?W))" if "a \<in> insert g (ev_pts ` W)" for a
        using that ge [of ?g] ge [of a] g(1) by force
      then show "Max (insert g (ev_pts ` W)) \<le> Max (insert ?g (ev_pts ` ?W))"
        using fin by (intro Max.boundedI) auto
      obtain w where w: "w \<in> W" using False by blast
      have "?g \<le> Max (insert g (ev_pts ` W))"
        using fin w by (intro order_trans [OF lower [OF w] Max_ge]) auto
      then show "Max (insert ?g (ev_pts ` ?W)) \<le> Max (insert g (ev_pts ` W))"
        using fin by (auto intro: Max_ge)
    qed
    show ?thesis
    proof (cases "e \<in> W")
      case True
      have "g + sum ev_count W = ?g + sum ev_count ?W"
        using sum.remove [OF fin True, of ev_count] g by simp
      moreover have "(\<exists>R1 R2. R = R1 @ R2 \<and> set R1 = ?W) \<longleftrightarrow> (\<exists>R1 R2. e # R = R1 @ R2 \<and> set R1 = W)"
      proof
        assume "\<exists>R1 R2. R = R1 @ R2 \<and> set R1 = ?W"
        then obtain R1 R2 where "R = R1 @ R2" "set R1 = ?W" by blast
        with True have "e # R = (e # R1) @ R2" "set (e # R1) = W" by auto
        then show "\<exists>R1 R2. e # R = R1 @ R2 \<and> set R1 = W" by blast
      next
        assume "\<exists>R1 R2. e # R = R1 @ R2 \<and> set R1 = W"
        then obtain R1 R2 where R: "e # R = R1 @ R2" "set R1 = W" by blast
        then obtain R1' where R1: "R1 = e # R1'" using False by (cases R1) auto
        with R eR have "R = R1' @ R2" "set R1' = ?W" by auto
        then show "\<exists>R1 R2. R = R1 @ R2 \<and> set R1 = ?W" by blast
      qed
      ultimately show ?thesis using IH max_eq by simp
    next
      case notin: False
      then have "?W = W" by auto
      then have lt: "g + sum ev_count W < Max (insert g (ev_pts ` W))"
        using IH(1) max_eq g(1) by simp
      have "\<not> (\<exists>R1 R2. e # R = R1 @ R2 \<and> set R1 = W)"
        using notin False by (auto simp: Cons_eq_append_conv)
      with lt show ?thesis by auto
    qed
  qed
qed simp

subsection \<open>The queue\<close>

lemma queued_fst: "fst ` set (queued s) = drop_bit 32 ` fst ` set (queue s)"
  by (auto simp: queued_def image_image)

lemma queue_rel_empty: "queue_rel s {} \<longleftrightarrow> queue s = [] \<and> updateQueue s = [] \<and> updatesQueue s = []"
  by (auto simp: queue_rel_def queued_def)

lemma queue_rel_queue_empty: "queue_rel s W \<Longrightarrow> queue s = [] \<longleftrightarrow> W = {}"
  by (auto simp: queue_rel_def queued_def)

lemma queued_sorted:
  assumes ok: "flat_map_ok (queue s)" and inj: "inj_on (drop_bit 32) (fst ` set (queue s))"
  shows "sorted_wrt (\<lambda>a b. fst a < fst b) (queued s)"
proof -
  have "drop_bit 32 (fst a) < drop_bit 32 (fst b)"
    if "a \<in> set (queue s)" "b \<in> set (queue s)" "fst a < fst b" for a b
  proof -
    have "drop_bit 32 (fst a) \<le> drop_bit 32 (fst b)"
      using that(3) by (intro drop_bit_word_mono) simp
    moreover have "drop_bit 32 (fst a) \<noteq> drop_bit 32 (fst b)"
      using inj that by (auto dest: inj_onD)
    ultimately show ?thesis by simp
  qed
  then show ?thesis
    using ok unfolding queued_def sorted_wrt_map
    by (simp add: sorted_wrt_map) (erule sorted_wrt_mono_rel [rotated], auto)
qed

lemma queue_rel_tops:
  assumes "queue_rel s W"
  shows "inj_on (drop_bit 32) (fst ` set (queue s))" "drop_bit 32 ` fst ` set (queue s) = pts_word ` ev_pts ` W"
proof -
  have "sorted_wrt (<) (map fst (queued s))"
    using assms by (simp add: queue_rel_def sorted_wrt_map)
  then have "distinct (map (drop_bit 32) (map fst (queue s)))"
    by (simp add: strict_sorted_iff queued_def comp_def)
  then show "inj_on (drop_bit 32) (fst ` set (queue s))"
    unfolding distinct_map by simp
  show "drop_bit 32 ` fst ` set (queue s) = pts_word ` ev_pts ` W"
    using assms unfolding queued_fst [symmetric] queue_rel_def by (auto simp: image_image)
qed

lemma enqueue_fields [simp]:
  "good (enqueue e s) = good s" "last_pts (enqueue e s) = last_pts s" "count (enqueue e s) = count s"
  "applySkippedLevel (enqueue e s) = applySkippedLevel s" "requesting (enqueue e s) = requesting s"
  "waitingForSkipped (enqueue e s) = waitingForSkipped s" "owner (enqueue e s) = owner s"
  by (cases e; simp add: ptsKey_def Let_def)+

lemma enqueue_rel:
  assumes rel: "queue_rel s W" and new: "pts_word (ev_pts e) \<notin> pts_word ` ev_pts ` W"
  shows "queue_rel (enqueue e s) (insert e W)"
proof -
  define key where "key = make_key (ev_pts e) (skippedKey s + 1)"
  define q where "q = (case e of OneUpdate _ _ _ \<Rightarrow> SkippedUpdate | ManyUpdates _ _ _ \<Rightarrow> SkippedUpdates)"
  let ?s = "enqueue e s"
  have top: "drop_bit 32 key = pts_word (ev_pts e)"
    by (simp add: key_def key_top)
  have "drop_bit 32 key \<notin> drop_bit 32 ` fst ` set (queue s)"
    unfolding queue_rel_tops(2) [OF rel] top by (rule new)
  then have fresh: "key \<notin> fst ` set (queue s)" "drop_bit 32 key \<notin> drop_bit 32 ` fst ` set (queue s)"
    by blast+
  have q': "queue ?s = flat_emplace key q (queue s)"
    by (cases e) (simp_all add: ptsKey_def Let_def key_def q_def)
  have oks: "flat_map_ok (queue ?s)" "flat_map_ok (updateQueue ?s)" "flat_map_ok (updatesQueue ?s)"
    using rel by (cases e; auto simp: queue_rel_def ptsKey_def Let_def)+
  have "fst ` set (updateQueue ?s) \<subseteq> insert key (fst ` set (updateQueue s))"
    "fst ` set (updatesQueue ?s) \<subseteq> insert key (fst ` set (updatesQueue s))"
    by (cases e; simp add: ptsKey_def Let_def key_def subset_insertI)+
  moreover have "fst ` set (updateQueue s) \<subseteq> fst ` set (queue s)" "fst ` set (updatesQueue s) \<subseteq> fst ` set (queue s)"
    using rel by (simp_all add: queue_rel_def)
  ultimately have keys: "fst ` set (updateQueue ?s) \<subseteq> fst ` set (queue ?s)"
    "fst ` set (updatesQueue ?s) \<subseteq> fst ` set (queue ?s)"
    unfolding q' set_flat_emplace_keys by blast+
  have old: "skipped_call ?s x = skipped_call s x" if "x \<in> set (queue s)" for x
  proof -
    have "fst x \<noteq> key" using that fresh(1) by auto
    then show ?thesis
      using rel by (cases e) (simp_all add: skipped_call_def queue_rel_def ptsKey_def Let_def key_def
          map_of_flat_emplace split: PtsSkippedQueue.split)
  qed
  have "key \<notin> fst ` set (updateQueue s)" "key \<notin> fst ` set (updatesQueue s)"
    using rel fresh(1) by (auto simp: queue_rel_def)
  then have here: "skipped_call ?s (key, q) = ev_call e"
    using rel by (cases e) (auto simp: skipped_call_def queue_rel_def ptsKey_def Let_def key_def q_def
        map_of_flat_emplace map_of_eq_None_iff [symmetric])
  have "set (queued ?s) = insert (pts_word (ev_pts e), ev_call e) (set (queued s))"
    using old here top fresh(1) by (auto simp: queued_def q' set_flat_emplace_new)
  moreover have "sorted_wrt (\<lambda>a b. fst a < fst b) (queued ?s)"
    using queue_rel_tops(1) [OF rel] fresh by (intro queued_sorted oks) (auto simp: q')
  ultimately show ?thesis
    using rel oks keys by (simp add: queue_rel_def)
qed

subsection \<open>One update\<close>

lemma setWaiting_fields [simp]:
  "queue (setWaitingForSkipped c ms s) = queue s" "updateQueue (setWaitingForSkipped c ms s) = updateQueue s"
  "updatesQueue (setWaitingForSkipped c ms s) = updatesQueue s" "good (setWaitingForSkipped c ms s) = good s"
  "last_pts (setWaitingForSkipped c ms s) = last_pts s" "count (setWaitingForSkipped c ms s) = count s"
  "applySkippedLevel (setWaitingForSkipped c ms s) = applySkippedLevel s"
  "requesting (setWaitingForSkipped c ms s) = requesting s"
  "waitingForSkipped (setWaitingForSkipped c ms s) = (0 \<le> ms)"
  "skippedKey (setWaitingForSkipped c ms s) = skippedKey s"
  "applied (setWaitingForSkipped c ms s) = applied s"
  by (simp_all add: setWaitingForSkipped_def checkForWaiting_def call_owner_def applied_def)

lemma applySkippedUpdates_waiting:
  assumes "waitingForSkipped s" "queue s \<noteq> []" "requesting s = False"
    and "\<forall>e \<in> set (queue s). is_apply (skipped_call s e)"
  shows "applied (applySkippedUpdates c s) = applied s @ map (skipped_call s) (queue s)"
    and "last_pts s = p \<Longrightarrow> count s = p \<Longrightarrow> good s = p \<Longrightarrow> idle p (applySkippedUpdates c s)"
proof -
  let ?s = "setWaitingForSkipped c (-1) s"
  have "skipped_call ?s = skipped_call s"
    by (auto simp: fun_eq_iff skipped_call_def split: PtsSkippedQueue.split)
  moreover have "filter is_apply (map (skipped_call s) (queue s)) = map (skipped_call s) (queue s)"
    using assms(4) by (simp add: filter_id_conv)
  moreover have "applied ?s = applied s" by simp
  ultimately show "applied (applySkippedUpdates c s) = applied s @ map (skipped_call s) (queue s)"
    using assms by (simp add: applySkippedUpdates_def Let_def clearSkippedUpdates_def applied_def)
  show "last_pts s = p \<Longrightarrow> count s = p \<Longrightarrow> good s = p \<Longrightarrow> idle p (applySkippedUpdates c s)"
    using assms by (simp add: applySkippedUpdates_def Let_def clearSkippedUpdates_def idle_def)
qed

lemma skipped_call_is_apply: "is_apply (skipped_call s e)"
  by (simp add: skipped_call_def split: PtsSkippedQueue.split)

text \<open>\<open>deliver\<close> over the three outcomes of \<open>check\<close>, for either kind of update.\<close>

lemma deliver_cases:
  assumes "\<not> requesting s" "applySkippedLevel s = 0" "good s < ev_pts e" "0 < ev_count e"
    and chk: "check c (ev_pts e) (ev_count e) s = (b, s')"
  shows "deliver c e s =
    (if \<not> b then enqueue e s'
     else if \<not> waitingForSkipped s' \<or> queue s' = [] then call_owner (ev_call e) s'
     else applySkippedUpdates c (enqueue e s'))"
  using assms by (cases e; cases b)
    (auto simp: updateAndApply_update_def updateAndApply_updates_def updated_update_def updated_updates_def
      Let_def split: prod.splits)

lemma held_empty: "held g {} s \<longleftrightarrow> idle g s"
  by (auto simp: held_def idle_def queue_rel_empty)

lemma check_outcome:
  fixes L C :: int
  assumes "0 < good s" "max (last_pts s) p = L" "count s + n = C" "0 < C" "C \<le> L" "L < 2 ^ 31" "n \<noteq> 0"
  shows "check c p n s =
    (if C = L then (True, s\<lparr>last_pts := L, count := L, good := L\<rparr>)
     else (False, setWaitingForSkipped c kWaitForSkippedTimeout (s\<lparr>last_pts := L, count := C\<rparr>)))"
proof -
  have "wrap_int32 (count s + n) = C"
    using assms by (simp add: wrap_int32_id is_int32_def)
  with assms show ?thesis
    by (auto simp: check_def inited_def Let_def)
qed

lemma queue_rel_cong:
  fixes s t :: "('c, 'u, 'us) pts_waiter"
  assumes "queue t = queue s" "updateQueue t = updateQueue s" "updatesQueue t = updatesQueue s"
  shows "queue_rel t W \<longleftrightarrow> queue_rel s W"
proof -
  have "skipped_call t = skipped_call s"
    using assms by (auto simp: skipped_call_def fun_eq_iff split: PtsSkippedQueue.split)
  then show ?thesis using assms by (simp add: queue_rel_def queued_def)
qed

lemma queued_delivery:
  assumes "queue_rel s (set R)" "chain g R" "0 < g" "end_pts g R < 2 ^ 31"
  shows "map (skipped_call s) (queue s) = map ev_call R"
proof -
  let ?f = "\<lambda>e. (pts_word (ev_pts e), ev_call e)"
  have "pts_word (ev_pts a) < pts_word (ev_pts b)" if "a \<in> set R" "b \<in> set R" "ev_pts a < ev_pts b" for a b
    using that chain_bounds [OF assms(2) that(1)] chain_bounds [OF assms(2) that(2)] assms(3,4)
    by (intro pts_word_less) auto
  then have "sorted_wrt (\<lambda>a b. fst a < fst b) (map ?f R)"
    using chain_sorted [OF assms(2)] unfolding sorted_wrt_map
    by (intro sorted_wrt_mono_rel [OF _ chain_sorted [OF assms(2)]]) auto
  moreover have "sorted_wrt (\<lambda>a b. fst a < fst b) (queued s)" "set (queued s) = set (map ?f R)"
    using assms(1) by (auto simp: queue_rel_def)
  ultimately have "queued s = map ?f R" by (intro sorted_key_unique)
  then have "map snd (queued s) = map ev_call R" by simp
  then show ?thesis by (simp add: queued_def comp_def)
qed

lemma chain_pts_word_inj:
  assumes ch: "chain g R" and "0 < g" "end_pts g R < 2 ^ 31"
    and ab: "a \<in> set R" "b \<in> set R" "pts_word (ev_pts a) = pts_word (ev_pts b)"
  shows "a = b"
proof (rule ccontr)
  assume "a \<noteq> b"
  moreover obtain i j where "i < length R" "a = R ! i" "j < length R" "b = R ! j"
    using ab by (metis in_set_conv_nth)
  ultimately consider "ev_pts a < ev_pts b" | "ev_pts b < ev_pts a"
    using sorted_wrt_nth_less [OF chain_sorted [OF ch], of i j]
      sorted_wrt_nth_less [OF chain_sorted [OF ch], of j i] by (metis linorder_neqE_nat)
  then show False
    using chain_bounds [OF ch ab(1)] chain_bounds [OF ch ab(2)] assms(2,3) ab(3)
      pts_word_less [of "ev_pts a" "ev_pts b"] pts_word_less [of "ev_pts b" "ev_pts a"]
    by cases auto
qed

text \<open>A step either applies everything up to and with the new update, or holds it back.\<close>

lemma deliver_step:
  assumes ch: "chain g R" and W: "W \<subseteq> set R" and e: "e \<in> set R" "e \<notin> W"
    and s: "held g W s" and g: "0 < g" and last: "end_pts g R < 2 ^ 31"
  shows "(\<exists>R1 R2. R = R1 @ R2 \<and> set R1 = insert e W \<and> held (end_pts g R1) {} (deliver c e s)
            \<and> applied (deliver c e s) = applied s @ map ev_call R1)
    \<or> held g (insert e W) (deliver c e s) \<and> applied (deliver c e s) = applied s"
proof -
  let ?W = "insert e W"
  define L where "L = Max (insert g (ev_pts ` ?W))"
  define C where "C = g + sum ev_count ?W"
  have fin: "finite W" using W finite_subset by blast
  have W1: "?W \<subseteq> set R" using W e by blast
  have gap: "C \<le> L" "C = L \<longleftrightarrow> (\<exists>R1 R2. R = R1 @ R2 \<and> set R1 = ?W)"
    using seen_gap [OF ch W1] by (auto simp: C_def L_def)
  have pos: "0 < ev_count e" "g < ev_pts e"
    using chain_count_pos [OF ch e(1)] chain_bounds [OF ch e(1)] by auto
  have "L \<le> end_pts g R"
    unfolding L_def using fin W1 chain_bounds [OF ch] chain_end_ge [OF ch] by (intro Max.boundedI) auto
  with last have L: "L < 2 ^ 31" by simp
  have "0 \<le> sum ev_count W"
    using W chain_count_pos [OF ch] by (intro sum_nonneg) force
  then have C: "0 < C" using g pos fin e(2) by (simp add: C_def)
  have mx: "max (last_pts s) (ev_pts e) = L"
  proof -
    have "insert g (ev_pts ` ?W) = insert (ev_pts e) (insert g (ev_pts ` W))" by auto
    then have "L = max (ev_pts e) (Max (insert g (ev_pts ` W)))"
      unfolding L_def using fin by simp
    then show ?thesis using s by (simp add: held_def max.commute)
  qed
  have cnt: "count s + ev_count e = C"
    using s fin e(2) by (simp add: held_def C_def)
  have chk: "check c (ev_pts e) (ev_count e) s =
    (if C = L then (True, s\<lparr>last_pts := L, count := L, good := L\<rparr>)
     else (False, setWaitingForSkipped c kWaitForSkippedTimeout (s\<lparr>last_pts := L, count := C\<rparr>)))"
    using s g C L gap(1) mx cnt pos by (intro check_outcome) (auto simp: held_def)
  have guards: "\<not> requesting s" "applySkippedLevel s = 0" "good s < ev_pts e"
    using s pos by (auto simp: held_def)
  have rel: "queue_rel s W" using s by (simp add: held_def)
  have new: "pts_word (ev_pts e) \<notin> pts_word ` ev_pts ` W"
    using chain_pts_word_inj [OF ch g last] e W by blast
  show ?thesis
  proof (cases "C = L")
    case True
    then obtain R1 R2 where R: "R = R1 @ R2" "set R1 = ?W" using gap(2) by blast
    have ch1: "chain g R1" using ch R(1) by (simp add: chain_append)
    have endR: "end_pts g R1 = L" using chain_end_sum [OF ch1] R(2) True by (simp add: C_def)
    let ?s = "s\<lparr>last_pts := L, count := L, good := L\<rparr>"
    have d: "deliver c e s = (if \<not> waitingForSkipped ?s \<or> queue ?s = [] then call_owner (ev_call e) ?s
        else applySkippedUpdates c (enqueue e ?s))"
      using deliver_cases [OF guards pos(1) chk [unfolded if_P [OF True]]] by simp
    have "idle L (deliver c e s) \<and> applied (deliver c e s) = applied s @ map ev_call R1"
    proof (cases "W = {}")
      case True
      with R(2) have "set R1 = {e}" by simp
      then have "R1 = [e]"
        using chain_distinct [OF ch1] by (metis distinct_card card.empty card_insert_disjoint
            empty_iff finite.emptyI length_0_conv length_Suc_conv list.set_intros(1) singletonD)
      moreover have "is_apply (ev_call e)" by (cases e) simp_all
      ultimately show ?thesis
        using True s by (simp add: d held_def idle_def call_owner_def applied_def queue_rel_empty)
    next
      case False
      then have w: "waitingForSkipped ?s" "queue ?s \<noteq> []"
        using s queue_rel_queue_empty [OF rel] by (auto simp: held_def)
      have rel1: "queue_rel (enqueue e ?s) (set R1)"
        unfolding R(2) using rel new by (intro enqueue_rel) (simp_all add: queue_rel_cong [of ?s s])
      have calls: "map (skipped_call (enqueue e ?s)) (queue (enqueue e ?s)) = map ev_call R1"
        using queued_delivery [OF rel1 ch1 g] endR L by simp
      have ne: "queue (enqueue e ?s) \<noteq> []"
        using queue_rel_queue_empty [OF rel1] R(2) by auto
      have "applied (enqueue e ?s) = applied s" by (simp add: applied_def)
      then show ?thesis
        using w ne calls guards d applySkippedUpdates_waiting [of "enqueue e ?s"]
        by (simp add: skipped_call_is_apply)
    qed
    then show ?thesis using R endR by (auto simp: held_empty)
  next
    case False
    let ?s = "setWaitingForSkipped c kWaitForSkippedTimeout (s\<lparr>last_pts := L, count := C\<rparr>)"
    have d: "deliver c e s = enqueue e ?s"
      using deliver_cases [OF guards pos(1) chk [unfolded if_not_P [OF False]]] by simp
    have "queue_rel (enqueue e ?s) ?W"
      using rel new by (intro enqueue_rel) (simp_all add: queue_rel_cong [of ?s s])
    moreover have "applied (enqueue e ?s) = applied ?s" by (simp add: applied_def)
    moreover have "applied ?s = applied s" unfolding setWaiting_fields by (simp add: applied_def)
    ultimately have "held g ?W (deliver c e s) \<and> applied (deliver c e s) = applied s"
      using s gap(1) False by (auto simp: d held_def L_def C_def kWaitForSkippedTimeout_def)
    then show ?thesis by blast
  qed
qed

lemma deliver_run:
  assumes "chain g R" "W \<subseteq> set R" "distinct arr" "set arr = set R - W" "held g W s" "0 < g"
    "end_pts g R < 2 ^ 31"
  shows "idle (end_pts g R) (fold (deliver c) arr s)
    \<and> applied (fold (deliver c) arr s) = applied s @ map ev_call R"
  using assms
proof (induction arr arbitrary: g R W s)
  case Nil
  then have "set R = W" by auto
  then have "\<exists>R1 R2. R = R1 @ R2 \<and> set R1 = W" by (metis append_Nil2)
  then have "count s = last_pts s"
    using seen_gap [OF Nil.prems(1,2)] Nil.prems(5) by (simp add: held_def)
  then have "W = {}" using Nil.prems(5) by (auto simp: held_def)
  with Nil show ?case by (simp add: held_empty)
next
  case (Cons e arr)
  let ?d = "deliver c e s"
  have e: "e \<in> set R" "e \<notin> W" using Cons.prems(4) by auto
  from deliver_step [OF Cons.prems(1,2) e Cons.prems(5,6,7), of c] show ?case
  proof
    assume "\<exists>R1 R2. R = R1 @ R2 \<and> set R1 = insert e W \<and> held (end_pts g R1) {} ?d
      \<and> applied ?d = applied s @ map ev_call R1"
    then obtain R1 R2 where R: "R = R1 @ R2" "set R1 = insert e W" "held (end_pts g R1) {} ?d"
      "applied ?d = applied s @ map ev_call R1" by blast
    have ch: "chain g R1" "chain (end_pts g R1) R2" using Cons.prems(1) R(1) by (auto simp: chain_append)
    have "set arr = set R2"
      using Cons.prems(3,4) R(1,2) chain_distinct [OF Cons.prems(1)] by auto
    then have "idle (end_pts (end_pts g R1) R2) (fold (deliver c) arr ?d)
      \<and> applied (fold (deliver c) arr ?d) = applied ?d @ map ev_call R2"
      using Cons.prems(3,6,7) R(1,3) ch chain_end_ge [OF ch(1)]
      by (intro Cons.IH [of _ _ "{}"]) (auto simp: end_pts_append)
    then show ?case using R(1,4) by (simp add: end_pts_append)
  next
    assume h: "held g (insert e W) ?d \<and> applied ?d = applied s"
    have "idle (end_pts g R) (fold (deliver c) arr ?d)
      \<and> applied (fold (deliver c) arr ?d) = applied ?d @ map ev_call R"
      using Cons.prems e h by (intro Cons.IH [of _ _ "insert e W"]) auto
    then show ?case using h by simp
  qed
qed

subsection \<open>Inside a delivery\<close>

text \<open>
  While a queue is being applied the owner may call the waiter again; such a call is applied at
  once and leaves the waiter as it is.
\<close>

lemma nested_delivery:
  assumes "applySkippedLevel s \<noteq> 0" "\<not> waitingForSkipped s"
  shows "deliver c e s = call_owner (ev_call e) s"
  using assms by (cases e)
    (simp_all add: updateAndApply_update_def updateAndApply_updates_def updated_update_def updated_updates_def)

section \<open>Properties\<close>

text \<open>
  C2. Updates that make up a gapless chain from the waiter's state, arriving in any order, are all
  applied, each once, in the order the server made them, and the waiter ends idle at the last state
  with nothing queued. (States are positive signed 32 bit numbers.)
\<close>

theorem updates_applied_in_order:
  assumes "chain p es" "mset arr = mset es" "idle p s" "0 < p" "end_pts p es < 2 ^ 31"
  shows "applied (fold (deliver c) arr s) = applied s @ map ev_call es
    \<and> idle (end_pts p es) (fold (deliver c) arr s)"
proof -
  have "distinct arr" using assms(1,2) chain_distinct by (metis mset_eq_imp_distinct_iff)
  moreover have "set arr = set es - {}" using assms(2) by (metis Diff_empty mset_eq_setD)
  ultimately show ?thesis
    using deliver_run [OF assms(1) _ _ _ _ assms(4,5), of "{}" arr s c] assms(3)
    by (simp add: held_empty)
qed

text \<open>Witness for C3: three updates, the last one first.\<close>

theorem updates_applied_in_order_witness:
  "let es = [OneUpdate 11 1 ''a'', ManyUpdates 13 2 ''b'', OneUpdate 14 1 ''c''];
       s = init 10 (new_PtsWaiter :: (unit, string, string) pts_waiter)
   in chain 10 es \<and> idle 10 s
      \<and> applied (fold (deliver None) [es ! 2, es ! 0, es ! 1] s) = map ev_call es"
proof -
  let ?es = "[OneUpdate 11 1 ''a'', ManyUpdates 13 2 ''b'', OneUpdate 14 1 ''c'']"
  let ?s = "init 10 (new_PtsWaiter :: (unit, string, string) pts_waiter)"
  have "chain 10 ?es" "idle 10 ?s"
    by (simp_all add: idle_def init_def new_PtsWaiter_def clearSkippedUpdates_def)
  moreover have "applied ?s = []"
    by (simp add: init_def new_PtsWaiter_def clearSkippedUpdates_def applied_def)
  ultimately show ?thesis
    using updates_applied_in_order [of 10 ?es "[?es ! 2, ?es ! 0, ?es ! 1]" ?s None]
    by (simp add: Let_def)
qed



end
