(* ===== verification/SliceCore.thy ===== *)
theory SliceCore
  imports Prelude "HOL-Library.Monad_Syntax"
begin

text \<open>
  What \<open>Storage::SparseIdsList\<close> and \<open>Data::MessagesList\<close> have in common: a list of slices, each the
  known part of a long ordered history, namely an interval without gaps in knowledge
  (\<open>noSkipRange\<close>) and the ids inside it. A failed contract (\<open>Expects\<close>) is the result \<open>None\<close>. The
  interface \<open>history_store\<close> states what such a store promises, and what follows from it for a
  whole sequence of calls; both classes interpret it.
\<close>

section \<open>Definitions\<close>

record 'a slice =
  slice_messages :: "'a list"
  range_from :: 'a
  range_till :: 'a

text \<open>\<open>Slice::merge\<close>, uniting a slice with its followers, and adding a range to the slices.\<close>

definition slice_merge :: "'a::linorder slice \<Rightarrow> 'a list \<Rightarrow> 'a \<Rightarrow> 'a \<Rightarrow> 'a slice option" where
  "slice_merge s extra from till =
     (if from \<le> range_till s \<and> range_from s \<le> till
      then Some (s\<lparr>slice_messages := flat_merge (slice_messages s) extra,
                  range_from := min (range_from s) from, range_till := max (range_till s) till\<rparr>)
      else None)"

fun merge_all :: "'a::linorder slice \<Rightarrow> 'a slice list \<Rightarrow> 'a slice option" where
  "merge_all s [] = Some s"
| "merge_all s (t # ts) =
     do { s \<leftarrow> slice_merge s (slice_messages t) (range_from t) (range_till t); merge_all s ts }"

definition unite :: "'a::linorder slice list \<Rightarrow> nat \<Rightarrow> nat \<Rightarrow> 'a list \<Rightarrow> 'a \<Rightarrow> 'a \<Rightarrow>
    ('a slice \<times> 'a slice list) option" where
  "unite slices i j ms from till =
     do { s \<leftarrow> slice_merge (slices ! i) ms from till;
          s \<leftarrow> merge_all s (take (j - Suc i) (drop (Suc i) slices));
          Some (s, take i slices @ s # drop j slices) }"

text \<open>\<open>flat_set<Slice>::emplace\<close>, where slices are ordered by the start of their range.\<close>

fun slice_emplace :: "'a::linorder slice \<Rightarrow> 'a slice list \<Rightarrow> 'a slice \<times> 'a slice list" where
  "slice_emplace s [] = (s, [s])"
| "slice_emplace s (t # ts) =
     (if range_from t < range_from s then (let (u, us) = slice_emplace s ts in (u, t # us))
      else if range_from s < range_from t then (s, s # t # ts) else (t, t # ts))"

definition add_to_slices :: "'a::linorder slice list \<Rightarrow> 'a list \<Rightarrow> 'a \<Rightarrow> 'a \<Rightarrow>
    ('a slice \<times> 'a slice list) option" where
  "add_to_slices slices ms from till =
     (let i = lower_bound range_till slices from; j = upper_bound range_from slices till
      in if i < j then unite slices i j ms from till
         else Some (slice_emplace \<lparr>slice_messages = flat_set_of ms, range_from = from, range_till = till\<rparr> slices))"

text \<open>The invariant, and the two views of a list of slices: the ids known, the ids decided.\<close>

definition slice_ok :: "'a::linorder slice \<Rightarrow> bool" where
  "slice_ok s \<longleftrightarrow> range_from s \<le> range_till s \<and> sorted_wrt (<) (slice_messages s)
     \<and> set (slice_messages s) \<subseteq> {range_from s..range_till s}"

definition slices_ok :: "'a::linorder slice list \<Rightarrow> bool" where
  "slices_ok slices \<longleftrightarrow> list_all slice_ok slices
     \<and> sorted_wrt (\<lambda>s t. range_till s < range_from t) slices"

definition slices_ids :: "'a slice list \<Rightarrow> 'a set" where
  "slices_ids slices = (\<Union>s \<in> set slices. set (slice_messages s))"

definition slices_covered :: "'a::linorder slice list \<Rightarrow> 'a set" where
  "slices_covered slices = (\<Union>s \<in> set slices. {range_from s..range_till s})"

text \<open>The slice a point falls into.\<close>

definition find_slice :: "'a::linorder slice list \<Rightarrow> 'a \<Rightarrow> 'a slice option" where
  "find_slice slices x =
     (let i = lower_bound range_till slices x
      in if i < length slices \<and> range_from (slices ! i) \<le> x then Some (slices ! i) else None)"

text \<open>\<open>_slices.modify(slice, ...)\<close> that drops one id from the slice it falls into.\<close>

definition remove_from_slices :: "'a::linorder \<Rightarrow> 'a slice list \<Rightarrow> 'a slice list" where
  "remove_from_slices m slices =
     (let i = lower_bound range_till slices m
      in if i < length slices \<and> range_from (slices ! i) \<le> m
         then slices[i := (slices ! i)\<lparr>slice_messages := flat_remove m (slice_messages (slices ! i))\<rparr>]
         else slices)"

text \<open>The slices are a faithful partial picture of the history \<open>S\<close>.\<close>

definition slices_agree :: "'a::linorder set \<Rightarrow> 'a slice list \<Rightarrow> bool" where
  "slices_agree S slices \<longleftrightarrow> slices_ok slices \<and> slices_ids slices = S \<inter> slices_covered slices"

text \<open>
  What happens to a history and to its store: a part is loaded from the server (with the total
  count or without), a new last message appears, a message is deleted.
\<close>

datatype 'a history_event = Loaded 'a 'a bool | Posted 'a | Deleted 'a

fun event_ok :: "'a::linorder \<Rightarrow> 'a \<Rightarrow> 'a set \<Rightarrow> 'a history_event \<Rightarrow> bool" where
  "event_ok lo hi S (Loaded from till counted) = (lo \<le> from \<and> from \<le> till \<and> till \<le> hi)"
| "event_ok lo hi S (Posted m) = (lo \<le> m \<and> m < hi \<and> (\<forall>x \<in> S. x < m))"
| "event_ok lo hi S (Deleted m) = (m \<in> S)"

fun history_after :: "'a set \<Rightarrow> 'a history_event \<Rightarrow> 'a set" where
  "history_after S (Loaded from till counted) = S"
| "history_after S (Posted m) = insert m S"
| "history_after S (Deleted m) = S - {m}"

fun history_ok :: "'a::linorder \<Rightarrow> 'a \<Rightarrow> 'a set \<Rightarrow> 'a history_event list \<Rightarrow> bool" where
  "history_ok lo hi S [] = True"
| "history_ok lo hi S (e # es) = (event_ok lo hi S e \<and> history_ok lo hi (history_after S e) es)"

fun store_event :: "('a list \<Rightarrow> 'a \<Rightarrow> 'a \<Rightarrow> int option \<Rightarrow> 's \<Rightarrow> 's option) \<Rightarrow> ('a \<Rightarrow> 's \<Rightarrow> 's option) \<Rightarrow>
    ('a \<Rightarrow> 's \<Rightarrow> 's) \<Rightarrow> 'a::linorder set \<Rightarrow> 'a history_event \<Rightarrow> 's \<Rightarrow> 's option" where
  "store_event add new rem S (Loaded from till counted) s =
     add (sorted_list_of_set (S \<inter> {from..till})) from till (if counted then Some (int (card S)) else None) s"
| "store_event add new rem S (Posted m) s = new m s"
| "store_event add new rem S (Deleted m) s = Some (rem m s)"

fun store_run :: "('a list \<Rightarrow> 'a \<Rightarrow> 'a \<Rightarrow> int option \<Rightarrow> 's \<Rightarrow> 's option) \<Rightarrow> ('a \<Rightarrow> 's \<Rightarrow> 's option) \<Rightarrow>
    ('a \<Rightarrow> 's \<Rightarrow> 's) \<Rightarrow> 'a::linorder set \<Rightarrow> 'a history_event list \<Rightarrow> 's \<Rightarrow> 's option" where
  "store_run add new rem S [] s = Some s"
| "store_run add new rem S (e # es) s =
     do { s \<leftarrow> store_event add new rem S e s; store_run add new rem (history_after S e) es s }"

text \<open>
  The state both classes keep (the updates they fire are recorded in order), the update they fire,
  and the query they answer.
\<close>

record 'a slice_update =
  update_messages :: "'a list option"
  update_range :: "'a \<times> 'a"
  update_count :: "int option"

record 'a ids_list =
  list_count :: "int option"
  list_slices :: "'a slice list"
  slice_updates :: "'a slice_update list"

record 'a list_query =
  aroundId :: 'a
  limitBefore :: int
  limitAfter :: int

record 'a list_result =
  result_count :: "int option"
  skippedBefore :: "int option"
  skippedAfter :: "int option"
  messageIds :: "'a list"

definition empty_result :: "'a list_result" where
  "empty_result = \<lparr>result_count = None, skippedBefore = None, skippedAfter = None, messageIds = []\<rparr>"

text \<open>
  \<open>queryFromSlice\<close>, where \<open>lo\<close> and \<open>hi\<close> are the ends of the history. \<open>position\<close> is an index into
  the messages of the slice, the vector \<open>ids\<close> the part between two positions.
\<close>

definition query_from_slice :: "'a::linorder \<Rightarrow> 'a \<Rightarrow> int option \<Rightarrow> 'a list_query \<Rightarrow> 'a slice \<Rightarrow> 'a list_result" where
  "query_from_slice lo hi cnt query slc =
     (let position = int (lower_bound (\<lambda>x. x) (slice_messages slc) (aroundId query));
          haveBefore = position;
          haveEqualOrAfter = int (length (slice_messages slc)) - position;
          before = min haveBefore (limitBefore query);
          equalOrAfter = min haveEqualOrAfter (limitAfter query + 1);
          ids = take (nat (before + equalOrAfter)) (drop (nat (position - before)) (slice_messages slc));
          found = flat_merge [] ids;
          sb = (if range_from slc = lo then Some (haveBefore - before) else None);
          sa = (if range_till slc = hi then Some (haveEqualOrAfter - equalOrAfter) else None)
      in case cnt of
           None \<Rightarrow> \<lparr>result_count = None, skippedBefore = sb, skippedAfter = sa, messageIds = found\<rparr>
         | Some n \<Rightarrow>
             (case (sb, sa) of
                (None, Some a) \<Rightarrow>
                  \<lparr>result_count = Some n, skippedBefore = Some (n - a - int (length found)),
                   skippedAfter = Some a, messageIds = found\<rparr>
              | (Some b, None) \<Rightarrow>
                  \<lparr>result_count = Some n, skippedBefore = Some b,
                   skippedAfter = Some (n - b - int (length found)), messageIds = found\<rparr>
              | _ \<Rightarrow> \<lparr>result_count = Some n, skippedBefore = sb, skippedAfter = sa, messageIds = found\<rparr>))"

text \<open>\<open>empty()\<close>: no slice holds a message.\<close>

definition no_messages :: "'a slice list \<Rightarrow> bool" where
  "no_messages slices \<longleftrightarrow> list_all (\<lambda>s. slice_messages s = []) slices"

text \<open>\<open>invalidateBottom()\<close> of a slice list: the last slice no longer reaches the end of the history.\<close>

definition cut_bottom :: "'a \<Rightarrow> 'a slice list \<Rightarrow> 'a slice list" where
  "cut_bottom hi slices =
     (if slices \<noteq> [] \<and> range_till (last slices) = hi
      then butlast slices @ [(last slices)\<lparr>range_till :=
             (if slice_messages (last slices) = [] then range_from (last slices)
              else last (slice_messages (last slices)))\<rparr>]
      else slices)"

text \<open>
  \<open>ids\<close> is a contiguous window of the history \<open>S\<close>, and the numbers of messages before and after
  it are right wherever they are given.
\<close>

definition is_window :: "'a::linorder set \<Rightarrow> 'a list \<Rightarrow> int option \<Rightarrow> int option \<Rightarrow> bool" where
  "is_window S ids sb sa \<longleftrightarrow>
     (\<exists>pre post. sorted_list_of_set S = pre @ ids @ post
       \<and> (sb = None \<or> sb = Some (int (length pre))) \<and> (sa = None \<or> sa = Some (int (length post))))"

text \<open>The count in \<open>addRange\<close>: the one given, or the old one, perhaps incremented.\<close>

definition count_after :: "int option \<Rightarrow> bool \<Rightarrow> int \<Rightarrow> int option \<Rightarrow> int option" where
  "count_after cnt incrementCount added old =
     (case cnt of
        Some n \<Rightarrow> Some n
      | None \<Rightarrow> (case old of
                   Some c \<Rightarrow> if incrementCount \<and> added > 0 then Some (c + added) else Some c
                 | None \<Rightarrow> None))"

text \<open>The size of the slice that a range is added to, before it is.\<close>

definition was_length :: "'a::linorder slice list \<Rightarrow> 'a \<Rightarrow> 'a \<Rightarrow> int" where
  "was_length slices from till =
     (let i = lower_bound range_till slices from
      in if i < upper_bound range_from slices till then int (length (slice_messages (slices ! i))) else 0)"

text \<open>The count of a store is unknown or right.\<close>

definition count_agrees :: "'a set \<Rightarrow> int option \<Rightarrow> bool" where
  "count_agrees S cnt \<longleftrightarrow> cnt = None \<or> cnt = Some (int (card S))"

text \<open>An update tells the truth about the history \<open>S\<close>.\<close>

definition update_agrees :: "'a::linorder set \<Rightarrow> 'a slice_update \<Rightarrow> bool" where
  "update_agrees S update \<longleftrightarrow> count_agrees S (update_count update)
     \<and> (case update_messages update of
          None \<Rightarrow> True
        | Some ms \<Rightarrow> fst (update_range update) \<le> snd (update_range update) \<and> sorted_wrt (<) ms
            \<and> set ms = S \<inter> {fst (update_range update)..snd (update_range update)})"

section \<open>Lemmas on slices\<close>

lemma slices_ok_append [simp]:
  "slices_ok (xs @ ys) \<longleftrightarrow> slices_ok xs \<and> slices_ok ys
     \<and> (\<forall>s \<in> set xs. \<forall>t \<in> set ys. range_till s < range_from t)"
  by (auto simp: slices_ok_def sorted_wrt_append)

lemma slices_ok_Cons [simp]:
  "slices_ok (x # xs) \<longleftrightarrow> slice_ok x \<and> slices_ok xs \<and> (\<forall>t \<in> set xs. range_till x < range_from t)"
  by (auto simp: slices_ok_def)

lemma slices_ok_Nil [simp]: "slices_ok []"
  by (simp add: slices_ok_def)

lemma slices_ids_simps [simp]:
  "slices_ids [] = {}" "slices_ids (s # ss) = set (slice_messages s) \<union> slices_ids ss"
  "slices_ids (xs @ ys) = slices_ids xs \<union> slices_ids ys"
  by (auto simp: slices_ids_def)

lemma slices_covered_simps [simp]:
  "slices_covered [] = {}" "slices_covered (s # ss) = {range_from s..range_till s} \<union> slices_covered ss"
  "slices_covered (xs @ ys) = slices_covered xs \<union> slices_covered ys"
  by (auto simp: slices_covered_def)

lemma slice_ok_mem: "slices_ok slices \<Longrightarrow> s \<in> set slices \<Longrightarrow> slice_ok s"
  by (simp add: slices_ok_def list_all_iff)

lemma slices_ids_covered: "slices_ok slices \<Longrightarrow> slices_ids slices \<subseteq> slices_covered slices"
  by (force simp: slices_ids_def slices_covered_def slices_ok_def list_all_iff slice_ok_def)

lemma slices_ok_till_sorted: "slices_ok slices \<Longrightarrow> sorted_wrt (\<lambda>s t. range_till s \<le> range_till t) slices"
  by (induction slices) (force simp: slice_ok_def dest: slice_ok_mem)+

lemma slices_ok_from_sorted: "slices_ok slices \<Longrightarrow> sorted_wrt (\<lambda>s t. range_from s \<le> range_from t) slices"
  by (induction slices) (force simp: slice_ok_def dest: slice_ok_mem)+

text \<open>The two searches cut the slices into those before, those touching and those after a range.\<close>

lemma slices_cut:
  assumes ok: "slices_ok slices" and ft: "from \<le> till"
    and i: "i = lower_bound range_till slices from" and j: "j = upper_bound range_from slices till"
  shows "i \<le> j" "j \<le> length slices"
    "\<forall>s \<in> set (take i slices). range_till s < from"
    "\<forall>s \<in> set (take (j - i) (drop i slices)). from \<le> range_till s \<and> range_from s \<le> till"
    "\<forall>s \<in> set (drop j slices). till < range_from s"
proof -
  have lo: "k < i \<Longrightarrow> range_till (slices ! k) < from" for k
    by (simp add: i lower_bound_below)
  have lo': "i \<le> k \<Longrightarrow> k < length slices \<Longrightarrow> from \<le> range_till (slices ! k)" for k
    using lower_bound_above [OF slices_ok_till_sorted [OF ok]] by (simp add: i)
  have hi: "k < j \<Longrightarrow> range_from (slices ! k) \<le> till" for k
    by (simp add: j upper_bound_below)
  have hi': "j \<le> k \<Longrightarrow> k < length slices \<Longrightarrow> till < range_from (slices ! k)" for k
    using upper_bound_above [OF slices_ok_from_sorted [OF ok]] by (simp add: j)
  have len: "i \<le> length slices" by (simp add: i)
  show jl: "j \<le> length slices" by (simp add: j)
  show "i \<le> j"
  proof (rule ccontr)
    assume "\<not> i \<le> j"
    then have "j < i" "j < length slices" using len by auto
    then have "slice_ok (slices ! j)" "till < range_from (slices ! j)" "range_till (slices ! j) < from"
      using ok lo hi' by (auto intro: slice_ok_mem)
    then show False using ft by (auto simp: slice_ok_def)
  qed
  show "\<forall>s \<in> set (take i slices). range_till s < from"
    using lo by (auto simp: in_set_conv_nth)
  show "\<forall>s \<in> set (take (j - i) (drop i slices)). from \<le> range_till s \<and> range_from s \<le> till"
    using lo' hi jl by (auto simp: in_set_conv_nth)
  show "\<forall>s \<in> set (drop j slices). till < range_from s"
    using hi' by (auto simp: in_set_conv_nth)
qed

text \<open>A slice that touches a range can be merged with it; nothing else is added.\<close>

lemma slice_merge_ok:
  assumes "slice_ok s" "from \<le> till" "set ms \<subseteq> {from..till}" "from \<le> range_till s" "range_from s \<le> till"
  obtains u where "slice_merge s ms from till = Some u" "slice_ok u"
    "set (slice_messages u) = set (slice_messages s) \<union> set ms"
    "range_from u = min (range_from s) from" "range_till u = max (range_till s) till"
    "{range_from u..range_till u} = {range_from s..range_till s} \<union> {from..till}"
proof -
  let ?u = "s\<lparr>slice_messages := flat_merge (slice_messages s) ms,
    range_from := min (range_from s) from, range_till := max (range_till s) till\<rparr>"
  have "set (slice_messages s) \<subseteq> {range_from s..range_till s}"
    using assms(1) by (simp add: slice_ok_def)
  then have "slice_ok ?u"
    using assms by (auto simp: slice_ok_def sorted_flat_merge min_le_iff_disj le_max_iff_disj)
  moreover have "{range_from ?u..range_till ?u} = {range_from s..range_till s} \<union> {from..till}"
    using assms by (auto simp: slice_ok_def min_def max_def)
  ultimately show thesis using assms(4,5) by (intro that [of ?u]) (simp_all add: slice_merge_def)
qed

lemma merge_all_ok:
  assumes "slice_ok s" "\<forall>t \<in> set ts. slice_ok t \<and> range_from t \<le> range_till s \<and> range_from s \<le> range_till t"
  obtains u where "merge_all s ts = Some u" "slice_ok u"
    "set (slice_messages u) = set (slice_messages s) \<union> slices_ids ts"
    "{range_from u..range_till u} = {range_from s..range_till s} \<union> slices_covered ts"
  using assms
proof (induction ts arbitrary: s thesis)
  case (Cons t ts)
  have t: "slice_ok t" "range_from t \<le> range_till s" "range_from s \<le> range_till t"
    using Cons.prems(3) by auto
  then have "range_from t \<le> range_till t" "set (slice_messages t) \<subseteq> {range_from t..range_till t}"
    by (auto simp: slice_ok_def)
  then obtain v where v: "slice_merge s (slice_messages t) (range_from t) (range_till t) = Some v" "slice_ok v"
    "set (slice_messages v) = set (slice_messages s) \<union> set (slice_messages t)"
    "range_from v = min (range_from s) (range_from t)" "range_till v = max (range_till s) (range_till t)"
    "{range_from v..range_till v} = {range_from s..range_till s} \<union> {range_from t..range_till t}"
    using slice_merge_ok [OF Cons.prems(2)] t by metis
  have "\<forall>r \<in> set ts. slice_ok r \<and> range_from r \<le> range_till v \<and> range_from v \<le> range_till r"
    using Cons.prems(3) by (auto simp: v(4,5) min_le_iff_disj le_max_iff_disj)
  then obtain u where "merge_all v ts = Some u" "slice_ok u"
    "set (slice_messages u) = set (slice_messages v) \<union> slices_ids ts"
    "{range_from u..range_till u} = {range_from v..range_till v} \<union> slices_covered ts"
    using Cons.IH [OF _ v(2)] by blast
  then show ?case
    using v by (intro Cons.prems(1) [of u]) (auto simp: Un_assoc)
qed auto

lemma slice_emplace_ok:
  assumes "\<forall>t \<in> set A. range_from t < range_from s" "\<forall>t \<in> set B. range_from s < range_from t"
  shows "slice_emplace s (A @ B) = (s, A @ s # B)"
  using assms
proof (induction A)
  case Nil
  then show ?case by (cases B) auto
qed auto

lemma unite_ok:
  assumes ok: "slices_ok (A @ x # M @ B)" and "from \<le> till" "set ms \<subseteq> {from..till}"
    and A: "\<forall>s \<in> set A. range_till s < from" and B: "\<forall>s \<in> set B. till < range_from s"
    and M: "\<forall>s \<in> set (x # M). from \<le> range_till s \<and> range_from s \<le> till"
  obtains u where "unite (A @ x # M @ B) (length A) (length A + Suc (length M)) ms from till = Some (u, A @ u # B)"
    "slices_ok (A @ u # B)" "set (slice_messages u) = set (slice_messages x) \<union> slices_ids M \<union> set ms"
    "{range_from u..range_till u} = {range_from x..range_till x} \<union> slices_covered M \<union> {from..till}"
proof -
  have x: "slice_ok x" "from \<le> range_till x" "range_from x \<le> till" using ok M by auto
  obtain v where v: "slice_merge x ms from till = Some v" "slice_ok v"
    "set (slice_messages v) = set (slice_messages x) \<union> set ms"
    "range_from v = min (range_from x) from" "range_till v = max (range_till x) till"
    "{range_from v..range_till v} = {range_from x..range_till x} \<union> {from..till}"
    using slice_merge_ok [OF x(1) assms(2,3) x(2,3)] by metis
  have "\<forall>t \<in> set M. slice_ok t \<and> range_from t \<le> range_till v \<and> range_from v \<le> range_till t"
    using ok M by (auto simp: v(4,5) min_le_iff_disj le_max_iff_disj dest: slice_ok_mem)
  then obtain u where u: "merge_all v M = Some u" "slice_ok u"
    "set (slice_messages u) = set (slice_messages v) \<union> slices_ids M"
    "{range_from u..range_till u} = {range_from v..range_till v} \<union> slices_covered M"
    using merge_all_ok [OF v(2)] by metis
  have ivl: "{range_from u..range_till u} = {range_from x..range_till x} \<union> slices_covered M \<union> {from..till}"
    using u(4) v(6) by auto
  have ends: "range_from u \<in> {range_from x..range_till x} \<union> slices_covered M \<union> {from..till}"
    "range_till u \<in> {range_from x..range_till x} \<union> slices_covered M \<union> {from..till}"
    using u(2) unfolding ivl [symmetric] by (auto simp: slice_ok_def)
  have "range_till s < y" if "s \<in> set A" "y \<in> {range_from x..range_till x} \<union> slices_covered M \<union> {from..till}" for s y
    using that A ok by (auto simp: slices_covered_def ball_Un) (metis less_le_trans)+
  then have "\<forall>s \<in> set A. range_till s < range_from u" using ends(1) by blast
  moreover have "y < range_from s" if "s \<in> set B" "y \<in> {range_from x..range_till x} \<union> slices_covered M \<union> {from..till}" for s y
    using that B ok by (auto simp: slices_covered_def ball_Un) (metis le_less_trans)+
  then have "\<forall>s \<in> set B. range_till u < range_from s" using ends(2) by blast
  ultimately have "slices_ok (A @ u # B)" using ok u(2) by auto
  moreover have "unite (A @ x # M @ B) (length A) (length A + Suc (length M)) ms from till = Some (u, A @ u # B)"
    by (simp add: unite_def nth_append v(1) u(1))
  ultimately show thesis using u(3) v(3) ivl by (intro that [of u]) auto
qed

text \<open>Adding a range: the invariant, the ids and the decided points afterwards.\<close>

lemma add_to_slices_ok:
  assumes ok: "slices_ok slices" and ft: "from \<le> till" and ms: "set ms \<subseteq> {from..till}"
  obtains u slices' where "add_to_slices slices ms from till = Some (u, slices')" "slices_ok slices'"
    "slices_ids slices' = slices_ids slices \<union> set ms"
    "slices_covered slices' = slices_covered slices \<union> {from..till}"
    "u \<in> set slices'" "{from..till} \<subseteq> {range_from u..range_till u}"
proof -
  define i where "i = lower_bound range_till slices from"
  define j where "j = upper_bound range_from slices till"
  let ?A = "take i slices" and ?M = "take (j - i) (drop i slices)" and ?B = "drop j slices"
  note cut = slices_cut [OF ok ft i_def j_def]
  have split: "slices = ?A @ ?M @ ?B"
    using cut(1) by (metis append_take_drop_id drop_drop le_add_diff_inverse2)
  show thesis
  proof (cases "i < j")
    case True
    then obtain x M where M: "?M = x # M"
      using cut(2) by (cases ?M) auto
    have sp: "slices = ?A @ x # M @ ?B" using split M by simp
    have "length ?M = j - i" using cut(1,2) by simp
    then have "Suc (length M) = j - i" unfolding M by simp
    then have len: "length ?A = i" "length ?A + Suc (length M) = j"
      using cut(1,2) True by auto
    have "slices_ok (?A @ x # M @ ?B)" using ok sp by simp
    then obtain u where u: "unite slices i j ms from till = Some (u, ?A @ u # ?B)" "slices_ok (?A @ u # ?B)"
      "set (slice_messages u) = set (slice_messages x) \<union> slices_ids M \<union> set ms"
      "{range_from u..range_till u} = {range_from x..range_till x} \<union> slices_covered M \<union> {from..till}"
      using unite_ok [of ?A x M ?B "from" till ms] ft ms cut(3,4,5) M sp len by metis
    have add: "add_to_slices slices ms from till = Some (u, ?A @ u # ?B)"
      using True u(1) by (simp add: add_to_slices_def flip: i_def j_def)
    show thesis
    proof (rule that [OF add u(2)])
      show "slices_ids (?A @ u # ?B) = slices_ids slices \<union> set ms"
        unfolding arg_cong [OF sp, of slices_ids] using u(3) by auto
      show "slices_covered (?A @ u # ?B) = slices_covered slices \<union> {from..till}"
        unfolding arg_cong [OF sp, of slices_covered] using u(4) by auto
    qed (use u(4) in auto)
  next
    case False
    let ?u = "\<lparr>slice_messages = flat_set_of ms, range_from = from, range_till = till\<rparr>"
    have sp: "slices = ?A @ ?B" using False cut(1) by simp
    have oks: "slices_ok (?A @ ?B)" using ok sp by simp
    have "range_from s < from" if "s \<in> set ?A" for s
      using that oks cut(3) by (force simp: slice_ok_def dest: slice_ok_mem)
    moreover have "\<forall>t \<in> set ?B. range_from ?u < range_from t"
      using cut(5) ft by (auto intro: le_less_trans)
    ultimately have "slice_emplace ?u slices = (?u, ?A @ ?u # ?B)"
      using slice_emplace_ok [of ?A ?u ?B] by (metis (no_types, lifting) slice.select_convs(2) sp)
    then have add: "add_to_slices slices ms from till = Some (?u, ?A @ ?u # ?B)"
      using False by (simp add: add_to_slices_def flip: i_def j_def)
    show thesis
    proof (rule that [OF add])
      show "slices_ok (?A @ ?u # ?B)" using oks cut(3,5) ft ms by (auto simp: slice_ok_def)
      show "slices_ids (?A @ ?u # ?B) = slices_ids slices \<union> set ms"
        unfolding arg_cong [OF sp, of slices_ids] by auto
      show "slices_covered (?A @ ?u # ?B) = slices_covered slices \<union> {from..till}"
        unfolding arg_cong [OF sp, of slices_covered] by auto
    qed auto
  qed
qed

section \<open>Agreement with a history\<close>

lemma slices_agree_slice:
  assumes "slices_agree S slices" "s \<in> set slices"
  shows "set (slice_messages s) = S \<inter> {range_from s..range_till s}"
proof -
  have ok: "slices_ok slices" using assms(1) by (simp add: slices_agree_def)
  obtain A B where sp: "slices = A @ s # B" using assms(2) by (metis split_list)
  have "slices_ids A \<subseteq> slices_covered A" "slices_ids B \<subseteq> slices_covered B"
    "set (slice_messages s) \<subseteq> {range_from s..range_till s}"
    using ok slices_ids_covered by (auto simp: sp slice_ok_def)
  moreover have "slices_covered A \<inter> {range_from s..range_till s} = {}"
    "slices_covered B \<inter> {range_from s..range_till s} = {}"
    using ok by (fastforce simp: sp slices_covered_def)+
  moreover have "slices_ids A \<union> set (slice_messages s) \<union> slices_ids B
    = S \<inter> (slices_covered A \<union> {range_from s..range_till s} \<union> slices_covered B)"
    using assms(1) by (auto simp: slices_agree_def sp)
  ultimately show ?thesis by blast
qed

lemma slices_agree_add:
  assumes agree: "slices_agree S slices" and ft: "from \<le> till"
    and ms: "set ms = S' \<inter> {from..till}" and S': "S \<subseteq> S'" "S' - {from..till} = S - {from..till}"
  obtains u slices' where "add_to_slices slices ms from till = Some (u, slices')" "slices_agree S' slices'"
    "slices_covered slices' = slices_covered slices \<union> {from..till}" "u \<in> set slices'"
    "{from..till} \<subseteq> {range_from u..range_till u}"
proof -
  have ok: "slices_ok slices" and ids: "slices_ids slices = S \<inter> slices_covered slices"
    using agree by (auto simp: slices_agree_def)
  obtain u slices' where a: "add_to_slices slices ms from till = Some (u, slices')" "slices_ok slices'"
    "slices_ids slices' = slices_ids slices \<union> set ms"
    "slices_covered slices' = slices_covered slices \<union> {from..till}"
    "u \<in> set slices'" "{from..till} \<subseteq> {range_from u..range_till u}"
    using add_to_slices_ok [OF ok ft] ms by (metis inf_le2)
  have "slices_ids slices' = S' \<inter> slices_covered slices'"
    using S' unfolding a(3,4) ids ms by blast
  then show thesis using a by (intro that [of u slices']) (auto simp: slices_agree_def)
qed

lemma find_slice_Some:
  assumes "find_slice slices x = Some s"
  shows "s \<in> set slices" "x \<in> {range_from s..range_till s}"
  using assms lower_bound_at [of range_till slices x] by (auto simp: find_slice_def Let_def split: if_splits)

lemma find_slice_covered:
  assumes ok: "slices_ok slices"
  shows "x \<in> slices_covered slices \<longleftrightarrow> (\<exists>s. find_slice slices x = Some s)"
proof
  assume "x \<in> slices_covered slices"
  then obtain k where k: "k < length slices" "range_from (slices ! k) \<le> x" "x \<le> range_till (slices ! k)"
    by (auto simp: slices_covered_def in_set_conv_nth)
  let ?i = "lower_bound range_till slices x"
  have "?i \<le> k" using k lower_bound_below [of k range_till slices x] by (metis not_le)
  then have "?i < length slices" "range_from (slices ! ?i) \<le> range_from (slices ! k)"
    using k(1) slices_ok_from_sorted [OF ok]
    by (auto simp: le_less sorted_wrt_iff_nth_less)
  then show "\<exists>s. find_slice slices x = Some s" using k(2) by (auto simp: find_slice_def Let_def)
next
  assume "\<exists>s. find_slice slices x = Some s"
  then show "x \<in> slices_covered slices"
    using find_slice_Some by (fastforce simp: slices_covered_def)
qed

lemma remove_from_slices_agree:
  assumes agree: "slices_agree S slices"
  shows "slices_agree (S - {m}) (remove_from_slices m slices)"
    "slices_covered (remove_from_slices m slices) = slices_covered slices"
proof -
  have ok: "slices_ok slices" and ids: "slices_ids slices = S \<inter> slices_covered slices"
    using agree by (auto simp: slices_agree_def)
  let ?i = "lower_bound range_till slices m" and ?r = "remove_from_slices m slices"
  let ?goal = "slices_agree (S - {m}) ?r \<and> slices_covered ?r = slices_covered slices"
  have ?goal
  proof (cases "?i < length slices \<and> range_from (slices ! ?i) \<le> m")
    case True
    define A s B where "A = take ?i slices" and "s = slices ! ?i" and "B = drop (Suc ?i) slices"
    let ?s = "s\<lparr>slice_messages := flat_remove m (slice_messages s)\<rparr>"
    have sp: "slices = A @ s # B" using True by (simp add: A_def s_def B_def id_take_nth_drop)
    have "remove_from_slices m slices = slices[?i := ?s]" using True by (simp add: remove_from_slices_def s_def Let_def)
    also have "\<dots> = A @ ?s # B" using True by (simp add: A_def B_def upd_conv_take_nth_drop)
    finally have r: "?r = A @ ?s # B" .
    have m: "m \<in> {range_from s..range_till s}"
      using True lower_bound_at [of range_till slices m] by (simp add: s_def)
    have "slices_ok (A @ s # B)" using ok sp by simp
    then have "slices_ok (A @ ?s # B)" by (auto simp: slice_ok_def sorted_flat_remove)
    then have "slices_ok ?r" by (simp add: r)
    moreover have cov: "slices_covered ?r = slices_covered slices"
      using arg_cong [OF sp, of slices_covered] by (simp add: r)
    moreover have "m \<notin> slices_ids A" "m \<notin> slices_ids B"
      using ok m by (force simp: sp slices_ids_def slice_ok_def dest: slice_ok_mem)+
    then have "slices_ids ?r = slices_ids slices - {m}"
      using arg_cong [OF sp, of slices_ids] by (auto simp: r)
    ultimately show ?thesis using ids by (auto simp: slices_agree_def)
  next
    case False
    then have r: "?r = slices" by (auto simp: remove_from_slices_def Let_def)
    have "find_slice slices m = None" using False by (auto simp: find_slice_def Let_def)
    then have "m \<notin> slices_covered slices" by (simp add: find_slice_covered [OF ok])
    then show ?thesis using ok ids by (auto simp: r slices_agree_def)
  qed
  then show "slices_agree (S - {m}) ?r" "slices_covered ?r = slices_covered slices" by auto
qed

lemma slice_emplace_from: "range_from (fst (slice_emplace s ts)) = range_from s"
  by (induction ts) (auto split: prod.splits)

text \<open>The slice that results from a union starts where the first of its parts starts.\<close>

lemma merge_all_from:
  "merge_all s ts = Some u \<Longrightarrow> \<forall>t \<in> set ts. range_from s \<le> range_from t \<Longrightarrow> range_from u = range_from s"
proof (induction ts arbitrary: s)
  case (Cons t ts)
  then obtain v where v: "slice_merge s (slice_messages t) (range_from t) (range_till t) = Some v"
    "merge_all v ts = Some u" by (auto split: bind_splits)
  then have "range_from v = range_from s"
    using Cons.prems(2) by (auto simp: slice_merge_def split: if_splits)
  then show ?case using Cons.IH [OF v(2)] Cons.prems(2) by simp
qed simp

lemma unite_from:
  assumes "unite slices i j ms from till = Some (u, slices')" "slices_ok slices" "i < length slices"
  shows "range_from u = min (range_from (slices ! i)) from"
proof -
  obtain v where v: "slice_merge (slices ! i) ms from till = Some v"
    "merge_all v (take (j - Suc i) (drop (Suc i) slices)) = Some u"
    using assms(1) by (auto simp: unite_def split: bind_splits)
  have f: "range_from v = min (range_from (slices ! i)) from"
    using v(1) by (auto simp: slice_merge_def split: if_splits)
  have "range_from (slices ! i) \<le> range_from t" if "t \<in> set (drop (Suc i) slices)" for t
    using that slices_ok_from_sorted [OF assms(2)] assms(3)
    by (auto simp: in_set_conv_nth sorted_wrt_iff_nth_less)
  then have "\<forall>t \<in> set (take (j - Suc i) (drop (Suc i) slices)). range_from v \<le> range_from t"
    by (auto dest!: in_set_takeD simp: f min_le_iff_disj)
  then show ?thesis using merge_all_from [OF v(2)] f by simp
qed

lemma agree_length:
  assumes "slices_agree S slices" "s \<in> set slices" "finite S"
  shows "length (slice_messages s) = card (S \<inter> {range_from s..range_till s})"
    "length (slice_messages s) \<le> card S"
proof -
  have "sorted_wrt (<) (slice_messages s)"
    using assms by (auto simp: slices_agree_def slice_ok_def dest: slice_ok_mem)
  then show "length (slice_messages s) = card (S \<inter> {range_from s..range_till s})"
    using slices_agree_slice [OF assms(1,2)] by (simp add: strict_sorted_length)
  then show "length (slice_messages s) \<le> card S" using assms(3) by (simp add: card_mono)
qed

text \<open>A message newer than the whole history adds exactly one to the slice it lands in.\<close>

lemma add_newest:
  assumes agree: "slices_agree S slices" "finite S" and m: "\<forall>x \<in> S. x < m" "m < hi"
  shows "\<exists>u sl. add_to_slices slices [m] m hi = Some (u, sl)"
    "add_to_slices slices [m] m hi = Some (u, sl) \<Longrightarrow> int (length (slice_messages u)) - was_length slices m hi = 1"
proof -
  let ?i = "lower_bound range_till slices m" and ?j = "upper_bound range_from slices hi"
  have ok: "slices_ok slices" using agree by (simp add: slices_agree_def)
  have ms: "set [m] = insert m S \<inter> {m..hi}" using m by (auto simp: order.strict_iff_not)
  obtain u' sl' where a: "add_to_slices slices [m] m hi = Some (u', sl')" "slices_agree (insert m S) sl'"
    "u' \<in> set sl'" "{m..hi} \<subseteq> {range_from u'..range_till u'}"
    by (rule slices_agree_add [OF agree(1) _ ms]) (use m in auto)
  show "\<exists>u sl. add_to_slices slices [m] m hi = Some (u, sl)" using a(1) by blast
  assume "add_to_slices slices [m] m hi = Some (u, sl)"
  then have u: "u' = u" "sl' = sl" using a(1) by auto
  have "m \<in> {m..hi}" using m(2) by simp
  then have "range_from u \<le> m" "m \<le> range_till u" using a(4) by (auto simp: u)
  then have "insert m S \<inter> {range_from u..range_till u} = insert m (S \<inter> {range_from u..m})"
    using m(1) by auto
  then have lu: "length (slice_messages u) = Suc (card (S \<inter> {range_from u..m}))"
    using agree_length(1) [OF a(2,3)] agree(2) m(1) by (auto simp: card_insert_if u)
  show "int (length (slice_messages u)) - was_length slices m hi = 1"
  proof (cases "?i < ?j")
    case True
    then have il: "?i < length slices" by (meson less_le_trans upper_bound_le)
    let ?x = "slices ! ?i"
    have "unite slices ?i ?j [m] m hi = Some (u, sl)"
      using a(1) True by (simp add: add_to_slices_def u)
    then have "range_from u = min (range_from ?x) m" by (rule unite_from [OF _ ok il])
    moreover have "m \<le> range_till ?x" by (rule lower_bound_at [OF il])
    ultimately have "S \<inter> {range_from ?x..range_till ?x} = S \<inter> {range_from u..m}"
      using m(1) by (auto simp: min_def) (meson order_less_imp_le order_trans)+
    then have "length (slice_messages ?x) = card (S \<inter> {range_from u..m})"
      using agree_length(1) [OF agree(1) _ agree(2)] il by simp
    then show ?thesis using lu True by (simp add: was_length_def)
  next
    case False
    then have "range_from u = m"
      using a(1) slice_emplace_from [of "\<lparr>slice_messages = flat_set_of [m], range_from = m, range_till = hi\<rparr>" slices]
      by (simp add: add_to_slices_def u)
    moreover have "m \<notin> S" using m(1) by auto
    ultimately show ?thesis using False lu by (simp add: was_length_def)
  qed
qed

section \<open>Windows of a history\<close>

lemma sorted_list_split:
  fixes S :: "'a::linorder set"
  assumes "finite S" "sorted_wrt (<) xs" "set xs = S \<inter> {a..b}" "a \<le> b"
  shows "sorted_list_of_set S = sorted_list_of_set (S \<inter> {..<a}) @ xs @ sorted_list_of_set (S \<inter> {b<..})"
proof (rule strict_sorted_unique)
  have "\<forall>x \<in> S \<inter> {..<a}. \<forall>y \<in> set xs \<union> (S \<inter> {b<..}). x < y" "\<forall>x \<in> set xs. \<forall>y \<in> S \<inter> {b<..}. x < y"
    unfolding assms(3) using assms(4) by auto
  moreover have "finite (S \<inter> {..<a})" "finite (S \<inter> {b<..})" using assms(1) by auto
  ultimately show "sorted_wrt (<) (sorted_list_of_set (S \<inter> {..<a}) @ xs @ sorted_list_of_set (S \<inter> {b<..}))"
    using assms(2) by (simp add: sorted_wrt_append)
  show "set (sorted_list_of_set S) = set (sorted_list_of_set (S \<inter> {..<a}) @ xs @ sorted_list_of_set (S \<inter> {b<..}))"
    using assms(1,4) by (simp add: assms(3)) (auto simp: not_less not_le)
qed simp

lemma flat_merge_Nil: "sorted_wrt (<) xs \<Longrightarrow> flat_merge [] xs = xs"
  by (intro strict_sorted_unique) auto

lemma is_windowI:
  "sorted_list_of_set S = pre @ ids @ post \<Longrightarrow> sb = None \<or> sb = Some (int (length pre)) \<Longrightarrow>
     sa = None \<or> sa = Some (int (length post)) \<Longrightarrow> is_window S ids sb sa"
  by (auto simp: is_window_def)

lemma is_window_total:
  assumes "is_window S ids (Some b) (Some a)" "finite S"
  shows "b + int (length ids) + a = int (card S)"
proof -
  obtain pre post where "sorted_list_of_set S = pre @ ids @ post" "b = int (length pre)" "a = int (length post)"
    using assms(1) by (auto simp: is_window_def)
  then have "length (sorted_list_of_set S) = length pre + length ids + length post" by simp
  then show ?thesis using assms(2) \<open>b = _\<close> \<open>a = _\<close> by simp
qed

text \<open>What a query returns from a slice that agrees with the history.\<close>

lemma query_from_slice_window:
  assumes agree: "slices_agree S slices" "slc \<in> set slices" and S: "finite S" "S \<subseteq> {lo..hi}"
    and cnt: "count_agrees S cnt" and lim: "0 \<le> limitBefore query" "0 \<le> limitAfter query"
  shows "is_window S (messageIds (query_from_slice lo hi cnt query slc))
      (skippedBefore (query_from_slice lo hi cnt query slc))
      (skippedAfter (query_from_slice lo hi cnt query slc))"
proof -
  let ?ms = "slice_messages slc"
  define p where "p = lower_bound (\<lambda>x. x) ?ms (aroundId query)"
  define b where "b = min (int p) (limitBefore query)"
  define e where "e = min (int (length ?ms) - int p) (limitAfter query + 1)"
  define ids where "ids = take (nat (b + e)) (drop (nat (int p - b)) ?ms)"
  define L where "L = sorted_list_of_set (S \<inter> {..<range_from slc})"
  define R where "R = sorted_list_of_set (S \<inter> {range_till slc<..})"
  have ok: "slice_ok slc" using agree by (auto simp: slices_agree_def intro: slice_ok_mem)
  have ms: "sorted_wrt (<) ?ms" "range_from slc \<le> range_till slc" using ok by (auto simp: slice_ok_def)
  have "sorted_list_of_set S = L @ ?ms @ R"
    unfolding L_def R_def by (rule sorted_list_split [OF S(1) ms(1) slices_agree_slice [OF agree] ms(2)])
  have pl: "p \<le> length ?ms" by (simp add: p_def)
  have be: "0 \<le> b" "b \<le> int p" "0 \<le> e" "e \<le> int (length ?ms) - int p" using lim pl by (auto simp: b_def e_def)
  define A where "A = take (nat (int p - b)) ?ms"
  define B where "B = drop (nat (b + e)) (drop (nat (int p - b)) ?ms)"
  have split: "?ms = A @ ids @ B" by (simp add: A_def B_def ids_def flip: drop_drop)
  have all: "sorted_list_of_set S = (L @ A) @ ids @ (B @ R)"
    using \<open>sorted_list_of_set S = L @ ?ms @ R\<close> split by simp
  have lenA: "int (length A) = int p - b" using be pl by (simp add: A_def)
  have lenB: "int (length B) = int (length ?ms) - int p - e" using be pl by (simp add: B_def)
  have "sorted_wrt (<) ids" using ms(1) by (simp add: ids_def sorted_wrt_take sorted_wrt_drop)
  then have found: "flat_merge [] ids = ids" by (rule flat_merge_Nil)
  have L: "range_from slc = lo \<Longrightarrow> L = []" using S by (force simp: L_def)
  have R: "range_till slc = hi \<Longrightarrow> R = []" using S by (force simp: R_def)
  have "card S = length L + length A + length ids + length B + length R"
    using arg_cong [OF all, of length] S(1) by simp
  moreover have "messageIds (query_from_slice lo hi cnt query slc) = ids"
    by (simp add: query_from_slice_def Let_def found flip: p_def b_def e_def ids_def split: option.splits)
  ultimately show ?thesis
    using cnt lenA lenB L R
    by (auto intro!: is_windowI [OF all] simp: query_from_slice_def Let_def count_agrees_def found
        simp flip: p_def b_def e_def ids_def split: option.splits if_splits)
qed

section \<open>The interface of a history store\<close>

text \<open>
  \<open>agrees S s\<close>: the store \<open>s\<close> is a faithful partial picture of the history \<open>S\<close>, its count included.
  A provider keeps this through every call that reports the truth about the history.
\<close>

locale history_store =
  fixes agrees :: "'a::linorder set \<Rightarrow> 's \<Rightarrow> bool"
    and covered :: "'s \<Rightarrow> 'a set"
    and add :: "'a list \<Rightarrow> 'a \<Rightarrow> 'a \<Rightarrow> int option \<Rightarrow> 's \<Rightarrow> 's option"
    and new :: "'a \<Rightarrow> 's \<Rightarrow> 's option"
    and rem :: "'a \<Rightarrow> 's \<Rightarrow> 's"
    and lo hi :: 'a
  assumes add_law: "agrees S s \<Longrightarrow> lo \<le> from \<Longrightarrow> from \<le> till \<Longrightarrow> till \<le> hi \<Longrightarrow> set ms = S \<inter> {from..till} \<Longrightarrow> c = None \<or> c = Some (int (card S)) \<Longrightarrow>
      \<exists>s'. add ms from till c s = Some s' \<and> agrees S s' \<and> covered s \<subseteq> covered s'
        \<and> (from < till \<longrightarrow> {from..till} \<subseteq> covered s')"
    and new_law: "agrees S s \<Longrightarrow> \<forall>x \<in> S. x < m \<Longrightarrow> lo \<le> m \<Longrightarrow> m < hi \<Longrightarrow>
      \<exists>s'. new m s = Some s' \<and> agrees (insert m S) s' \<and> covered s \<subseteq> covered s' \<and> {m..hi} \<subseteq> covered s'"
    and rem_law: "agrees S s \<Longrightarrow> m \<in> S \<Longrightarrow> agrees (S - {m}) (rem m s) \<and> covered s \<subseteq> covered (rem m s)"
    and agrees_finite: "agrees S s \<Longrightarrow> finite S"
begin

lemma event_agrees:
  assumes "agrees S s" "event_ok lo hi S e"
  shows "\<exists>s'. store_event add new rem S e s = Some s' \<and> agrees (history_after S e) s' \<and> covered s \<subseteq> covered s'"
proof (cases e)
  case (Loaded f t counted)
  let ?c = "if counted then Some (int (card S)) else None"
  have "lo \<le> f" "f \<le> t" "t \<le> hi" using assms(2) Loaded by auto
  moreover have "set (sorted_list_of_set (S \<inter> {f..t})) = S \<inter> {f..t}"
    using agrees_finite [OF assms(1)] by simp
  moreover have "?c = None \<or> ?c = Some (int (card S))" by simp
  ultimately obtain s' where "add (sorted_list_of_set (S \<inter> {f..t})) f t ?c s = Some s'" "agrees S s'"
    "covered s \<subseteq> covered s'"
    using add_law [OF assms(1)] by blast
  then show ?thesis using Loaded by simp
next
  case (Posted m)
  then have "\<forall>x \<in> S. x < m" "lo \<le> m" "m < hi" using assms(2) by auto
  then show ?thesis using new_law [OF assms(1)] Posted by fastforce
next
  case (Deleted m)
  then show ?thesis using rem_law [OF assms(1), of m] assms(2) by simp
qed

lemma run_agrees:
  "agrees S s \<Longrightarrow> history_ok lo hi S es \<Longrightarrow>
     \<exists>s'. store_run add new rem S es s = Some s' \<and> agrees (fold (\<lambda>e H. history_after H e) es S) s'
       \<and> covered s \<subseteq> covered s'"
proof (induction es arbitrary: S s)
  case (Cons e es)
  then obtain s1 where s1: "store_event add new rem S e s = Some s1" "agrees (history_after S e) s1"
    "covered s \<subseteq> covered s1" using event_agrees by fastforce
  then obtain s2 where "store_run add new rem (history_after S e) es s1 = Some s2"
    "agrees (fold (\<lambda>e H. history_after H e) es (history_after S e)) s2" "covered s1 \<subseteq> covered s2"
    using Cons.IH [OF s1(2)] Cons.prems(2) by auto
  with s1 show ?case by auto
qed simp

end

end
