(* ===== verification/MsgIds.thy ===== *)
theory MsgIds
  imports Prelude
begin

text \<open>
  Message identifiers (data/data_msg_id.h) and message positions (data/data_messages.h) with the
  orders the sources define on them. A \<open>MsgId\<close> is a signed 64 bit number that the modelled code
  only compares and shifts by \<open>ServerMaxMsgId\<close>, far from the limits of its type.
\<close>

section \<open>Definitions\<close>

type_synonym MsgId = int

definition ServerMaxMsgId :: MsgId where
  "ServerMaxMsgId = 2 ^ 56"

definition IsServerMsgId :: "MsgId \<Rightarrow> bool" where
  "IsServerMsgId i \<longleftrightarrow> i > 0 \<and> i < ServerMaxMsgId"

datatype FullMsgId = FullMsgId (peer: uint64) (msg: MsgId)

fun FullMsgId_less :: "FullMsgId \<Rightarrow> FullMsgId \<Rightarrow> bool" where
  "FullMsgId_less a b =
     (if peer a < peer b then True
      else if peer a > peer b then False
      else msg a < msg b)"

datatype MessagePosition = MessagePosition (fullId: FullMsgId) (date: int)

text \<open>The conversion of a position to \<open>bool\<close>.\<close>

definition position_given :: "MessagePosition \<Rightarrow> bool" where
  "position_given p \<longleftrightarrow> msg (fullId p) \<noteq> 0"

fun MessagePosition_less :: "MessagePosition \<Rightarrow> MessagePosition \<Rightarrow> bool" where
  "MessagePosition_less a b =
     (if date a < date b then True
      else if date b < date a then False
      else FullMsgId_less (fullId a) (fullId b))"

definition MinMessagePosition :: MessagePosition where
  "MinMessagePosition = MessagePosition (FullMsgId 0 1) 0"

definition MaxMessagePosition :: MessagePosition where
  "MaxMessagePosition = MessagePosition (FullMsgId 0 (ServerMaxMsgId - 1)) (2 ^ 31 - 1)"

section \<open>The orders are linear\<close>

instantiation FullMsgId :: linorder
begin

definition less_FullMsgId :: "FullMsgId \<Rightarrow> FullMsgId \<Rightarrow> bool" where
  "less_FullMsgId = FullMsgId_less"

definition less_eq_FullMsgId :: "FullMsgId \<Rightarrow> FullMsgId \<Rightarrow> bool" where
  "less_eq_FullMsgId a b \<longleftrightarrow> \<not> FullMsgId_less b a"

instance
  by standard (auto simp: less_FullMsgId_def less_eq_FullMsgId_def intro: FullMsgId.expand split: if_splits)

end

instantiation MessagePosition :: linorder
begin

definition less_MessagePosition :: "MessagePosition \<Rightarrow> MessagePosition \<Rightarrow> bool" where
  "less_MessagePosition = MessagePosition_less"

definition less_eq_MessagePosition :: "MessagePosition \<Rightarrow> MessagePosition \<Rightarrow> bool" where
  "less_eq_MessagePosition a b \<longleftrightarrow> \<not> MessagePosition_less b a"

instance
  by standard (auto simp: less_MessagePosition_def less_eq_MessagePosition_def
      simp flip: less_FullMsgId_def intro: MessagePosition.expand split: if_splits)

end

lemma MinMax_distinct: "MinMessagePosition < MaxMessagePosition"
  by (simp add: less_MessagePosition_def MinMessagePosition_def MaxMessagePosition_def)

end
