(* ===== verification/SparseIdsList.thy ===== *)
theory SparseIdsList
  imports SliceCore MsgIds
begin

text \<open>
  \<open>Storage::SparseIdsList\<close> (storage/storage_sparse_ids_list.h and .cpp): the ids of one kind of
  shared media of a chat, known in slices. The history runs from \<open>0\<close> to \<open>ServerMaxMsgId\<close>. Every
  operation of the class is a function on \<open>MsgId ids_list\<close>; a failed \<open>Expects\<close> is \<open>None\<close>, and
  \<open>_sliceUpdated.fire\<close> appends to \<open>slice_updates\<close>. The counts are \<open>int\<close> values far from the
  limits of their type.
\<close>

section \<open>Definitions\<close>

type_synonym MsgRange = "MsgId \<times> MsgId"

definition new_update :: "MsgId slice_update" where
  "new_update = \<lparr>update_messages = None, update_range = (0, 0), update_count = None\<rparr>"

text \<open>The three results of adding: the update, the number of added ids, the slices.\<close>

definition uniteAndAdd :: "MsgId slice_update \<Rightarrow> nat \<Rightarrow> nat \<Rightarrow> MsgId list \<Rightarrow> MsgRange \<Rightarrow> MsgId slice list \<Rightarrow>
    (MsgId slice_update \<times> int \<times> MsgId slice list) option" where
  "uniteAndAdd update uniteFrom uniteTill messages noSkipRange slices =
     (let was = int (length (slice_messages (slices ! uniteFrom)))
      in do { (s, slices) \<leftarrow> unite slices uniteFrom uniteTill messages (fst noSkipRange) (snd noSkipRange);
              Some (update\<lparr>update_messages := Some (slice_messages s),
                          update_range := (range_from s, range_till s)\<rparr>,
                    int (length (slice_messages s)) - was, slices) })"

definition addRangeItemsAndCountNew :: "MsgId slice_update \<Rightarrow> MsgId list \<Rightarrow> MsgRange \<Rightarrow> MsgId slice list \<Rightarrow>
    (MsgId slice_update \<times> int \<times> MsgId slice list) option" where
  "addRangeItemsAndCountNew update messages noSkipRange slices =
     (if \<not> fst noSkipRange \<le> snd noSkipRange then None
      else if fst noSkipRange = snd noSkipRange \<and> messages = [] then Some (update, 0, slices)
      else
        let uniteFrom = lower_bound range_till slices (fst noSkipRange);
            uniteTill = upper_bound range_from slices (snd noSkipRange)
        in if uniteFrom < uniteTill then uniteAndAdd update uniteFrom uniteTill messages noSkipRange slices
           else let (s, slices) = slice_emplace \<lparr>slice_messages = flat_set_of messages,
                      range_from = fst noSkipRange, range_till = snd noSkipRange\<rparr> slices
                in Some (update\<lparr>update_messages := Some (slice_messages s),
                               update_range := (range_from s, range_till s)\<rparr>,
                         int (length (slice_messages s)), slices))"

text \<open>
  What a single slice means for the count: a slice that holds all messages
  spans the whole history (the comparison is one of unsigned numbers, so a negative count is a
  huge one), and a slice that spans it holds all messages.
\<close>

definition widen_single :: "int option \<Rightarrow> MsgId slice list \<Rightarrow> int option \<times> MsgId slice list" where
  "widen_single cnt slices =
     (case slices of
        [s] \<Rightarrow>
          (let s' = (case cnt of
                       Some n \<Rightarrow> if 0 \<le> n \<and> n \<le> int (length (slice_messages s))
                                then s\<lparr>range_from := 0, range_till := ServerMaxMsgId\<rparr> else s
                     | None \<Rightarrow> s)
           in (if range_from s' = 0 \<and> range_till s' = ServerMaxMsgId
               then Some (int (length (slice_messages s'))) else cnt, [s']))
      | _ \<Rightarrow> (cnt, slices))"

definition addRange :: "MsgId list \<Rightarrow> MsgRange \<Rightarrow> int option \<Rightarrow> bool \<Rightarrow> MsgId ids_list \<Rightarrow> MsgId ids_list option" where
  "addRange messages noSkipRange cnt incrementCount l =
     (if cnt \<noteq> None \<and> incrementCount then None
      else do {
        (update, added, slices) \<leftarrow> addRangeItemsAndCountNew new_update messages noSkipRange (list_slices l);
        let c = count_after cnt incrementCount added (list_count l);
        let (c, slices) = widen_single c slices;
        let c = (case (c, update_messages update) of
                   (Some n, Some ms) \<Rightarrow> Some (max n (int (length ms)))
                 | _ \<Rightarrow> c);
        Some (l\<lparr>list_count := c, list_slices := slices,
               slice_updates := slice_updates l @ [update\<lparr>update_count := c\<rparr>]\<rparr>) })"

definition addNew :: "MsgId \<Rightarrow> MsgId ids_list \<Rightarrow> MsgId ids_list option" where
  "addNew messageId l = addRange [messageId] (messageId, ServerMaxMsgId) None True l"

definition addExisting :: "MsgId \<Rightarrow> MsgRange \<Rightarrow> MsgId ids_list \<Rightarrow> MsgId ids_list option" where
  "addExisting messageId noSkipRange l = addRange [messageId] noSkipRange None False l"

definition addSlice :: "MsgId list \<Rightarrow> MsgRange \<Rightarrow> int option \<Rightarrow> MsgId ids_list \<Rightarrow> MsgId ids_list option" where
  "addSlice ids noSkipRange cnt l = addRange ids noSkipRange cnt False l"

definition removeOne :: "MsgId \<Rightarrow> MsgId ids_list \<Rightarrow> MsgId ids_list" where
  "removeOne messageId l =
     l\<lparr>list_slices := remove_from_slices messageId (list_slices l),
       list_count := map_option (\<lambda>n. n - 1) (list_count l)\<rparr>"

definition removeAll :: "MsgId ids_list \<Rightarrow> MsgId ids_list" where
  "removeAll l = l\<lparr>list_slices := snd (slice_emplace \<lparr>slice_messages = [], range_from = 0, range_till = ServerMaxMsgId\<rparr> []),
                   list_count := Some 0\<rparr>"

definition invalidateBottom :: "MsgId ids_list \<Rightarrow> MsgId ids_list" where
  "invalidateBottom l = l\<lparr>list_slices := cut_bottom ServerMaxMsgId (list_slices l), list_count := None\<rparr>"

definition queryFromSlice :: "MsgId list_query \<Rightarrow> MsgId slice \<Rightarrow> MsgId ids_list \<Rightarrow> MsgId list_result" where
  "queryFromSlice query s l = query_from_slice 0 ServerMaxMsgId (list_count l) query s"

text \<open>The values that \<open>query\<close> puts before it is done, and the one that \<open>snapshot\<close> returns.\<close>

definition query_values :: "MsgId list_query \<Rightarrow> MsgId ids_list \<Rightarrow> MsgId list_result list" where
  "query_values query l =
     (let i = (if aroundId query \<noteq> 0 then lower_bound range_till (list_slices l) (aroundId query)
               else length (list_slices l))
      in if i < length (list_slices l) \<and> range_from (list_slices l ! i) \<le> aroundId query
         then [queryFromSlice query (list_slices l ! i) l]
         else if list_count l \<noteq> None then [empty_result\<lparr>result_count := list_count l\<rparr>] else [])"

definition snapshot :: "MsgId list_query \<Rightarrow> MsgId ids_list \<Rightarrow> MsgId list_result" where
  "snapshot query l =
     (let i = (if aroundId query \<noteq> 0 then lower_bound range_till (list_slices l) (aroundId query)
               else length (list_slices l))
      in if i < length (list_slices l) \<and> range_from (list_slices l ! i) \<le> aroundId query
         then queryFromSlice query (list_slices l ! i) l
         else if list_count l \<noteq> None then empty_result\<lparr>result_count := list_count l\<rparr>
         else empty_result)"

definition list_empty :: "MsgId ids_list \<Rightarrow> bool" where
  "list_empty l = no_messages (list_slices l)"

text \<open>A fresh list, and when a list is a faithful partial picture of a history.\<close>

definition new_list :: "MsgId ids_list" where
  "new_list = \<lparr>list_count = None, list_slices = [], slice_updates = []\<rparr>"

definition list_agrees :: "MsgId set \<Rightarrow> MsgId ids_list \<Rightarrow> bool" where
  "list_agrees S l \<longleftrightarrow> finite S \<and> S \<subseteq> {0..ServerMaxMsgId} \<and> slices_agree S (list_slices l)
     \<and> slices_covered (list_slices l) \<subseteq> {0..ServerMaxMsgId} \<and> count_agrees S (list_count l)"

definition add_loaded :: "MsgId list \<Rightarrow> MsgId \<Rightarrow> MsgId \<Rightarrow> int option \<Rightarrow> MsgId ids_list \<Rightarrow> MsgId ids_list option" where
  "add_loaded ms from till cnt l = addSlice ms (from, till) cnt l"

section \<open>Adding a range\<close>

lemma addRangeItems_is_add:
  assumes "add_to_slices slices ms from till = Some (u, slices')" "from \<le> till" "from < till \<or> ms \<noteq> []"
  obtains added where "addRangeItemsAndCountNew update ms (from, till) slices
      = Some (update\<lparr>update_messages := Some (slice_messages u), update_range := (range_from u, range_till u)\<rparr>, added, slices')"
    "added = int (length (slice_messages u)) - was_length slices from till"
  using assms
  by (auto simp: add_to_slices_def addRangeItemsAndCountNew_def uniteAndAdd_def was_length_def Let_def
      split: if_splits prod.splits)

text \<open>Widening a single slice keeps the agreement, and the count stays right.\<close>

lemma widen_single_agrees:
  assumes agree: "slices_agree S slices" and S: "finite S" "S \<subseteq> {0..ServerMaxMsgId}" and cnt: "count_agrees S cnt"
    and cov: "slices_covered slices \<subseteq> {0..ServerMaxMsgId}" and w: "widen_single cnt slices = (cnt', slices')"
  shows "slices_agree S slices' \<and> count_agrees S cnt' \<and> slices_covered slices \<subseteq> slices_covered slices'
    \<and> slices_covered slices' \<subseteq> {0..ServerMaxMsgId}"
proof (cases "\<exists>s. slices = [s]")
  case False
  then have "cnt' = cnt" "slices' = slices" using w by (auto simp: widen_single_def split: list.splits)
  then show ?thesis using agree cnt cov by simp
next
  case True
  then obtain s where s: "slices = [s]" by blast
  have ok: "slice_ok s" using agree by (simp add: slices_agree_def s)
  have mem: "set (slice_messages s) = S \<inter> {range_from s..range_till s}"
    using slices_agree_slice [OF agree, of s] by (simp add: s)
  show ?thesis
  proof (cases "cnt \<noteq> None \<and> int (card S) \<le> int (length (slice_messages s))")
    case True
    then have full: "S \<inter> {range_from s..range_till s} = S"
      using agree_length [OF agree _ S(1), of s] S(1) by (intro card_subset_eq) (auto simp: s)
    have n: "cnt = Some (int (card S))" using cnt True by (auto simp: count_agrees_def)
    have len: "length (slice_messages s) = card S"
      using agree_length(1) [OF agree _ S(1), of s] full by (simp add: s)
    let ?s = "s\<lparr>range_from := 0, range_till := ServerMaxMsgId\<rparr>"
    have eq: "cnt' = Some (int (card S))" "slices' = [?s]"
      using w len by (auto simp: widen_single_def s n)
    have "set (slice_messages s) = S" using mem full by simp
    moreover have "slice_ok ?s"
      using ok S(2) calculation by (auto simp: slice_ok_def ServerMaxMsgId_def)
    ultimately show ?thesis using S(2) cov by (auto simp: eq slices_agree_def count_agrees_def s)
  next
    case False
    then have "slices' = [s]" "cnt' = (if range_from s = 0 \<and> range_till s = ServerMaxMsgId
        then Some (int (length (slice_messages s))) else cnt)"
      using w cnt by (auto simp: widen_single_def s count_agrees_def Let_def split: if_splits)
    moreover have "range_from s = 0 \<Longrightarrow> range_till s = ServerMaxMsgId \<Longrightarrow> length (slice_messages s) = card S"
      using agree_length(1) [OF agree _ S(1), of s] S(2) by (simp add: s Int_absorb2)
    ultimately show ?thesis using agree cnt cov by (auto simp: s count_agrees_def)
  qed
qed

text \<open>
  What a truthful call to \<open>addRange\<close> does: the new history \<open>S'\<close> adds at most messages of the
  range, and the count after counting is unknown or right.
\<close>

lemma addRange_agrees:
  assumes l: "list_agrees S l" and ft: "0 \<le> from" "from \<le> till" "till \<le> ServerMaxMsgId" "from < till \<or> ms \<noteq> []"
    and ms: "set ms = S' \<inter> {from..till}" and S': "finite S'" "S \<subseteq> S'" "S' - {from..till} = S - {from..till}"
    and flags: "cnt = None \<or> \<not> inc"
    and counted: "\<And>upd added slices'. addRangeItemsAndCountNew new_update ms (from, till) (list_slices l) = Some (upd, added, slices') \<Longrightarrow>
      count_agrees S' (count_after cnt inc added (list_count l))"
  shows "\<exists>l'. addRange ms (from, till) cnt inc l = Some l' \<and> list_agrees S' l'
    \<and> slices_covered (list_slices l) \<subseteq> slices_covered (list_slices l') \<and> {from..till} \<subseteq> slices_covered (list_slices l')
    \<and> (\<exists>upd. slice_updates l' = slice_updates l @ [upd] \<and> update_agrees S' upd)"
proof -
  have agree: "slices_agree S (list_slices l)" and cov: "slices_covered (list_slices l) \<subseteq> {0..ServerMaxMsgId}"
    and Sb: "S \<subseteq> {0..ServerMaxMsgId}" using l by (auto simp: list_agrees_def)
  have S'b: "S' \<subseteq> {0..ServerMaxMsgId}"
  proof -
    have "S' \<subseteq> S \<union> {from..till}" using S'(3) by blast
    moreover have "{from..till} \<subseteq> {0..ServerMaxMsgId}" using ft(1,3) by auto
    ultimately show ?thesis using Sb by blast
  qed
  obtain u slices' where a: "add_to_slices (list_slices l) ms from till = Some (u, slices')" "slices_agree S' slices'"
    "slices_covered slices' = slices_covered (list_slices l) \<union> {from..till}" "u \<in> set slices'"
    using slices_agree_add [OF agree ft(2) ms S'(2,3)] by metis
  obtain added where items: "addRangeItemsAndCountNew new_update ms (from, till) (list_slices l)
      = Some (new_update\<lparr>update_messages := Some (slice_messages u), update_range := (range_from u, range_till u)\<rparr>, added, slices')"
    using addRangeItems_is_add [OF a(1) ft(2,4)] by metis
  obtain c sl where w: "widen_single (count_after cnt inc added (list_count l)) slices' = (c, sl)"
    by (metis surj_pair)
  have cov': "slices_covered slices' \<subseteq> {0..ServerMaxMsgId}" using a(3) cov ft(1,3) by auto
  note W = widen_single_agrees [OF a(2) S'(1) S'b counted [OF items] cov' w]
  have "length (slice_messages u) \<le> card S'" by (rule agree_length(2) [OF a(2,4) S'(1)])
  then have c: "(case c of None \<Rightarrow> c | Some n \<Rightarrow> Some (max n (int (length (slice_messages u))))) = c"
    using W by (auto simp: count_agrees_def split: option.splits)
  moreover have "slice_ok u" using a(2,4) by (auto simp: slices_agree_def intro: slice_ok_mem)
  then have "update_agrees S' (new_update\<lparr>update_messages := Some (slice_messages u), update_range := (range_from u, range_till u),
      update_count := c\<rparr>)"
    using W slices_agree_slice [OF a(2,4)] by (simp add: update_agrees_def slice_ok_def)
  ultimately show ?thesis
    using flags W S'(1) S'b a(3)
    by (auto simp: addRange_def items w list_agrees_def Let_def split: option.splits)
qed

text \<open>A message newer than the whole history adds exactly one to the count.\<close>

lemma addNew_adds_one:
  assumes "slices_agree S (list_slices l)" "finite S" and m: "\<forall>x \<in> S. x < m" "m < ServerMaxMsgId"
    and items: "addRangeItemsAndCountNew new_update [m] (m, ServerMaxMsgId) (list_slices l) = Some (upd, added, slices')"
  shows "added = 1"
proof -
  obtain u sl where a: "add_to_slices (list_slices l) [m] m ServerMaxMsgId = Some (u, sl)"
    using add_newest [OF assms(1-4)] by metis
  then have "added = int (length (slice_messages u)) - was_length (list_slices l) m ServerMaxMsgId"
    using addRangeItems_is_add [OF a, of new_update] m(2) items by fastforce
  then show ?thesis using add_newest(2) [OF assms(1-4) a] by simp
qed

section \<open>The list is a history store\<close>

lemma list_agrees_new: "finite S \<Longrightarrow> S \<subseteq> {0..ServerMaxMsgId} \<Longrightarrow> list_agrees S new_list"
  by (simp add: list_agrees_def new_list_def slices_agree_def count_agrees_def)

lemma addNew_fires:
  assumes l: "list_agrees S l" and m: "\<forall>x \<in> S. x < m" "0 \<le> m" "m < ServerMaxMsgId"
  shows "\<exists>l'. addNew m l = Some l' \<and> list_agrees (insert m S) l' \<and> slices_covered (list_slices l) \<subseteq> slices_covered (list_slices l')
    \<and> {m..ServerMaxMsgId} \<subseteq> slices_covered (list_slices l')
    \<and> (\<exists>upd. slice_updates l' = slice_updates l @ [upd] \<and> update_agrees (insert m S) upd)"
  unfolding addNew_def
proof (rule addRange_agrees [OF l m(2)])
  fix upd added slices'
  assume "addRangeItemsAndCountNew new_update [m] (m, ServerMaxMsgId) (list_slices l) = Some (upd, added, slices')"
  then have "added = 1" using addNew_adds_one l m by (auto simp: list_agrees_def)
  moreover have "m \<notin> S" using m(1) by auto
  ultimately show "count_agrees (insert m S) (count_after None True added (list_count l))"
    using l by (auto simp: list_agrees_def count_agrees_def count_after_def)
qed (use l m in \<open>auto simp: list_agrees_def\<close>)

lemma addSlice_fires:
  assumes l: "list_agrees S l" and ft: "0 \<le> from" "from \<le> till" "till \<le> ServerMaxMsgId"
    and ms: "set ms = S \<inter> {from..till}" and c: "c = None \<or> c = Some (int (card S))"
  shows "\<exists>l'. add_loaded ms from till c l = Some l' \<and> list_agrees S l' \<and> slices_covered (list_slices l) \<subseteq> slices_covered (list_slices l')
    \<and> (from < till \<longrightarrow> {from..till} \<subseteq> slices_covered (list_slices l'))
    \<and> (\<exists>upd. slice_updates l' = slice_updates l @ [upd] \<and> update_agrees S upd)"
proof (cases "from < till \<or> ms \<noteq> []")
  case True
  have "count_agrees S (count_after c False added (list_count l))" for added
    using l c by (auto simp: list_agrees_def count_agrees_def count_after_def split: option.splits)
  moreover have "finite S" using l by (simp add: list_agrees_def)
  ultimately show ?thesis
    using addRange_agrees [OF l ft True ms, of c False]
    unfolding add_loaded_def addSlice_def by blast
next
  case False
  have cnt: "count_agrees S (count_after c False 0 (list_count l))"
    using l c by (auto simp: list_agrees_def count_agrees_def count_after_def split: option.splits)
  obtain c' sl where w: "widen_single (count_after c False 0 (list_count l)) (list_slices l) = (c', sl)"
    by (metis surj_pair)
  show ?thesis
    using widen_single_agrees [OF _ _ _ cnt _ w] l False ft
    by (auto simp: list_agrees_def add_loaded_def addSlice_def addRange_def addRangeItemsAndCountNew_def w
        new_update_def update_agrees_def Let_def split: option.splits)
qed

lemma removeOne_agrees:
  assumes "list_agrees S l" "m \<in> S"
  shows "list_agrees (S - {m}) (removeOne m l)
    \<and> slices_covered (list_slices l) \<subseteq> slices_covered (list_slices (removeOne m l))"
proof -
  have "card (S - {m}) = card S - 1" "0 < card S" using assms by (auto simp: list_agrees_def card_gt_0_iff)
  then have "count_agrees (S - {m}) (map_option (\<lambda>n. n - 1) (list_count l))"
    using assms by (auto simp: list_agrees_def count_agrees_def)
  then show ?thesis
    using assms remove_from_slices_agree [of S "list_slices l" m] by (auto simp: list_agrees_def removeOne_def)
qed

interpretation sparse: history_store list_agrees "\<lambda>l. slices_covered (list_slices l)" add_loaded addNew removeOne 0 ServerMaxMsgId
  by unfold_locales (drule (5) addSlice_fires, blast | drule (3) addNew_fires, blast | erule (1) removeOne_agrees | simp add: list_agrees_def)+

section \<open>Properties\<close>

text \<open>
  C6. A fresh list that is told the truth about a history, in any order of loaded parts, new
  messages and deletions, keeps a faithful picture of it: no contract fails, inside its slices it
  holds exactly the messages of the current history, its slices are ordered, disjoint and do not
  touch, and its count, when known, is the number of all messages of the history.
\<close>

theorem sparse_list_faithful:
  assumes "finite S" "S \<subseteq> {0..ServerMaxMsgId}" "history_ok 0 ServerMaxMsgId S es"
  shows "\<exists>l. store_run add_loaded addNew removeOne S es new_list = Some l
    \<and> slices_agree (fold (\<lambda>e H. history_after H e) es S) (list_slices l)
    \<and> count_agrees (fold (\<lambda>e H. history_after H e) es S) (list_count l)"
  using sparse.run_agrees [OF list_agrees_new [OF assms(1,2)] assms(3)] by (auto simp: list_agrees_def)

theorem sparse_list_faithful_witness:
  "history_ok 0 ServerMaxMsgId ({3, 5, 9} :: MsgId set) [Loaded 0 4 False, Posted 12, Loaded 5 9 True, Deleted 5] \<and>
   (\<exists>l. store_run add_loaded addNew removeOne ({3, 5, 9} :: MsgId set) [Loaded 0 4 False, Posted 12, Loaded 5 9 True, Deleted 5] new_list = Some l
    \<and> slices_agree ({3, 9, 12} :: MsgId set) (list_slices l) \<and> count_agrees ({3, 9, 12} :: MsgId set) (list_count l))"
proof -
  have h: "history_ok 0 ServerMaxMsgId ({3, 5, 9} :: MsgId set) [Loaded 0 4 False, Posted 12, Loaded 5 9 True, Deleted 5]"
    by (simp add: ServerMaxMsgId_def)
  have "insert 12 {3, 5, 9} - {5} = {3, 9, 12 :: int}" by auto
  then show ?thesis using sparse_list_faithful [OF _ _ h] h by (simp add: ServerMaxMsgId_def)
qed



end
