(* ===== verification/MessagesList.thy ===== *)
theory MessagesList
  imports SliceCore MsgIds
begin

text \<open>
  \<open>Data::MessagesList\<close> (data/data_messages.h and .cpp): the messages of a chat list or of a search,
  ordered by date, known in slices. The history runs from \<open>MinMessagePosition\<close> to
  \<open>MaxMessagePosition\<close>. Unlike the list of shared media ids, this list does not widen a slice that
  holds all messages, adds single messages, and reports removals.
\<close>

section \<open>Definitions\<close>

type_synonym MessagesRange = "MessagePosition \<times> MessagePosition"
type_synonym messages_list = "MessagePosition ids_list"

definition FullMessagesRange :: MessagesRange where
  "FullMessagesRange = (MinMessagePosition, MaxMessagePosition)"

text \<open>A default constructed position and a default constructed update.\<close>

definition no_position :: MessagePosition where
  "no_position = MessagePosition (FullMsgId 0 0) 0"

definition new_update :: "MessagePosition slice_update" where
  "new_update = \<lparr>update_messages = None, update_range = (no_position, no_position), update_count = None\<rparr>"

definition uniteAndAdd :: "MessagePosition slice_update \<Rightarrow> nat \<Rightarrow> nat \<Rightarrow> MessagePosition list \<Rightarrow> MessagesRange \<Rightarrow>
    MessagePosition slice list \<Rightarrow> (MessagePosition slice_update \<times> int \<times> MessagePosition slice list) option" where
  "uniteAndAdd update uniteFrom uniteTill messages noSkipRange slices =
     (let was = int (length (slice_messages (slices ! uniteFrom)))
      in do { (s, slices) \<leftarrow> unite slices uniteFrom uniteTill messages (fst noSkipRange) (snd noSkipRange);
              Some (update\<lparr>update_messages := Some (slice_messages s),
                          update_range := (range_from s, range_till s)\<rparr>,
                    int (length (slice_messages s)) - was, slices) })"

definition addRangeItemsAndCountNew :: "MessagePosition slice_update \<Rightarrow> MessagePosition list \<Rightarrow> MessagesRange \<Rightarrow>
    MessagePosition slice list \<Rightarrow> (MessagePosition slice_update \<times> int \<times> MessagePosition slice list) option" where
  "addRangeItemsAndCountNew update messages noSkipRange slices =
     (if \<not> fst noSkipRange \<le> snd noSkipRange then None
      else
        let uniteFrom = lower_bound range_till slices (fst noSkipRange);
            uniteTill = upper_bound range_from slices (snd noSkipRange)
        in if uniteFrom < uniteTill then uniteAndAdd update uniteFrom uniteTill messages noSkipRange slices
           else let (s, slices) = slice_emplace \<lparr>slice_messages = flat_set_of messages,
                      range_from = fst noSkipRange, range_till = snd noSkipRange\<rparr> slices
                in Some (update\<lparr>update_messages := Some (slice_messages s),
                               update_range := (range_from s, range_till s)\<rparr>,
                         int (length (slice_messages s)), slices))"

definition addRange :: "MessagePosition list \<Rightarrow> MessagesRange \<Rightarrow> int option \<Rightarrow> bool \<Rightarrow> messages_list \<Rightarrow> messages_list option" where
  "addRange messages noSkipRange cnt incrementCount l =
     (if cnt \<noteq> None \<and> incrementCount then None
      else do {
        (update, added, slices) \<leftarrow> addRangeItemsAndCountNew new_update messages noSkipRange (list_slices l);
        let c = count_after cnt incrementCount added (list_count l);
        let c = (case slices of
                   [s] \<Rightarrow> if (range_from s, range_till s) = FullMessagesRange
                          then Some (int (length (slice_messages s))) else c
                 | _ \<Rightarrow> c);
        Some (l\<lparr>list_count := c, list_slices := slices,
               slice_updates := slice_updates l @ [update\<lparr>update_count := c\<rparr>]\<rparr>) })"

definition addOne :: "MessagePosition \<Rightarrow> messages_list \<Rightarrow> messages_list option" where
  "addOne messageId l = addRange [messageId] (messageId, messageId) None True l"

definition addNew :: "MessagePosition \<Rightarrow> messages_list \<Rightarrow> messages_list option" where
  "addNew messageId l = addRange [messageId] (messageId, MaxMessagePosition) None True l"

definition addSlice :: "MessagePosition list \<Rightarrow> MessagesRange \<Rightarrow> int option \<Rightarrow> messages_list \<Rightarrow> messages_list option" where
  "addSlice ids noSkipRange cnt l = addRange ids noSkipRange cnt False l"

definition removeOne :: "MessagePosition \<Rightarrow> messages_list \<Rightarrow> messages_list" where
  "removeOne messageId l =
     (let i = lower_bound range_till (list_slices l) messageId;
          found = (i < length (list_slices l) \<and> range_from (list_slices l ! i) \<le> messageId);
          slices = remove_from_slices messageId (list_slices l);
          c = map_option (\<lambda>n. n - 1) (list_count l);
          update = \<lparr>update_messages = Some (slice_messages (slices ! i)),
                    update_range = (range_from (slices ! i), range_till (slices ! i)), update_count = c\<rparr>
      in l\<lparr>list_slices := slices, list_count := c,
           slice_updates := slice_updates l @ (if found then [update] else [])\<rparr>)"

text \<open>The loop of \<open>removeLessThan\<close>, with the number of messages it removed.\<close>

fun remove_less_than :: "MessagePosition \<Rightarrow> MessagePosition slice list \<Rightarrow> int \<times> MessagePosition slice list" where
  "remove_less_than messageId [] = (0, [])"
| "remove_less_than messageId (s # ss) =
     (if range_till s \<le> messageId
      then let (removed, ss') = remove_less_than messageId ss
           in (removed + int (length (slice_messages s)), ss')
      else if range_from s \<le> messageId
      then let till = lower_bound (\<lambda>x. x) (slice_messages s) messageId
           in (int till, s\<lparr>range_from := MinMessagePosition, slice_messages := drop till (slice_messages s)\<rparr> # ss)
      else (0, s # ss))"

definition removeLessThan :: "MessagePosition \<Rightarrow> messages_list \<Rightarrow> messages_list" where
  "removeLessThan messageId l =
     (let (removed, slices) = remove_less_than messageId (list_slices l)
      in l\<lparr>list_slices := slices,
           list_count := (if removed \<noteq> 0 then map_option (\<lambda>n. n - removed) (list_count l) else list_count l)\<rparr>)"

definition invalidate :: "messages_list \<Rightarrow> messages_list" where
  "invalidate l = l\<lparr>list_slices := [], list_count := None\<rparr>"

definition invalidateBottom :: "messages_list \<Rightarrow> messages_list" where
  "invalidateBottom l = l\<lparr>list_slices := cut_bottom MaxMessagePosition (list_slices l), list_count := None\<rparr>"

definition queryFromSlice :: "MessagePosition list_query \<Rightarrow> MessagePosition slice \<Rightarrow> messages_list \<Rightarrow> MessagePosition list_result" where
  "queryFromSlice query s l = query_from_slice MinMessagePosition MaxMessagePosition (list_count l) query s"

definition queryCurrent :: "MessagePosition list_query \<Rightarrow> messages_list \<Rightarrow> MessagePosition list_result" where
  "queryCurrent query l =
     (if \<not> position_given (aroundId query) then empty_result
      else
        let i = lower_bound range_till (list_slices l) (aroundId query)
        in if i < length (list_slices l) \<and> range_from (list_slices l ! i) \<le> aroundId query
           then queryFromSlice query (list_slices l ! i) l
           else empty_result)"

definition query_values :: "MessagePosition list_query \<Rightarrow> messages_list \<Rightarrow> MessagePosition list_result list" where
  "query_values query l =
     (let current = queryCurrent query l
      in if result_count current \<noteq> None \<or> messageIds current \<noteq> [] then [current] else [])"

definition snapshot :: "MessagePosition list_query \<Rightarrow> messages_list \<Rightarrow> MessagePosition list_result" where
  "snapshot query l = queryCurrent query l"

definition list_empty :: "messages_list \<Rightarrow> bool" where
  "list_empty l = no_messages (list_slices l)"

definition new_list :: messages_list where
  "new_list = \<lparr>list_count = None, list_slices = [], slice_updates = []\<rparr>"

definition list_agrees :: "MessagePosition set \<Rightarrow> messages_list \<Rightarrow> bool" where
  "list_agrees S l \<longleftrightarrow> finite S \<and> S \<subseteq> {MinMessagePosition..MaxMessagePosition} \<and> slices_agree S (list_slices l)
     \<and> count_agrees S (list_count l)"

definition add_loaded :: "MessagePosition list \<Rightarrow> MessagePosition \<Rightarrow> MessagePosition \<Rightarrow> int option \<Rightarrow> messages_list \<Rightarrow>
    messages_list option" where
  "add_loaded ms from till cnt l = addSlice ms (from, till) cnt l"

section \<open>Adding a range\<close>

lemma messages_addRangeItems_is_add:
  assumes "add_to_slices slices ms from till = Some (u, slices')" "from \<le> till"
  shows "addRangeItemsAndCountNew update ms (from, till) slices
      = Some (update\<lparr>update_messages := Some (slice_messages u), update_range := (range_from u, range_till u)\<rparr>,
          int (length (slice_messages u)) - was_length slices from till, slices')"
  using assms
  by (auto simp: add_to_slices_def addRangeItemsAndCountNew_def uniteAndAdd_def was_length_def Let_def
      split: if_splits prod.splits)

text \<open>
  A truthful call: the new history \<open>S'\<close> adds at most messages of the range, and the count given,
  kept or incremented is unknown or right.
\<close>

lemma messages_addRange_agrees:
  assumes l: "list_agrees S l" and ft: "from \<le> till"
    and ms: "set ms = S' \<inter> {from..till}" and S': "finite S'" "S \<subseteq> S'" "S' - {from..till} = S - {from..till}"
    and bounds: "S' \<subseteq> {MinMessagePosition..MaxMessagePosition}" and flags: "cnt = None \<or> \<not> inc"
    and counted: "\<And>u slices'. add_to_slices (list_slices l) ms from till = Some (u, slices') \<Longrightarrow>
      count_agrees S' (count_after cnt inc (int (length (slice_messages u)) - was_length (list_slices l) from till) (list_count l))"
  shows "\<exists>l'. addRange ms (from, till) cnt inc l = Some l' \<and> list_agrees S' l'
    \<and> slices_covered (list_slices l) \<subseteq> slices_covered (list_slices l') \<and> {from..till} \<subseteq> slices_covered (list_slices l')"
proof -
  have agree: "slices_agree S (list_slices l)" using l by (auto simp: list_agrees_def)
  obtain u slices' where a: "add_to_slices (list_slices l) ms from till = Some (u, slices')" "slices_agree S' slices'"
    "slices_covered slices' = slices_covered (list_slices l) \<union> {from..till}"
    using slices_agree_add [OF agree ft ms S'(2,3)] by metis
  define c where "c = count_after cnt inc (int (length (slice_messages u)) - was_length (list_slices l) from till) (list_count l)"
  have c: "count_agrees S' c" unfolding c_def by (rule counted [OF a(1)])
  have "count_agrees S' (case slices' of [s] \<Rightarrow> if (range_from s, range_till s) = FullMessagesRange
          then Some (int (length (slice_messages s))) else c | _ \<Rightarrow> c)"
    using c agree_length(1) [OF a(2) _ S'(1)] bounds
    by (auto simp: count_agrees_def FullMessagesRange_def Int_absorb2 split: list.splits)
  then show ?thesis
    unfolding c_def using flags a S'(1) bounds
    by (simp add: addRange_def messages_addRangeItems_is_add [OF a(1) ft] list_agrees_def Let_def)
qed

section \<open>The list is a history store\<close>

lemma messages_list_agrees_new: "finite S \<Longrightarrow> S \<subseteq> {MinMessagePosition..MaxMessagePosition} \<Longrightarrow> list_agrees S new_list"
  by (simp add: list_agrees_def new_list_def slices_agree_def count_agrees_def)

lemma addNew_agrees:
  assumes l: "list_agrees S l" and m: "\<forall>x \<in> S. x < m" "MinMessagePosition \<le> m" "m < MaxMessagePosition"
  shows "\<exists>l'. addNew m l = Some l' \<and> list_agrees (insert m S) l' \<and> slices_covered (list_slices l) \<subseteq> slices_covered (list_slices l')
    \<and> {m..MaxMessagePosition} \<subseteq> slices_covered (list_slices l')"
  unfolding addNew_def
proof (rule messages_addRange_agrees [OF l less_imp_le [OF m(3)]])
  fix u slices'
  assume "add_to_slices (list_slices l) [m] m MaxMessagePosition = Some (u, slices')"
  then have "int (length (slice_messages u)) - was_length (list_slices l) m MaxMessagePosition = 1"
    using add_newest(2) l m by (auto simp: list_agrees_def)
  moreover have "m \<notin> S" using m(1) by auto
  ultimately show "count_agrees (insert m S) (count_after None True
      (int (length (slice_messages u)) - was_length (list_slices l) m MaxMessagePosition) (list_count l))"
    using l by (auto simp: list_agrees_def count_agrees_def count_after_def)
next
  show "set [m] = insert m S \<inter> {m..MaxMessagePosition}" using m by (auto simp: order.strict_iff_not)
qed (use l m in \<open>auto simp: list_agrees_def intro: less_imp_le\<close>)

lemma addSlice_agrees:
  assumes l: "list_agrees S l" and ft: "MinMessagePosition \<le> from" "from \<le> till" "till \<le> MaxMessagePosition"
    and ms: "set ms = S \<inter> {from..till}" and c: "c = None \<or> c = Some (int (card S))"
  shows "\<exists>l'. add_loaded ms from till c l = Some l' \<and> list_agrees S l' \<and> slices_covered (list_slices l) \<subseteq> slices_covered (list_slices l')
    \<and> (from < till \<longrightarrow> {from..till} \<subseteq> slices_covered (list_slices l'))"
proof -
  have "\<exists>l'. addRange ms (from, till) c False l = Some l' \<and> list_agrees S l'
    \<and> slices_covered (list_slices l) \<subseteq> slices_covered (list_slices l') \<and> {from..till} \<subseteq> slices_covered (list_slices l')"
    by (rule messages_addRange_agrees [OF l ft(2) ms])
      (use l c in \<open>auto simp: list_agrees_def count_agrees_def count_after_def split: option.splits\<close>)
  then show ?thesis by (auto simp: add_loaded_def addSlice_def)
qed

lemma messages_removeOne_agrees:
  assumes "list_agrees S l" "m \<in> S"
  shows "list_agrees (S - {m}) (removeOne m l)
    \<and> slices_covered (list_slices l) \<subseteq> slices_covered (list_slices (removeOne m l))"
proof -
  have "card (S - {m}) = card S - 1" "0 < card S" using assms by (auto simp: list_agrees_def card_gt_0_iff)
  then have "count_agrees (S - {m}) (map_option (\<lambda>n. n - 1) (list_count l))"
    using assms by (auto simp: list_agrees_def count_agrees_def)
  then show ?thesis
    using assms remove_from_slices_agree [of S "list_slices l" m] by (auto simp: list_agrees_def removeOne_def Let_def)
qed

interpretation messages: history_store list_agrees "\<lambda>l. slices_covered (list_slices l)" add_loaded addNew removeOne
    MinMessagePosition MaxMessagePosition
  by unfold_locales (erule (5) addSlice_agrees | erule (3) addNew_agrees | erule (1) messages_removeOne_agrees | simp add: list_agrees_def)+

section \<open>Properties\<close>

text \<open>
  C10. A fresh messages list that is told the truth about a history, in any order of loaded parts,
  new messages and deletions, keeps a faithful picture of it, its count included.
\<close>

theorem messages_list_faithful:
  assumes "finite S" "S \<subseteq> {MinMessagePosition..MaxMessagePosition}"
    "history_ok MinMessagePosition MaxMessagePosition S es"
  shows "\<exists>l. store_run add_loaded addNew removeOne S es new_list = Some l
    \<and> slices_agree (fold (\<lambda>e H. history_after H e) es S) (list_slices l)
    \<and> count_agrees (fold (\<lambda>e H. history_after H e) es S) (list_count l)"
  using messages.run_agrees [OF messages_list_agrees_new [OF assms(1,2)] assms(3)] by (auto simp: list_agrees_def)

theorem messages_list_faithful_witness:
  "history_ok MinMessagePosition MaxMessagePosition {} [Posted (MessagePosition (FullMsgId 7 5) 100)] \<and>
   (\<exists>l. store_run add_loaded addNew removeOne {} [Posted (MessagePosition (FullMsgId 7 5) 100)] new_list = Some l
    \<and> slices_agree {MessagePosition (FullMsgId 7 5) 100} (list_slices l))"
proof -
  have h: "history_ok MinMessagePosition MaxMessagePosition {} [Posted (MessagePosition (FullMsgId 7 5) 100)]"
    by (simp add: MinMessagePosition_def MaxMessagePosition_def less_MessagePosition_def less_eq_MessagePosition_def)
  show ?thesis using messages_list_faithful [OF _ _ h] h by auto
qed



text \<open>
  \<open>removeLessThan\<close> removes more than its name says: a message at the given position is removed
  too when it ends a slice, and kept when the slice goes on.
\<close>

theorem removeLessThan_removes_equal:
  "snd (remove_less_than p [\<lparr>slice_messages = [p], range_from = p, range_till = p\<rparr>]) = []"
  "p < q \<Longrightarrow> snd (remove_less_than p [\<lparr>slice_messages = [p], range_from = p, range_till = q\<rparr>])
     = [\<lparr>slice_messages = [p], range_from = MinMessagePosition, range_till = q\<rparr>]"
  by (simp_all add: lower_bound_def)

end
