(* ===== verification/SliceBuilder.thy ===== *)
theory SliceBuilder
  imports SliceCore
begin

text \<open>
  What \<open>SparseIdsSliceBuilder\<close> (data/data_sparse_ids.cpp) and \<open>Data::MessagesSliceBuilder\<close>
  (data/data_messages.cpp) have in common: a builder keeps the part of a history that a viewer
  shows, between \<open>limitBefore\<close> messages before its key and \<open>limitAfter\<close> after it, from the results
  and updates of the list below, and asks for more when it has too little. The two classes differ
  in the values collected in \<open>builder_kind\<close>. A failed \<open>Assert\<close> is \<open>None\<close>; the fired requests are
  recorded in order.
\<close>

section \<open>Definitions\<close>

datatype LoadDirection = Around | Before | After

datatype RequestDirection = RequestBefore | RequestAfter

record 'a builder =
  b_key :: 'a
  b_ids :: "'a list"
  b_fullCount :: "int option"
  b_skippedBefore :: "int option"
  b_skippedAfter :: "int option"
  b_limitBefore :: int
  b_limitAfter :: int
  b_requests :: "('a \<times> LoadDirection) list"

text \<open>
  When a key is given, the id of a request for the count, the id that stands for no message and
  the test against it, the ends of the history.
\<close>

record 'a builder_kind =
  kind_given :: "'a \<Rightarrow> bool"
  kind_none :: 'a
  kind_impossible :: 'a
  kind_possible :: "'a \<Rightarrow> bool"
  kind_lo :: 'a
  kind_hi :: 'a

definition new_builder :: "'a \<Rightarrow> int \<Rightarrow> int \<Rightarrow> 'a builder" where
  "new_builder key before after =
     \<lparr>b_key = key, b_ids = [], b_fullCount = None, b_skippedBefore = None, b_skippedAfter = None,
      b_limitBefore = before, b_limitAfter = after, b_requests = []\<rparr>"

definition request_messages :: "RequestDirection \<Rightarrow> 'a builder \<Rightarrow> 'a builder" where
  "request_messages direction b =
     (let around = (if b_ids b = [] then (b_key b, Around)
                    else if direction = RequestBefore then (hd (b_ids b), Before)
                    else (last (b_ids b), After))
      in b\<lparr>b_requests := b_requests b @ [around]\<rparr>)"

definition request_messages_count :: "'a builder_kind \<Rightarrow> 'a builder \<Rightarrow> 'a builder" where
  "request_messages_count kind b = b\<lparr>b_requests := b_requests b @ [(kind_none kind, Around)]\<rparr>"

definition cut_begin :: "int \<Rightarrow> 'a builder \<Rightarrow> 'a builder" where
  "cut_begin n b = b\<lparr>b_ids := drop (nat n) (b_ids b), b_skippedBefore := map_option (\<lambda>k. k + n) (b_skippedBefore b)\<rparr>"

definition cut_end :: "int \<Rightarrow> 'a builder \<Rightarrow> 'a builder" where
  "cut_end n b = b\<lparr>b_ids := take (length (b_ids b) - nat n) (b_ids b),
                   b_skippedAfter := map_option (\<lambda>k. k + n) (b_skippedAfter b)\<rparr>"

definition slice_to_limits :: "'a::linorder builder_kind \<Rightarrow> 'a builder \<Rightarrow> 'a builder" where
  "slice_to_limits kind b =
     (if \<not> kind_given kind (b_key b)
      then if b_fullCount b = None then request_messages_count kind b else b
      else
        let around = int (lower_bound (\<lambda>x. x) (b_ids b) (b_key b));
            removeFromBegin = around - b_limitBefore b;
            removeFromEnd = int (length (b_ids b)) - around - b_limitAfter b - 1;
            askBefore = (removeFromBegin < 0 \<and> (b_skippedBefore b = None \<or> the (b_skippedBefore b) > 0));
            b = (if removeFromBegin > 0 then cut_begin removeFromBegin b
                 else if askBefore then request_messages RequestBefore b else b);
            askAfter = (removeFromEnd < 0 \<and> (b_skippedAfter b = None \<or> the (b_skippedAfter b) > 0));
            b = (if removeFromEnd > 0 then cut_end removeFromEnd b
                 else if askAfter then request_messages RequestAfter b else b)
        in if b_fullCount b = None \<and> \<not> askBefore \<and> \<not> askAfter then request_messages_count kind b else b)"

definition fill_skipped :: "'a builder \<Rightarrow> 'a builder" where
  "fill_skipped b =
     (case b_fullCount b of
        None \<Rightarrow> b
      | Some n \<Rightarrow>
          (case (b_skippedBefore b, b_skippedAfter b) of
             (Some k, None) \<Rightarrow> b\<lparr>b_skippedAfter := Some (n - k - int (length (b_ids b)))\<rparr>
           | (None, Some k) \<Rightarrow> b\<lparr>b_skippedBefore := Some (n - k - int (length (b_ids b)))\<rparr>
           | _ \<Rightarrow> b))"

definition fill_and_slice :: "'a::linorder builder_kind \<Rightarrow> 'a builder \<Rightarrow> 'a builder" where
  "fill_and_slice kind b = slice_to_limits kind (fill_skipped b)"

text \<open>\<open>flat_set::find\<close> as an index.\<close>

definition find_index :: "'a \<Rightarrow> 'a list \<Rightarrow> nat option" where
  "find_index x xs = (let i = length (takeWhile (\<lambda>y. y \<noteq> x) xs) in if i < length xs then Some i else None)"

definition adjust_before :: "'a \<Rightarrow> int \<Rightarrow> 'a builder \<Rightarrow> 'a builder option" where
  "adjust_before oldId oldSkipped b =
     do { i \<leftarrow> find_index oldId (b_ids b); Some (b\<lparr>b_skippedBefore := Some (max (oldSkipped - int i) 0)\<rparr>) }"

definition adjust_after :: "'a \<Rightarrow> int \<Rightarrow> 'a builder \<Rightarrow> 'a builder option" where
  "adjust_after oldId oldSkipped b =
     do { i \<leftarrow> find_index oldId (b_ids b);
          Some (b\<lparr>b_skippedAfter := Some (max (oldSkipped - (int (length (b_ids b)) - int i - 1)) 0)\<rparr>) }"

text \<open>
  The count alone: the comparison with the number of ids is one of unsigned numbers, so a negative
  count is a huge one.
\<close>

definition merge_count :: "int option \<Rightarrow> 'a builder \<Rightarrow> 'a builder" where
  "merge_count cnt b =
     (case cnt of
        None \<Rightarrow> b
      | Some n \<Rightarrow>
          if b_fullCount b = Some n then b
          else if 0 \<le> n \<and> n \<le> int (length (b_ids b))
          then b\<lparr>b_fullCount := Some (int (length (b_ids b))), b_skippedBefore := Some 0, b_skippedAfter := Some 0\<rparr>
          else b\<lparr>b_fullCount := Some n\<rparr>)"

definition merge_before :: "'a builder_kind \<Rightarrow> 'a \<Rightarrow> 'a list \<Rightarrow> int option \<Rightarrow> 'a builder \<Rightarrow> 'a builder option" where
  "merge_before kind wasMinId ids sb b =
     (case sb of
        Some k \<Rightarrow> adjust_before (hd ids) k b
      | None \<Rightarrow> if kind_possible kind wasMinId \<and> b_skippedBefore b \<noteq> None
                then adjust_before wasMinId (the (b_skippedBefore b)) b
                else Some (b\<lparr>b_skippedBefore := None\<rparr>))"

definition merge_after :: "'a builder_kind \<Rightarrow> 'a \<Rightarrow> 'a list \<Rightarrow> int option \<Rightarrow> 'a builder \<Rightarrow> 'a builder option" where
  "merge_after kind wasMaxId ids sa b =
     (case sa of
        Some k \<Rightarrow> adjust_after (last ids) k b
      | None \<Rightarrow> if kind_possible kind wasMaxId \<and> b_skippedAfter b \<noteq> None
                then adjust_after wasMaxId (the (b_skippedAfter b)) b
                else Some (b\<lparr>b_skippedAfter := None\<rparr>))"

definition merge_slice_data :: "'a::linorder builder_kind \<Rightarrow> int option \<Rightarrow> 'a list \<Rightarrow> int option \<Rightarrow> int option \<Rightarrow>
    'a builder \<Rightarrow> 'a builder option" where
  "merge_slice_data kind cnt ids sb sa b =
     (if ids = [] then Some (fill_and_slice kind (merge_count cnt b))
      else
        let b = (if cnt \<noteq> None then b\<lparr>b_fullCount := cnt\<rparr> else b);
            wasMinId = (if b_ids b = [] then kind_impossible kind else hd (b_ids b));
            wasMaxId = (if b_ids b = [] then kind_impossible kind else last (b_ids b));
            b = b\<lparr>b_ids := flat_merge (b_ids b) ids\<rparr>
        in do { b \<leftarrow> merge_before kind wasMinId ids sb b;
                b \<leftarrow> merge_after kind wasMaxId ids sa b;
                Some (fill_and_slice kind b) })"

definition apply_initial :: "'a::linorder builder_kind \<Rightarrow> 'a list_result \<Rightarrow> 'a builder \<Rightarrow> 'a builder option" where
  "apply_initial kind r b = merge_slice_data kind (result_count r) (messageIds r) (skippedBefore r) (skippedAfter r) b"

definition intersects :: "'a::linorder \<times> 'a \<Rightarrow> 'a \<times> 'a \<Rightarrow> bool" where
  "intersects r1 r2 \<longleftrightarrow> fst r1 \<le> snd r2 \<and> fst r2 \<le> snd r1"

text \<open>The result tells whether the builder changed.\<close>

definition apply_update :: "'a::linorder builder_kind \<Rightarrow> 'a slice_update \<Rightarrow> 'a builder \<Rightarrow> (bool \<times> 'a builder) option" where
  "apply_update kind update b =
     (let needMerge = (update_messages update \<noteq> None
            \<and> intersects (update_range update)
                (if b_ids b = [] then b_key b else hd (b_ids b), if b_ids b = [] then b_key b else last (b_ids b)))
      in if \<not> needMerge \<and> update_count update = None then Some (False, b)
         else do {
           b \<leftarrow> merge_slice_data kind (update_count update)
                  (if needMerge then the (update_messages update) else [])
                  (if fst (update_range update) = kind_lo kind then Some 0 else None)
                  (if snd (update_range update) = kind_hi kind then Some 0 else None) b;
           Some (True, b) })"

text \<open>The part of \<open>removeOne\<close> both classes share.\<close>

definition remove_one :: "'a::linorder \<Rightarrow> 'a builder \<Rightarrow> bool \<times> 'a builder" where
  "remove_one m b =
     (let counted = (case b_fullCount b of Some n \<Rightarrow> n > 0 | None \<Rightarrow> False);
          b = (if counted then b\<lparr>b_fullCount := map_option (\<lambda>n. n - 1) (b_fullCount b)\<rparr> else b)
      in if m \<in> set (b_ids b) then (True, b\<lparr>b_ids := flat_remove m (b_ids b)\<rparr>)
         else if b_ids b \<noteq> [] then
           (if hd (b_ids b) > m \<and> (case b_skippedBefore b of Some k \<Rightarrow> k > 0 | None \<Rightarrow> False)
            then (True, b\<lparr>b_skippedBefore := map_option (\<lambda>k. k - 1) (b_skippedBefore b)\<rparr>)
            else if last (b_ids b) < m \<and> (case b_skippedAfter b of Some k \<Rightarrow> k > 0 | None \<Rightarrow> False)
            then (True, b\<lparr>b_skippedAfter := map_option (\<lambda>k. k - 1) (b_skippedAfter b)\<rparr>)
            else (counted, b))
         else (counted, b))"

text \<open>The builder shows a window of the history \<open>S\<close>.\<close>

definition builder_agrees :: "'a::linorder set \<Rightarrow> 'a builder \<Rightarrow> bool" where
  "builder_agrees S b \<longleftrightarrow> finite S \<and> is_window S (b_ids b) (b_skippedBefore b) (b_skippedAfter b)
     \<and> count_agrees S (b_fullCount b)"

text \<open>
  Nothing of the history between the window and the key is left out; the builder shows a window
  around its key. \<open>ideal_window\<close> is what the viewer wants to see.
\<close>

definition around_key :: "'a::linorder set \<Rightarrow> 'a \<Rightarrow> 'a list \<Rightarrow> bool" where
  "around_key S key ids \<longleftrightarrow> ids = [] \<or> (\<forall>x \<in> S. (x < hd ids \<longrightarrow> x < key) \<and> (last ids < x \<longrightarrow> key \<le> x))"

definition builder_ok :: "'a::linorder set \<Rightarrow> 'a builder \<Rightarrow> bool" where
  "builder_ok S b \<longleftrightarrow> builder_agrees S b \<and> around_key S (b_key b) (b_ids b)
     \<and> 0 \<le> b_limitBefore b \<and> 0 \<le> b_limitAfter b"

definition ideal_window :: "'a::linorder set \<Rightarrow> 'a \<Rightarrow> int \<Rightarrow> int \<Rightarrow> 'a list" where
  "ideal_window S key before after =
     (let below = sorted_list_of_set (S \<inter> {..<key}); above = sorted_list_of_set (S \<inter> {key..})
      in drop (length below - nat before) below @ take (nat after + 1) above)"

definition same_view :: "'a builder \<Rightarrow> 'a builder \<Rightarrow> bool" where
  "same_view b c \<longleftrightarrow> b_key c = b_key b \<and> b_limitBefore c = b_limitBefore b \<and> b_limitAfter c = b_limitAfter b
     \<and> b_requests c = b_requests b"

section \<open>Windows\<close>

lemma window_sorted:
  assumes "is_window S ids sb sa" "finite S"
  shows "sorted_wrt (<) ids" "set ids \<subseteq> S"
proof -
  obtain pre post where w: "sorted_list_of_set S = pre @ ids @ post" using assms(1) by (auto simp: is_window_def)
  have "sorted_wrt (<) (pre @ ids @ post)" "set (pre @ ids @ post) = S"
    unfolding w [symmetric] using assms(2) by simp_all
  then show "sorted_wrt (<) ids" "set ids \<subseteq> S" by (auto simp: sorted_wrt_append)
qed

lemma window_bounds:
  assumes w: "is_window S ids sb sa" "finite S" and ne: "ids \<noteq> []"
  shows "set ids = S \<inter> {hd ids..last ids}"
    "sb = None \<or> sb = Some (int (card (S \<inter> {..<hd ids})))"
    "sa = None \<or> sa = Some (int (card (S \<inter> {last ids<..})))"
proof -
  obtain pre post where p: "sorted_list_of_set S = pre @ ids @ post"
    and c: "sb = None \<or> sb = Some (int (length pre))" "sa = None \<or> sa = Some (int (length post))"
    using w(1) by (auto simp: is_window_def)
  have all: "sorted_wrt (<) (pre @ ids @ post)" "set (pre @ ids @ post) = S"
    unfolding p [symmetric] using w(2) by simp_all
  have less: "\<forall>x \<in> set pre. \<forall>y \<in> set ids. x < y" "\<forall>x \<in> set ids. \<forall>y \<in> set post. x < y" "\<forall>x \<in> set pre. \<forall>y \<in> set post. x < y"
    "sorted_wrt (<) ids" "sorted_wrt (<) pre" "sorted_wrt (<) post"
    using all(1) by (auto simp: sorted_wrt_append)
  have ends: "hd ids \<in> set ids" "last ids \<in> set ids" using ne by auto
  have between: "\<forall>x \<in> set ids. hd ids \<le> x \<and> x \<le> last ids"
    using strict_sorted_hd_le strict_sorted_le_last less(4) by blast
  have hl: "hd ids \<le> last ids" using between ends by blast
  have "\<forall>x \<in> set pre. x < hd ids" "\<forall>x \<in> set post. last ids < x" using less(1,2) ends by blast+
  then have out: "\<forall>x \<in> set pre. x < hd ids \<and> \<not> hd ids \<le> x \<and> \<not> last ids < x"
      "\<forall>x \<in> set post. last ids < x \<and> \<not> x \<le> last ids \<and> \<not> x < hd ids"
    using hl by (auto simp: not_less intro: order_trans less_imp_le)
  show "set ids = S \<inter> {hd ids..last ids}"
    unfolding all(2) [symmetric] using between out by (intro set_eqI) (simp, blast)
  have "S \<inter> {..<hd ids} = set pre" "S \<inter> {last ids<..} = set post"
    unfolding all(2) [symmetric] using between out by (intro set_eqI; simp; meson not_le)+
  then show "sb = None \<or> sb = Some (int (card (S \<inter> {..<hd ids})))" "sa = None \<or> sa = Some (int (card (S \<inter> {last ids<..})))"
    using c strict_sorted_length less(5,6) by metis+
qed

lemma windowI:
  assumes "finite S" "sorted_wrt (<) ids" "ids \<noteq> []" "set ids = S \<inter> {hd ids..last ids}"
    "sb = None \<or> sb = Some (int (card (S \<inter> {..<hd ids})))" "sa = None \<or> sa = Some (int (card (S \<inter> {last ids<..})))"
  shows "is_window S ids sb sa"
proof -
  have "hd ids \<le> last ids" using assms(2,3) strict_sorted_hd_le by fastforce
  then show ?thesis
    using is_windowI [OF sorted_list_split [OF assms(1,2,4)], of sb sa] assms(1,5,6) by simp
qed

lemma window_length: "sorted_list_of_set S = xs \<Longrightarrow> finite S \<Longrightarrow> card S = length xs"
  by (metis length_sorted_list_of_set)

lemma window_drop:
  assumes "is_window S ids sb sa" "n \<le> length ids"
  shows "is_window S (drop n ids) (map_option (\<lambda>k. k + int n) sb) sa"
proof -
  obtain pre post where w: "sorted_list_of_set S = pre @ ids @ post"
    "sb = None \<or> sb = Some (int (length pre))" "sa = None \<or> sa = Some (int (length post))"
    using assms(1) by (auto simp: is_window_def)
  have "sorted_list_of_set S = (pre @ take n ids) @ drop n ids @ post"
    using w(1) by (simp flip: append_assoc) (simp add: append_assoc)
  then show ?thesis by (rule is_windowI) (use w assms(2) in auto)
qed

lemma window_take:
  assumes "is_window S ids sb sa" "n \<le> length ids"
  shows "is_window S (take (length ids - n) ids) sb (map_option (\<lambda>k. k + int n) sa)"
proof -
  obtain pre post where w: "sorted_list_of_set S = pre @ ids @ post"
    "sb = None \<or> sb = Some (int (length pre))" "sa = None \<or> sa = Some (int (length post))"
    using assms(1) by (auto simp: is_window_def)
  have "sorted_list_of_set S = pre @ take (length ids - n) ids @ (drop (length ids - n) ids @ post)"
    using w(1) by (metis append.assoc append_take_drop_id)
  then show ?thesis by (rule is_windowI) (use w assms(2) in auto)
qed

lemma window_fill:
  assumes "is_window S ids sb sa" "finite S"
  shows "sb = Some k \<Longrightarrow> is_window S ids sb (Some (int (card S) - k - int (length ids)))"
    "sa = Some k \<Longrightarrow> is_window S ids (Some (int (card S) - k - int (length ids))) sa"
proof -
  obtain pre post where w: "sorted_list_of_set S = pre @ ids @ post"
    "sb = None \<or> sb = Some (int (length pre))" "sa = None \<or> sa = Some (int (length post))"
    using assms(1) by (auto simp: is_window_def)
  then have "card S = length pre + length ids + length post"
    using window_length [OF w(1) assms(2)] by simp
  then show "sb = Some k \<Longrightarrow> is_window S ids sb (Some (int (card S) - k - int (length ids)))"
    "sa = Some k \<Longrightarrow> is_window S ids (Some (int (card S) - k - int (length ids))) sa"
    using w by (auto intro!: is_windowI [OF w(1)])
qed

lemma window_full:
  assumes "is_window S ids sb sa" "finite S" "card S \<le> length ids"
  shows "length ids = card S" "is_window S ids (Some 0) (Some 0)"
proof -
  obtain pre post where w: "sorted_list_of_set S = pre @ ids @ post" using assms(1) by (auto simp: is_window_def)
  then have "length pre + length ids + length post = card S"
    using window_length [OF w assms(2)] by simp
  then have "length pre = 0" "length post = 0" and len: "length ids = card S" using assms(3) by linarith+
  then show "is_window S ids (Some 0) (Some 0)" using is_windowI [OF w] by simp
  show "length ids = card S" by (rule len)
qed

lemma find_index_sorted:
  fixes xs :: "'a::linorder list"
  shows "sorted_wrt (<) xs \<Longrightarrow> x \<in> set xs \<Longrightarrow> find_index x xs = Some (card (set xs \<inter> {..<x}))"
proof (induction xs)
  case (Cons y ys)
  show ?case
  proof (cases "x = y")
    case True
    then have "set (y # ys) \<inter> {..<x} = {}" using Cons.prems by auto
    then show ?thesis using True by (simp add: find_index_def)
  next
    case False
    then have x: "x \<in> set ys" "y < x" using Cons.prems by auto
    then have "set (y # ys) \<inter> {..<x} = insert y (set ys \<inter> {..<x})" "y \<notin> set ys" using Cons.prems by auto
    moreover have "find_index x ys = Some (card (set ys \<inter> {..<x}))" using Cons x by simp
    ultimately show ?thesis using False by (simp add: find_index_def Let_def split: if_splits)
  qed
qed simp

section \<open>The operations keep the window\<close>

lemma request_keeps [simp]:
  "b_ids (request_messages d b) = b_ids b" "b_fullCount (request_messages d b) = b_fullCount b"
  "b_skippedBefore (request_messages d b) = b_skippedBefore b" "b_skippedAfter (request_messages d b) = b_skippedAfter b"
  "b_ids (request_messages_count kind b) = b_ids b" "b_fullCount (request_messages_count kind b) = b_fullCount b"
  "b_skippedBefore (request_messages_count kind b) = b_skippedBefore b"
  "b_skippedAfter (request_messages_count kind b) = b_skippedAfter b"
  by (simp_all add: request_messages_def request_messages_count_def Let_def)

lemma builder_agrees_request [simp]:
  "builder_agrees S (request_messages d b) = builder_agrees S b"
  "builder_agrees S (request_messages_count kind b) = builder_agrees S b"
  by (simp_all add: builder_agrees_def)

lemma cut_begin_agrees:
  "builder_agrees S b \<Longrightarrow> 0 \<le> n \<Longrightarrow> n \<le> int (length (b_ids b)) \<Longrightarrow> builder_agrees S (cut_begin n b)"
  using window_drop [of S "b_ids b" _ _ "nat n"] by (auto simp: builder_agrees_def cut_begin_def)

lemma cut_end_agrees:
  "builder_agrees S b \<Longrightarrow> 0 \<le> n \<Longrightarrow> n \<le> int (length (b_ids b)) \<Longrightarrow> builder_agrees S (cut_end n b)"
  using window_take [of S "b_ids b" _ _ "nat n"] by (auto simp: builder_agrees_def cut_end_def)

lemma slice_to_limits_agrees:
  assumes "builder_agrees S b" "0 \<le> b_limitBefore b" "0 \<le> b_limitAfter b"
  shows "builder_agrees S (slice_to_limits kind b)"
proof -
  let ?a = "lower_bound (\<lambda>x. x) (b_ids b) (b_key b)"
  have a: "?a \<le> length (b_ids b)" by simp
  let ?n = "int ?a - b_limitBefore b" and ?m = "int (length (b_ids b)) - int ?a - b_limitAfter b - 1"
  define c where "c = (if ?n > 0 then cut_begin ?n b
     else if ?n < 0 \<and> (b_skippedBefore b = None \<or> the (b_skippedBefore b) > 0) then request_messages RequestBefore b else b)"
  have "?n \<le> int (length (b_ids b))" using assms(2) a by linarith
  then have "builder_agrees S c" using assms by (auto simp: c_def intro!: cut_begin_agrees)
  moreover have "?m \<le> int (length (b_ids c))" using assms(2,3) a by (auto simp: c_def cut_begin_def)
  ultimately have "builder_agrees S (if ?m > 0 then cut_end ?m c
     else if P then request_messages RequestAfter c else c)" for P
    by (auto intro!: cut_end_agrees)
  then show ?thesis
    using assms(1) unfolding slice_to_limits_def Let_def c_def [symmetric] by simp
qed

lemma fill_skipped_agrees: "builder_agrees S b \<Longrightarrow> builder_agrees S (fill_skipped b)"
  using window_fill [of S "b_ids b" "b_skippedBefore b" "b_skippedAfter b"]
  by (auto simp: builder_agrees_def fill_skipped_def count_agrees_def split: option.splits)

lemma fill_skipped_keeps [simp]:
  "b_ids (fill_skipped b) = b_ids b" "b_key (fill_skipped b) = b_key b" "b_fullCount (fill_skipped b) = b_fullCount b"
  "b_limitBefore (fill_skipped b) = b_limitBefore b" "b_limitAfter (fill_skipped b) = b_limitAfter b"
  by (simp_all add: fill_skipped_def split: option.splits)

lemma fill_and_slice_agrees:
  "builder_agrees S b \<Longrightarrow> 0 \<le> b_limitBefore b \<Longrightarrow> 0 \<le> b_limitAfter b \<Longrightarrow> builder_agrees S (fill_and_slice kind b)"
  by (simp add: fill_and_slice_def slice_to_limits_agrees fill_skipped_agrees)

lemma merge_count_agrees:
  "builder_agrees S b \<Longrightarrow> count_agrees S cnt \<Longrightarrow> builder_agrees S (merge_count cnt b)"
  using window_full [of S "b_ids b"]
  by (auto simp: builder_agrees_def merge_count_def count_agrees_def split: option.splits)

text \<open>Ids that fill an interval of the history fill the interval between their ends.\<close>

lemma interval_ends:
  fixes S :: "'a::linorder set"
  assumes "sorted_wrt (<) xs" "xs \<noteq> []" "set xs = S \<inter> {a..b}"
  shows "set xs = S \<inter> {hd xs..last xs}"
proof -
  have "hd xs \<in> {a..b}" "last xs \<in> {a..b}" using assms(2,3) hd_in_set [of xs] last_in_set [of xs] by auto
  moreover have "\<forall>x \<in> set xs. hd xs \<le> x \<and> x \<le> last xs"
    using assms(1) strict_sorted_hd_le strict_sorted_le_last by blast
  ultimately show ?thesis unfolding assms(3) by (auto intro: order_trans)
qed

lemma adjust_before_exact:
  fixes S :: "'a::linorder set"
  assumes "sorted_wrt (<) (b_ids b)" "finite S" "set (b_ids b) = S \<inter> {hd (b_ids b)..last (b_ids b)}" "x \<in> set (b_ids b)"
  shows "adjust_before x (int (card (S \<inter> {..<x}))) b
    = Some (b\<lparr>b_skippedBefore := Some (int (card (S \<inter> {..<hd (b_ids b)})))\<rparr>)"
proof -
  let ?xs = "b_ids b"
  have x: "hd ?xs \<le> x" "x \<le> last ?xs" using assms(3,4) by auto
  have "S \<inter> {..<x} = (S \<inter> {..<hd ?xs}) \<union> (set ?xs \<inter> {..<x})"
    unfolding assms(3) using x by auto
  moreover have "(S \<inter> {..<hd ?xs}) \<inter> (set ?xs \<inter> {..<x}) = {}"
    unfolding assms(3) by auto
  ultimately have "card (S \<inter> {..<x}) = card (S \<inter> {..<hd ?xs}) + card (set ?xs \<inter> {..<x})"
    using assms(2) by (simp add: card_Un_disjoint)
  then show ?thesis using find_index_sorted [OF assms(1,4)] by (simp add: adjust_before_def)
qed

lemma adjust_after_exact:
  fixes S :: "'a::linorder set"
  assumes "sorted_wrt (<) (b_ids b)" "finite S" "set (b_ids b) = S \<inter> {hd (b_ids b)..last (b_ids b)}" "x \<in> set (b_ids b)"
  shows "adjust_after x (int (card (S \<inter> {x<..}))) b
    = Some (b\<lparr>b_skippedAfter := Some (int (card (S \<inter> {last (b_ids b)<..})))\<rparr>)"
proof -
  let ?xs = "b_ids b"
  have x: "hd ?xs \<le> x" "x \<le> last ?xs" using assms(3,4) by auto
  have "S \<inter> {x<..} = (S \<inter> {last ?xs<..}) \<union> (set ?xs \<inter> {x<..})"
    unfolding assms(3) using x by auto
  moreover have "(S \<inter> {last ?xs<..}) \<inter> (set ?xs \<inter> {x<..}) = {}"
    unfolding assms(3) by auto
  ultimately have after: "card (S \<inter> {x<..}) = card (S \<inter> {last ?xs<..}) + card (set ?xs \<inter> {x<..})"
    using assms(2) by (simp add: card_Un_disjoint)
  have "set ?xs = insert x ((set ?xs \<inter> {..<x}) \<union> (set ?xs \<inter> {x<..}))" using assms(4) by auto
  then have "card (set ?xs) = card (insert x ((set ?xs \<inter> {..<x}) \<union> (set ?xs \<inter> {x<..})))" by simp
  also have "\<dots> = Suc (card ((set ?xs \<inter> {..<x}) \<union> (set ?xs \<inter> {x<..})))" by (subst card_insert_disjoint) auto
  also have "\<dots> = Suc (card (set ?xs \<inter> {..<x}) + card (set ?xs \<inter> {x<..}))"
    by (subst card_Un_disjoint) (auto dest: less_asym)
  finally have "length ?xs = Suc (card (set ?xs \<inter> {..<x}) + card (set ?xs \<inter> {x<..}))"
    using strict_sorted_length [OF assms(1)] by simp
  then show ?thesis using find_index_sorted [OF assms(1,4)] after by (simp add: adjust_after_def)
qed

lemma merge_before_exact:
  fixes S :: "'a::linorder set"
  assumes c: "sorted_wrt (<) (b_ids c)" "finite S" "set (b_ids c) = S \<inter> {hd (b_ids c)..last (b_ids c)}"
    and ids: "hd ids \<in> set (b_ids c)" "sb = None \<or> sb = Some (int (card (S \<inter> {..<hd ids})))"
    and was: "kind_possible kind was \<Longrightarrow> was \<in> set (b_ids c) \<and>
      (b_skippedBefore c = None \<or> b_skippedBefore c = Some (int (card (S \<inter> {..<was}))))"
  shows "\<exists>x. merge_before kind was ids sb c = Some (c\<lparr>b_skippedBefore := x\<rparr>)
    \<and> (x = None \<or> x = Some (int (card (S \<inter> {..<hd (b_ids c)}))))"
proof (cases sb)
  case None
  then show ?thesis using was adjust_before_exact [OF c, of was] by (auto simp: merge_before_def)
next
  case (Some k)
  then show ?thesis using ids adjust_before_exact [OF c, of "hd ids"] by (auto simp: merge_before_def)
qed

lemma merge_after_exact:
  fixes S :: "'a::linorder set"
  assumes c: "sorted_wrt (<) (b_ids c)" "finite S" "set (b_ids c) = S \<inter> {hd (b_ids c)..last (b_ids c)}"
    and ids: "last ids \<in> set (b_ids c)" "sa = None \<or> sa = Some (int (card (S \<inter> {last ids<..})))"
    and was: "kind_possible kind was \<Longrightarrow> was \<in> set (b_ids c) \<and>
      (b_skippedAfter c = None \<or> b_skippedAfter c = Some (int (card (S \<inter> {was<..}))))"
  shows "\<exists>x. merge_after kind was ids sa c = Some (c\<lparr>b_skippedAfter := x\<rparr>)
    \<and> (x = None \<or> x = Some (int (card (S \<inter> {last (b_ids c)<..}))))"
proof (cases sa)
  case None
  then show ?thesis using was adjust_after_exact [OF c, of was] by (auto simp: merge_after_def)
next
  case (Some k)
  then show ?thesis using ids adjust_after_exact [OF c, of "last ids"] by (auto simp: merge_after_def)
qed

text \<open>
  Merging ids that fill an interval of the history, next to what the builder has: the contracts
  hold and the builder shows a window again.
\<close>

lemma merge_slice_data_agrees:
  assumes b: "builder_agrees S b" and cnt: "count_agrees S cnt"
    and joined: "ids \<noteq> [] \<Longrightarrow> \<exists>l h. set (b_ids b) \<union> set ids = S \<inter> {l..h}"
    and sb: "ids \<noteq> [] \<Longrightarrow> sb = None \<or> sb = Some (int (card (S \<inter> {..<hd ids})))"
    and sa: "ids \<noteq> [] \<Longrightarrow> sa = None \<or> sa = Some (int (card (S \<inter> {last ids<..})))"
    and kind: "\<not> kind_possible kind (kind_impossible kind)"
  shows "\<exists>c. merge_slice_data kind cnt ids sb sa b = Some (fill_and_slice kind c) \<and> builder_agrees S c
    \<and> same_view b c \<and> set (b_ids c) = set (b_ids b) \<union> set ids"
proof (cases "ids = []")
  case True
  have "same_view b (merge_count cnt b) \<and> b_ids (merge_count cnt b) = b_ids b"
    by (auto simp: merge_count_def same_view_def split: option.splits)
  then show ?thesis
    using True merge_count_agrees [OF b cnt] by (auto simp: merge_slice_data_def)
next
  case False
  let ?n = "flat_merge (b_ids b) ids" and ?f = "if cnt \<noteq> None then cnt else b_fullCount b"
  define c where "c = b\<lparr>b_fullCount := ?f, b_ids := ?n\<rparr>"
  have fin: "finite S" and win: "is_window S (b_ids b) (b_skippedBefore b) (b_skippedAfter b)"
    using b by (auto simp: builder_agrees_def)
  have n: "sorted_wrt (<) ?n" using window_sorted [OF win fin] by (simp add: sorted_flat_merge)
  have "set ?n \<noteq> {}" using False by simp
  then have ne: "?n \<noteq> []" by (metis set_empty)
  obtain l h where "set ?n = S \<inter> {l..h}" using joined [OF False] by auto
  note full = interval_ends [OF n ne this]
  have c: "sorted_wrt (<) (b_ids c)" "set (b_ids c) = S \<inter> {hd (b_ids c)..last (b_ids c)}" using n full by (simp_all add: c_def)
  have mem: "hd ids \<in> set (b_ids c)" "last ids \<in> set (b_ids c)" using False by (simp_all add: c_def)
  let ?min = "if b_ids b = [] then kind_impossible kind else hd (b_ids b)"
  let ?max = "if b_ids b = [] then kind_impossible kind else last (b_ids b)"
  have was: "kind_possible kind ?min \<Longrightarrow> b_ids b \<noteq> []" "kind_possible kind ?max \<Longrightarrow> b_ids b \<noteq> []"
    using kind by auto
  have "kind_possible kind ?min \<Longrightarrow> ?min \<in> set (b_ids c) \<and>
      (b_skippedBefore c = None \<or> b_skippedBefore c = Some (int (card (S \<inter> {..<?min}))))"
    using was(1) window_bounds(2) [OF win fin] by (simp add: c_def)
  then obtain x where x: "merge_before kind ?min ids sb c = Some (c\<lparr>b_skippedBefore := x\<rparr>)"
    "x = None \<or> x = Some (int (card (S \<inter> {..<hd (b_ids c)})))"
    using merge_before_exact [OF c(1) fin c(2) mem(1) sb [OF False], where was = ?min] by metis
  let ?d = "c\<lparr>b_skippedBefore := x\<rparr>"
  have d: "sorted_wrt (<) (b_ids ?d)" "set (b_ids ?d) = S \<inter> {hd (b_ids ?d)..last (b_ids ?d)}" "last ids \<in> set (b_ids ?d)"
    using c mem by simp_all
  have "kind_possible kind ?max \<Longrightarrow> ?max \<in> set (b_ids ?d) \<and>
      (b_skippedAfter ?d = None \<or> b_skippedAfter ?d = Some (int (card (S \<inter> {?max<..}))))"
    using was(2) window_bounds(3) [OF win fin] by (simp add: c_def)
  then obtain y where y: "merge_after kind ?max ids sa ?d = Some (?d\<lparr>b_skippedAfter := y\<rparr>)"
    "y = None \<or> y = Some (int (card (S \<inter> {last (b_ids ?d)<..})))"
    using merge_after_exact [OF d(1) fin d(2,3) sa [OF False], where was = ?max] by metis
  let ?e = "?d\<lparr>b_skippedAfter := y\<rparr>"
  have "is_window S ?n x y" by (rule windowI [OF fin n ne full]) (use x(2) y(2) in \<open>simp_all add: c_def\<close>)
  then have "builder_agrees S ?e" using b cnt by (auto simp: builder_agrees_def c_def)
  moreover have "same_view b ?e" "set (b_ids ?e) = set (b_ids b) \<union> set ids" by (simp_all add: c_def same_view_def)
  moreover have "(if cnt \<noteq> None then b\<lparr>b_fullCount := cnt\<rparr> else b)\<lparr>b_ids := flat_merge (b_ids (if cnt \<noteq> None then b\<lparr>b_fullCount := cnt\<rparr> else b)) ids\<rparr> = c"
    "b_ids (if cnt \<noteq> None then b\<lparr>b_fullCount := cnt\<rparr> else b) = b_ids b"
    by (simp_all add: c_def)
  then have "merge_slice_data kind cnt ids sb sa b = Some (fill_and_slice kind ?e)"
    using False x(1) y(1) unfolding merge_slice_data_def Let_def by (auto split: if_splits)
  ultimately show ?thesis by blast
qed

text \<open>A window stays around the key when it grows, and one over an interval with the key is around it.\<close>

lemma around_key_interval:
  fixes S :: "'a::linorder set"
  assumes "sorted_wrt (<) ids" "set ids = S \<inter> {f..t}" "f \<le> key" "key \<le> t"
  shows "around_key S key ids"
proof (cases "ids = []")
  case False
  then have "hd ids \<in> {f..t}" "last ids \<in> {f..t}" using assms(2) hd_in_set [of ids] last_in_set [of ids] by auto
  moreover have "hd ids \<le> x \<and> x \<le> last ids" if "x \<in> S" "f \<le> x" "x \<le> t" for x
  proof -
    have "x \<in> set ids" using that assms(2) by simp
    then show ?thesis using strict_sorted_hd_le [OF assms(1)] strict_sorted_le_last [OF assms(1)] by simp
  qed
  ultimately have "(x < hd ids \<longrightarrow> x < key) \<and> (last ids < x \<longrightarrow> key \<le> x)" if "x \<in> S" for x
    using that assms(3,4) by (cases "f \<le> x"; cases "x \<le> t") (force simp: not_le)+
  then show ?thesis by (simp add: around_key_def)
qed (simp add: around_key_def)

lemma around_key_grows:
  fixes S :: "'a::linorder set"
  assumes "around_key S key xs" "set xs \<subseteq> set ys" "sorted_wrt (<) ys"
    and new: "xs = [] \<Longrightarrow> ys \<noteq> [] \<Longrightarrow> set ys = S \<inter> {f..t}" "xs = [] \<Longrightarrow> ys \<noteq> [] \<Longrightarrow> f \<le> key" "xs = [] \<Longrightarrow> ys \<noteq> [] \<Longrightarrow> key \<le> t"
  shows "around_key S key ys"
proof (cases "xs = []")
  case True
  then show ?thesis
    using around_key_interval [OF assms(3) new] by (cases "ys = []") (auto simp: around_key_def)
next
  case False
  then have "hd ys \<le> hd xs" "last xs \<le> last ys"
    using assms(2,3) strict_sorted_hd_le strict_sorted_le_last by (metis hd_in_set last_in_set subsetD)+
  then show ?thesis using assms(1) False by (auto simp: around_key_def dest: less_le_trans le_less_trans)
qed

text \<open>The first result, from the list, and later updates.\<close>

lemma apply_initial_agrees:
  assumes "finite S" "is_window S (messageIds r) (skippedBefore r) (skippedAfter r)" "count_agrees S (result_count r)"
    and kind: "\<not> kind_possible kind (kind_impossible kind)"
  shows "\<exists>c. apply_initial kind r (new_builder key before after) = Some (fill_and_slice kind c) \<and> builder_agrees S c
    \<and> same_view (new_builder key before after) c \<and> set (b_ids c) = set (messageIds r)"
proof -
  have "\<exists>c. merge_slice_data kind (result_count r) (messageIds r) (skippedBefore r) (skippedAfter r) (new_builder key before after)
      = Some (fill_and_slice kind c) \<and> builder_agrees S c
    \<and> same_view (new_builder key before after) c \<and> set (b_ids c) = set (b_ids (new_builder key before after)) \<union> set (messageIds r)"
  proof (rule merge_slice_data_agrees)
  show "builder_agrees S (new_builder key before after)"
    using assms(1) by (auto simp: builder_agrees_def new_builder_def count_agrees_def is_window_def)
  show "\<exists>l h. set (b_ids (new_builder key before after)) \<union> set (messageIds r) = S \<inter> {l..h}" if "messageIds r \<noteq> []"
    using window_bounds(1) [OF assms(2,1) that] by (auto simp: new_builder_def)
  qed (use assms window_bounds [OF assms(2,1)] in \<open>auto simp: new_builder_def\<close>)
  then show ?thesis by (simp add: apply_initial_def new_builder_def)
qed

lemma interval_union:
  fixes S :: "'a::linorder set"
  assumes "f \<le> l" "h \<le> t" "f \<le> t" "h \<le> l"
  shows "(S \<inter> {h..l}) \<union> (S \<inter> {f..t}) = S \<inter> {min h f..max l t}"
proof -
  have "{h..l} \<union> {f..t} = {min h f..max l t}" using assms by (auto simp: min_def max_def)
  then show ?thesis by blast
qed

lemma apply_update_agrees:
  assumes b: "builder_agrees S b" "around_key S (b_key b) (b_ids b)" and u: "update_agrees S update"
    and kind: "S \<subseteq> {kind_lo kind..kind_hi kind}" "\<not> kind_possible kind (kind_impossible kind)"
  shows "apply_update kind update b = Some (False, b)
    \<or> (\<exists>c. apply_update kind update b = Some (True, fill_and_slice kind c) \<and> builder_agrees S c \<and> same_view b c
        \<and> around_key S (b_key c) (b_ids c))"
proof -
  let ?f = "fst (update_range update)" and ?t = "snd (update_range update)"
  define need where "need \<longleftrightarrow> update_messages update \<noteq> None
    \<and> intersects (update_range update)
        (if b_ids b = [] then b_key b else hd (b_ids b), if b_ids b = [] then b_key b else last (b_ids b))"
  define ids where "ids = (if need then the (update_messages update) else [])"
  have fin: "finite S" and win: "is_window S (b_ids b) (b_skippedBefore b) (b_skippedAfter b)"
    using b(1) by (auto simp: builder_agrees_def)
  have ids: "need" "sorted_wrt (<) ids" "set ids = S \<inter> {?f..?t}" "?f \<le> ?t" if "ids \<noteq> []"
  proof -
    show need using that by (auto simp: ids_def split: if_splits)
    then obtain ms where "update_messages update = Some ms" by (auto simp: need_def)
    then show "sorted_wrt (<) ids" "set ids = S \<inter> {?f..?t}" "?f \<le> ?t"
      using u \<open>need\<close> by (simp_all add: ids_def update_agrees_def)
  qed
  have "\<exists>c. merge_slice_data kind (update_count update) ids (if ?f = kind_lo kind then Some 0 else None)
    (if ?t = kind_hi kind then Some 0 else None) b = Some (fill_and_slice kind c) \<and> builder_agrees S c
    \<and> same_view b c \<and> set (b_ids c) = set (b_ids b) \<union> set ids"
  proof (rule merge_slice_data_agrees [OF b(1) _ _ _ _ kind(2)])
    show "count_agrees S (update_count update)" using u by (simp add: update_agrees_def)
    assume ne: "ids \<noteq> []"
    note i = ids [OF ne]
    show "\<exists>l h. set (b_ids b) \<union> set ids = S \<inter> {l..h}"
    proof (cases "b_ids b = []")
      case False
      have "?f \<le> last (b_ids b)" "hd (b_ids b) \<le> ?t" using i(1) False by (auto simp: need_def intersects_def)
      moreover have "hd (b_ids b) \<le> last (b_ids b)"
        using window_sorted(1) [OF win fin] False strict_sorted_hd_le by fastforce
      ultimately show ?thesis
        using interval_union [of ?f "last (b_ids b)" "hd (b_ids b)" ?t S] i(3,4) window_bounds(1) [OF win fin False]
        by metis
    qed (use i(3) in auto)
    have "hd ids \<in> set ids" "last ids \<in> set ids" using ne by auto
    then have e: "hd ids \<le> ?t" "?f \<le> last ids" using i(3) by auto
    have "x \<in> set ids" if "?f = kind_lo kind" "x \<in> S" "x < hd ids" for x
      using that kind(1) e unfolding i(3) by auto
    then have "S \<inter> {..<hd ids} = {}" if "?f = kind_lo kind"
      using that strict_sorted_hd_le [OF i(2)] by fastforce
    then show "(if ?f = kind_lo kind then Some 0 else None) = None
      \<or> (if ?f = kind_lo kind then Some 0 else None) = Some (int (card (S \<inter> {..<hd ids})))" by simp
    have "x \<in> set ids" if "?t = kind_hi kind" "x \<in> S" "last ids < x" for x
      using that kind(1) e unfolding i(3) by auto
    then have "S \<inter> {last ids<..} = {}" if "?t = kind_hi kind"
      using that strict_sorted_le_last [OF i(2)] by fastforce
    then show "(if ?t = kind_hi kind then Some 0 else None) = None
      \<or> (if ?t = kind_hi kind then Some 0 else None) = Some (int (card (S \<inter> {last ids<..})))" by simp
  qed
  then obtain c where c: "merge_slice_data kind (update_count update) ids (if ?f = kind_lo kind then Some 0 else None)
      (if ?t = kind_hi kind then Some 0 else None) b = Some (fill_and_slice kind c)" "builder_agrees S c"
    "same_view b c" "set (b_ids c) = set (b_ids b) \<union> set ids" by blast
  have "around_key S (b_key b) (b_ids c)"
  proof (rule around_key_grows [OF b(2)])
    show "sorted_wrt (<) (b_ids c)" using c(2) window_sorted(1) by (auto simp: builder_agrees_def)
    show "set (b_ids c) = S \<inter> {?f..?t}" "?f \<le> b_key b" "b_key b \<le> ?t" if "b_ids b = []" "b_ids c \<noteq> []"
    proof -
      have "ids \<noteq> []" using c(4) that by auto
      note i = ids [OF this]
      show "set (b_ids c) = S \<inter> {?f..?t}" "?f \<le> b_key b" "b_key b \<le> ?t"
        using i that c(4) by (auto simp: need_def intersects_def)
    qed
  qed (use c(4) in auto)
  then show ?thesis
    using c unfolding apply_update_def Let_def need_def [symmetric] ids_def [symmetric] by (auto simp: same_view_def)
qed

text \<open>A deleted message.\<close>

lemma sorted_list_remove:
  "finite S \<Longrightarrow> sorted_list_of_set (S - {m}) = filter (\<lambda>x. x \<noteq> m) (sorted_list_of_set S)"
  by (rule strict_sorted_unique) (auto simp: sorted_wrt_filter)

lemma length_filter_removed:
  "distinct xs \<Longrightarrow> int (length (filter (\<lambda>x. x \<noteq> m) xs)) = int (length xs) - (if m \<in> set xs then 1 else 0)"
  by (induction xs) auto

lemma remove_one_agrees:
  assumes b: "builder_agrees S b" and m: "m \<in> S" and ne: "b_ids b \<noteq> []"
  shows "builder_agrees (S - {m}) (snd (remove_one m b))"
proof -
  have fin: "finite S" using b by (simp add: builder_agrees_def)
  obtain pre post where w: "sorted_list_of_set S = pre @ b_ids b @ post"
    "b_skippedBefore b = None \<or> b_skippedBefore b = Some (int (length pre))"
    "b_skippedAfter b = None \<or> b_skippedAfter b = Some (int (length post))"
    using b by (auto simp: builder_agrees_def is_window_def)
  let ?F = "filter (\<lambda>x. x \<noteq> m)"
  have w': "sorted_list_of_set (S - {m}) = ?F pre @ ?F (b_ids b) @ ?F post"
    using sorted_list_remove [OF fin, of m] w(1) by simp
  have all: "sorted_wrt (<) (pre @ b_ids b @ post)" "set (pre @ b_ids b @ post) = S"
    unfolding w(1) [symmetric] using fin by simp_all
  have d: "distinct pre" "distinct post" "set pre \<inter> set (b_ids b) = {}" "set post \<inter> set (b_ids b) = {}" "set pre \<inter> set post = {}"
    using all(1) by (auto simp: sorted_wrt_append strict_sorted_iff)
  have less: "\<forall>x \<in> set pre. x < hd (b_ids b)" "\<forall>x \<in> set post. last (b_ids b) < x \<and> hd (b_ids b) < x"
    "\<forall>x \<in> set pre. x < last (b_ids b)"
    using all(1) ne by (auto simp: sorted_wrt_append)
  have lens: "int (length (?F pre)) = int (length pre) - (if m \<in> set pre then 1 else 0)"
    "int (length (?F post)) = int (length post) - (if m \<in> set post then 1 else 0)"
    using d by (simp_all add: length_filter_removed)
  have same: "m \<notin> set (b_ids b) \<Longrightarrow> ?F (b_ids b) = b_ids b" by (auto intro: filter_True)
  have cnt: "count_agrees (S - {m}) (b_fullCount (snd (remove_one m b)))"
    using b m fin by (auto simp: builder_agrees_def count_agrees_def remove_one_def Let_def card_gt_0_iff
        of_nat_diff Suc_leI split: option.splits)
  consider "m \<in> set (b_ids b)" | "m \<in> set pre" | "m \<in> set post" using m all(2) by auto
  then have "is_window (S - {m}) (b_ids (snd (remove_one m b))) (b_skippedBefore (snd (remove_one m b)))
      (b_skippedAfter (snd (remove_one m b)))"
  proof cases
    case 1
    then have "m \<notin> set pre" "m \<notin> set post" using d by auto
    then show ?thesis
      using 1 w(2,3) lens by (intro is_windowI [of _ "?F pre" _ "?F post"]) (auto simp: remove_one_def Let_def w' flat_remove_def)
  next
    case 2
    then have "m \<notin> set (b_ids b)" "m \<notin> set post" "0 < length pre" "m < hd (b_ids b)" "m < last (b_ids b)"
      using d less(1,3) by (auto simp: length_pos_if_in_set)
    then have "m \<notin> set (b_ids b)" "m \<notin> set post" "0 < length pre" "m < hd (b_ids b)" "\<not> last (b_ids b) < m"
      by auto
    then show ?thesis
      using 2 w(2,3) lens same ne by (intro is_windowI [of _ "?F pre" _ "?F post"]) (auto simp: remove_one_def Let_def w' split: option.splits)
  next
    case 3
    then have "m \<notin> set (b_ids b)" "m \<notin> set pre" "0 < length post" "last (b_ids b) < m" "\<not> m < hd (b_ids b)"
      using d less(2) by (auto simp: length_pos_if_in_set dest: less_asym)
    then show ?thesis
      using 3 w(2,3) lens same ne by (intro is_windowI [of _ "?F pre" _ "?F post"]) (auto simp: remove_one_def Let_def w' split: option.splits)
  qed
  with cnt fin show ?thesis by (simp add: builder_agrees_def)
qed

section \<open>The window around the key\<close>

text \<open>The ids before the key and those from it on.\<close>

lemma split_at_key:
  fixes ids :: "'a::linorder list"
  assumes "sorted_wrt (<) ids" "a = lower_bound (\<lambda>x. x) ids key"
  shows "\<forall>x \<in> set (take a ids). x < key" "\<forall>x \<in> set (drop a ids). key \<le> x"
proof -
  show "\<forall>x \<in> set (take a ids). x < key"
    using lower_bound_below [of _ "\<lambda>x. x" ids key] by (auto simp: assms(2) in_set_conv_nth)
  have "sorted_wrt (\<le>) ids" using assms(1) by (rule sorted_wrt_mono_rel [rotated]) simp
  then show "\<forall>x \<in> set (drop a ids). key \<le> x"
    using lower_bound_above [of "\<lambda>x. x" ids key] by (auto simp: assms(2) in_set_conv_nth)
qed

lemma take_from_end: "take (length (xs @ ys) - (length ys - k)) (xs @ ys) = xs @ take k ys"
  by (cases "k \<le> length ys") simp_all

lemma slice_to_limits_ids:
  assumes "kind_given kind (b_key b)" "0 \<le> b_limitBefore b" "0 \<le> b_limitAfter b" "a = lower_bound (\<lambda>x. x) (b_ids b) (b_key b)"
  shows "b_ids (slice_to_limits kind b)
    = drop (a - nat (b_limitBefore b)) (take a (b_ids b)) @ take (nat (b_limitAfter b) + 1) (drop a (b_ids b))"
proof -
  let ?n = "int a - b_limitBefore b" and ?m = "int (length (b_ids b)) - int a - b_limitAfter b - 1"
  have a: "a \<le> length (b_ids b)" using assms(4) by simp
  define c where "c = (if ?n > 0 then cut_begin ?n b
     else if ?n < 0 \<and> (b_skippedBefore b = None \<or> the (b_skippedBefore b) > 0) then request_messages RequestBefore b else b)"
  have "b_ids c = drop (nat ?n) (b_ids b)" by (simp add: c_def cut_begin_def)
  moreover have n: "nat ?n = a - nat (b_limitBefore b)" using assms(2) by linarith
  ultimately have c: "b_ids c = drop (a - nat (b_limitBefore b)) (take a (b_ids b)) @ drop a (b_ids b)"
    using a by (metis (no_types, lifting) append_take_drop_id diff_is_0_eq diff_le_self drop_append le_trans length_take min.absorb2 drop0 nat_le_linear)
  have "nat ?m = length (drop a (b_ids b)) - (nat (b_limitAfter b) + 1)" using assms(3) a by simp
  then have "take (length (b_ids c) - nat ?m) (b_ids c)
      = drop (a - nat (b_limitBefore b)) (take a (b_ids b)) @ take (nat (b_limitAfter b) + 1) (drop a (b_ids b))"
    unfolding c by (simp only: take_from_end)
  moreover have "b_ids (if ?m > 0 then cut_end ?m c else if P then request_messages RequestAfter c else c)
      = take (length (b_ids c) - nat ?m) (b_ids c)" for P
    by (simp add: cut_end_def)
  ultimately show ?thesis
    using assms(1) unfolding slice_to_limits_def Let_def assms(4) [symmetric] c_def [symmetric] by simp
qed

lemma slice_to_limits_keeps [simp]:
  "b_key (slice_to_limits kind b) = b_key b" "b_limitBefore (slice_to_limits kind b) = b_limitBefore b"
  "b_limitAfter (slice_to_limits kind b) = b_limitAfter b"
  "b_fullCount (slice_to_limits kind b) = b_fullCount b"
  by (simp_all add: slice_to_limits_def Let_def request_messages_def request_messages_count_def cut_begin_def cut_end_def)

lemma around_key_cut:
  fixes S :: "'a::linorder set"
  assumes around: "around_key S key ids" and ids: "sorted_wrt (<) ids" "ids \<noteq> [] \<Longrightarrow> set ids = S \<inter> {hd ids..last ids}"
    and a: "a = lower_bound (\<lambda>x. x) ids key"
  shows "around_key S key (drop k (take a ids) @ take (Suc j) (drop a ids))"
proof (cases "drop k (take a ids) @ take (Suc j) (drop a ids) = []")
  case False
  let ?A = "take a ids" and ?B = "drop a ids"
  let ?r = "drop k ?A @ take (Suc j) ?B"
  have ne: "ids \<noteq> []" using False by auto
  have sub: "set ?r \<subseteq> set ids" by (auto dest: in_set_dropD in_set_takeD)
  then have ends: "hd ids \<le> last ?r" "hd ?r \<le> last ids" "hd ?r \<in> set ?r" "last ?r \<in> set ?r"
    using False ids(1) strict_sorted_hd_le strict_sorted_le_last by (metis hd_in_set last_in_set subsetD)+
  note A = split_at_key(1) [OF ids(1) a] and B = split_at_key(2) [OF ids(1) a]
  have sorted: "sorted_wrt (<) ?A" "sorted_wrt (<) ?B" using ids(1) by (simp_all add: sorted_wrt_take sorted_wrt_drop)
  have mem: "x \<in> set ?A \<union> set ?B" if "x \<in> S" "hd ids \<le> x" "x \<le> last ids" for x
    using that ids(2) [OF ne] by (metis append_take_drop_id set_append Int_iff atLeastAtMost_iff)
  have "x < key" if x: "x \<in> S" "x < hd ?r" for x
  proof (rule ccontr)
    assume k: "\<not> x < key"
    then have "hd ids \<le> x" using around ne x(1) by (auto simp: around_key_def)
    moreover have "x \<le> last ids" using x(2) ends(2) by simp
    ultimately have xB: "x \<in> set ?B" using mem x(1) A k by blast
    then have "hd ?B \<le> x" by (rule strict_sorted_hd_le [OF sorted(2)])
    moreover have "hd ?r \<in> set ?A \<or> hd ?r = hd ?B"
      using xB set_drop_subset [of k ?A] by (cases "drop k ?A") (auto simp: hd_append take_Suc neq_Nil_conv)
    ultimately show False using x(2) A k by force
  qed
  moreover have "key \<le> x" if x: "x \<in> S" "last ?r < x" for x
  proof (rule ccontr)
    assume k: "\<not> key \<le> x"
    then have "x \<le> last ids" using around ne x(1) by (auto simp: around_key_def)
    moreover have "hd ids \<le> x" using x(2) ends(1) by simp
    ultimately have xA: "x \<in> set ?A" using mem x(1) B k by blast
    then have "x \<le> last ?A" by (rule strict_sorted_le_last [OF sorted(1)])
    moreover have "last ?r \<in> set ?B \<or> last ?r = last ?A"
    proof (cases "take (Suc j) ?B = []")
      case True
      then show ?thesis using False by (simp add: last_drop)
    next
      case nonempty: False
      then have "last ?r \<in> set (take (Suc j) ?B)" by (metis last_appendR last_in_set)
      then show ?thesis by (meson in_set_takeD)
    qed
    ultimately show False using x(2) B k by force
  qed
  ultimately show ?thesis by (simp add: around_key_def)
qed (unfold around_key_def, blast)

lemma fill_and_slice_ok:
  assumes b: "builder_ok S b"
  shows "builder_ok S (fill_and_slice kind b)"
proof -
  have fin: "finite S" and win: "is_window S (b_ids b) (b_skippedBefore b) (b_skippedAfter b)"
    and around: "around_key S (b_key b) (b_ids b)" and lim: "0 \<le> b_limitBefore b" "0 \<le> b_limitAfter b"
    using b by (auto simp: builder_ok_def builder_agrees_def)
  have "around_key S (b_key b) (b_ids (slice_to_limits kind (fill_skipped b)))"
  proof (cases "kind_given kind (b_key b)")
    case True
    show ?thesis
      using slice_to_limits_ids [of kind "fill_skipped b"] True lim
        around_key_cut [OF around window_sorted(1) [OF win fin] window_bounds(1) [OF win fin] refl]
      by simp
  qed (use around in \<open>simp add: slice_to_limits_def\<close>)
  then show ?thesis
    using b fill_and_slice_agrees by (auto simp: builder_ok_def fill_and_slice_def)
qed

text \<open>A builder that shows something and does not ask for more shows exactly what the viewer wants.\<close>

lemma ideal_window_split:
  fixes S :: "'a::linorder set"
  assumes hist: "sorted_list_of_set S = pre @ ids @ post" "finite S" and ne: "ids \<noteq> []" and around: "around_key S key ids"
    and a: "a = lower_bound (\<lambda>x. x) ids key"
  shows "sorted_list_of_set (S \<inter> {..<key}) = pre @ take a ids" "sorted_list_of_set (S \<inter> {key..}) = drop a ids @ post"
proof -
  have all: "sorted_wrt (<) (pre @ ids @ post)" "set (pre @ ids @ post) = S"
    unfolding hist(1) [symmetric] using hist(2) by simp_all
  have ids: "sorted_wrt (<) ids" using all(1) by (simp add: sorted_wrt_append)
  note A = split_at_key(1) [OF ids a] and B = split_at_key(2) [OF ids a]
  have out: "\<forall>x \<in> set pre. x < hd ids" "\<forall>x \<in> set post. last ids < x"
    using all(1) ne by (auto simp: sorted_wrt_append)
  then have key: "\<forall>x \<in> set pre. x < key" "\<forall>x \<in> set post. key \<le> x"
    using around ne all(2) by (auto simp: around_key_def)
  have parts: "S = set (pre @ take a ids) \<union> set (drop a ids @ post)"
    unfolding all(2) [symmetric] by (simp, subst (1) append_take_drop_id [of a ids, symmetric], simp only: set_append Un_assoc)
  have low: "\<forall>x \<in> set (pre @ take a ids). x < key" and high: "\<forall>x \<in> set (drop a ids @ post). key \<le> x"
    using key A B by auto
  have "set (pre @ take a ids) = S \<inter> {..<key}" "set (drop a ids @ post) = S \<inter> {key..}"
    unfolding parts using low high by (fastforce simp: not_le [symmetric])+
  moreover have "(pre @ take a ids) @ drop a ids @ post = pre @ ids @ post" by simp
  then have "sorted_wrt (<) ((pre @ take a ids) @ drop a ids @ post)" using all(1) by metis
  then have "sorted_wrt (<) (pre @ take a ids)" "sorted_wrt (<) (drop a ids @ post)" by (simp_all add: sorted_wrt_append)
  ultimately show "sorted_list_of_set (S \<inter> {..<key}) = pre @ take a ids"
    "sorted_list_of_set (S \<inter> {key..}) = drop a ids @ post"
    using hist(2) by (intro strict_sorted_unique; simp)+
qed

lemma slice_to_limits_silent:
  assumes "kind_given kind (b_key b)" "b_requests (slice_to_limits kind b) = b_requests b"
    and a: "a = lower_bound (\<lambda>x. x) (b_ids b) (b_key b)" and lim: "0 \<le> b_limitBefore b" "0 \<le> b_limitAfter b"
  shows "b_fullCount b \<noteq> None" "int a < b_limitBefore b \<Longrightarrow> \<exists>k. b_skippedBefore b = Some k \<and> k \<le> 0"
    "int (length (b_ids b)) - int a < b_limitAfter b + 1 \<Longrightarrow> \<exists>k. b_skippedAfter b = Some k \<and> k \<le> 0"
  using assms unfolding slice_to_limits_def Let_def a [symmetric]
  by (auto simp: request_messages_def request_messages_count_def cut_begin_def cut_end_def Let_def split: if_splits)

lemma silent_is_ideal:
  assumes b: "builder_ok S b" and given: "kind_given kind (b_key b)" and ne: "b_ids b \<noteq> []"
    and silent: "b_requests (fill_and_slice kind b) = b_requests b"
  shows "b_ids (fill_and_slice kind b) = ideal_window S (b_key b) (b_limitBefore b) (b_limitAfter b)"
    "b_fullCount (fill_and_slice kind b) = Some (int (card S))"
proof -
  let ?b = "fill_skipped b" and ?a = "lower_bound (\<lambda>x. x) (b_ids b) (b_key b)"
  have ok: "builder_agrees S ?b" and fin: "finite S" and around: "around_key S (b_key b) (b_ids b)"
    and lim: "0 \<le> b_limitBefore b" "0 \<le> b_limitAfter b"
    using b fill_skipped_agrees by (auto simp: builder_ok_def builder_agrees_def)
  obtain pre post where hist: "sorted_list_of_set S = pre @ b_ids b @ post"
    "b_skippedBefore ?b = None \<or> b_skippedBefore ?b = Some (int (length pre))"
    "b_skippedAfter ?b = None \<or> b_skippedAfter ?b = Some (int (length post))"
    using ok by (auto simp: builder_agrees_def is_window_def)
  have req: "b_requests (slice_to_limits kind ?b) = b_requests ?b"
    using silent by (simp add: fill_and_slice_def fill_skipped_def split: option.splits)
  have s: "b_fullCount b \<noteq> None" "int ?a < b_limitBefore b \<Longrightarrow> \<exists>k. b_skippedBefore ?b = Some k \<and> k \<le> 0"
    "int (length (b_ids b)) - int ?a < b_limitAfter b + 1 \<Longrightarrow> \<exists>k. b_skippedAfter ?b = Some k \<and> k \<le> 0"
    using slice_to_limits_silent [of kind ?b, OF _ req refl] given lim by simp_all
  have pre: "pre = []" if "int ?a < b_limitBefore b" using s(2) [OF that] hist(2) by auto
  have post: "post = []" if "int (length (b_ids b)) - int ?a < b_limitAfter b + 1" using s(3) [OF that] hist(3) by auto
  have a: "?a \<le> length (b_ids b)" by simp
  have lenA: "length (take ?a (b_ids b)) = ?a" by simp
  have "drop (length (pre @ take ?a (b_ids b)) - nat (b_limitBefore b)) (pre @ take ?a (b_ids b))
      = drop (?a - nat (b_limitBefore b)) (take ?a (b_ids b))"
    using pre lim(1) by (cases "int ?a < b_limitBefore b") (auto simp: nat_le_iff)
  moreover have "take (nat (b_limitAfter b) + 1) (drop ?a (b_ids b) @ post) = take (nat (b_limitAfter b) + 1) (drop ?a (b_ids b))"
    using post lim(2) by (cases "int (length (b_ids b)) - int ?a < b_limitAfter b + 1") auto
  ultimately show "b_ids (fill_and_slice kind b) = ideal_window S (b_key b) (b_limitBefore b) (b_limitAfter b)"
    using slice_to_limits_ids [of kind ?b] given lim ideal_window_split [OF hist(1) fin ne around refl]
    by (simp add: fill_and_slice_def ideal_window_def Let_def)
  show "b_fullCount (fill_and_slice kind b) = Some (int (card S))"
    using s(1) b by (auto simp: fill_and_slice_def builder_ok_def builder_agrees_def count_agrees_def)
qed

end
