(* ===== verification/SparseIds.thy ===== *)
theory SparseIds
  imports SliceBuilder SparseIdsList
begin

text \<open>
  data/data_abstract_sparse_ids.h and data/data_sparse_ids.h and .cpp: the slice a viewer shows
  (\<open>AbstractSparseIds\<close>), the slice of a chat merged with the chat it was migrated from
  (\<open>SparseIdsMergedSlice\<close>), and the builder that keeps a slice up to date
  (\<open>SparseIdsSliceBuilder\<close>, an instance of the common builder). A failed \<open>Expects\<close> and a read of an
  empty \<open>std::optional\<close> are the outer \<open>None\<close> of a result.
\<close>

section \<open>Definitions: slices\<close>

record sparse_ids =
  s_ids :: "MsgId list"
  s_fullCount :: "int option"
  s_skippedBefore :: "int option"
  s_skippedAfter :: "int option"

definition no_sparse_ids :: sparse_ids where
  "no_sparse_ids = \<lparr>s_ids = [], s_fullCount = None, s_skippedBefore = None, s_skippedAfter = None\<rparr>"

definition s_indexOf :: "MsgId \<Rightarrow> sparse_ids \<Rightarrow> int option" where
  "s_indexOf msgId s = map_option int (find_index msgId (s_ids s))"

definition s_size :: "sparse_ids \<Rightarrow> int" where
  "s_size s = int (length (s_ids s))"

definition s_at :: "int \<Rightarrow> sparse_ids \<Rightarrow> MsgId option" where
  "s_at index s = (if 0 \<le> index \<and> index < s_size s then Some (s_ids s ! nat index) else None)"

definition s_distance :: "MsgId \<Rightarrow> MsgId \<Rightarrow> sparse_ids \<Rightarrow> int option" where
  "s_distance a b s = do { i \<leftarrow> s_indexOf a s; j \<leftarrow> s_indexOf b s; Some (j - i) }"

definition s_nearest :: "MsgId \<Rightarrow> sparse_ids \<Rightarrow> MsgId option" where
  "s_nearest msgId s =
     (let i = lower_bound (\<lambda>x. x) (s_ids s) msgId
      in if i < length (s_ids s) then Some (s_ids s ! i)
         else if s_ids s = [] then None
         else Some (last (s_ids s)))"

definition s_reverse :: "sparse_ids \<Rightarrow> sparse_ids" where
  "s_reverse s = s\<lparr>s_ids := rev (s_ids s), s_skippedBefore := s_skippedAfter s, s_skippedAfter := s_skippedBefore s\<rparr>"

section \<open>Definitions: merged slices\<close>

record merged_key =
  peerId :: uint64
  scheduled :: bool
  migratedPeerId :: uint64
  universalId :: MsgId

definition new_key :: "uint64 \<Rightarrow> uint64 \<Rightarrow> MsgId \<Rightarrow> bool \<Rightarrow> merged_key" where
  "new_key chat migrated universal sched =
     \<lparr>peerId = chat, scheduled = sched, migratedPeerId = (if sched then 0 else migrated), universalId = universal\<rparr>"

record merged_slice =
  m_key :: merged_key
  m_part :: sparse_ids
  m_migrated :: "sparse_ids option"
  m_unsorted :: "sparse_ids option"

definition PartKey :: "merged_key \<Rightarrow> MsgId" where
  "PartKey key = (if universalId key < 0 then 1 else universalId key)"

definition MigratedKey :: "merged_key \<Rightarrow> MsgId" where
  "MigratedKey key =
     (if universalId key < 0 then ServerMaxMsgId + universalId key
      else if universalId key > 0 then ServerMaxMsgId - 1 else 0)"

definition MigratedSlice :: "merged_key \<Rightarrow> sparse_ids option" where
  "MigratedSlice key = (if migratedPeerId key \<noteq> 0 then Some no_sparse_ids else None)"

definition merged_of_parts :: "merged_key \<Rightarrow> sparse_ids \<Rightarrow> sparse_ids option \<Rightarrow> merged_slice" where
  "merged_of_parts key part migrated = \<lparr>m_key = key, m_part = part, m_migrated = migrated, m_unsorted = None\<rparr>"

definition merged_of_key :: "merged_key \<Rightarrow> merged_slice" where
  "merged_of_key key = merged_of_parts key no_sparse_ids (MigratedSlice key)"

definition merged_of_unsorted :: "merged_key \<Rightarrow> sparse_ids \<Rightarrow> merged_slice" where
  "merged_of_unsorted key s = \<lparr>m_key = key, m_part = no_sparse_ids, m_migrated = None, m_unsorted = Some s\<rparr>"

definition ComputeId :: "merged_key \<Rightarrow> FullMsgId" where
  "ComputeId key =
     (if universalId key \<ge> 0 then FullMsgId (peerId key) (universalId key)
      else FullMsgId (migratedPeerId key) (ServerMaxMsgId + universalId key))"

definition Add :: "int option \<Rightarrow> int option \<Rightarrow> int option" where
  "Add a b = (case (a, b) of (Some x, Some y) \<Rightarrow> Some (x + y) | _ \<Rightarrow> None)"

definition isFromPart :: "FullMsgId \<Rightarrow> merged_slice \<Rightarrow> bool" where
  "isFromPart fid s \<longleftrightarrow> peerId (m_key s) = peer fid"

definition isFromMigrated :: "FullMsgId \<Rightarrow> merged_slice \<Rightarrow> bool" where
  "isFromMigrated fid s \<longleftrightarrow> (if m_migrated s \<noteq> None then migratedPeerId (m_key s) = peer fid else False)"

definition isolatedInPart :: "merged_slice \<Rightarrow> bool" where
  "isolatedInPart s \<longleftrightarrow> IsServerMsgId (universalId (m_key s))
     \<and> (m_migrated s = None \<or> s_skippedBefore (m_part s) \<noteq> Some 0)"

definition isolatedInMigrated :: "merged_slice \<Rightarrow> bool option" where
  "isolatedInMigrated s =
     (if IsServerMsgId (ServerMaxMsgId + universalId (m_key s))
      then map_option (\<lambda>g. s_skippedAfter g \<noteq> Some 0) (m_migrated s) else Some False)"

definition migratedSize :: "merged_slice \<Rightarrow> int option" where
  "migratedSize s = (if isolatedInPart s then Some 0 else map_option s_size (m_migrated s))"

definition m_fullCount :: "merged_slice \<Rightarrow> int option" where
  "m_fullCount s =
     (case m_unsorted s of
        Some u \<Rightarrow> s_fullCount u
      | None \<Rightarrow> Add (s_fullCount (m_part s)) (case m_migrated s of Some g \<Rightarrow> s_fullCount g | None \<Rightarrow> Some 0))"

definition m_skippedBefore :: "merged_slice \<Rightarrow> int option option" where
  "m_skippedBefore s =
     (case m_unsorted s of
        Some u \<Rightarrow> Some (s_skippedBefore u)
      | None \<Rightarrow> do {
          inMigrated \<leftarrow> isolatedInMigrated s;
          Some (Add (if inMigrated then Some 0 else s_skippedBefore (m_part s))
                 (case m_migrated s of
                    Some g \<Rightarrow> if isolatedInPart s then s_fullCount g else s_skippedBefore g
                  | None \<Rightarrow> Some 0)) })"

definition m_skippedAfter :: "merged_slice \<Rightarrow> int option option" where
  "m_skippedAfter s =
     (case m_unsorted s of
        Some u \<Rightarrow> Some (s_skippedAfter u)
      | None \<Rightarrow> do {
          inMigrated \<leftarrow> isolatedInMigrated s;
          migrated \<leftarrow> (if isolatedInPart s then Some (Some 0) else map_option s_skippedAfter (m_migrated s));
          Some (Add (if inMigrated then s_fullCount (m_part s) else s_skippedAfter (m_part s)) migrated) })"

definition m_indexOf :: "FullMsgId \<Rightarrow> merged_slice \<Rightarrow> int option option" where
  "m_indexOf fid s =
     (case m_unsorted s of
        Some u \<Rightarrow> Some (s_indexOf (msg fid) u)
      | None \<Rightarrow>
          if isFromPart fid s
          then do { n \<leftarrow> migratedSize s; Some (map_option (\<lambda>i. i + n) (s_indexOf (msg fid) (m_part s))) }
          else if isolatedInPart s then Some None
          else if isFromMigrated fid s then map_option (s_indexOf (msg fid)) (m_migrated s)
          else Some None)"

definition m_size :: "merged_slice \<Rightarrow> int option" where
  "m_size s =
     (case m_unsorted s of
        Some u \<Rightarrow> Some (s_size u)
      | None \<Rightarrow> do {
          n \<leftarrow> (if isolatedInPart s then Some 0 else migratedSize s);
          inMigrated \<leftarrow> isolatedInMigrated s;
          Some (n + (if inMigrated then 0 else s_size (m_part s))) })"

definition m_at :: "int \<Rightarrow> merged_slice \<Rightarrow> FullMsgId option" where
  "m_at index s =
     do { n \<leftarrow> m_size s;
          if \<not> (0 \<le> index \<and> index < n) then None
          else case m_unsorted s of
            Some u \<Rightarrow> map_option (FullMsgId (peerId (m_key s))) (s_at index u)
          | None \<Rightarrow> do {
              migrated \<leftarrow> migratedSize s;
              if migrated \<noteq> 0 \<and> index < migrated
              then do { g \<leftarrow> m_migrated s; map_option (FullMsgId (migratedPeerId (m_key s))) (s_at index g) }
              else map_option (FullMsgId (peerId (m_key s))) (s_at (index - migrated) (m_part s)) } }"

definition m_distance :: "merged_key \<Rightarrow> merged_key \<Rightarrow> merged_slice \<Rightarrow> int option option" where
  "m_distance a b s =
     do { i \<leftarrow> m_indexOf (ComputeId a) s;
          case i of
            None \<Rightarrow> Some None
          | Some i \<Rightarrow> do { j \<leftarrow> m_indexOf (ComputeId b) s; Some (map_option (\<lambda>j. j - i) j) } }"

definition m_nearest :: "MsgId \<Rightarrow> merged_slice \<Rightarrow> FullMsgId option option" where
  "m_nearest msgId s =
     (let fromPart = FullMsgId (peerId (m_key s)); fromMigrated = FullMsgId (migratedPeerId (m_key s))
      in case m_unsorted s of
        Some u \<Rightarrow>
          if s_indexOf msgId u \<noteq> None then Some (Some (fromPart msgId))
          else if s_size u \<noteq> 0 then map_option (\<lambda>x. Some (fromPart x)) (s_at (s_size u div 2) u)
          else Some None
      | None \<Rightarrow>
          if IsServerMsgId msgId then
            (case s_nearest msgId (m_part s) of
               Some x \<Rightarrow> Some (Some (fromPart x))
             | None \<Rightarrow> if isolatedInPart s then Some None
                       else map_option (\<lambda>g. map_option fromMigrated (s_nearest (ServerMaxMsgId - 1) g)) (m_migrated s))
          else
            (case (case m_migrated s of Some g \<Rightarrow> s_nearest (msgId + ServerMaxMsgId) g | None \<Rightarrow> None) of
               Some x \<Rightarrow> Some (Some (fromMigrated x))
             | None \<Rightarrow> do { inMigrated \<leftarrow> isolatedInMigrated s;
                            Some (if inMigrated then None else map_option fromPart (s_nearest 0 (m_part s))) }))"

text \<open>
  \<open>CreateViewer\<close>: its contracts, and the merged slice it puts when the viewers of the two chats,
  given as \<open>simpleViewer\<close>, have put theirs.
\<close>

definition CreateViewer :: "merged_key \<Rightarrow> int \<Rightarrow> int \<Rightarrow> (uint64 \<Rightarrow> MsgId \<Rightarrow> int \<Rightarrow> int \<Rightarrow> sparse_ids) \<Rightarrow> merged_slice option" where
  "CreateViewer key before after simpleViewer =
     (if \<not> (IsServerMsgId (universalId key) \<or> universalId key = 0
            \<or> (IsServerMsgId (ServerMaxMsgId + universalId key) \<and> migratedPeerId key \<noteq> 0)) then None
      else if \<not> (universalId key \<noteq> 0 \<or> (before = 0 \<and> after = 0)) then None
      else
        let part = simpleViewer (peerId key) (PartKey key) before after
        in if migratedPeerId key = 0 then Some (merged_of_parts key part None)
           else Some (merged_of_parts key part
                  (Some (simpleViewer (migratedPeerId key) (MigratedKey key) before after))))"

section \<open>Definitions: the builder\<close>

definition sparse_kind :: "MsgId builder_kind" where
  "sparse_kind =
     \<lparr>kind_given = (\<lambda>key. key \<noteq> 0), kind_none = 0, kind_impossible = -1, kind_possible = (\<lambda>x. x \<ge> 0),
      kind_lo = 0, kind_hi = ServerMaxMsgId\<rparr>"

definition applyInitial :: "MsgId list_result \<Rightarrow> MsgId builder \<Rightarrow> MsgId builder option" where
  "applyInitial r b = apply_initial sparse_kind r b"

definition applyUpdate :: "MsgId slice_update \<Rightarrow> MsgId builder \<Rightarrow> (bool \<times> MsgId builder) option" where
  "applyUpdate update b = apply_update sparse_kind update b"

definition checkInsufficient :: "MsgId builder \<Rightarrow> MsgId builder" where
  "checkInsufficient b = slice_to_limits sparse_kind b"

definition builder_removeOne :: "MsgId \<Rightarrow> MsgId builder \<Rightarrow> bool \<times> MsgId builder" where
  "builder_removeOne messageId b =
     (let (changed, b) = remove_one messageId b in (changed, if changed then checkInsufficient b else b))"

definition builder_removeAll :: "MsgId builder \<Rightarrow> MsgId builder" where
  "builder_removeAll b = b\<lparr>b_ids := [], b_fullCount := Some 0, b_skippedBefore := Some 0, b_skippedAfter := Some 0\<rparr>"

definition builder_invalidateBottom :: "MsgId builder \<Rightarrow> MsgId builder" where
  "builder_invalidateBottom b = checkInsufficient (b\<lparr>b_fullCount := None, b_skippedAfter := None\<rparr>)"

definition builder_snapshot :: "MsgId builder \<Rightarrow> sparse_ids" where
  "builder_snapshot b = \<lparr>s_ids = b_ids b, s_fullCount = b_fullCount b, s_skippedBefore = b_skippedBefore b,
                         s_skippedAfter = b_skippedAfter b\<rparr>"

text \<open>A builder over a list: the first snapshot, then every update that the list fires.\<close>

fun apply_updates :: "MsgId slice_update list \<Rightarrow> MsgId builder \<Rightarrow> MsgId builder option" where
  "apply_updates [] b = Some b"
| "apply_updates (u # us) b = do { (_, b) \<leftarrow> applyUpdate u b; apply_updates us b }"

text \<open>
  A merged slice as \<open>CreateViewer\<close> makes them for a message: without repeated ids, from two
  different chats, and with a migrated part unless the key is a message of the chat itself.
\<close>

definition merged_ok :: "merged_slice \<Rightarrow> bool" where
  "merged_ok s \<longleftrightarrow> m_unsorted s = None \<and> distinct (s_ids (m_part s))
     \<and> (case m_migrated s of
          Some g \<Rightarrow> distinct (s_ids g) \<and> migratedPeerId (m_key s) \<noteq> peerId (m_key s)
        | None \<Rightarrow> IsServerMsgId (universalId (m_key s)))"

definition counts_add_up :: "sparse_ids \<Rightarrow> bool" where
  "counts_add_up s \<longleftrightarrow> (\<exists>b a. s_skippedBefore s = Some b \<and> s_skippedAfter s = Some a \<and> s_fullCount s = Some (b + s_size s + a))"

section \<open>Lemmas\<close>

lemma find_index_nth: "distinct xs \<Longrightarrow> i < length xs \<Longrightarrow> find_index (xs ! i) xs = Some i"
proof -
  assume d: "distinct xs" "i < length xs"
  have "takeWhile (\<lambda>y. y \<noteq> xs ! i) xs = take i xs"
    using d by (intro takeWhile_eq_take_P_nth) (auto simp: nth_eq_iff_index_eq)
  then show ?thesis using d(2) by (simp add: find_index_def)
qed

lemma s_indexOf_at: "distinct (s_ids s) \<Longrightarrow> s_at i s = Some x \<Longrightarrow> s_indexOf x s = Some i"
  by (auto simp: s_at_def s_size_def s_indexOf_def find_index_nth split: if_splits)

lemma query_ids:
  assumes "0 \<le> limitBefore query" "0 \<le> limitAfter query" "sorted_wrt (<) (slice_messages s)"
    and a: "a = lower_bound (\<lambda>x. x) (slice_messages s) (aroundId query)"
  shows "messageIds (query_from_slice lo hi cnt query s)
    = drop (a - nat (limitBefore query)) (take a (slice_messages s)) @ take (nat (limitAfter query) + 1) (drop a (slice_messages s))"
proof -
  let ?ms = "slice_messages s"
  have al: "a \<le> length ?ms" by (simp add: a)
  define b where "b = min (int a) (limitBefore query)"
  define e where "e = min (int (length ?ms) - int a) (limitAfter query + 1)"
  have "nat (int a - b) = a - nat (limitBefore query)" using assms(1) by (auto simp: b_def)
  moreover have k: "a - nat (limitBefore query) \<le> a" by simp
  then have "drop (a - nat (limitBefore query)) ?ms = drop (a - nat (limitBefore query)) (take a ?ms) @ drop a ?ms"
    using al by (metis (no_types, lifting) append_take_drop_id diff_is_0_eq drop0 drop_append length_take min.absorb2)
  moreover have "int (length (drop (a - nat (limitBefore query)) (take a ?ms))) = b" "0 \<le> e"
    using assms(1,2) al by (simp_all add: b_def e_def min_def)
  then have "nat (b + e) = length (drop (a - nat (limitBefore query)) (take a ?ms)) + nat e" by linarith
  moreover have "take (nat e) (drop a ?ms) = take (nat (limitAfter query) + 1) (drop a ?ms)"
    using assms(2) al by (auto simp: e_def min_def nat_add_distrib)
  ultimately have ids: "take (nat (b + e)) (drop (nat (int a - b)) ?ms)
      = drop (a - nat (limitBefore query)) (take a ?ms) @ take (nat (limitAfter query) + 1) (drop a ?ms)" by simp
  have "sorted_wrt (<) (take (nat (b + e)) (drop (nat (int a - b)) ?ms))"
    using assms(3) by (simp add: sorted_wrt_take sorted_wrt_drop)
  then have "messageIds (query_from_slice lo hi cnt query s) = take (nat (b + e)) (drop (nat (int a - b)) ?ms)"
    by (simp add: query_from_slice_def Let_def flat_merge_Nil flip: a b_def e_def split: option.splits)
  then show ?thesis using ids by simp
qed

lemma sparse_kind_possible [simp]: "\<not> kind_possible sparse_kind (kind_impossible sparse_kind)"
  "kind_lo sparse_kind = 0" "kind_hi sparse_kind = ServerMaxMsgId" "kind_given sparse_kind k \<longleftrightarrow> k \<noteq> 0"
  by (simp_all add: sparse_kind_def)

text \<open>The first snapshot gives a builder that shows a window around its key.\<close>

lemma applyInitial_ok:
  assumes l: "list_agrees S l" and key: "key \<in> slices_covered (list_slices l)" "key \<noteq> 0" and lim: "0 \<le> before" "0 \<le> after"
  shows "\<exists>c. applyInitial (snapshot \<lparr>aroundId = key, limitBefore = before, limitAfter = after\<rparr> l) (new_builder key before after)
      = Some (fill_and_slice sparse_kind c) \<and> builder_ok S c \<and> same_view (new_builder key before after) c"
proof -
  let ?q = "\<lparr>aroundId = key, limitBefore = before, limitAfter = after\<rparr>"
  let ?i = "lower_bound range_till (list_slices l) key"
  have agree: "slices_agree S (list_slices l)" and fin: "finite S" using l by (auto simp: list_agrees_def)
  then have ok: "slices_ok (list_slices l)" by (simp add: slices_agree_def)
  obtain s where s: "find_slice (list_slices l) key = Some s" using key(1) find_slice_covered [OF ok] by blast
  then have i: "?i < length (list_slices l)" "range_from (list_slices l ! ?i) \<le> key" "s = list_slices l ! ?i"
    by (auto simp: find_slice_def Let_def split: if_splits)
  have snap: "snapshot ?q l = query_from_slice 0 ServerMaxMsgId (list_count l) ?q s"
    using i key(2) by (simp add: snapshot_def queryFromSlice_def)
  have sorted: "sorted_wrt (<) (slice_messages s)" and mem: "s \<in> set (list_slices l)" and rng: "range_from s \<le> key" "key \<le> range_till s"
    using find_slice_Some [OF s] slice_ok_mem [OF ok] by (auto simp: slice_ok_def)
  have win: "is_window S (messageIds (snapshot ?q l)) (skippedBefore (snapshot ?q l)) (skippedAfter (snapshot ?q l))"
    unfolding snap using query_from_slice_window [OF agree mem fin] l lim by (simp add: list_agrees_def)
  have cnt: "count_agrees S (result_count (snapshot ?q l))"
    unfolding snap using l by (auto simp: query_from_slice_def Let_def list_agrees_def split: option.splits)
  have around_s: "around_key S key (slice_messages s)"
    by (rule around_key_interval [OF sorted slices_agree_slice [OF agree mem] rng])
  have full_s: "slice_messages s \<noteq> [] \<Longrightarrow> set (slice_messages s) = S \<inter> {hd (slice_messages s)..last (slice_messages s)}"
    using interval_ends [OF sorted _ slices_agree_slice [OF agree mem]] by simp
  have around: "around_key S key (messageIds (snapshot ?q l))"
    unfolding snap using query_ids [of ?q s] lim sorted around_key_cut [OF around_s sorted full_s refl] by simp
  obtain c where c: "apply_initial sparse_kind (snapshot ?q l) (new_builder key before after) = Some (fill_and_slice sparse_kind c)"
    "builder_agrees S c" "same_view (new_builder key before after) c" "set (b_ids c) = set (messageIds (snapshot ?q l))"
    using apply_initial_agrees [OF fin win cnt sparse_kind_possible(1)] by blast
  have "b_ids c = messageIds (snapshot ?q l)"
    by (rule strict_sorted_unique [OF _ _ c(4)])
      (use c(2) window_sorted(1) [OF win fin] in \<open>auto simp: builder_agrees_def dest: window_sorted(1)\<close>)
  then have "builder_ok S c"
    using c(2,3) around lim by (simp add: builder_ok_def same_view_def new_builder_def)
  then show ?thesis using c by (auto simp: applyInitial_def)
qed

lemma applyUpdate_ok:
  assumes b: "builder_ok S b" and u: "update_agrees S u" and S: "S \<subseteq> {0..ServerMaxMsgId}"
  shows "applyUpdate u b = Some (False, b)
    \<or> (\<exists>c. applyUpdate u b = Some (True, fill_and_slice sparse_kind c) \<and> builder_ok S c \<and> same_view b c)"
  using apply_update_agrees [of S b u sparse_kind] assms
  by (auto simp: builder_ok_def applyUpdate_def same_view_def)

lemma apply_updates_ok:
  assumes "S \<subseteq> {0..ServerMaxMsgId}" "list_all (update_agrees S) us" "builder_ok S b"
  shows "\<exists>b'. apply_updates us b = Some b' \<and> builder_ok S b'"
  using assms(2,3)
proof (induction us arbitrary: b)
  case (Cons u us)
  then obtain ch b1 where "applyUpdate u b = Some (ch, b1)" "builder_ok S b1"
    using applyUpdate_ok [OF _ _ assms(1)] fill_and_slice_ok by (metis list.pred_inject(2))
  then show ?case using Cons by auto
qed simp

section \<open>Properties\<close>





text \<open>
  C14. The elements of a merged slice are numbered without gaps over the migrated chat and the
  chat: every index below the size has an element, and looking the element up gives the index
  back.
\<close>

theorem merged_index_roundtrip:
  assumes ok: "merged_ok s"
  shows "\<exists>n. m_size s = Some n \<and> (\<forall>i. 0 \<le> i \<and> i < n \<longrightarrow> (\<exists>f. m_at i s = Some f \<and> m_indexOf f s = Some (Some i)))"
proof -
  have u: "m_unsorted s = None" and part: "distinct (s_ids (m_part s))" using ok by (auto simp: merged_ok_def)
  have at_part: "\<exists>x. s_at j (m_part s) = Some x \<and> s_indexOf x (m_part s) = Some j" if "0 \<le> j" "j < s_size (m_part s)" for j
    using that s_indexOf_at [OF part] by (simp add: s_at_def)
  show ?thesis
  proof (cases "m_migrated s")
    case None
    then have "isolatedInPart s" "isolatedInMigrated s = Some False"
      using ok by (auto simp: merged_ok_def isolatedInPart_def isolatedInMigrated_def IsServerMsgId_def)
    then show ?thesis
      using u at_part by (fastforce simp: m_size_def m_at_def m_indexOf_def migratedSize_def isFromPart_def)
  next
    case (Some g)
    then have g: "distinct (s_ids g)" "migratedPeerId (m_key s) \<noteq> peerId (m_key s)" using ok by (auto simp: merged_ok_def)
    have at_g: "\<exists>x. s_at j g = Some x \<and> s_indexOf x g = Some j" if "0 \<le> j" "j < s_size g" for j
      using that s_indexOf_at [OF g(1)] by (simp add: s_at_def)
    have "isolatedInMigrated s \<noteq> None" using Some by (auto simp: isolatedInMigrated_def split: if_splits)
    then obtain im where im: "isolatedInMigrated s = Some im" by blast
    obtain k where k: "migratedSize s = Some k" "0 \<le> k" "isolatedInPart s \<longrightarrow> k = 0" "\<not> isolatedInPart s \<longrightarrow> k = s_size g"
      using Some that [of "if isolatedInPart s then 0 else s_size g"]
      by (simp add: migratedSize_def s_size_def split: if_splits)
    let ?n = "k + (if im then 0 else s_size (m_part s))"
    have n: "m_size s = Some ?n" using u im k Some by (simp add: m_size_def migratedSize_def split: if_splits)
    have "\<exists>f. m_at i s = Some f \<and> m_indexOf f s = Some (Some i)" if i: "0 \<le> i" "i < ?n" for i
    proof (cases "i < k")
      case True
      then have "\<not> isolatedInPart s" "i < s_size g" using k i by (auto split: if_splits)
      then obtain x where "s_at i g = Some x" "s_indexOf x g = Some i" using at_g i(1) by blast
      then show ?thesis
        using True n i u k Some g(2) \<open>\<not> isolatedInPart s\<close>
        by (simp add: m_at_def m_indexOf_def isFromPart_def isFromMigrated_def)
    next
      case False
      then have "0 \<le> i - k" "i - k < s_size (m_part s)" using i by (auto split: if_splits)
      then obtain x where "s_at (i - k) (m_part s) = Some x" "s_indexOf x (m_part s) = Some (i - k)" using at_part by blast
      then show ?thesis using False n i u k by (simp add: m_at_def m_indexOf_def isFromPart_def)
    qed
    then show ?thesis using n by blast
  qed
qed

theorem merged_index_roundtrip_witness:
  "\<exists>n. m_size (merged_of_parts (new_key 7 8 5 False) \<lparr>s_ids = [5, 6], s_fullCount = Some 2, s_skippedBefore = Some 0, s_skippedAfter = Some 0\<rparr>
        (Some \<lparr>s_ids = [5], s_fullCount = Some 1, s_skippedBefore = Some 0, s_skippedAfter = Some 0\<rparr>)) = Some n \<and> n = 3"
proof -
  let ?s = "merged_of_parts (new_key 7 8 5 False) \<lparr>s_ids = [5, 6], s_fullCount = Some 2, s_skippedBefore = Some 0, s_skippedAfter = Some 0\<rparr>
        (Some \<lparr>s_ids = [5], s_fullCount = Some 1, s_skippedBefore = Some 0, s_skippedAfter = Some 0\<rparr>)"
  have "merged_ok ?s" by (simp add: merged_ok_def merged_of_parts_def new_key_def)
  then have "\<exists>n. m_size ?s = Some n" using merged_index_roundtrip by blast
  moreover have "m_size ?s = Some 3"
    by (simp add: m_size_def merged_of_parts_def new_key_def isolatedInPart_def isolatedInMigrated_def migratedSize_def
        s_size_def IsServerMsgId_def ServerMaxMsgId_def)
  ultimately show ?thesis by simp
qed



text \<open>
  Two findings. A merged slice for no message (\<open>universalId\<close> zero, which \<open>CreateViewer\<close> accepts)
  of a chat without a migrated one has no size: \<open>migratedSize\<close> reads the empty \<open>_migrated\<close>. And a
  new message far from the window of a builder raises its count, but not the number of messages
  skipped after the window, so that the numbers stop adding up.
\<close>

lemma merged_size_undefined:
  "\<exists>s. CreateViewer (new_key 7 0 0 False) 0 0 viewer = Some s \<and> m_size s = None \<and> m_skippedAfter s = None"
  by (simp add: CreateViewer_def new_key_def merged_of_parts_def m_size_def m_skippedAfter_def migratedSize_def
      isolatedInPart_def isolatedInMigrated_def IsServerMsgId_def ServerMaxMsgId_def)

lemma new_message_breaks_counts:
  "let b = (new_builder 2 0 0 :: MsgId builder)\<lparr>b_ids := [2], b_fullCount := Some 3, b_skippedBefore := Some 1, b_skippedAfter := Some 1\<rparr>;
       upd = \<lparr>update_messages = Some [9], update_range = (9, ServerMaxMsgId), update_count = Some 4\<rparr>
   in builder_ok {1, 2, 3} b \<and> update_agrees {1, 2, 3, 9} upd
     \<and> applyUpdate upd b = Some (True, b\<lparr>b_fullCount := Some 4\<rparr>)
     \<and> counts_add_up (builder_snapshot b) \<and> \<not> counts_add_up (builder_snapshot (b\<lparr>b_fullCount := Some 4\<rparr>))"
proof -
  have w: "is_window {1, 2, 3 :: MsgId} [2] (Some 1) (Some 1)"
    by (rule is_windowI [of _ "[1]" _ "[3]"]) simp_all
  show ?thesis
    using w
    by (auto simp: Let_def builder_ok_def builder_agrees_def count_agrees_def around_key_def new_builder_def update_agrees_def
        applyUpdate_def apply_update_def intersects_def merge_slice_data_def merge_count_def fill_and_slice_def fill_skipped_def
        slice_to_limits_def lower_bound_def sparse_kind_def ServerMaxMsgId_def counts_add_up_def builder_snapshot_def s_size_def)
qed

end
