(* ===== verification/MessagesBuilder.thy ===== *)
theory MessagesBuilder
  imports SliceBuilder MessagesList
begin

text \<open>
  \<open>Data::MessagesSliceBuilder\<close> (data/data_messages.h and .cpp), the second instance of the common
  builder: it also keeps a range (written by \<open>removeAll\<close> only), can be invalidated as a whole, does
  not look for missing messages when one is removed, and its snapshot names the message nearest to
  the key.
\<close>

section \<open>Definitions\<close>

record messages_builder =
  mb_core :: "MessagePosition builder"
  mb_range :: MessagesRange

definition impossible :: MessagePosition where
  "impossible = MessagePosition (FullMsgId 0 0) (-1)"

definition messages_kind :: "MessagePosition builder_kind" where
  "messages_kind =
     \<lparr>kind_given = position_given, kind_none = no_position, kind_impossible = impossible,
      kind_possible = (\<lambda>x. x \<noteq> impossible), kind_lo = MinMessagePosition, kind_hi = MaxMessagePosition\<rparr>"

definition new_MessagesSliceBuilder :: "MessagePosition \<Rightarrow> int \<Rightarrow> int \<Rightarrow> messages_builder" where
  "new_MessagesSliceBuilder key before after =
     \<lparr>mb_core = new_builder key before after, mb_range = (no_position, no_position)\<rparr>"

definition requestMessages :: "RequestDirection \<Rightarrow> messages_builder \<Rightarrow> messages_builder" where
  "requestMessages direction b = b\<lparr>mb_core := request_messages direction (mb_core b)\<rparr>"

definition requestMessagesCount :: "messages_builder \<Rightarrow> messages_builder" where
  "requestMessagesCount b = b\<lparr>mb_core := request_messages_count messages_kind (mb_core b)\<rparr>"

definition sliceToLimits :: "messages_builder \<Rightarrow> messages_builder" where
  "sliceToLimits b = b\<lparr>mb_core := slice_to_limits messages_kind (mb_core b)\<rparr>"

definition checkInsufficient :: "messages_builder \<Rightarrow> messages_builder" where
  "checkInsufficient b = sliceToLimits b"

definition fillSkippedAndSliceToLimits :: "messages_builder \<Rightarrow> messages_builder" where
  "fillSkippedAndSliceToLimits b = b\<lparr>mb_core := fill_and_slice messages_kind (mb_core b)\<rparr>"

definition mergeSliceData :: "int option \<Rightarrow> MessagePosition list \<Rightarrow> int option \<Rightarrow> int option \<Rightarrow>
    messages_builder \<Rightarrow> messages_builder option" where
  "mergeSliceData cnt ids sb sa b =
     map_option (\<lambda>c. b\<lparr>mb_core := c\<rparr>) (merge_slice_data messages_kind cnt ids sb sa (mb_core b))"

definition applyInitial :: "MessagePosition list_result \<Rightarrow> messages_builder \<Rightarrow> messages_builder option" where
  "applyInitial r b = mergeSliceData (result_count r) (messageIds r) (skippedBefore r) (skippedAfter r) b"

definition applyUpdate :: "MessagePosition slice_update \<Rightarrow> messages_builder \<Rightarrow> (bool \<times> messages_builder) option" where
  "applyUpdate update b =
     map_option (\<lambda>(changed, c). (changed, b\<lparr>mb_core := c\<rparr>)) (apply_update messages_kind update (mb_core b))"

definition builder_removeOne :: "MessagePosition \<Rightarrow> messages_builder \<Rightarrow> bool \<times> messages_builder" where
  "builder_removeOne messageId b =
     (let (changed, c) = remove_one messageId (mb_core b) in (changed, b\<lparr>mb_core := c\<rparr>))"

definition builder_removeAll :: "messages_builder \<Rightarrow> messages_builder" where
  "builder_removeAll b =
     b\<lparr>mb_core := (mb_core b)\<lparr>b_ids := [], b_fullCount := Some 0, b_skippedBefore := Some 0, b_skippedAfter := Some 0\<rparr>,
       mb_range := FullMessagesRange\<rparr>"

definition invalidated :: "messages_builder \<Rightarrow> messages_builder" where
  "invalidated b =
     checkInsufficient (b\<lparr>mb_core := (mb_core b)\<lparr>b_fullCount := None, b_skippedBefore := None, b_skippedAfter := None, b_ids := []\<rparr>\<rparr>)"

definition bottomInvalidated :: "messages_builder \<Rightarrow> messages_builder" where
  "bottomInvalidated b =
     checkInsufficient (b\<lparr>mb_core := (mb_core b)\<lparr>b_fullCount := None, b_skippedAfter := None\<rparr>\<rparr>)"

record MessagesSlice =
  ms_ids :: "FullMsgId list"
  nearestToAround :: FullMsgId
  ms_skippedBefore :: "int option"
  ms_skippedAfter :: "int option"
  ms_fullCount :: "int option"

text \<open>The loop of \<open>snapshot\<close>, over the ids still to visit.\<close>

fun snapshot_loop :: "MessagePosition \<Rightarrow> MessagePosition list \<Rightarrow> FullMsgId list \<Rightarrow> FullMsgId option \<Rightarrow>
    FullMsgId list \<times> FullMsgId option" where
  "snapshot_loop key [] ids near = (ids, near)"
| "snapshot_loop key (p # ps) ids near =
     snapshot_loop key ps (ids @ [fullId p]) (if near = None \<and> p \<ge> key then Some (fullId p) else near)"

definition builder_snapshot :: "messages_builder \<Rightarrow> MessagesSlice" where
  "builder_snapshot b =
     (let c = mb_core b;
          (ids, near) = snapshot_loop (b_key c) (b_ids c) [] None
      in \<lparr>ms_ids = ids,
          nearestToAround = (case near of Some f \<Rightarrow> f
                             | None \<Rightarrow> if b_ids c = [] then FullMsgId 0 0 else fullId (last (b_ids c))),
          ms_skippedBefore = b_skippedBefore c, ms_skippedAfter = b_skippedAfter c, ms_fullCount = b_fullCount c\<rparr>)"

section \<open>Lemmas\<close>

lemma messages_kind_simps [simp]:
  "\<not> kind_possible messages_kind (kind_impossible messages_kind)" "kind_lo messages_kind = MinMessagePosition"
  "kind_hi messages_kind = MaxMessagePosition" "kind_given messages_kind k \<longleftrightarrow> position_given k"
  by (simp_all add: messages_kind_def)

lemma snapshot_loop_ids: "fst (snapshot_loop key ps ids near) = ids @ map fullId ps"
  by (induction ps arbitrary: ids near) auto

lemma snapshot_loop_near:
  "snd (snapshot_loop key ps ids near)
     = (case near of Some f \<Rightarrow> Some f | None \<Rightarrow> map_option fullId (List.find (\<lambda>p. key \<le> p) ps))"
  by (induction ps arbitrary: ids near) (auto split: option.splits)

lemma find_first_at_key:
  fixes ids :: "'a::linorder list"
  shows "List.find (\<lambda>p. key \<le> p) ids
     = (if lower_bound (\<lambda>x. x) ids key < length ids then Some (ids ! lower_bound (\<lambda>x. x) ids key) else None)"
  by (induction ids) (auto simp: lower_bound_def not_less)

section \<open>Properties\<close>





text \<open>
  C18. The snapshot of a builder lists the messages of its window in order and names as nearest the
  first one at or after the key, the last one when all are before it, and none when it is empty.
\<close>

theorem messages_snapshot_nearest:
  "ms_ids (builder_snapshot b) = map fullId (b_ids (mb_core b))
   \<and> nearestToAround (builder_snapshot b) =
     (let ids = b_ids (mb_core b); i = lower_bound (\<lambda>x. x) ids (b_key (mb_core b))
      in if i < length ids then fullId (ids ! i) else if ids = [] then FullMsgId 0 0 else fullId (last ids))"
proof -
  obtain ids near where loop: "snapshot_loop (b_key (mb_core b)) (b_ids (mb_core b)) [] None = (ids, near)" by fastforce
  then have "ids = map fullId (b_ids (mb_core b))"
    "near = map_option fullId (List.find (\<lambda>p. b_key (mb_core b) \<le> p) (b_ids (mb_core b)))"
    using snapshot_loop_ids [of "b_key (mb_core b)" "b_ids (mb_core b)" "[]" None]
      snapshot_loop_near [of "b_key (mb_core b)" "b_ids (mb_core b)" "[]" None] by auto
  then show ?thesis by (auto simp: builder_snapshot_def Let_def loop find_first_at_key)
qed

end
