(* ===== verification/LangTags.thy ===== *)
theory LangTags
  imports Prelude
begin

text \<open>
  The text part of lang/lang_tag.h and .cpp: finding and replacing the tags of a phrase, and the
  formatting of counts. A \<open>QString\<close> is a list of 16 bit units. \<open>TextCommand\<close> is a constant of the
  text library and an argument here, as are the conversions of Qt between numbers and strings.
\<close>

section \<open>Definitions\<close>

type_synonym qstring = "16 word list"

definition kTextCommandLangTag :: "16 word" where
  "kTextCommandLangTag = 0x20"

definition kTagReplacementSize :: nat where
  "kTagReplacementSize = 4"

text \<open>The loop over the rest of the text, \<open>position\<close> units from its start.\<close>

function find_tag :: "16 word \<Rightarrow> 16 word \<Rightarrow> qstring \<Rightarrow> int \<Rightarrow> int" where
  "find_tag cmd tag [] position = -1"
| "find_tag cmd tag (ch # rest) position =
     (if ch = cmd
      then if kTagReplacementSize \<le> length (ch # rest) \<and> rest ! 0 = kTextCommandLangTag \<and> rest ! 2 = cmd
           then if unat (rest ! 1) = 0x20 + unat tag then position
                else find_tag cmd tag (drop kTagReplacementSize (ch # rest)) (position + int kTagReplacementSize)
           else find_tag cmd tag rest (position + 1)
      else find_tag cmd tag rest (position + 1))"
  by pat_completeness auto
termination
  by (relation "measure (\<lambda>(cmd, tag, text, position). length text)") (auto simp: kTagReplacementSize_def)

definition FindTagReplacementPosition :: "16 word \<Rightarrow> qstring \<Rightarrow> 16 word \<Rightarrow> int" where
  "FindTagReplacementPosition cmd original tag = find_tag cmd tag original 0"

definition Replace :: "qstring \<Rightarrow> qstring \<Rightarrow> int \<Rightarrow> qstring" where
  "Replace original replacement replacementPosition =
     (let result = [];
          result = (if replacementPosition > 0 then result @ take (nat replacementPosition) original else result);
          result = result @ replacement
      in if replacementPosition + int kTagReplacementSize < int (length original)
         then result @ drop (nat (replacementPosition + int kTagReplacementSize)) original
         else result)"

definition ReplaceTag_Call :: "16 word \<Rightarrow> qstring \<Rightarrow> 16 word \<Rightarrow> qstring \<Rightarrow> qstring" where
  "ReplaceTag_Call cmd original tag replacement =
     (let replacementPosition = FindTagReplacementPosition cmd original tag
      in if replacementPosition < 0 then original
         else Replace original replacement replacementPosition)"

text \<open>The leading zeros of a fraction; \<open>toInt\<close> is \<open>QString::toInt\<close>.\<close>

definition NonZeroPartToInt :: "(string \<Rightarrow> int) \<Rightarrow> string \<Rightarrow> int" where
  "NonZeroPartToInt toInt value =
     (let zeros = length (takeWhile (\<lambda>ch. ch = CHR ''0'') value)
      in if zeros > 0 then (if zeros < length value then toInt (drop zeros value) else 0)
         else if value = [] then 0 else toInt value)"

record ShortenedCount =
  short_number :: int
  short_string :: string

text \<open>\<open>shorten\<close> and \<open>FormatCountToShort\<close>; \<open>number\<close> is \<open>QString::number\<close>.\<close>

definition shorten :: "(int \<Rightarrow> string) \<Rightarrow> int \<Rightarrow> int \<Rightarrow> char \<Rightarrow> ShortenedCount" where
  "shorten number n divider multiplier =
     (let sign = (if n > 0 then 1 else -1);
          rounded = \<bar>n\<bar> sdiv (divider sdiv 10)
      in \<lparr>short_number = rounded * divider,
          short_string = number ((sign * rounded) sdiv 10)
            @ (if rounded smod 10 \<noteq> 0 then ''.'' @ number (rounded smod 10) @ [multiplier] else [multiplier])\<rparr>)"

definition FormatCountToShort :: "(int \<Rightarrow> string) \<Rightarrow> int \<Rightarrow> ShortenedCount" where
  "FormatCountToShort number n =
     (if \<bar>n\<bar> \<ge> 1000000 then shorten number n 1000000 (CHR ''M'')
      else if \<bar>n\<bar> \<ge> 10000 then shorten number n 1000 (CHR ''K'')
      else \<lparr>short_number = n, short_string = number n\<rparr>)"

text \<open>
  Specification: a phrase is a sequence of plain units and tags. \<open>encode\<close> is how the language files
  are compiled to text: a tag is the command, the mark of a tag, the tag and the command.
\<close>

datatype piece = Unit "16 word" | Tag "16 word"

fun encode_piece :: "16 word \<Rightarrow> piece \<Rightarrow> qstring" where
  "encode_piece cmd (Unit c) = [c]"
| "encode_piece cmd (Tag t) = [cmd, kTextCommandLangTag, 0x20 + t, cmd]"

definition encode :: "16 word \<Rightarrow> piece list \<Rightarrow> qstring" where
  "encode cmd ps = concat (map (encode_piece cmd) ps)"

fun piece_ok :: "16 word \<Rightarrow> piece \<Rightarrow> bool" where
  "piece_ok cmd (Unit c) = (c \<noteq> cmd)"
| "piece_ok cmd (Tag t) = (unat t < 2 ^ 16 - 0x20)"

text \<open>The value of a string of decimal digits.\<close>

definition digits_value :: "string \<Rightarrow> int" where
  "digits_value s = fold (\<lambda>c n. 10 * n + (of_char c - 48)) s 0"

section \<open>Lemmas\<close>

lemma encode_Cons: "encode cmd (p # ps) = encode_piece cmd p @ encode cmd ps"
  by (simp add: encode_def)

lemma encode_append: "encode cmd (ps @ qs) = encode cmd ps @ encode cmd qs"
  by (simp add: encode_def)

lemma tag_unit: "unat t < 2 ^ 16 - 0x20 \<Longrightarrow> unat (0x20 + t :: 16 word) = 0x20 + unat t"
  by (simp add: unat_word_ariths)

lemma find_tag_encode:
  assumes "list_all (piece_ok cmd) ps" "unat tag < 2 ^ 16 - 0x20" "Tag tag \<notin> set ps"
  shows "find_tag cmd tag (encode cmd ps @ rest) pos = find_tag cmd tag rest (pos + int (length (encode cmd ps)))"
  using assms
proof (induction ps arbitrary: pos)
  case (Cons p ps)
  show ?case
  proof (cases p)
    case (Unit c)
    then show ?thesis using Cons by (simp add: encode_Cons algebra_simps)
  next
    case (Tag t)
    then have "t \<noteq> tag" "unat (0x20 + t) = 0x20 + unat t" using Cons.prems tag_unit by auto
    then have "unat t \<noteq> unat tag" "unat (0x20 + t) = 0x20 + unat t" by (simp_all add: word_unat_eq_iff)
    then show ?thesis
      using Cons Tag by (simp add: encode_Cons kTagReplacementSize_def algebra_simps)
  qed
qed (simp add: encode_def)

lemma replace_first_tag:
  assumes "list_all (piece_ok cmd) ps" "list_all (piece_ok cmd) qs" "unat tag < 2 ^ 16 - 0x20" "Tag tag \<notin> set ps"
  shows "ReplaceTag_Call cmd (encode cmd (ps @ Tag tag # qs)) tag replacement = encode cmd ps @ replacement @ encode cmd qs
    \<and> ReplaceTag_Call cmd (encode cmd ps) tag replacement = encode cmd ps"
proof -
  have "find_tag cmd tag (encode cmd (ps @ Tag tag # qs)) 0 = int (length (encode cmd ps))"
    using find_tag_encode [OF assms(1,3,4), of "encode cmd (Tag tag # qs)" 0] tag_unit [OF assms(3)]
    by (simp add: encode_append encode_Cons kTagReplacementSize_def)
  moreover have "find_tag cmd tag (encode cmd ps) 0 = -1"
    using find_tag_encode [OF assms(1,3,4), of "[]" 0] by simp
  ultimately show ?thesis
    by (auto simp: ReplaceTag_Call_def FindTagReplacementPosition_def Replace_def kTagReplacementSize_def encode_append
        encode_Cons Let_def nat_add_distrib)
qed

section \<open>Properties\<close>

text \<open>
  C21. Replacing a tag in the text of a phrase replaces the first occurrence of this tag and
  nothing else, other tags before it included; a phrase without the tag is left alone.
\<close>

theorem tag_replaced:
  assumes "list_all (piece_ok cmd) ps" "list_all (piece_ok cmd) qs" "unat tag < 2 ^ 16 - 0x20" "Tag tag \<notin> set ps"
  shows "ReplaceTag_Call cmd (encode cmd (ps @ Tag tag # qs)) tag replacement = encode cmd ps @ replacement @ encode cmd qs
    \<and> ReplaceTag_Call cmd (encode cmd ps) tag replacement = encode cmd ps"
  using replace_first_tag [OF assms] .

theorem tag_replaced_witness:
  "ReplaceTag_Call 0x10 [0x41, 0x10, 0x20, 0x23, 0x10, 0x42] 3 [0x37] = [0x41, 0x37, 0x42]"
  using tag_replaced [of "0x10" "[Unit 0x41]" "[Unit 0x42]" 3 "[0x37]"]
  by (simp add: encode_def kTextCommandLangTag_def)

text \<open>
  The digits of a fraction are read as the number they make: leading zeros are skipped, and a
  fraction of zeros only, or an empty one, is zero. The hypothesis is what Qt documents for
  \<open>toInt\<close>: the value of a non-empty string of digits that fits into an \<open>int\<close>.
\<close>

lemma fraction_value:
  assumes "\<And>s. s \<noteq> [] \<Longrightarrow> list_all (\<lambda>c. c \<in> set ''0123456789'') s \<Longrightarrow> digits_value s < 2 ^ 31 \<Longrightarrow> toInt s = digits_value s"
    and "list_all (\<lambda>c. c \<in> set ''0123456789'') value" "digits_value value < 2 ^ 31"
  shows "NonZeroPartToInt toInt value = digits_value value"
proof -
  define z where "z = length (takeWhile (\<lambda>ch. ch = CHR ''0'') value)"
  have zeros: "takeWhile (\<lambda>ch. ch = CHR ''0'') value = replicate z (CHR ''0'')"
    unfolding z_def by (induction "value") auto
  have split: "value = replicate z (CHR ''0'') @ drop z value"
    using zeros by (metis append_take_drop_id takeWhile_eq_take z_def)
  have "fold (\<lambda>c n. 10 * n + (of_char c - 48)) (replicate z (CHR ''0'')) (0 :: int) = 0"
    by (induction z) simp_all
  then have v: "digits_value value = digits_value (drop z value)"
    using arg_cong [OF split, of digits_value] by (simp add: digits_value_def)
  have d: "list_all (\<lambda>c. c \<in> set ''0123456789'') (drop z value)"
    using assms(2) by (metis append_take_drop_id list_all_append)
  show ?thesis
  proof (cases "drop z value = []")
    case True
    then have "NonZeroPartToInt toInt value = 0" by (auto simp: NonZeroPartToInt_def z_def Let_def)
    then show ?thesis using v True by (simp add: digits_value_def)
  next
    case False
    then have "toInt (drop z value) = digits_value value" using assms(1) [of "drop z value"] assms(3) d v by simp
    moreover have "NonZeroPartToInt toInt value = toInt (drop z value)"
      using False by (auto simp: NonZeroPartToInt_def Let_def simp flip: z_def)
    ultimately show ?thesis by simp
  qed
qed

lemma fraction_example: "NonZeroPartToInt digits_value ''050'' = 50"
  using fraction_value [of digits_value "''050''"] by (simp add: digits_value_def)

text \<open>
  A finding: the number that goes with a shortened count is ten times too large, 123000 for
  12345, where the comment at the assignment expects 12000; the string is right.
\<close>

lemma short_number_too_large:
  assumes "10000 \<le> n" "n < 1000000"
  shows "short_number (FormatCountToShort number n) = 10 * (n - n mod 100)"
    "short_number (FormatCountToShort number 12345) = 123000"
  using assms minus_mod_eq_mult_div [of n 100]
  by (simp_all add: FormatCountToShort_def shorten_def signed_divide_int_def Let_def)

end
