(* ===== verification/LangFiles.thy ===== *)
theory LangFiles
  imports LangTags "HOL-Library.Char_ord" "HOL-Library.Monad_Syntax"
begin

text \<open>
  How phrases get into the client: \<open>FileParser\<close> (lang/lang_file_parser.h and .cpp), which reads the
  key-value pairs of a language file, and \<open>ValueParser\<close> with \<open>ParseKeyValue\<close> (lang/lang_instance.cpp),
  which compiles the tags of a value to the form that \<open>LangTags\<close> replaces. The file is read after
  its comments have been stripped. What \<open>base::parse\<close> takes for white space, UTF-8 and the generated
  tables of keys and tags are arguments.
\<close>

section \<open>Definitions: files\<close>

datatype file_error = EmptyContent | ExpectedQuoteBeforeKey | ExpectedQuoteAfterKey string | UnexpectedEndInKey string
  | EqualsExpected string | ExpectedStringAfterEquals string | UnexpectedEndOfString string | SemicolonExpected string

definition is_key_char :: "char \<Rightarrow> bool" where
  "is_key_char c \<longleftrightarrow> (CHR ''a'' \<le> c \<and> c \<le> CHR ''z'') \<or> (CHR ''A'' \<le> c \<and> c \<le> CHR ''Z'') \<or> c = CHR ''_''
     \<or> (CHR ''0'' \<le> c \<and> c \<le> CHR ''9'') \<or> c = CHR ''#''"

abbreviation newline :: char where "newline \<equiv> CHR 0x0A"

abbreviation backslash :: char where "backslash \<equiv> CHR 0x5C"

abbreviation quote :: char where "quote \<equiv> CHR 0x22"

text \<open>
  The loop over a value: \<open>acc\<close> is what has been appended, \<open>run\<close> the bytes from \<open>start\<close> to \<open>from\<close>.
  The result is the value and the bytes after its closing quote.
\<close>

fun read_value :: "string \<Rightarrow> string \<Rightarrow> string \<Rightarrow> string \<Rightarrow> file_error + string \<times> string" where
  "read_value key acc run [] = Inl (UnexpectedEndInKey key)"
| "read_value key acc run (c # rest) =
     (if c = quote then Inr (acc @ run, rest)
      else if c = newline then Inl (UnexpectedEndOfString key)
      else if c = backslash then
        (case rest of
           [] \<Rightarrow> Inl (UnexpectedEndInKey key)
         | d # rest' \<Rightarrow>
             if d = quote \<or> d = backslash then read_value key (acc @ run) [d] rest'
             else if d = CHR ''n'' then read_value key (acc @ run @ [newline]) [] rest'
             else read_value key acc (run @ [c]) rest)
      else read_value key acc (run @ [c]) rest)"

text \<open>One call of \<open>readKeyValue\<close>: an error, the end of the file, or a pair with the rest of the file.\<close>

datatype read_outcome = ReadError file_error | ReadEnd | ReadPair string string string

definition readKeyValue :: "(char \<Rightarrow> bool) \<Rightarrow> string \<Rightarrow> read_outcome" where
  "readKeyValue ws text =
     (case dropWhile ws text of
        [] \<Rightarrow> ReadEnd
      | c # rest \<Rightarrow>
          if c \<noteq> quote then ReadError ExpectedQuoteBeforeKey
          else
            let key = takeWhile is_key_char rest; rest = dropWhile is_key_char rest
            in if rest = [] \<or> hd rest \<noteq> quote then ReadError (ExpectedQuoteAfterKey key)
               else
                 let rest = dropWhile ws (tl rest)
                 in if rest = [] then ReadError (UnexpectedEndInKey key)
                    else if hd rest \<noteq> CHR ''='' then ReadError (EqualsExpected key)
                    else
                      let rest = dropWhile ws (tl rest)
                      in if rest = [] then ReadError (UnexpectedEndInKey key)
                         else if hd rest \<noteq> quote then ReadError (ExpectedStringAfterEquals key)
                         else
                           (case read_value key [] [] (tl rest) of
                              Inl e \<Rightarrow> ReadError e
                            | Inr (val, rest) \<Rightarrow>
                                let rest = dropWhile ws rest
                                in if rest = [] then ReadError (UnexpectedEndInKey key)
                                   else if hd rest \<noteq> CHR '';'' then ReadError (SemicolonExpected key)
                                   else ReadPair key val (dropWhile ws (tl rest))))"

text \<open>
  The parser with a callback collects the calls made on it, the other one the values of the keys
  that were requested; a later value replaces an earlier one.
\<close>

datatype 'i parse_mode = Callback | Request "'i \<Rightarrow> bool"

record 'i file_parser =
  parser_errors :: "file_error list"
  parser_calls :: "(string \<times> string) list"
  parser_result :: "'i \<rightharpoonup> qstring"

record 'i lang_tables =
  key_index :: "string \<Rightarrow> 'i option"
  from_utf8 :: "string \<Rightarrow> qstring"
  tag_index :: "string \<Rightarrow> 16 word option"
  tag_replaced_in :: "'i \<Rightarrow> 16 word \<Rightarrow> bool"
  text_command :: "16 word"

text \<open>An unknown key has the index \<open>kKeysCount\<close>, here \<open>None\<close>, which nobody requests.\<close>

definition store_pair :: "'i lang_tables \<Rightarrow> 'i parse_mode \<Rightarrow> string \<Rightarrow> string \<Rightarrow> 'i file_parser \<Rightarrow> 'i file_parser" where
  "store_pair tables mode key val s =
     (case mode of
        Callback \<Rightarrow> s\<lparr>parser_calls := parser_calls s @ [(key, val)]\<rparr>
      | Request requested \<Rightarrow>
          (case key_index tables key of
             Some i \<Rightarrow> if requested i then s\<lparr>parser_result := (parser_result s)(i \<mapsto> from_utf8 tables val)\<rparr> else s
           | None \<Rightarrow> s))"

function parse_loop :: "(char \<Rightarrow> bool) \<Rightarrow> 'i lang_tables \<Rightarrow> 'i parse_mode \<Rightarrow> string \<Rightarrow> 'i file_parser \<Rightarrow> 'i file_parser" where
  "parse_loop ws tables mode text s =
     (if text = [] then s
      else case readKeyValue ws text of
        ReadError e \<Rightarrow> s\<lparr>parser_errors := parser_errors s @ [e]\<rparr>
      | ReadEnd \<Rightarrow> s
      | ReadPair key val rest \<Rightarrow> parse_loop ws tables mode rest (store_pair tables mode key val s))"
  by pat_completeness auto

text \<open>A pair takes at least its first quote off the text.\<close>

termination
proof -
  have value_shorter: "length rest \<le> length content" if "read_value key acc run content = Inr (val, rest)" for key acc run content val rest
    using that by (induction key acc run content rule: read_value.induct) (auto split: if_splits list.splits)
  have shorter: "length rest < length content" if "readKeyValue ws content = ReadPair key val rest" for ws content key val rest
  proof -
    note pair = that
    obtain a b where b: "dropWhile ws content = quote # a" "read_value key [] [] (tl (dropWhile ws (tl (dropWhile ws (tl (dropWhile is_key_char a)))))) = Inr (val, b)"
      "rest = dropWhile ws (tl (dropWhile ws b))"
      using pair by (auto simp: readKeyValue_def Let_def split: list.splits if_splits sum.splits)
    have drop: "length (dropWhile P (tl xs)) \<le> length xs" for P and xs :: string
      using length_dropWhile_le [of P "tl xs"] by simp
    have "length b \<le> length a"
      using value_shorter [OF b(2)] drop [of ws "dropWhile ws (tl (dropWhile is_key_char a))"] drop [of ws "dropWhile is_key_char a"]
        length_dropWhile_le [of is_key_char a] by simp
    moreover have "length rest \<le> length b" using b(3) drop [of ws "dropWhile ws b"] length_dropWhile_le [of ws b] by simp
    moreover have "length a < length content" using length_dropWhile_le [of ws content] b(1) by simp
    ultimately show ?thesis by simp
  qed
  show ?thesis by (relation "measure (\<lambda>(ws, tables, mode, content, s). length content)") (auto dest: shorter)
qed

declare parse_loop.simps [simp del]

definition parse_file :: "(char \<Rightarrow> bool) \<Rightarrow> 'i lang_tables \<Rightarrow> 'i parse_mode \<Rightarrow> string \<Rightarrow> 'i file_parser" where
  "parse_file ws tables mode content =
     (let s = \<lparr>parser_errors = [], parser_calls = [], parser_result = Map.empty\<rparr>
      in if content = [] then s\<lparr>parser_errors := [EmptyContent]\<rparr> else parse_loop ws tables mode content s)"

section \<open>Definitions: values\<close>

datatype value_error = ExpectedTagName | ExpectedBrace | UnknownTag | UnexpectedTag | RepeatedTag

definition isTagChar :: "char \<Rightarrow> bool" where
  "isTagChar c \<longleftrightarrow> (CHR ''a'' \<le> c \<and> c \<le> CHR ''z'') \<or> (CHR ''A'' \<le> c \<and> c \<le> CHR ''z'')
     \<or> (CHR ''0'' \<le> c \<and> c \<le> CHR ''9'') \<or> c = CHR ''_''"

text \<open>\<open>readTag\<close>, from the bytes after the brace: the tag, and the bytes after the closing brace.\<close>

definition readTag :: "'i lang_tables \<Rightarrow> 'i \<Rightarrow> 16 word list \<Rightarrow> string \<Rightarrow> value_error + 16 word \<times> string" where
  "readTag tables keyIndex tagsUsed text =
     (let name = takeWhile isTagChar text; rest = dropWhile isTagChar text
      in if name = [] then Inl ExpectedTagName
         else if rest = [] \<or> hd rest \<noteq> CHR ''}'' then Inl ExpectedBrace
         else case tag_index tables name of
           None \<Rightarrow> Inl UnknownTag
         | Some index \<Rightarrow>
             if \<not> tag_replaced_in tables keyIndex index then Inl UnexpectedTag
             else if index \<in> set tagsUsed then Inl RepeatedTag
             else Inr (index, tl rest))"

definition tag_replacer :: "'i lang_tables \<Rightarrow> 16 word \<Rightarrow> qstring" where
  "tag_replacer tables index = [text_command tables, kTextCommandLangTag, 0x20 + index, text_command tables]"

definition append_run :: "'i lang_tables \<Rightarrow> qstring \<Rightarrow> string \<Rightarrow> qstring" where
  "append_run tables result run = (if run \<noteq> [] then result @ from_utf8 tables run else result)"

text \<open>The loop of \<open>parse\<close>; \<open>run\<close> are the bytes from \<open>_begin\<close> to \<open>_ch\<close>.\<close>

function parse_value :: "'i lang_tables \<Rightarrow> 'i \<Rightarrow> 16 word list \<Rightarrow> qstring \<Rightarrow> string \<Rightarrow> string \<Rightarrow> value_error + qstring" where
  "parse_value tables keyIndex used result run [] = Inr (append_run tables result run)"
| "parse_value tables keyIndex used result run (c # rest) =
     (if c = CHR ''{'' then
        (case readTag tables keyIndex used rest of
           Inl e \<Rightarrow> Inl e
         | Inr (index, rest') \<Rightarrow>
             parse_value tables keyIndex (used @ [index]) (append_run tables result run @ tag_replacer tables index) [] rest')
      else parse_value tables keyIndex used result (run @ [c]) rest)"
  by pat_completeness auto

termination
proof -
  have shorter: "length rest' \<le> length rest" if "readTag tables keyIndex used rest = Inr (index, rest')" for tables keyIndex used rest index rest'
  proof -
    have "rest' = tl (dropWhile isTagChar rest)" using that by (auto simp: readTag_def Let_def split: if_splits option.splits)
    then show ?thesis using length_dropWhile_le [of isTagChar rest] by (simp add: le_diff_conv)
  qed
  show ?thesis
    by (relation "measure (\<lambda>(tables, keyIndex, used, result, run, content). length content)") (auto dest: shorter simp: less_Suc_eq_le)
qed

text \<open>\<open>ParseKeyValue\<close>: what is saved, if anything.\<close>

definition ParseKeyValue :: "'i lang_tables \<Rightarrow> string \<Rightarrow> string \<Rightarrow> ('i \<times> qstring) option" where
  "ParseKeyValue tables key val =
     (case key_index tables key of
        None \<Rightarrow> None
      | Some index \<Rightarrow>
          (case parse_value tables index [] [] [] val of
             Inl e \<Rightarrow> None
           | Inr result \<Rightarrow> Some (index, result)))"

section \<open>Definitions: what the parsers accept\<close>

text \<open>A language file as it is written, from its pairs.\<close>

definition escape_char :: "char \<Rightarrow> string" where
  "escape_char c = (if c = quote \<or> c = backslash then [backslash, c] else if c = newline then [backslash, CHR ''n''] else [c])"

definition render_pair :: "string \<times> string \<Rightarrow> string" where
  "render_pair kv = [quote] @ fst kv @ [quote] @ '' = '' @ [quote] @ concat (map escape_char (snd kv)) @ [quote] @ '';'' @ [newline]"

definition render :: "(string \<times> string) list \<Rightarrow> string" where
  "render pairs = concat (map render_pair pairs)"

definition ws_laws :: "(char \<Rightarrow> bool) \<Rightarrow> bool" where
  "ws_laws ws \<longleftrightarrow> ws (CHR '' '') \<and> ws newline \<and> \<not> ws quote \<and> \<not> ws (CHR ''='') \<and> \<not> ws (CHR '';'')"

text \<open>The last value that a file gives to a key.\<close>

definition last_value :: "'i lang_tables \<Rightarrow> (string \<times> string) list \<Rightarrow> 'i \<rightharpoonup> qstring" where
  "last_value tables pairs i =
     map_option (\<lambda>kv. from_utf8 tables (snd kv)) (List.find (\<lambda>kv. key_index tables (fst kv) = Some i) (rev pairs))"

definition new_parser :: "'i file_parser" where
  "new_parser = \<lparr>parser_errors = [], parser_calls = [], parser_result = Map.empty\<rparr>"

text \<open>A phrase: a text, and tags each followed by another text.\<close>

type_synonym phrase = "string \<times> (string \<times> string) list"

fun print_tags :: "(string \<times> string) list \<Rightarrow> string" where
  "print_tags [] = []"
| "print_tags ((name, t) # tags) = CHR ''{'' # name @ CHR ''}'' # t @ print_tags tags"

definition print_phrase :: "phrase \<Rightarrow> string" where
  "print_phrase ph = fst ph @ print_tags (snd ph)"

definition units :: "'i lang_tables \<Rightarrow> string \<Rightarrow> piece list" where
  "units tables t = map Unit (if t = [] then [] else from_utf8 tables t)"

fun compile_tags :: "'i lang_tables \<Rightarrow> (string \<times> string) list \<Rightarrow> piece list" where
  "compile_tags tables [] = []"
| "compile_tags tables ((name, t) # tags) = Tag (the (tag_index tables name)) # units tables t @ compile_tags tables tags"

definition compile_phrase :: "'i lang_tables \<Rightarrow> phrase \<Rightarrow> piece list" where
  "compile_phrase tables ph = units tables (fst ph) @ compile_tags tables (snd ph)"

fun tags_ok :: "'i lang_tables \<Rightarrow> 'i \<Rightarrow> 16 word list \<Rightarrow> (string \<times> string) list \<Rightarrow> bool" where
  "tags_ok tables keyIndex used [] = True"
| "tags_ok tables keyIndex used ((name, t) # tags) =
     (name \<noteq> [] \<and> list_all isTagChar name \<and> CHR ''{'' \<notin> set t
      \<and> (case tag_index tables name of
           None \<Rightarrow> False
         | Some i \<Rightarrow> tag_replaced_in tables keyIndex i \<and> i \<notin> set used \<and> tags_ok tables keyIndex (used @ [i]) tags))"

definition phrase_ok :: "'i lang_tables \<Rightarrow> 'i \<Rightarrow> phrase \<Rightarrow> bool" where
  "phrase_ok tables keyIndex ph \<longleftrightarrow> CHR ''{'' \<notin> set (fst ph) \<and> tags_ok tables keyIndex [] (snd ph)"

text \<open>What is read of a value when \<open>result\<close> and \<open>run\<close> stand before it.\<close>

abbreviation compiled :: "'i lang_tables \<Rightarrow> 'i \<Rightarrow> 16 word list \<Rightarrow> qstring \<Rightarrow> string \<Rightarrow> string \<Rightarrow> qstring \<Rightarrow> bool" where
  "compiled tables keyIndex used result run content r \<equiv>
     (\<exists>t tags. CHR ''{'' \<notin> set t \<and> tags_ok tables keyIndex used tags \<and> content = t @ print_tags tags
        \<and> r = result @ encode (text_command tables) (units tables (run @ t) @ compile_tags tables tags))"

section \<open>Files\<close>

lemma read_value_escaped:
  "read_value key acc run (concat (map escape_char val) @ quote # rest) = Inr (acc @ run @ val, rest)"
  by (induction val arbitrary: acc run) (auto simp: escape_char_def)

lemma takeWhile_key: "list_all is_key_char key \<Longrightarrow> takeWhile is_key_char (key @ quote # rest) = key \<and> dropWhile is_key_char (key @ quote # rest) = quote # rest"
proof -
  assume "list_all is_key_char key"
  then have "\<forall>c \<in> set key. is_key_char c" by (simp add: list_all_iff)
  moreover have "\<not> is_key_char quote" by (simp add: is_key_char_def less_eq_char_def)
  ultimately show ?thesis by (simp add: takeWhile_append dropWhile_append3 takeWhile_tail)
qed

lemma readKeyValue_pair:
  assumes "ws_laws ws" "list_all is_key_char key"
  shows "readKeyValue ws (render_pair (key, val) @ rest) = ReadPair key val (dropWhile ws rest)"
proof -
  have ws: "ws (CHR '' '')" "ws newline" "\<not> ws quote" "\<not> ws (CHR ''='')" "\<not> ws (CHR '';'')"
    using assms(1) by (simp_all add: ws_laws_def)
  have "render_pair (key, val) @ rest = quote # key @ quote # CHR '' '' # CHR ''='' # CHR '' '' # quote
      # concat (map escape_char val) @ quote # CHR '';'' # newline # rest"
    by (simp add: render_pair_def)
  then show ?thesis
    by (simp add: readKeyValue_def Let_def read_value_escaped ws takeWhile_key [OF assms(2), THEN conjunct1]
        takeWhile_key [OF assms(2), THEN conjunct2] del: dropWhile_eq_Nil_conv)
qed

lemma parse_loop_pairs:
  assumes "ws_laws ws" "list_all (\<lambda>kv. list_all is_key_char (fst kv)) pairs"
  shows "parse_loop ws tables mode (render pairs @ rest) s =
    parse_loop ws tables mode (if pairs = [] then rest else dropWhile ws rest) (fold (\<lambda>kv. store_pair tables mode (fst kv) (snd kv)) pairs s)"
  using assms(2)
proof (induction pairs arbitrary: s)
  case (Cons kv pairs)
  have "\<not> ws quote" using assms(1) by (simp add: ws_laws_def)
  then have more: "dropWhile ws (render pairs @ rest) = (if pairs = [] then dropWhile ws rest else render pairs @ rest)"
    by (cases pairs) (simp_all add: render_def render_pair_def)
  have "readKeyValue ws (render (kv # pairs) @ rest) = ReadPair (fst kv) (snd kv) (dropWhile ws (render pairs @ rest))"
    using readKeyValue_pair [OF assms(1), of "fst kv" "snd kv" "render pairs @ rest"] Cons.prems by (simp add: render_def)
  moreover have "render (kv # pairs) @ rest \<noteq> []" by (simp add: render_def render_pair_def)
  ultimately have "parse_loop ws tables mode (render (kv # pairs) @ rest) s
      = parse_loop ws tables mode (dropWhile ws (render pairs @ rest)) (store_pair tables mode (fst kv) (snd kv) s)"
    by (subst parse_loop.simps) (simp del: append_is_Nil_conv)
  then show ?case using Cons more by (cases "pairs = []") (simp_all add: render_def)
qed (simp add: render_def)

lemma parse_file_pairs:
  assumes "ws_laws ws" "list_all (\<lambda>kv. list_all is_key_char (fst kv)) pairs" "pairs \<noteq> []"
  shows "parse_file ws tables mode (render pairs @ rest) =
    parse_loop ws tables mode (dropWhile ws rest) (fold (\<lambda>kv. store_pair tables mode (fst kv) (snd kv)) pairs new_parser)"
proof -
  have "render pairs \<noteq> []" using assms(3) by (cases pairs) (simp_all add: render_def render_pair_def)
  then show ?thesis
    using parse_loop_pairs [OF assms(1,2), of tables mode rest new_parser] assms(3) by (simp add: parse_file_def new_parser_def Let_def)
qed

lemma parse_file_render:
  assumes "ws_laws ws" "list_all (\<lambda>kv. list_all is_key_char (fst kv)) pairs" "pairs \<noteq> []"
  shows "parse_file ws tables mode (render pairs) = fold (\<lambda>kv. store_pair tables mode (fst kv) (snd kv)) pairs new_parser"
  using parse_file_pairs [OF assms, of tables mode "[]"] by (simp add: parse_loop.simps)

lemma readKeyValue_skip: "readKeyValue ws (dropWhile ws content) = readKeyValue ws content"
  by (simp add: readKeyValue_def)

lemma stored_errors: "parser_errors (fold (\<lambda>kv. store_pair tables mode (fst kv) (snd kv)) pairs s) = parser_errors s"
  by (induction pairs arbitrary: s) (auto simp: store_pair_def split: parse_mode.splits option.splits)

lemma stored_calls:
  "parser_calls (fold (\<lambda>kv. store_pair tables Callback (fst kv) (snd kv)) pairs s) = parser_calls s @ pairs"
  by (induction pairs arbitrary: s) (auto simp: store_pair_def)

lemma stored_result:
  "parser_result (fold (\<lambda>kv. store_pair tables (Request requested) (fst kv) (snd kv)) pairs s) i =
    (if requested i \<and> last_value tables pairs i \<noteq> None then last_value tables pairs i else parser_result s i)"
  by (induction pairs rule: rev_induct) (auto simp: store_pair_def last_value_def split: option.splits)

lemma parse_loop_errors: "parser_errors s = [] \<Longrightarrow> length (parser_errors (parse_loop ws tables mode content s)) \<le> 1"
proof (induction ws tables mode content s rule: parse_loop.induct)
  case (1 ws tables mode content s)
  have "parser_errors (store_pair tables mode key val s) = []" for key val
    using stored_errors [of tables mode "[(key, val)]" s] 1(2) by simp
  then show ?case using 1 by (subst parse_loop.simps) (auto split: read_outcome.split)
qed

section \<open>Values\<close>

lemma takeWhile_tag:
  assumes "list_all isTagChar name"
  shows "takeWhile isTagChar (name @ CHR ''}'' # rest) = name" "dropWhile isTagChar (name @ CHR ''}'' # rest) = CHR ''}'' # rest"
proof -
  have "\<forall>c \<in> set name. isTagChar c" using assms by (simp add: list_all_iff)
  moreover have "\<not> isTagChar (CHR ''}'')" by (simp add: isTagChar_def less_eq_char_def)
  ultimately show "takeWhile isTagChar (name @ CHR ''}'' # rest) = name" "dropWhile isTagChar (name @ CHR ''}'' # rest) = CHR ''}'' # rest"
    by (simp_all add: takeWhile_append dropWhile_append3 takeWhile_tail)
qed

lemma readTag_iff:
  "readTag tables keyIndex used content = Inr (i, rest) \<longleftrightarrow>
    (\<exists>name. name \<noteq> [] \<and> list_all isTagChar name \<and> content = name @ CHR ''}'' # rest
      \<and> tag_index tables name = Some i \<and> tag_replaced_in tables keyIndex i \<and> i \<notin> set used)" (is "?l \<longleftrightarrow> ?r")
proof
  assume ?l
  then have "takeWhile isTagChar content \<noteq> [] \<and> dropWhile isTagChar content = CHR ''}'' # rest \<and> tag_index tables (takeWhile isTagChar content) = Some i
    \<and> tag_replaced_in tables keyIndex i \<and> i \<notin> set used"
    by (cases "dropWhile isTagChar content") (auto simp: readTag_def Let_def split: if_splits option.splits)
  then show ?r
    by (intro exI [of _ "takeWhile isTagChar content"]) (metis list_all_iff set_takeWhileD takeWhile_dropWhile_id)
next
  assume ?r
  then show ?l by (auto simp: readTag_def Let_def takeWhile_tag simp del: takeWhile_eq_Nil_iff dropWhile_eq_Nil_conv)
qed

lemma append_run_encode: "append_run tables result run @ rest = result @ encode (text_command tables) (units tables run) @ rest"
  by (simp add: append_run_def units_def encode_def comp_def)

lemma tag_replacer_encode: "tag_replacer tables i = encode_piece (text_command tables) (Tag i)"
  by (simp add: tag_replacer_def)

lemma compiled_Nil: "compiled tables keyIndex used result run [] r \<longleftrightarrow> r = append_run tables result run"
proof -
  have "print_tags tags = [] \<longleftrightarrow> tags = []" for tags by (cases tags) auto
  then show ?thesis using append_run_encode [of tables result run "[]"] by auto
qed

lemma compiled_Cons:
  assumes "c \<noteq> CHR ''{''"
  shows "compiled tables keyIndex used result run (c # content) r \<longleftrightarrow> compiled tables keyIndex used result (run @ [c]) content r"
proof
  assume "compiled tables keyIndex used result run (c # content) r"
  then obtain t tags where t: "CHR ''{'' \<notin> set t" "tags_ok tables keyIndex used tags" "c # content = t @ print_tags tags"
    "r = result @ encode (text_command tables) (units tables (run @ t) @ compile_tags tables tags)" by blast
  have "t \<noteq> []" using t(3) assms by (cases tags) auto
  then obtain t' where "t = c # t'" using t(3) by (cases t) auto
  then show "compiled tables keyIndex used result (run @ [c]) content r"
    using t by (intro exI [of _ t'] exI [of _ tags]) simp
next
  assume "compiled tables keyIndex used result (run @ [c]) content r"
  then obtain t tags where t: "CHR ''{'' \<notin> set t" "tags_ok tables keyIndex used tags" "content = t @ print_tags tags"
    "r = result @ encode (text_command tables) (units tables ((run @ [c]) @ t) @ compile_tags tables tags)" by blast
  then show "compiled tables keyIndex used result run (c # content) r"
    using assms by (intro exI [of _ "c # t"] exI [of _ tags]) simp
qed

lemma compiled_tag:
  "compiled tables keyIndex used result run (CHR ''{'' # content) r \<longleftrightarrow>
    (\<exists>i rest. readTag tables keyIndex used content = Inr (i, rest)
      \<and> compiled tables keyIndex (used @ [i]) (append_run tables result run @ tag_replacer tables i) [] rest r)"
proof
  assume "compiled tables keyIndex used result run (CHR ''{'' # content) r"
  then obtain t tags where t: "CHR ''{'' \<notin> set t" "tags_ok tables keyIndex used tags" "CHR ''{'' # content = t @ print_tags tags"
    "r = result @ encode (text_command tables) (units tables (run @ t) @ compile_tags tables tags)" by blast
  have "t = []" using t(1,3) by (cases t) auto
  obtain name t' tags' where tags: "tags = (name, t') # tags'" using t(3) \<open>t = []\<close> by (cases tags) auto
  obtain i where i: "tag_index tables name = Some i" using t(2) tags by (auto split: option.splits)
  have "readTag tables keyIndex used content = Inr (i, t' @ print_tags tags')"
    unfolding readTag_iff using t tags i \<open>t = []\<close> by (intro exI [of _ name]) simp
  moreover have "compiled tables keyIndex (used @ [i]) (append_run tables result run @ tag_replacer tables i) [] (t' @ print_tags tags') r"
    by (rule exI [of _ t'], rule exI [of _ tags'])
      (use t tags i \<open>t = []\<close> in \<open>simp add: append_run_encode tag_replacer_encode encode_append encode_Cons\<close>)
  ultimately show "\<exists>i rest. readTag tables keyIndex used content = Inr (i, rest)
      \<and> compiled tables keyIndex (used @ [i]) (append_run tables result run @ tag_replacer tables i) [] rest r"
    by blast
next
  assume "\<exists>i rest. readTag tables keyIndex used content = Inr (i, rest)
      \<and> compiled tables keyIndex (used @ [i]) (append_run tables result run @ tag_replacer tables i) [] rest r"
  then obtain i rest name t' tags' where *: "name \<noteq> []" "list_all isTagChar name" "content = name @ CHR ''}'' # rest"
    "tag_index tables name = Some i" "tag_replaced_in tables keyIndex i" "i \<notin> set used"
    "CHR ''{'' \<notin> set t'" "tags_ok tables keyIndex (used @ [i]) tags'" "rest = t' @ print_tags tags'"
    "r = (append_run tables result run @ tag_replacer tables i) @ encode (text_command tables) (units tables ([] @ t') @ compile_tags tables tags')"
    unfolding readTag_iff by blast
  then show "compiled tables keyIndex used result run (CHR ''{'' # content) r"
    by (intro exI [of _ "[]"] exI [of _ "(name, t') # tags'"])
      (simp add: append_run_encode tag_replacer_encode encode_append encode_Cons)
qed

lemma parse_value_compiled:
  "parse_value tables keyIndex used result run content = Inr r \<longleftrightarrow> compiled tables keyIndex used result run content r"
proof (induction tables keyIndex used result run content rule: parse_value.induct)
  case (1 tables keyIndex used result run)
  show ?case unfolding compiled_Nil by auto
next
  case (2 tables keyIndex used result run c rest)
  show ?case
  proof (cases "c = CHR ''{''")
    case True
    show ?thesis
    proof (cases "readTag tables keyIndex used rest")
      case (Inl e)
      then show ?thesis unfolding True compiled_tag by simp
    next
      case (Inr p)
      then show ?thesis unfolding True compiled_tag using 2(1) [OF True Inr] by (cases p) simp
    qed
  next
    case False
    then show ?thesis unfolding compiled_Cons [OF False] using 2(2) [OF False] by simp
  qed
qed

lemma tag_once:
  assumes "tags_ok tables keyIndex used (tags @ (name, t) # tags')" "tag_index tables name = Some i"
  shows "Tag i \<notin> set (compile_tags tables tags) \<and> i \<notin> set used"
  using assms(1)
proof (induction tags arbitrary: used)
  case (Cons p tags)
  obtain name' t' j where j: "p = (name', t')" "tag_index tables name' = Some j" "tags_ok tables keyIndex (used @ [j]) (tags @ (name, t) # tags')"
    using Cons.prems by (cases p) (auto split: option.splits)
  then show ?case using Cons.IH [OF j(3)] by (auto simp: units_def)
qed (use assms(2) in simp)

lemma compile_tags_append: "compile_tags tables (tags @ tags') = compile_tags tables tags @ compile_tags tables tags'"
  by (induction tags rule: compile_tags.induct) simp_all

section \<open>Properties\<close>

text \<open>
  C22. Reading back a language file gives the pairs it was written from, whatever characters the
  values have: with a callback every pair in its order, otherwise for each requested key the last
  of its values, and no error.
\<close>

theorem file_roundtrip:
  assumes "ws_laws ws" "list_all (\<lambda>kv. list_all is_key_char (fst kv)) pairs" "pairs \<noteq> []"
  shows "parse_file ws tables Callback (render pairs) = new_parser\<lparr>parser_calls := pairs\<rparr>
    \<and> parser_errors (parse_file ws tables (Request requested) (render pairs)) = []
    \<and> parser_result (parse_file ws tables (Request requested) (render pairs)) i = (if requested i then last_value tables pairs i else None)"
proof -
  have "parser_result (fold (\<lambda>kv. store_pair tables Callback (fst kv) (snd kv)) pairs s) = parser_result s" for s :: "'a file_parser"
    by (induction pairs arbitrary: s) (auto simp: store_pair_def)
  then show ?thesis
    by (simp add: parse_file_render [OF assms] file_parser.equality stored_errors stored_calls stored_result new_parser_def)
qed

theorem file_roundtrip_witness:
  "parser_calls (parse_file (\<lambda>c. c = CHR '' '' \<or> c = newline)
     \<lparr>key_index = (\<lambda>k. if k = ''lng_a'' then Some (0::nat) else None), from_utf8 = map of_char, tag_index = (\<lambda>n. None),
       tag_replaced_in = (\<lambda>i j. False), text_command = 0x10\<rparr> Callback (render [(''lng_a'', [quote, newline, backslash])]))
   = [(''lng_a'', [quote, newline, backslash])]"
  (is "parser_calls (parse_file ?ws ?t _ _) = ?pairs")
  using file_roundtrip [of ?ws ?pairs ?t]
  by (simp add: ws_laws_def is_key_char_def less_eq_char_def new_parser_def)

text \<open>
  C23. The first error stops the parser: the pairs before it are kept as if the file had ended there,
  exactly this error is reported, and no file gives more than one. An empty file is an error of its own.
\<close>

theorem file_error_stops:
  assumes "ws_laws ws" "list_all (\<lambda>kv. list_all is_key_char (fst kv)) pairs" "pairs \<noteq> []"
    and "readKeyValue ws rest = ReadError e"
  shows "parse_file ws tables mode (render pairs @ rest) = (parse_file ws tables mode (render pairs))\<lparr>parser_errors := [e]\<rparr>
    \<and> length (parser_errors (parse_file ws tables mode content)) \<le> 1
    \<and> parser_errors (parse_file ws tables mode []) = [EmptyContent]"
proof -
  have rest: "dropWhile ws rest \<noteq> []" "readKeyValue ws (dropWhile ws rest) = ReadError e"
    using assms(4) readKeyValue_skip [of ws rest] by (auto simp: readKeyValue_def simp del: dropWhile_eq_Nil_conv)
  have "parse_loop ws tables mode (dropWhile ws rest) s = s\<lparr>parser_errors := parser_errors s @ [e]\<rparr>" for s
    using rest by (subst parse_loop.simps) (simp del: dropWhile_eq_Nil_conv)
  then have "parse_file ws tables mode (render pairs @ rest) = (parse_file ws tables mode (render pairs))\<lparr>parser_errors := [e]\<rparr>"
    by (simp add: parse_file_pairs [OF assms(1-3)] parse_file_render [OF assms(1-3)] stored_errors new_parser_def)
  moreover have "length (parser_errors (parse_file ws tables mode content)) \<le> 1"
    by (simp add: parse_file_def parse_loop_errors Let_def del: One_nat_def)
  ultimately show ?thesis by (simp add: parse_file_def)
qed

theorem file_error_stops_witness:
  "parser_errors (parse_file (\<lambda>c. c = CHR '' '' \<or> c = newline)
     \<lparr>key_index = (\<lambda>k. None :: nat option), from_utf8 = map of_char, tag_index = (\<lambda>n. None),
       tag_replaced_in = (\<lambda>i j. False), text_command = 0x10\<rparr> Callback (render [(''lng_a'', ''A'')] @ ''lng_b''))
   = [ExpectedQuoteBeforeKey]"
  (is "parser_errors (parse_file ?ws ?t _ (render ?pairs @ ?rest)) = _")
  using file_error_stops [of ?ws ?pairs ?rest ExpectedQuoteBeforeKey ?t]
  by (simp add: ws_laws_def is_key_char_def less_eq_char_def readKeyValue_def)

text \<open>
  C24. A value is accepted exactly if it is a phrase: texts without an opening brace, and between
  them tags in braces with known names, each expected in the key and none twice. What is saved is the
  phrase with its texts decoded and its tags in the form that tag replacement looks for. Any other
  value is refused with one of the errors and nothing is saved.
\<close>

theorem value_compiled:
  assumes "key_index tables key = Some keyIndex"
  shows "ParseKeyValue tables key val = Some (j, r) \<longleftrightarrow>
    j = keyIndex \<and> (\<exists>ph. phrase_ok tables keyIndex ph \<and> val = print_phrase ph \<and> r = encode (text_command tables) (compile_phrase tables ph))"
proof -
  have "ParseKeyValue tables key val = Some (j, r) \<longleftrightarrow> j = keyIndex \<and> parse_value tables keyIndex [] [] [] val = Inr r"
    using assms by (auto simp: ParseKeyValue_def split: sum.splits)
  then show ?thesis
    unfolding parse_value_compiled by (auto simp: phrase_ok_def print_phrase_def compile_phrase_def)
qed

theorem value_compiled_witness:
  "ParseKeyValue \<lparr>key_index = (\<lambda>k. Some (0::nat)), from_utf8 = map of_char, tag_index = (\<lambda>n. if n = ''count'' then Some 3 else None),
     tag_replaced_in = (\<lambda>i j. True), text_command = 0x10\<rparr> ''lng_a'' ''A{count}'' = Some (0, [0x41, 0x10, 0x20, 0x23, 0x10])"
  (is "ParseKeyValue ?t ?k ?v = _")
proof -
  have "phrase_ok ?t 0 (''A'', [(''count'', [])])"
    by (simp add: phrase_ok_def isTagChar_def less_eq_char_def)
  moreover have "?v = print_phrase (''A'', [(''count'', [])])" by (simp add: print_phrase_def)
  moreover have "[0x41, 0x10, 0x20, 0x23, 0x10] = encode (text_command ?t) (compile_phrase ?t (''A'', [(''count'', [])]))"
    by (simp add: encode_def compile_phrase_def units_def kTextCommandLangTag_def)
  ultimately show ?thesis
    using value_compiled [of ?t ?k 0 ?v 0 "[0x41, 0x10, 0x20, 0x23, 0x10]"] by auto
qed

text \<open>
  C25. From a file to the screen: in the saved form of a phrase, replacing a tag puts the value in
  the place of this tag and leaves the texts and the other tags alone. The texts must not
  contain \<open>TextCommand\<close> and the numbers of the tags must leave room for the offset added to them.
\<close>

theorem phrase_tag_filled:
  assumes "key_index tables key = Some keyIndex" "phrase_ok tables keyIndex (t, tags @ (name, t') # tags')"
    and "list_all (piece_ok (text_command tables)) (compile_phrase tables (t, tags @ (name, t') # tags'))"
    and "tag_index tables name = Some i"
  shows "\<exists>saved. ParseKeyValue tables key (print_phrase (t, tags @ (name, t') # tags')) = Some (keyIndex, saved)
    \<and> ReplaceTag_Call (text_command tables) saved i replacement =
        encode (text_command tables) (compile_phrase tables (t, tags)) @ replacement
        @ encode (text_command tables) (compile_phrase tables (t', tags'))"
proof -
  let ?ph = "(t, tags @ (name, t') # tags')"
  let ?ps = "compile_phrase tables (t, tags)" and ?qs = "compile_phrase tables (t', tags')"
  have ps: "compile_phrase tables ?ph = ?ps @ Tag i # ?qs"
    using assms(4) by (simp add: compile_phrase_def compile_tags_append)
  have "parse_value tables keyIndex [] [] [] (print_phrase ?ph) = Inr (encode (text_command tables) (compile_phrase tables ?ph))"
    unfolding parse_value_compiled using assms(2) by (auto simp: phrase_ok_def print_phrase_def compile_phrase_def)
  moreover have "Tag i \<notin> set ?ps"
    using tag_once [of tables keyIndex "[]" tags name t' tags' i] assms(2,4) by (auto simp: phrase_ok_def compile_phrase_def units_def)
  ultimately show ?thesis
    using replace_first_tag [of "text_command tables" ?ps ?qs i replacement] assms(1,3) ps by (simp add: ParseKeyValue_def)
qed

theorem phrase_tag_filled_witness:
  "\<exists>saved. ParseKeyValue \<lparr>key_index = (\<lambda>k. Some (0::nat)), from_utf8 = map of_char,
       tag_index = (\<lambda>n. if n = ''user'' then Some 1 else if n = ''count'' then Some 3 else None),
       tag_replaced_in = (\<lambda>i j. True), text_command = 0x10\<rparr> ''lng_a'' ''{user}:{count}!'' = Some (0, saved)
     \<and> ReplaceTag_Call 0x10 saved 3 [0x37] = [0x10, 0x20, 0x21, 0x10, 0x3A, 0x37, 0x21]"
  (is "\<exists>saved. ParseKeyValue ?t ?k ?v = _ \<and> _")
  using phrase_tag_filled [of ?t ?k 0 "[]" "[(''user'', '':'')]" "''count''" "''!''" "[]" 3 "[0x37]"]
  by (simp add: phrase_ok_def isTagChar_def less_eq_char_def compile_phrase_def units_def print_phrase_def encode_def kTextCommandLangTag_def)

end
