(* ===== verification/PluralRules.thy ===== *)
theory PluralRules
  imports Prelude
begin

text \<open>
  The plural rules of lang/lang_tag.cpp: one function per rule, the table from language names to
  rules and its lookup in \<open>UpdatePluralRules\<close>. A rule gets the operands of a number as \<open>Plural\<close>
  computes them (\<open>n\<close> is \<open>-1\<close> for a number that is not an integer, so the remainders are those of
  truncated division) and returns the shift of a plural category. The floating point part of
  \<open>Plural\<close> itself is not modelled; \<open>plural_operands\<close> says which operands it passes.
\<close>

section \<open>Definitions: the rules\<close>

type_synonym plural_rule = "int \<Rightarrow> int \<Rightarrow> int \<Rightarrow> int \<Rightarrow> int \<Rightarrow> int \<Rightarrow> nat"

definition kShiftZero :: nat where "kShiftZero = 0"

definition kShiftOne :: nat where "kShiftOne = 1"

definition kShiftTwo :: nat where "kShiftTwo = 2"

definition kShiftFew :: nat where "kShiftFew = 3"

definition kShiftMany :: nat where "kShiftMany = 4"

definition kShiftOther :: nat where "kShiftOther = 5"

definition ChoosePlural1 :: plural_rule where
  "ChoosePlural1 n i v w f t =
     kShiftOther"

definition ChoosePlural2fil :: plural_rule where
  "ChoosePlural2fil n i v w f t =
     (if v = 0 then
        (let mod10 = i smod 10
         in if i = 1 \<or> i = 2 \<or> i = 3 then kShiftOne
          else if mod10 \<noteq> 4 \<and> mod10 \<noteq> 6 \<and> mod10 \<noteq> 9 then kShiftOne
          else kShiftOther)
      else (let mod10 = f smod 10
       in if mod10 \<noteq> 4 \<and> mod10 \<noteq> 6 \<and> mod10 \<noteq> 9 then kShiftOne
        else kShiftOther))"

definition ChoosePlural2tzm :: plural_rule where
  "ChoosePlural2tzm n i v w f t =
     (if n = 0 \<or> n = 1 then kShiftOne
      else if n \<ge> 11 \<and> n \<le> 99 then kShiftOne
      else kShiftOther)"

definition ChoosePlural2is :: plural_rule where
  "ChoosePlural2is n i v w f t =
     (if t = 0 then
        (let mod10 = i smod 10; mod100 = i smod 100
         in if mod10 = 1 \<and> mod100 \<noteq> 11 then kShiftOne
          else kShiftOther)
      else kShiftOne)"

definition ChoosePlural2mk :: plural_rule where
  "ChoosePlural2mk n i v w f t =
     (if v = 0 then
        (let mod10 = i smod 10; mod100 = i smod 100
         in if mod10 = 1 \<and> mod100 \<noteq> 11 then kShiftOne
          else (let mod10 = f smod 10; mod100 = f smod 100
           in if mod10 = 1 \<and> mod100 \<noteq> 11 then kShiftOne
            else kShiftOther))
      else (let mod10 = f smod 10; mod100 = f smod 100
       in if mod10 = 1 \<and> mod100 \<noteq> 11 then kShiftOne
        else kShiftOther))"

definition ChoosePlural2ak :: plural_rule where
  "ChoosePlural2ak n i v w f t =
     (if n = 0 \<or> n = 1 then kShiftOne
      else kShiftOther)"

definition ChoosePlural2am :: plural_rule where
  "ChoosePlural2am n i v w f t =
     (if i = 0 \<or> n = 1 then kShiftOne
      else kShiftOther)"

definition ChoosePlural2hy :: plural_rule where
  "ChoosePlural2hy n i v w f t =
     (if i = 0 \<or> i = 1 then kShiftOne
      else kShiftOther)"

definition ChoosePlural2si :: plural_rule where
  "ChoosePlural2si n i v w f t =
     (if n = 0 \<or> n = 1 then kShiftOne
      else if i = 0 \<and> f = 1 then kShiftOne
      else kShiftOther)"

definition ChoosePlural2bh :: plural_rule where
  "ChoosePlural2bh n i v w f t =
     (if n = 0 \<or> n = 1 then kShiftOne
      else kShiftOther)"

definition ChoosePlural2af :: plural_rule where
  "ChoosePlural2af n i v w f t =
     (if n = 1 then kShiftOne
      else kShiftOther)"

definition ChoosePlural2ast :: plural_rule where
  "ChoosePlural2ast n i v w f t =
     (if i = 1 \<and> v = 0 then kShiftOne
      else kShiftOther)"

definition ChoosePlural2da :: plural_rule where
  "ChoosePlural2da n i v w f t =
     (if n = 1 then kShiftOne
      else if t \<noteq> 0 \<and> (i = 0 \<or> i = 1) then kShiftOne
      else kShiftOther)"

definition ChoosePlural3lv :: plural_rule where
  "ChoosePlural3lv n i v w f t =
     (let nmod10 = n smod 10; nmod100 = n smod 100; fmod10 = f smod 10; fmod100 = f smod 100
       in if nmod10 = 0 then kShiftZero
        else if nmod100 \<ge> 11 \<and> nmod100 \<le> 19 then kShiftZero
        else if v = 2 \<and> fmod100 \<ge> 11 \<and> fmod100 \<le> 19 then kShiftZero
        else if nmod10 = 1 \<and> nmod100 \<noteq> 11 then kShiftOne
        else if v = 2 \<and> fmod10 = 1 \<and> fmod100 \<noteq> 11 then kShiftOne
        else if v \<noteq> 2 \<and> fmod10 = 1 then kShiftOne
        else kShiftOther)"

definition ChoosePlural3ksh :: plural_rule where
  "ChoosePlural3ksh n i v w f t =
     (if n = 0 then kShiftZero
      else if n = 1 then kShiftOne
      else kShiftOther)"

definition ChoosePlural3lag :: plural_rule where
  "ChoosePlural3lag n i v w f t =
     (if n = 0 then kShiftZero
      else if n \<noteq> 0 \<and> (i = 0 \<or> i = 1) then kShiftOne
      else kShiftOther)"

definition ChoosePlural3kw :: plural_rule where
  "ChoosePlural3kw n i v w f t =
     (if n = 1 then kShiftOne
      else if n = 2 then kShiftTwo
      else kShiftOther)"

definition ChoosePlural3bs :: plural_rule where
  "ChoosePlural3bs n i v w f t =
     (if v = 0 then
        (let mod10 = i smod 10; mod100 = i smod 100
         in if mod10 \<ge> 2 \<and> mod10 \<le> 4 \<and> (mod100 < 12 \<or> mod100 > 14) then kShiftFew
          else if mod10 = 1 \<and> mod100 \<noteq> 11 then kShiftOne
          else kShiftOther)
      else (let mod10 = f smod 10; mod100 = f smod 100
       in if mod10 \<ge> 2 \<and> mod10 \<le> 4 \<and> (mod100 < 12 \<or> mod100 > 14) then kShiftFew
        else if mod10 = 1 \<and> mod100 \<noteq> 11 then kShiftOne
        else kShiftOther))"

definition ChoosePlural3shi :: plural_rule where
  "ChoosePlural3shi n i v w f t =
     (if i = 0 \<or> n = 1 then kShiftOne
      else if n \<ge> 2 \<and> n \<le> 10 then kShiftFew
      else kShiftOther)"

definition ChoosePlural3mo :: plural_rule where
  "ChoosePlural3mo n i v w f t =
     (if v = 0 then
        (let mod100 = n smod 100
         in if i = 1 then kShiftOne
          else if n = 0 then kShiftFew
          else if n \<noteq> 1 \<and> mod100 \<ge> 1 \<and> mod100 \<le> 19 then kShiftFew
          else kShiftOther)
      else kShiftFew)"

definition ChoosePlural4be :: plural_rule where
  "ChoosePlural4be n i v w f t =
     (let mod10 = n smod 10; mod100 = n smod 100
       in if mod10 \<ge> 2 \<and> mod10 \<le> 4 \<and> (mod100 < 12 \<or> mod100 > 14) then kShiftFew
        else if mod10 = 1 \<and> mod100 \<noteq> 11 then kShiftOne
        else if mod10 = 0 then kShiftMany
        else if mod10 \<ge> 5 \<and> mod10 \<le> 9 then kShiftMany
        else if mod100 \<ge> 11 \<and> mod100 \<le> 14 then kShiftMany
        else kShiftOther)"

definition ChoosePlural4ru :: plural_rule where
  "ChoosePlural4ru n i v w f t =
     (if v = 0 then
        (let mod10 = i smod 10; mod100 = i smod 100
         in if mod10 \<ge> 2 \<and> mod10 \<le> 4 \<and> (mod100 < 12 \<or> mod100 > 14) then kShiftFew
          else if mod10 = 1 \<and> mod100 \<noteq> 11 then kShiftOne
          else kShiftMany)
      else kShiftOther)"

definition ChoosePlural4pl :: plural_rule where
  "ChoosePlural4pl n i v w f t =
     (if v = 0 then
        (if i = 1 then kShiftOne
        else (let mod10 = i smod 10; mod100 = i smod 100
         in if mod10 \<ge> 2 \<and> mod10 \<le> 4 \<and> (mod100 < 12 \<or> mod100 > 14) then kShiftFew
          else kShiftMany))
      else kShiftOther)"

definition ChoosePlural4lt :: plural_rule where
  "ChoosePlural4lt n i v w f t =
     (let mod10 = n smod 10; mod100 = n smod 100
       in if mod10 \<ge> 2 \<and> mod10 \<le> 9 \<and> (mod100 < 11 \<or> mod100 > 19) then kShiftFew
        else if mod10 = 1 \<and> mod100 \<noteq> 11 then kShiftOne
        else if f \<noteq> 0 then kShiftMany
        else kShiftOther)"

definition ChoosePlural4cs :: plural_rule where
  "ChoosePlural4cs n i v w f t =
     (if v = 0 then
        (if i = 1 then kShiftOne
        else if i \<ge> 2 \<and> i \<le> 4 then kShiftFew
        else kShiftOther)
      else kShiftMany)"

definition ChoosePlural4gd :: plural_rule where
  "ChoosePlural4gd n i v w f t =
     (if n = 1 \<or> n = 11 then kShiftOne
      else if n = 2 \<or> n = 12 then kShiftTwo
      else if n \<ge> 3 \<and> n \<le> 10 then kShiftFew
      else if n \<ge> 13 \<and> n \<le> 19 then kShiftFew
      else kShiftOther)"

definition ChoosePlural4dsb :: plural_rule where
  "ChoosePlural4dsb n i v w f t =
     (if v = 0 then
        (let imod100 = i smod 100
         in if imod100 = 1 then kShiftOne
          else if imod100 = 2 then kShiftTwo
          else if imod100 = 3 \<or> imod100 = 4 then kShiftFew
          else (let fmod100 = f smod 100
           in if fmod100 = 1 then kShiftOne
            else if fmod100 = 2 then kShiftTwo
            else if fmod100 = 3 \<or> fmod100 = 4 then kShiftFew
            else kShiftOther))
      else (let fmod100 = f smod 100
       in if fmod100 = 1 then kShiftOne
        else if fmod100 = 2 then kShiftTwo
        else if fmod100 = 3 \<or> fmod100 = 4 then kShiftFew
        else kShiftOther))"

definition ChoosePlural4sl :: plural_rule where
  "ChoosePlural4sl n i v w f t =
     (if v = 0 then
        (let imod100 = i smod 100
         in if imod100 = 3 \<or> imod100 = 4 then kShiftFew
          else if imod100 = 1 then kShiftOne
          else if imod100 = 2 then kShiftTwo
          else kShiftOther)
      else kShiftFew)"

definition ChoosePlural4he :: plural_rule where
  "ChoosePlural4he n i v w f t =
     (if v = 0 then
        (if i = 1 then kShiftOne
        else if i = 2 then kShiftTwo
        else if n \<noteq> 0 \<and> n \<noteq> 10 \<and> (n smod 10) = 0 then kShiftMany
        else kShiftOther)
      else kShiftOther)"

definition ChoosePlural4mt :: plural_rule where
  "ChoosePlural4mt n i v w f t =
     (let mod100 = n smod 100
       in if n = 1 then kShiftOne
        else if n = 0 then kShiftFew
        else if mod100 \<ge> 2 \<and> mod100 \<le> 10 then kShiftFew
        else if mod100 \<ge> 11 \<and> mod100 \<le> 19 then kShiftMany
        else kShiftOther)"

definition ChoosePlural5gv :: plural_rule where
  "ChoosePlural5gv n i v w f t =
     (if v = 0 then
        (let mod10 = i smod 10; mod20 = i smod 20
         in if mod10 = 1 then kShiftOne
          else if mod10 = 2 then kShiftTwo
          else if mod20 = 0 then kShiftFew
          else kShiftOther)
      else kShiftMany)"

definition ChoosePlural5br :: plural_rule where
  "ChoosePlural5br n i v w f t =
     (let mod10 = n smod 10; mod100 = n smod 100
       in if mod10 = 1 \<and> mod100 \<noteq> 11 \<and> mod100 \<noteq> 71 \<and> mod100 \<noteq> 91 then kShiftOne
        else if mod10 = 2 \<and> mod100 \<noteq> 12 \<and> mod100 \<noteq> 72 \<and> mod100 \<noteq> 92 then kShiftTwo
        else if (mod10 = 3 \<or> mod10 = 4 \<or> mod10 = 9) \<and> (mod100 < 10 \<or> mod100 > 19) \<and> (mod100 < 70 \<or> mod100 > 79) \<and> (mod100 < 90 \<or> mod100 > 99) then kShiftFew
        else if n \<noteq> 0 \<and> (n smod 1000000) = 0 then kShiftMany
        else kShiftOther)"

definition ChoosePlural5ga :: plural_rule where
  "ChoosePlural5ga n i v w f t =
     (if n = 1 then kShiftOne
      else if n = 2 then kShiftTwo
      else if n \<ge> 3 \<and> n \<le> 6 then kShiftFew
      else if n \<ge> 7 \<and> n \<le> 10 then kShiftMany
      else kShiftOther)"

definition ChoosePlural6ar :: plural_rule where
  "ChoosePlural6ar n i v w f t =
     (if n = 0 then kShiftZero
      else if n = 1 then kShiftOne
      else if n = 2 then kShiftTwo
      else if n < 0 then kShiftOther
      else (let mod100 = n smod 100
       in if mod100 \<ge> 3 \<and> mod100 \<le> 10 then kShiftFew
        else if mod100 \<ge> 11 \<and> mod100 \<le> 99 then kShiftMany
        else kShiftOther))"

definition ChoosePlural6cy :: plural_rule where
  "ChoosePlural6cy n i v w f t =
     (if n = 0 then kShiftZero
      else if n = 1 then kShiftOne
      else if n = 2 then kShiftTwo
      else if n = 3 then kShiftFew
      else if n = 6 then kShiftMany
      else kShiftOther)"

section \<open>Definitions: the rule of a language\<close>

text \<open>Language names are strings of 7 bit characters; \<open>QChar::toLower\<close> is written out for them.\<close>

definition ConvertKeyChar :: "char \<Rightarrow> char" where
  "ConvertKeyChar ch =
     (if ch = CHR ''_'' then CHR ''-''
      else if 65 \<le> (of_char ch :: nat) \<and> (of_char ch :: nat) \<le> 90 then char_of (of_char ch + 32 :: nat)
      else ch)"

definition push_char :: "char \<Rightarrow> uint64 \<Rightarrow> uint64" where
  "push_char ch key = push_bit 8 key OR of_char ch"

definition PluralsKey :: "string \<Rightarrow> uint64" where
  "PluralsKey value = fold (\<lambda>ch data. push_char (ConvertKeyChar ch) data) value 0"

definition PluralRulesTable :: "(string \<times> plural_rule) list" where
  "PluralRulesTable =
     [(''fil'', ChoosePlural2fil), (''tl'', ChoosePlural2fil), (''tzm'', ChoosePlural2tzm),
      (''is'', ChoosePlural2is), (''mk'', ChoosePlural2mk), (''ak'', ChoosePlural2ak),
      (''guw'', ChoosePlural2ak), (''ln'', ChoosePlural2ak), (''mg'', ChoosePlural2ak),
      (''nso'', ChoosePlural2ak), (''pa'', ChoosePlural2ak), (''ti'', ChoosePlural2ak),
      (''wa'', ChoosePlural2ak), (''am'', ChoosePlural2am), (''as'', ChoosePlural2am),
      (''bn'', ChoosePlural2am), (''gu'', ChoosePlural2am), (''hi'', ChoosePlural2am),
      (''kn'', ChoosePlural2am), (''mr'', ChoosePlural2am), (''fa'', ChoosePlural2am),
      (''zu'', ChoosePlural2am), (''hy'', ChoosePlural2hy), (''fr'', ChoosePlural2hy),
      (''ff'', ChoosePlural2hy), (''kab'', ChoosePlural2hy), (''pt'', ChoosePlural2hy),
      (''si'', ChoosePlural2si), (''bh'', ChoosePlural2bh), (''bho'', ChoosePlural2bh),
      (''af'', ChoosePlural2af), (''sq'', ChoosePlural2af), (''asa'', ChoosePlural2af),
      (''az'', ChoosePlural2af), (''eu'', ChoosePlural2af), (''bem'', ChoosePlural2af),
      (''bez'', ChoosePlural2af), (''brx'', ChoosePlural2af), (''bg'', ChoosePlural2af),
      (''ckb'', ChoosePlural2af), (''ce'', ChoosePlural2af), (''chr'', ChoosePlural2af),
      (''cgg'', ChoosePlural2af), (''dv'', ChoosePlural2af), (''eo'', ChoosePlural2af),
      (''ee'', ChoosePlural2af), (''fo'', ChoosePlural2af), (''fur'', ChoosePlural2af),
      (''ka'', ChoosePlural2af), (''el'', ChoosePlural2af), (''ha'', ChoosePlural2af),
      (''haw'', ChoosePlural2af), (''hu'', ChoosePlural2af), (''kaj'', ChoosePlural2af),
      (''kkj'', ChoosePlural2af), (''kl'', ChoosePlural2af), (''ks'', ChoosePlural2af),
      (''kk'', ChoosePlural2af), (''ku'', ChoosePlural2af), (''ky'', ChoosePlural2af),
      (''lb'', ChoosePlural2af), (''jmc'', ChoosePlural2af), (''ml'', ChoosePlural2af),
      (''mas'', ChoosePlural2af), (''mgo'', ChoosePlural2af), (''mn'', ChoosePlural2af),
      (''nah'', ChoosePlural2af), (''ne'', ChoosePlural2af), (''nnh'', ChoosePlural2af),
      (''jgo'', ChoosePlural2af), (''nd'', ChoosePlural2af), (''no'', ChoosePlural2af),
      (''nb'', ChoosePlural2af), (''nn'', ChoosePlural2af), (''ny'', ChoosePlural2af),
      (''nyn'', ChoosePlural2af), (''or'', ChoosePlural2af), (''om'', ChoosePlural2af),
      (''os'', ChoosePlural2af), (''pap'', ChoosePlural2af), (''ps'', ChoosePlural2af),
      (''rm'', ChoosePlural2af), (''rof'', ChoosePlural2af), (''rwk'', ChoosePlural2af),
      (''ssy'', ChoosePlural2af), (''saq'', ChoosePlural2af), (''seh'', ChoosePlural2af),
      (''ksb'', ChoosePlural2af), (''sn'', ChoosePlural2af), (''sd'', ChoosePlural2af),
      (''xog'', ChoosePlural2af), (''so'', ChoosePlural2af), (''nr'', ChoosePlural2af),
      (''sdh'', ChoosePlural2af), (''st'', ChoosePlural2af), (''es'', ChoosePlural2af),
      (''ss'', ChoosePlural2af), (''gsw'', ChoosePlural2af), (''syr'', ChoosePlural2af),
      (''ta'', ChoosePlural2af), (''te'', ChoosePlural2af), (''teo'', ChoosePlural2af),
      (''tig'', ChoosePlural2af), (''ts'', ChoosePlural2af), (''tn'', ChoosePlural2af),
      (''tr'', ChoosePlural2af), (''tk'', ChoosePlural2af), (''kcg'', ChoosePlural2af),
      (''ug'', ChoosePlural2af), (''uz'', ChoosePlural2af), (''ve'', ChoosePlural2af),
      (''vo'', ChoosePlural2af), (''vun'', ChoosePlural2af), (''wae'', ChoosePlural2af),
      (''xh'', ChoosePlural2af), ('''', ChoosePlural2ast), (''ast'', ChoosePlural2ast),
      (''ca'', ChoosePlural2ast), (''nl'', ChoosePlural2ast), (''en'', ChoosePlural2ast),
      (''et'', ChoosePlural2ast), (''pt_PT'', ChoosePlural2ast), (''fi'', ChoosePlural2ast),
      (''gl'', ChoosePlural2ast), (''lg'', ChoosePlural2ast), (''de'', ChoosePlural2ast),
      (''io'', ChoosePlural2ast), (''ia'', ChoosePlural2ast), (''it'', ChoosePlural2ast),
      (''sc'', ChoosePlural2ast), (''scn'', ChoosePlural2ast), (''sw'', ChoosePlural2ast),
      (''sv'', ChoosePlural2ast), (''ur'', ChoosePlural2ast), (''fy'', ChoosePlural2ast),
      (''ji'', ChoosePlural2ast), (''yi'', ChoosePlural2ast), (''da'', ChoosePlural2da),
      (''lv'', ChoosePlural3lv), (''prg'', ChoosePlural3lv), (''ksh'', ChoosePlural3ksh),
      (''lag'', ChoosePlural3lag), (''kw'', ChoosePlural3kw), (''smn'', ChoosePlural3kw),
      (''iu'', ChoosePlural3kw), (''smj'', ChoosePlural3kw), (''naq'', ChoosePlural3kw),
      (''se'', ChoosePlural3kw), (''smi'', ChoosePlural3kw), (''sms'', ChoosePlural3kw),
      (''sma'', ChoosePlural3kw), (''bs'', ChoosePlural3bs), (''hr'', ChoosePlural3bs),
      (''sr'', ChoosePlural3bs), (''sh'', ChoosePlural3bs), (''sr_Latn'', ChoosePlural3bs),
      (''shi'', ChoosePlural3shi), (''mo'', ChoosePlural3mo), (''ro_MD'', ChoosePlural3mo),
      (''ro'', ChoosePlural3mo), (''be'', ChoosePlural4be), (''ru'', ChoosePlural4ru),
      (''uk'', ChoosePlural4ru), (''pl'', ChoosePlural4pl), (''lt'', ChoosePlural4lt),
      (''cs'', ChoosePlural4cs), (''sk'', ChoosePlural4cs), (''gd'', ChoosePlural4gd),
      (''dsb'', ChoosePlural4dsb), (''hsb'', ChoosePlural4dsb), (''sl'', ChoosePlural4sl),
      (''he'', ChoosePlural4he), (''iw'', ChoosePlural4he), (''mt'', ChoosePlural4mt),
      (''gv'', ChoosePlural5gv), (''br'', ChoosePlural5br), (''ga'', ChoosePlural5ga),
      (''ar'', ChoosePlural6ar), (''ars'', ChoosePlural6ar), (''cy'', ChoosePlural6cy)]"

definition GeneratePluralRulesMap :: "uint64 \<rightharpoonup> plural_rule" where
  "GeneratePluralRulesMap = map_of (map (\<lambda>(name, rule). (PluralsKey name, rule)) PluralRulesTable)"

text \<open>The loop of \<open>UpdatePluralRules\<close>, on the pair of the parent's key and the key.\<close>

definition language_step :: "char \<Rightarrow> uint64 \<times> uint64 \<Rightarrow> uint64 \<times> uint64" where
  "language_step ch s =
     (let (parent, key) = s; converted = ConvertKeyChar ch;
          parent = (if converted = CHR ''-'' \<and> parent = 0 then key else parent)
      in (parent, push_char converted key))"

definition UpdatePluralRules :: "string \<Rightarrow> plural_rule" where
  "UpdatePluralRules languageId =
     (let (parent, key) = fold language_step languageId (0, 0);
          result = GeneratePluralRulesMap key;
          i = (if result \<noteq> None \<or> parent = 0 then result else GeneratePluralRulesMap parent)
      in case i of None \<Rightarrow> ChoosePlural1 | Some rule \<Rightarrow> rule)"

section \<open>Definitions: specification\<close>

text \<open>The operands \<open>Plural\<close> passes, and the shifts a rule can return for them.\<close>

definition plural_operands :: "int \<Rightarrow> int \<Rightarrow> int \<Rightarrow> int \<Rightarrow> int \<Rightarrow> int \<Rightarrow> bool" where
  "plural_operands n i v w f t \<longleftrightarrow> 0 \<le> i
     \<and> (n = i \<and> v = 0 \<and> w = 0 \<and> f = 0 \<and> t = 0 \<or> n = -1 \<and> 0 \<le> v \<and> w = v \<and> 0 \<le> f \<and> t = f)"

definition shifts_of :: "plural_rule \<Rightarrow> nat set" where
  "shifts_of rule = {rule n i v w f t | n i v w f t. plural_operands n i v w f t}"

text \<open>The categories of each rule, one for each that its name promises.\<close>

definition rule_categories :: "(plural_rule \<times> nat list) list" where
  "rule_categories =
     [(ChoosePlural1, [kShiftOther]),
      (ChoosePlural2fil, [kShiftOne, kShiftOther]),
      (ChoosePlural2tzm, [kShiftOne, kShiftOther]),
      (ChoosePlural2is, [kShiftOne, kShiftOther]),
      (ChoosePlural2mk, [kShiftOne, kShiftOther]),
      (ChoosePlural2ak, [kShiftOne, kShiftOther]),
      (ChoosePlural2am, [kShiftOne, kShiftOther]),
      (ChoosePlural2hy, [kShiftOne, kShiftOther]),
      (ChoosePlural2si, [kShiftOne, kShiftOther]),
      (ChoosePlural2bh, [kShiftOne, kShiftOther]),
      (ChoosePlural2af, [kShiftOne, kShiftOther]),
      (ChoosePlural2ast, [kShiftOne, kShiftOther]),
      (ChoosePlural2da, [kShiftOne, kShiftOther]),
      (ChoosePlural3lv, [kShiftZero, kShiftOne, kShiftOther]),
      (ChoosePlural3ksh, [kShiftZero, kShiftOne, kShiftOther]),
      (ChoosePlural3lag, [kShiftZero, kShiftOne, kShiftOther]),
      (ChoosePlural3kw, [kShiftOne, kShiftTwo, kShiftOther]),
      (ChoosePlural3bs, [kShiftOne, kShiftFew, kShiftOther]),
      (ChoosePlural3shi, [kShiftOne, kShiftFew, kShiftOther]),
      (ChoosePlural3mo, [kShiftOne, kShiftFew, kShiftOther]),
      (ChoosePlural4be, [kShiftOne, kShiftFew, kShiftMany, kShiftOther]),
      (ChoosePlural4ru, [kShiftOne, kShiftFew, kShiftMany, kShiftOther]),
      (ChoosePlural4pl, [kShiftOne, kShiftFew, kShiftMany, kShiftOther]),
      (ChoosePlural4lt, [kShiftOne, kShiftFew, kShiftMany, kShiftOther]),
      (ChoosePlural4cs, [kShiftOne, kShiftFew, kShiftMany, kShiftOther]),
      (ChoosePlural4gd, [kShiftOne, kShiftTwo, kShiftFew, kShiftOther]),
      (ChoosePlural4dsb, [kShiftOne, kShiftTwo, kShiftFew, kShiftOther]),
      (ChoosePlural4sl, [kShiftOne, kShiftTwo, kShiftFew, kShiftOther]),
      (ChoosePlural4he, [kShiftOne, kShiftTwo, kShiftMany, kShiftOther]),
      (ChoosePlural4mt, [kShiftOne, kShiftFew, kShiftMany, kShiftOther]),
      (ChoosePlural5gv, [kShiftOne, kShiftTwo, kShiftFew, kShiftMany, kShiftOther]),
      (ChoosePlural5br, [kShiftOne, kShiftTwo, kShiftFew, kShiftMany, kShiftOther]),
      (ChoosePlural5ga, [kShiftOne, kShiftTwo, kShiftFew, kShiftMany, kShiftOther]),
      (ChoosePlural6ar, [kShiftZero, kShiftOne, kShiftTwo, kShiftFew, kShiftMany, kShiftOther]),
      (ChoosePlural6cy, [kShiftZero, kShiftOne, kShiftTwo, kShiftFew, kShiftMany, kShiftOther])]"

text \<open>Lookup by names instead of keys.\<close>

definition rule_of_name :: "string \<Rightarrow> plural_rule option" where
  "rule_of_name s = map_of (map (\<lambda>(name, rule). (map ConvertKeyChar name, rule)) PluralRulesTable) s"

definition rule_of_language :: "string \<Rightarrow> plural_rule" where
  "rule_of_language languageId =
     (let s = map ConvertKeyChar languageId
      in case rule_of_name s of
           Some rule \<Rightarrow> rule
         | None \<Rightarrow>
             if CHR ''-'' \<in> set s
             then (case rule_of_name (takeWhile (\<lambda>c. c \<noteq> CHR ''-'') s) of Some rule \<Rightarrow> rule | None \<Rightarrow> ChoosePlural1)
             else ChoosePlural1)"

text \<open>The key of a name is its last eight characters, read as a number in base 256.\<close>

definition name_number :: "string \<Rightarrow> nat" where
  "name_number s = fold (\<lambda>c n. 256 * n + of_char c) s 0"

definition name_key :: "string \<Rightarrow> uint64" where
  "name_key s = fold push_char s 0"

text \<open>Names without a zero character.\<close>

abbreviation name_ok :: "string \<Rightarrow> bool" where
  "name_ok s \<equiv> list_all (\<lambda>c. c \<noteq> CHR 0x00) s"

section \<open>Categories\<close>

lemmas shift_defs = kShiftZero_def kShiftOne_def kShiftTwo_def kShiftFew_def kShiftMany_def kShiftOther_def

lemma shifts_ofI: "plural_operands n i v w f t \<Longrightarrow> rule n i v w f t = s \<Longrightarrow> s \<in> shifts_of rule"
  unfolding shifts_of_def by blast

lemma shifts_of_subset: "(\<And>n i v w f t. rule n i v w f t \<in> A) \<Longrightarrow> shifts_of rule \<subseteq> A"
  unfolding shifts_of_def by blast

lemma operands_integer: "0 \<le> i \<Longrightarrow> plural_operands i i 0 0 0 0"
  by (simp add: plural_operands_def)

lemma operands_fraction: "plural_operands (-1) 0 1 1 1 1"
  by (simp add: plural_operands_def)

lemma shifts_1: "shifts_of ChoosePlural1 = {kShiftOther}"
proof
  show "shifts_of ChoosePlural1 \<subseteq> {kShiftOther}"
    by (rule shifts_of_subset) (simp add: ChoosePlural1_def Let_def)
  moreover have "kShiftOther \<in> shifts_of ChoosePlural1"
    by (rule shifts_ofI [OF operands_integer [of 0]]) (simp_all add: ChoosePlural1_def signed_modulo_int_def Let_def)
  ultimately show "{kShiftOther} \<subseteq> shifts_of ChoosePlural1" by simp
qed

lemma shifts_2fil: "shifts_of ChoosePlural2fil = {kShiftOne, kShiftOther}"
proof
  show "shifts_of ChoosePlural2fil \<subseteq> {kShiftOne, kShiftOther}"
    by (rule shifts_of_subset) (simp add: ChoosePlural2fil_def Let_def)
  moreover have "kShiftOne \<in> shifts_of ChoosePlural2fil"
    by (rule shifts_ofI [OF operands_integer [of 0]]) (simp_all add: ChoosePlural2fil_def signed_modulo_int_def Let_def)
  moreover have "kShiftOther \<in> shifts_of ChoosePlural2fil"
    by (rule shifts_ofI [OF operands_integer [of 4]]) (simp_all add: ChoosePlural2fil_def signed_modulo_int_def Let_def)
  ultimately show "{kShiftOne, kShiftOther} \<subseteq> shifts_of ChoosePlural2fil" by simp
qed

lemma shifts_2tzm: "shifts_of ChoosePlural2tzm = {kShiftOne, kShiftOther}"
proof
  show "shifts_of ChoosePlural2tzm \<subseteq> {kShiftOne, kShiftOther}"
    by (rule shifts_of_subset) (simp add: ChoosePlural2tzm_def Let_def)
  moreover have "kShiftOne \<in> shifts_of ChoosePlural2tzm"
    by (rule shifts_ofI [OF operands_integer [of 0]]) (simp_all add: ChoosePlural2tzm_def signed_modulo_int_def Let_def)
  moreover have "kShiftOther \<in> shifts_of ChoosePlural2tzm"
    by (rule shifts_ofI [OF operands_integer [of 2]]) (simp_all add: ChoosePlural2tzm_def signed_modulo_int_def Let_def)
  ultimately show "{kShiftOne, kShiftOther} \<subseteq> shifts_of ChoosePlural2tzm" by simp
qed

lemma shifts_2is: "shifts_of ChoosePlural2is = {kShiftOne, kShiftOther}"
proof
  show "shifts_of ChoosePlural2is \<subseteq> {kShiftOne, kShiftOther}"
    by (rule shifts_of_subset) (simp add: ChoosePlural2is_def Let_def)
  moreover have "kShiftOne \<in> shifts_of ChoosePlural2is"
    by (rule shifts_ofI [OF operands_integer [of 1]]) (simp_all add: ChoosePlural2is_def signed_modulo_int_def Let_def)
  moreover have "kShiftOther \<in> shifts_of ChoosePlural2is"
    by (rule shifts_ofI [OF operands_integer [of 0]]) (simp_all add: ChoosePlural2is_def signed_modulo_int_def Let_def)
  ultimately show "{kShiftOne, kShiftOther} \<subseteq> shifts_of ChoosePlural2is" by simp
qed

lemma shifts_2mk: "shifts_of ChoosePlural2mk = {kShiftOne, kShiftOther}"
proof
  show "shifts_of ChoosePlural2mk \<subseteq> {kShiftOne, kShiftOther}"
    by (rule shifts_of_subset) (simp add: ChoosePlural2mk_def Let_def)
  moreover have "kShiftOne \<in> shifts_of ChoosePlural2mk"
    by (rule shifts_ofI [OF operands_integer [of 1]]) (simp_all add: ChoosePlural2mk_def signed_modulo_int_def Let_def)
  moreover have "kShiftOther \<in> shifts_of ChoosePlural2mk"
    by (rule shifts_ofI [OF operands_integer [of 0]]) (simp_all add: ChoosePlural2mk_def signed_modulo_int_def Let_def)
  ultimately show "{kShiftOne, kShiftOther} \<subseteq> shifts_of ChoosePlural2mk" by simp
qed

lemma shifts_2ak: "shifts_of ChoosePlural2ak = {kShiftOne, kShiftOther}"
proof
  show "shifts_of ChoosePlural2ak \<subseteq> {kShiftOne, kShiftOther}"
    by (rule shifts_of_subset) (simp add: ChoosePlural2ak_def Let_def)
  moreover have "kShiftOne \<in> shifts_of ChoosePlural2ak"
    by (rule shifts_ofI [OF operands_integer [of 0]]) (simp_all add: ChoosePlural2ak_def signed_modulo_int_def Let_def)
  moreover have "kShiftOther \<in> shifts_of ChoosePlural2ak"
    by (rule shifts_ofI [OF operands_integer [of 2]]) (simp_all add: ChoosePlural2ak_def signed_modulo_int_def Let_def)
  ultimately show "{kShiftOne, kShiftOther} \<subseteq> shifts_of ChoosePlural2ak" by simp
qed

lemma shifts_2am: "shifts_of ChoosePlural2am = {kShiftOne, kShiftOther}"
proof
  show "shifts_of ChoosePlural2am \<subseteq> {kShiftOne, kShiftOther}"
    by (rule shifts_of_subset) (simp add: ChoosePlural2am_def Let_def)
  moreover have "kShiftOne \<in> shifts_of ChoosePlural2am"
    by (rule shifts_ofI [OF operands_integer [of 0]]) (simp_all add: ChoosePlural2am_def signed_modulo_int_def Let_def)
  moreover have "kShiftOther \<in> shifts_of ChoosePlural2am"
    by (rule shifts_ofI [OF operands_integer [of 2]]) (simp_all add: ChoosePlural2am_def signed_modulo_int_def Let_def)
  ultimately show "{kShiftOne, kShiftOther} \<subseteq> shifts_of ChoosePlural2am" by simp
qed

lemma shifts_2hy: "shifts_of ChoosePlural2hy = {kShiftOne, kShiftOther}"
proof
  show "shifts_of ChoosePlural2hy \<subseteq> {kShiftOne, kShiftOther}"
    by (rule shifts_of_subset) (simp add: ChoosePlural2hy_def Let_def)
  moreover have "kShiftOne \<in> shifts_of ChoosePlural2hy"
    by (rule shifts_ofI [OF operands_integer [of 0]]) (simp_all add: ChoosePlural2hy_def signed_modulo_int_def Let_def)
  moreover have "kShiftOther \<in> shifts_of ChoosePlural2hy"
    by (rule shifts_ofI [OF operands_integer [of 2]]) (simp_all add: ChoosePlural2hy_def signed_modulo_int_def Let_def)
  ultimately show "{kShiftOne, kShiftOther} \<subseteq> shifts_of ChoosePlural2hy" by simp
qed

lemma shifts_2si: "shifts_of ChoosePlural2si = {kShiftOne, kShiftOther}"
proof
  show "shifts_of ChoosePlural2si \<subseteq> {kShiftOne, kShiftOther}"
    by (rule shifts_of_subset) (simp add: ChoosePlural2si_def Let_def)
  moreover have "kShiftOne \<in> shifts_of ChoosePlural2si"
    by (rule shifts_ofI [OF operands_integer [of 0]]) (simp_all add: ChoosePlural2si_def signed_modulo_int_def Let_def)
  moreover have "kShiftOther \<in> shifts_of ChoosePlural2si"
    by (rule shifts_ofI [OF operands_integer [of 2]]) (simp_all add: ChoosePlural2si_def signed_modulo_int_def Let_def)
  ultimately show "{kShiftOne, kShiftOther} \<subseteq> shifts_of ChoosePlural2si" by simp
qed

lemma shifts_2bh: "shifts_of ChoosePlural2bh = {kShiftOne, kShiftOther}"
proof
  show "shifts_of ChoosePlural2bh \<subseteq> {kShiftOne, kShiftOther}"
    by (rule shifts_of_subset) (simp add: ChoosePlural2bh_def Let_def)
  moreover have "kShiftOne \<in> shifts_of ChoosePlural2bh"
    by (rule shifts_ofI [OF operands_integer [of 0]]) (simp_all add: ChoosePlural2bh_def signed_modulo_int_def Let_def)
  moreover have "kShiftOther \<in> shifts_of ChoosePlural2bh"
    by (rule shifts_ofI [OF operands_integer [of 2]]) (simp_all add: ChoosePlural2bh_def signed_modulo_int_def Let_def)
  ultimately show "{kShiftOne, kShiftOther} \<subseteq> shifts_of ChoosePlural2bh" by simp
qed

lemma shifts_2af: "shifts_of ChoosePlural2af = {kShiftOne, kShiftOther}"
proof
  show "shifts_of ChoosePlural2af \<subseteq> {kShiftOne, kShiftOther}"
    by (rule shifts_of_subset) (simp add: ChoosePlural2af_def Let_def)
  moreover have "kShiftOne \<in> shifts_of ChoosePlural2af"
    by (rule shifts_ofI [OF operands_integer [of 1]]) (simp_all add: ChoosePlural2af_def signed_modulo_int_def Let_def)
  moreover have "kShiftOther \<in> shifts_of ChoosePlural2af"
    by (rule shifts_ofI [OF operands_integer [of 0]]) (simp_all add: ChoosePlural2af_def signed_modulo_int_def Let_def)
  ultimately show "{kShiftOne, kShiftOther} \<subseteq> shifts_of ChoosePlural2af" by simp
qed

lemma shifts_2ast: "shifts_of ChoosePlural2ast = {kShiftOne, kShiftOther}"
proof
  show "shifts_of ChoosePlural2ast \<subseteq> {kShiftOne, kShiftOther}"
    by (rule shifts_of_subset) (simp add: ChoosePlural2ast_def Let_def)
  moreover have "kShiftOne \<in> shifts_of ChoosePlural2ast"
    by (rule shifts_ofI [OF operands_integer [of 1]]) (simp_all add: ChoosePlural2ast_def signed_modulo_int_def Let_def)
  moreover have "kShiftOther \<in> shifts_of ChoosePlural2ast"
    by (rule shifts_ofI [OF operands_integer [of 0]]) (simp_all add: ChoosePlural2ast_def signed_modulo_int_def Let_def)
  ultimately show "{kShiftOne, kShiftOther} \<subseteq> shifts_of ChoosePlural2ast" by simp
qed

lemma shifts_2da: "shifts_of ChoosePlural2da = {kShiftOne, kShiftOther}"
proof
  show "shifts_of ChoosePlural2da \<subseteq> {kShiftOne, kShiftOther}"
    by (rule shifts_of_subset) (simp add: ChoosePlural2da_def Let_def)
  moreover have "kShiftOne \<in> shifts_of ChoosePlural2da"
    by (rule shifts_ofI [OF operands_integer [of 1]]) (simp_all add: ChoosePlural2da_def signed_modulo_int_def Let_def)
  moreover have "kShiftOther \<in> shifts_of ChoosePlural2da"
    by (rule shifts_ofI [OF operands_integer [of 0]]) (simp_all add: ChoosePlural2da_def signed_modulo_int_def Let_def)
  ultimately show "{kShiftOne, kShiftOther} \<subseteq> shifts_of ChoosePlural2da" by simp
qed

lemma shifts_3lv: "shifts_of ChoosePlural3lv = {kShiftZero, kShiftOne, kShiftOther}"
proof
  show "shifts_of ChoosePlural3lv \<subseteq> {kShiftZero, kShiftOne, kShiftOther}"
    by (rule shifts_of_subset) (simp add: ChoosePlural3lv_def Let_def)
  moreover have "kShiftZero \<in> shifts_of ChoosePlural3lv"
    by (rule shifts_ofI [OF operands_integer [of 0]]) (simp_all add: ChoosePlural3lv_def signed_modulo_int_def Let_def)
  moreover have "kShiftOne \<in> shifts_of ChoosePlural3lv"
    by (rule shifts_ofI [OF operands_integer [of 1]]) (simp_all add: ChoosePlural3lv_def signed_modulo_int_def Let_def)
  moreover have "kShiftOther \<in> shifts_of ChoosePlural3lv"
    by (rule shifts_ofI [OF operands_integer [of 2]]) (simp_all add: ChoosePlural3lv_def signed_modulo_int_def Let_def)
  ultimately show "{kShiftZero, kShiftOne, kShiftOther} \<subseteq> shifts_of ChoosePlural3lv" by simp
qed

lemma shifts_3ksh: "shifts_of ChoosePlural3ksh = {kShiftZero, kShiftOne, kShiftOther}"
proof
  show "shifts_of ChoosePlural3ksh \<subseteq> {kShiftZero, kShiftOne, kShiftOther}"
    by (rule shifts_of_subset) (simp add: ChoosePlural3ksh_def Let_def)
  moreover have "kShiftZero \<in> shifts_of ChoosePlural3ksh"
    by (rule shifts_ofI [OF operands_integer [of 0]]) (simp_all add: ChoosePlural3ksh_def signed_modulo_int_def Let_def)
  moreover have "kShiftOne \<in> shifts_of ChoosePlural3ksh"
    by (rule shifts_ofI [OF operands_integer [of 1]]) (simp_all add: ChoosePlural3ksh_def signed_modulo_int_def Let_def)
  moreover have "kShiftOther \<in> shifts_of ChoosePlural3ksh"
    by (rule shifts_ofI [OF operands_integer [of 2]]) (simp_all add: ChoosePlural3ksh_def signed_modulo_int_def Let_def)
  ultimately show "{kShiftZero, kShiftOne, kShiftOther} \<subseteq> shifts_of ChoosePlural3ksh" by simp
qed

lemma shifts_3lag: "shifts_of ChoosePlural3lag = {kShiftZero, kShiftOne, kShiftOther}"
proof
  show "shifts_of ChoosePlural3lag \<subseteq> {kShiftZero, kShiftOne, kShiftOther}"
    by (rule shifts_of_subset) (simp add: ChoosePlural3lag_def Let_def)
  moreover have "kShiftZero \<in> shifts_of ChoosePlural3lag"
    by (rule shifts_ofI [OF operands_integer [of 0]]) (simp_all add: ChoosePlural3lag_def signed_modulo_int_def Let_def)
  moreover have "kShiftOne \<in> shifts_of ChoosePlural3lag"
    by (rule shifts_ofI [OF operands_integer [of 1]]) (simp_all add: ChoosePlural3lag_def signed_modulo_int_def Let_def)
  moreover have "kShiftOther \<in> shifts_of ChoosePlural3lag"
    by (rule shifts_ofI [OF operands_integer [of 2]]) (simp_all add: ChoosePlural3lag_def signed_modulo_int_def Let_def)
  ultimately show "{kShiftZero, kShiftOne, kShiftOther} \<subseteq> shifts_of ChoosePlural3lag" by simp
qed

lemma shifts_3kw: "shifts_of ChoosePlural3kw = {kShiftOne, kShiftTwo, kShiftOther}"
proof
  show "shifts_of ChoosePlural3kw \<subseteq> {kShiftOne, kShiftTwo, kShiftOther}"
    by (rule shifts_of_subset) (simp add: ChoosePlural3kw_def Let_def)
  moreover have "kShiftOne \<in> shifts_of ChoosePlural3kw"
    by (rule shifts_ofI [OF operands_integer [of 1]]) (simp_all add: ChoosePlural3kw_def signed_modulo_int_def Let_def)
  moreover have "kShiftTwo \<in> shifts_of ChoosePlural3kw"
    by (rule shifts_ofI [OF operands_integer [of 2]]) (simp_all add: ChoosePlural3kw_def signed_modulo_int_def Let_def)
  moreover have "kShiftOther \<in> shifts_of ChoosePlural3kw"
    by (rule shifts_ofI [OF operands_integer [of 0]]) (simp_all add: ChoosePlural3kw_def signed_modulo_int_def Let_def)
  ultimately show "{kShiftOne, kShiftTwo, kShiftOther} \<subseteq> shifts_of ChoosePlural3kw" by simp
qed

lemma shifts_3bs: "shifts_of ChoosePlural3bs = {kShiftOne, kShiftFew, kShiftOther}"
proof
  show "shifts_of ChoosePlural3bs \<subseteq> {kShiftOne, kShiftFew, kShiftOther}"
    by (rule shifts_of_subset) (simp add: ChoosePlural3bs_def Let_def)
  moreover have "kShiftOne \<in> shifts_of ChoosePlural3bs"
    by (rule shifts_ofI [OF operands_integer [of 1]]) (simp_all add: ChoosePlural3bs_def signed_modulo_int_def Let_def)
  moreover have "kShiftFew \<in> shifts_of ChoosePlural3bs"
    by (rule shifts_ofI [OF operands_integer [of 2]]) (simp_all add: ChoosePlural3bs_def signed_modulo_int_def Let_def)
  moreover have "kShiftOther \<in> shifts_of ChoosePlural3bs"
    by (rule shifts_ofI [OF operands_integer [of 0]]) (simp_all add: ChoosePlural3bs_def signed_modulo_int_def Let_def)
  ultimately show "{kShiftOne, kShiftFew, kShiftOther} \<subseteq> shifts_of ChoosePlural3bs" by simp
qed

lemma shifts_3shi: "shifts_of ChoosePlural3shi = {kShiftOne, kShiftFew, kShiftOther}"
proof
  show "shifts_of ChoosePlural3shi \<subseteq> {kShiftOne, kShiftFew, kShiftOther}"
    by (rule shifts_of_subset) (simp add: ChoosePlural3shi_def Let_def)
  moreover have "kShiftOne \<in> shifts_of ChoosePlural3shi"
    by (rule shifts_ofI [OF operands_integer [of 0]]) (simp_all add: ChoosePlural3shi_def signed_modulo_int_def Let_def)
  moreover have "kShiftFew \<in> shifts_of ChoosePlural3shi"
    by (rule shifts_ofI [OF operands_integer [of 2]]) (simp_all add: ChoosePlural3shi_def signed_modulo_int_def Let_def)
  moreover have "kShiftOther \<in> shifts_of ChoosePlural3shi"
    by (rule shifts_ofI [OF operands_integer [of 11]]) (simp_all add: ChoosePlural3shi_def signed_modulo_int_def Let_def)
  ultimately show "{kShiftOne, kShiftFew, kShiftOther} \<subseteq> shifts_of ChoosePlural3shi" by simp
qed

lemma shifts_3mo: "shifts_of ChoosePlural3mo = {kShiftOne, kShiftFew, kShiftOther}"
proof
  show "shifts_of ChoosePlural3mo \<subseteq> {kShiftOne, kShiftFew, kShiftOther}"
    by (rule shifts_of_subset) (simp add: ChoosePlural3mo_def Let_def)
  moreover have "kShiftOne \<in> shifts_of ChoosePlural3mo"
    by (rule shifts_ofI [OF operands_integer [of 1]]) (simp_all add: ChoosePlural3mo_def signed_modulo_int_def Let_def)
  moreover have "kShiftFew \<in> shifts_of ChoosePlural3mo"
    by (rule shifts_ofI [OF operands_integer [of 0]]) (simp_all add: ChoosePlural3mo_def signed_modulo_int_def Let_def)
  moreover have "kShiftOther \<in> shifts_of ChoosePlural3mo"
    by (rule shifts_ofI [OF operands_integer [of 20]]) (simp_all add: ChoosePlural3mo_def signed_modulo_int_def Let_def)
  ultimately show "{kShiftOne, kShiftFew, kShiftOther} \<subseteq> shifts_of ChoosePlural3mo" by simp
qed

lemma shifts_4be: "shifts_of ChoosePlural4be = {kShiftOne, kShiftFew, kShiftMany, kShiftOther}"
proof
  show "shifts_of ChoosePlural4be \<subseteq> {kShiftOne, kShiftFew, kShiftMany, kShiftOther}"
    by (rule shifts_of_subset) (simp add: ChoosePlural4be_def Let_def)
  moreover have "kShiftOne \<in> shifts_of ChoosePlural4be"
    by (rule shifts_ofI [OF operands_integer [of 1]]) (simp_all add: ChoosePlural4be_def signed_modulo_int_def Let_def)
  moreover have "kShiftFew \<in> shifts_of ChoosePlural4be"
    by (rule shifts_ofI [OF operands_integer [of 2]]) (simp_all add: ChoosePlural4be_def signed_modulo_int_def Let_def)
  moreover have "kShiftMany \<in> shifts_of ChoosePlural4be"
    by (rule shifts_ofI [OF operands_integer [of 0]]) (simp_all add: ChoosePlural4be_def signed_modulo_int_def Let_def)
  moreover have "kShiftOther \<in> shifts_of ChoosePlural4be"
    by (rule shifts_ofI [OF operands_fraction]) (simp add: ChoosePlural4be_def signed_modulo_int_def Let_def)
  ultimately show "{kShiftOne, kShiftFew, kShiftMany, kShiftOther} \<subseteq> shifts_of ChoosePlural4be" by simp
qed

lemma shifts_4ru: "shifts_of ChoosePlural4ru = {kShiftOne, kShiftFew, kShiftMany, kShiftOther}"
proof
  show "shifts_of ChoosePlural4ru \<subseteq> {kShiftOne, kShiftFew, kShiftMany, kShiftOther}"
    by (rule shifts_of_subset) (simp add: ChoosePlural4ru_def Let_def)
  moreover have "kShiftOne \<in> shifts_of ChoosePlural4ru"
    by (rule shifts_ofI [OF operands_integer [of 1]]) (simp_all add: ChoosePlural4ru_def signed_modulo_int_def Let_def)
  moreover have "kShiftFew \<in> shifts_of ChoosePlural4ru"
    by (rule shifts_ofI [OF operands_integer [of 2]]) (simp_all add: ChoosePlural4ru_def signed_modulo_int_def Let_def)
  moreover have "kShiftMany \<in> shifts_of ChoosePlural4ru"
    by (rule shifts_ofI [OF operands_integer [of 0]]) (simp_all add: ChoosePlural4ru_def signed_modulo_int_def Let_def)
  moreover have "kShiftOther \<in> shifts_of ChoosePlural4ru"
    by (rule shifts_ofI [OF operands_fraction]) (simp add: ChoosePlural4ru_def signed_modulo_int_def Let_def)
  ultimately show "{kShiftOne, kShiftFew, kShiftMany, kShiftOther} \<subseteq> shifts_of ChoosePlural4ru" by simp
qed

lemma shifts_4pl: "shifts_of ChoosePlural4pl = {kShiftOne, kShiftFew, kShiftMany, kShiftOther}"
proof
  show "shifts_of ChoosePlural4pl \<subseteq> {kShiftOne, kShiftFew, kShiftMany, kShiftOther}"
    by (rule shifts_of_subset) (simp add: ChoosePlural4pl_def Let_def)
  moreover have "kShiftOne \<in> shifts_of ChoosePlural4pl"
    by (rule shifts_ofI [OF operands_integer [of 1]]) (simp_all add: ChoosePlural4pl_def signed_modulo_int_def Let_def)
  moreover have "kShiftFew \<in> shifts_of ChoosePlural4pl"
    by (rule shifts_ofI [OF operands_integer [of 2]]) (simp_all add: ChoosePlural4pl_def signed_modulo_int_def Let_def)
  moreover have "kShiftMany \<in> shifts_of ChoosePlural4pl"
    by (rule shifts_ofI [OF operands_integer [of 0]]) (simp_all add: ChoosePlural4pl_def signed_modulo_int_def Let_def)
  moreover have "kShiftOther \<in> shifts_of ChoosePlural4pl"
    by (rule shifts_ofI [OF operands_fraction]) (simp add: ChoosePlural4pl_def signed_modulo_int_def Let_def)
  ultimately show "{kShiftOne, kShiftFew, kShiftMany, kShiftOther} \<subseteq> shifts_of ChoosePlural4pl" by simp
qed

lemma shifts_4lt: "shifts_of ChoosePlural4lt = {kShiftOne, kShiftFew, kShiftMany, kShiftOther}"
proof
  show "shifts_of ChoosePlural4lt \<subseteq> {kShiftOne, kShiftFew, kShiftMany, kShiftOther}"
    by (rule shifts_of_subset) (simp add: ChoosePlural4lt_def Let_def)
  moreover have "kShiftOne \<in> shifts_of ChoosePlural4lt"
    by (rule shifts_ofI [OF operands_integer [of 1]]) (simp_all add: ChoosePlural4lt_def signed_modulo_int_def Let_def)
  moreover have "kShiftFew \<in> shifts_of ChoosePlural4lt"
    by (rule shifts_ofI [OF operands_integer [of 2]]) (simp_all add: ChoosePlural4lt_def signed_modulo_int_def Let_def)
  moreover have "kShiftMany \<in> shifts_of ChoosePlural4lt"
    by (rule shifts_ofI [OF operands_fraction]) (simp add: ChoosePlural4lt_def signed_modulo_int_def Let_def)
  moreover have "kShiftOther \<in> shifts_of ChoosePlural4lt"
    by (rule shifts_ofI [OF operands_integer [of 0]]) (simp_all add: ChoosePlural4lt_def signed_modulo_int_def Let_def)
  ultimately show "{kShiftOne, kShiftFew, kShiftMany, kShiftOther} \<subseteq> shifts_of ChoosePlural4lt" by simp
qed

lemma shifts_4cs: "shifts_of ChoosePlural4cs = {kShiftOne, kShiftFew, kShiftMany, kShiftOther}"
proof
  show "shifts_of ChoosePlural4cs \<subseteq> {kShiftOne, kShiftFew, kShiftMany, kShiftOther}"
    by (rule shifts_of_subset) (simp add: ChoosePlural4cs_def Let_def)
  moreover have "kShiftOne \<in> shifts_of ChoosePlural4cs"
    by (rule shifts_ofI [OF operands_integer [of 1]]) (simp_all add: ChoosePlural4cs_def signed_modulo_int_def Let_def)
  moreover have "kShiftFew \<in> shifts_of ChoosePlural4cs"
    by (rule shifts_ofI [OF operands_integer [of 2]]) (simp_all add: ChoosePlural4cs_def signed_modulo_int_def Let_def)
  moreover have "kShiftMany \<in> shifts_of ChoosePlural4cs"
    by (rule shifts_ofI [OF operands_fraction]) (simp add: ChoosePlural4cs_def signed_modulo_int_def Let_def)
  moreover have "kShiftOther \<in> shifts_of ChoosePlural4cs"
    by (rule shifts_ofI [OF operands_integer [of 0]]) (simp_all add: ChoosePlural4cs_def signed_modulo_int_def Let_def)
  ultimately show "{kShiftOne, kShiftFew, kShiftMany, kShiftOther} \<subseteq> shifts_of ChoosePlural4cs" by simp
qed

lemma shifts_4gd: "shifts_of ChoosePlural4gd = {kShiftOne, kShiftTwo, kShiftFew, kShiftOther}"
proof
  show "shifts_of ChoosePlural4gd \<subseteq> {kShiftOne, kShiftTwo, kShiftFew, kShiftOther}"
    by (rule shifts_of_subset) (simp add: ChoosePlural4gd_def Let_def)
  moreover have "kShiftOne \<in> shifts_of ChoosePlural4gd"
    by (rule shifts_ofI [OF operands_integer [of 1]]) (simp_all add: ChoosePlural4gd_def signed_modulo_int_def Let_def)
  moreover have "kShiftTwo \<in> shifts_of ChoosePlural4gd"
    by (rule shifts_ofI [OF operands_integer [of 2]]) (simp_all add: ChoosePlural4gd_def signed_modulo_int_def Let_def)
  moreover have "kShiftFew \<in> shifts_of ChoosePlural4gd"
    by (rule shifts_ofI [OF operands_integer [of 3]]) (simp_all add: ChoosePlural4gd_def signed_modulo_int_def Let_def)
  moreover have "kShiftOther \<in> shifts_of ChoosePlural4gd"
    by (rule shifts_ofI [OF operands_integer [of 0]]) (simp_all add: ChoosePlural4gd_def signed_modulo_int_def Let_def)
  ultimately show "{kShiftOne, kShiftTwo, kShiftFew, kShiftOther} \<subseteq> shifts_of ChoosePlural4gd" by simp
qed

lemma shifts_4dsb: "shifts_of ChoosePlural4dsb = {kShiftOne, kShiftTwo, kShiftFew, kShiftOther}"
proof
  show "shifts_of ChoosePlural4dsb \<subseteq> {kShiftOne, kShiftTwo, kShiftFew, kShiftOther}"
    by (rule shifts_of_subset) (simp add: ChoosePlural4dsb_def Let_def)
  moreover have "kShiftOne \<in> shifts_of ChoosePlural4dsb"
    by (rule shifts_ofI [OF operands_integer [of 1]]) (simp_all add: ChoosePlural4dsb_def signed_modulo_int_def Let_def)
  moreover have "kShiftTwo \<in> shifts_of ChoosePlural4dsb"
    by (rule shifts_ofI [OF operands_integer [of 2]]) (simp_all add: ChoosePlural4dsb_def signed_modulo_int_def Let_def)
  moreover have "kShiftFew \<in> shifts_of ChoosePlural4dsb"
    by (rule shifts_ofI [OF operands_integer [of 3]]) (simp_all add: ChoosePlural4dsb_def signed_modulo_int_def Let_def)
  moreover have "kShiftOther \<in> shifts_of ChoosePlural4dsb"
    by (rule shifts_ofI [OF operands_integer [of 0]]) (simp_all add: ChoosePlural4dsb_def signed_modulo_int_def Let_def)
  ultimately show "{kShiftOne, kShiftTwo, kShiftFew, kShiftOther} \<subseteq> shifts_of ChoosePlural4dsb" by simp
qed

lemma shifts_4sl: "shifts_of ChoosePlural4sl = {kShiftOne, kShiftTwo, kShiftFew, kShiftOther}"
proof
  show "shifts_of ChoosePlural4sl \<subseteq> {kShiftOne, kShiftTwo, kShiftFew, kShiftOther}"
    by (rule shifts_of_subset) (simp add: ChoosePlural4sl_def Let_def)
  moreover have "kShiftOne \<in> shifts_of ChoosePlural4sl"
    by (rule shifts_ofI [OF operands_integer [of 1]]) (simp_all add: ChoosePlural4sl_def signed_modulo_int_def Let_def)
  moreover have "kShiftTwo \<in> shifts_of ChoosePlural4sl"
    by (rule shifts_ofI [OF operands_integer [of 2]]) (simp_all add: ChoosePlural4sl_def signed_modulo_int_def Let_def)
  moreover have "kShiftFew \<in> shifts_of ChoosePlural4sl"
    by (rule shifts_ofI [OF operands_integer [of 3]]) (simp_all add: ChoosePlural4sl_def signed_modulo_int_def Let_def)
  moreover have "kShiftOther \<in> shifts_of ChoosePlural4sl"
    by (rule shifts_ofI [OF operands_integer [of 0]]) (simp_all add: ChoosePlural4sl_def signed_modulo_int_def Let_def)
  ultimately show "{kShiftOne, kShiftTwo, kShiftFew, kShiftOther} \<subseteq> shifts_of ChoosePlural4sl" by simp
qed

lemma shifts_4he: "shifts_of ChoosePlural4he = {kShiftOne, kShiftTwo, kShiftMany, kShiftOther}"
proof
  show "shifts_of ChoosePlural4he \<subseteq> {kShiftOne, kShiftTwo, kShiftMany, kShiftOther}"
    by (rule shifts_of_subset) (simp add: ChoosePlural4he_def Let_def)
  moreover have "kShiftOne \<in> shifts_of ChoosePlural4he"
    by (rule shifts_ofI [OF operands_integer [of 1]]) (simp_all add: ChoosePlural4he_def signed_modulo_int_def Let_def)
  moreover have "kShiftTwo \<in> shifts_of ChoosePlural4he"
    by (rule shifts_ofI [OF operands_integer [of 2]]) (simp_all add: ChoosePlural4he_def signed_modulo_int_def Let_def)
  moreover have "kShiftMany \<in> shifts_of ChoosePlural4he"
    by (rule shifts_ofI [OF operands_integer [of 20]]) (simp_all add: ChoosePlural4he_def signed_modulo_int_def Let_def)
  moreover have "kShiftOther \<in> shifts_of ChoosePlural4he"
    by (rule shifts_ofI [OF operands_integer [of 0]]) (simp_all add: ChoosePlural4he_def signed_modulo_int_def Let_def)
  ultimately show "{kShiftOne, kShiftTwo, kShiftMany, kShiftOther} \<subseteq> shifts_of ChoosePlural4he" by simp
qed

lemma shifts_4mt: "shifts_of ChoosePlural4mt = {kShiftOne, kShiftFew, kShiftMany, kShiftOther}"
proof
  show "shifts_of ChoosePlural4mt \<subseteq> {kShiftOne, kShiftFew, kShiftMany, kShiftOther}"
    by (rule shifts_of_subset) (simp add: ChoosePlural4mt_def Let_def)
  moreover have "kShiftOne \<in> shifts_of ChoosePlural4mt"
    by (rule shifts_ofI [OF operands_integer [of 1]]) (simp_all add: ChoosePlural4mt_def signed_modulo_int_def Let_def)
  moreover have "kShiftFew \<in> shifts_of ChoosePlural4mt"
    by (rule shifts_ofI [OF operands_integer [of 0]]) (simp_all add: ChoosePlural4mt_def signed_modulo_int_def Let_def)
  moreover have "kShiftMany \<in> shifts_of ChoosePlural4mt"
    by (rule shifts_ofI [OF operands_integer [of 11]]) (simp_all add: ChoosePlural4mt_def signed_modulo_int_def Let_def)
  moreover have "kShiftOther \<in> shifts_of ChoosePlural4mt"
    by (rule shifts_ofI [OF operands_integer [of 20]]) (simp_all add: ChoosePlural4mt_def signed_modulo_int_def Let_def)
  ultimately show "{kShiftOne, kShiftFew, kShiftMany, kShiftOther} \<subseteq> shifts_of ChoosePlural4mt" by simp
qed

lemma shifts_5gv: "shifts_of ChoosePlural5gv = {kShiftOne, kShiftTwo, kShiftFew, kShiftMany, kShiftOther}"
proof
  show "shifts_of ChoosePlural5gv \<subseteq> {kShiftOne, kShiftTwo, kShiftFew, kShiftMany, kShiftOther}"
    by (rule shifts_of_subset) (simp add: ChoosePlural5gv_def Let_def)
  moreover have "kShiftOne \<in> shifts_of ChoosePlural5gv"
    by (rule shifts_ofI [OF operands_integer [of 1]]) (simp_all add: ChoosePlural5gv_def signed_modulo_int_def Let_def)
  moreover have "kShiftTwo \<in> shifts_of ChoosePlural5gv"
    by (rule shifts_ofI [OF operands_integer [of 2]]) (simp_all add: ChoosePlural5gv_def signed_modulo_int_def Let_def)
  moreover have "kShiftFew \<in> shifts_of ChoosePlural5gv"
    by (rule shifts_ofI [OF operands_integer [of 0]]) (simp_all add: ChoosePlural5gv_def signed_modulo_int_def Let_def)
  moreover have "kShiftMany \<in> shifts_of ChoosePlural5gv"
    by (rule shifts_ofI [OF operands_fraction]) (simp add: ChoosePlural5gv_def signed_modulo_int_def Let_def)
  moreover have "kShiftOther \<in> shifts_of ChoosePlural5gv"
    by (rule shifts_ofI [OF operands_integer [of 3]]) (simp_all add: ChoosePlural5gv_def signed_modulo_int_def Let_def)
  ultimately show "{kShiftOne, kShiftTwo, kShiftFew, kShiftMany, kShiftOther} \<subseteq> shifts_of ChoosePlural5gv" by simp
qed

lemma shifts_5br: "shifts_of ChoosePlural5br = {kShiftOne, kShiftTwo, kShiftFew, kShiftMany, kShiftOther}"
proof
  show "shifts_of ChoosePlural5br \<subseteq> {kShiftOne, kShiftTwo, kShiftFew, kShiftMany, kShiftOther}"
    by (rule shifts_of_subset) (simp add: ChoosePlural5br_def Let_def)
  moreover have "kShiftOne \<in> shifts_of ChoosePlural5br"
    by (rule shifts_ofI [OF operands_integer [of 1]]) (simp_all add: ChoosePlural5br_def signed_modulo_int_def Let_def)
  moreover have "kShiftTwo \<in> shifts_of ChoosePlural5br"
    by (rule shifts_ofI [OF operands_integer [of 2]]) (simp_all add: ChoosePlural5br_def signed_modulo_int_def Let_def)
  moreover have "kShiftFew \<in> shifts_of ChoosePlural5br"
    by (rule shifts_ofI [OF operands_integer [of 3]]) (simp_all add: ChoosePlural5br_def signed_modulo_int_def Let_def)
  moreover have "kShiftMany \<in> shifts_of ChoosePlural5br"
    by (rule shifts_ofI [OF operands_integer [of 1000000]]) (simp_all add: ChoosePlural5br_def signed_modulo_int_def Let_def)
  moreover have "kShiftOther \<in> shifts_of ChoosePlural5br"
    by (rule shifts_ofI [OF operands_integer [of 0]]) (simp_all add: ChoosePlural5br_def signed_modulo_int_def Let_def)
  ultimately show "{kShiftOne, kShiftTwo, kShiftFew, kShiftMany, kShiftOther} \<subseteq> shifts_of ChoosePlural5br" by simp
qed

lemma shifts_5ga: "shifts_of ChoosePlural5ga = {kShiftOne, kShiftTwo, kShiftFew, kShiftMany, kShiftOther}"
proof
  show "shifts_of ChoosePlural5ga \<subseteq> {kShiftOne, kShiftTwo, kShiftFew, kShiftMany, kShiftOther}"
    by (rule shifts_of_subset) (simp add: ChoosePlural5ga_def Let_def)
  moreover have "kShiftOne \<in> shifts_of ChoosePlural5ga"
    by (rule shifts_ofI [OF operands_integer [of 1]]) (simp_all add: ChoosePlural5ga_def signed_modulo_int_def Let_def)
  moreover have "kShiftTwo \<in> shifts_of ChoosePlural5ga"
    by (rule shifts_ofI [OF operands_integer [of 2]]) (simp_all add: ChoosePlural5ga_def signed_modulo_int_def Let_def)
  moreover have "kShiftFew \<in> shifts_of ChoosePlural5ga"
    by (rule shifts_ofI [OF operands_integer [of 3]]) (simp_all add: ChoosePlural5ga_def signed_modulo_int_def Let_def)
  moreover have "kShiftMany \<in> shifts_of ChoosePlural5ga"
    by (rule shifts_ofI [OF operands_integer [of 7]]) (simp_all add: ChoosePlural5ga_def signed_modulo_int_def Let_def)
  moreover have "kShiftOther \<in> shifts_of ChoosePlural5ga"
    by (rule shifts_ofI [OF operands_integer [of 0]]) (simp_all add: ChoosePlural5ga_def signed_modulo_int_def Let_def)
  ultimately show "{kShiftOne, kShiftTwo, kShiftFew, kShiftMany, kShiftOther} \<subseteq> shifts_of ChoosePlural5ga" by simp
qed

lemma shifts_6ar: "shifts_of ChoosePlural6ar = {kShiftZero, kShiftOne, kShiftTwo, kShiftFew, kShiftMany, kShiftOther}"
proof
  show "shifts_of ChoosePlural6ar \<subseteq> {kShiftZero, kShiftOne, kShiftTwo, kShiftFew, kShiftMany, kShiftOther}"
    by (rule shifts_of_subset) (simp add: ChoosePlural6ar_def Let_def)
  moreover have "kShiftZero \<in> shifts_of ChoosePlural6ar"
    by (rule shifts_ofI [OF operands_integer [of 0]]) (simp_all add: ChoosePlural6ar_def signed_modulo_int_def Let_def)
  moreover have "kShiftOne \<in> shifts_of ChoosePlural6ar"
    by (rule shifts_ofI [OF operands_integer [of 1]]) (simp_all add: ChoosePlural6ar_def signed_modulo_int_def Let_def)
  moreover have "kShiftTwo \<in> shifts_of ChoosePlural6ar"
    by (rule shifts_ofI [OF operands_integer [of 2]]) (simp_all add: ChoosePlural6ar_def signed_modulo_int_def Let_def)
  moreover have "kShiftFew \<in> shifts_of ChoosePlural6ar"
    by (rule shifts_ofI [OF operands_integer [of 3]]) (simp_all add: ChoosePlural6ar_def signed_modulo_int_def Let_def)
  moreover have "kShiftMany \<in> shifts_of ChoosePlural6ar"
    by (rule shifts_ofI [OF operands_integer [of 11]]) (simp_all add: ChoosePlural6ar_def signed_modulo_int_def Let_def)
  moreover have "kShiftOther \<in> shifts_of ChoosePlural6ar"
    by (rule shifts_ofI [OF operands_integer [of 100]]) (simp_all add: ChoosePlural6ar_def signed_modulo_int_def Let_def)
  ultimately show "{kShiftZero, kShiftOne, kShiftTwo, kShiftFew, kShiftMany, kShiftOther} \<subseteq> shifts_of ChoosePlural6ar" by simp
qed

lemma shifts_6cy: "shifts_of ChoosePlural6cy = {kShiftZero, kShiftOne, kShiftTwo, kShiftFew, kShiftMany, kShiftOther}"
proof
  show "shifts_of ChoosePlural6cy \<subseteq> {kShiftZero, kShiftOne, kShiftTwo, kShiftFew, kShiftMany, kShiftOther}"
    by (rule shifts_of_subset) (simp add: ChoosePlural6cy_def Let_def)
  moreover have "kShiftZero \<in> shifts_of ChoosePlural6cy"
    by (rule shifts_ofI [OF operands_integer [of 0]]) (simp_all add: ChoosePlural6cy_def signed_modulo_int_def Let_def)
  moreover have "kShiftOne \<in> shifts_of ChoosePlural6cy"
    by (rule shifts_ofI [OF operands_integer [of 1]]) (simp_all add: ChoosePlural6cy_def signed_modulo_int_def Let_def)
  moreover have "kShiftTwo \<in> shifts_of ChoosePlural6cy"
    by (rule shifts_ofI [OF operands_integer [of 2]]) (simp_all add: ChoosePlural6cy_def signed_modulo_int_def Let_def)
  moreover have "kShiftFew \<in> shifts_of ChoosePlural6cy"
    by (rule shifts_ofI [OF operands_integer [of 3]]) (simp_all add: ChoosePlural6cy_def signed_modulo_int_def Let_def)
  moreover have "kShiftMany \<in> shifts_of ChoosePlural6cy"
    by (rule shifts_ofI [OF operands_integer [of 6]]) (simp_all add: ChoosePlural6cy_def signed_modulo_int_def Let_def)
  moreover have "kShiftOther \<in> shifts_of ChoosePlural6cy"
    by (rule shifts_ofI [OF operands_integer [of 4]]) (simp_all add: ChoosePlural6cy_def signed_modulo_int_def Let_def)
  ultimately show "{kShiftZero, kShiftOne, kShiftTwo, kShiftFew, kShiftMany, kShiftOther} \<subseteq> shifts_of ChoosePlural6cy" by simp
qed

lemmas rule_shifts = shifts_1 shifts_2fil shifts_2tzm shifts_2is shifts_2mk shifts_2ak shifts_2am shifts_2hy shifts_2si shifts_2bh shifts_2af shifts_2ast shifts_2da shifts_3lv shifts_3ksh shifts_3lag shifts_3kw shifts_3bs shifts_3shi shifts_3mo shifts_4be shifts_4ru shifts_4pl shifts_4lt shifts_4cs shifts_4gd shifts_4dsb shifts_4sl shifts_4he shifts_4mt shifts_5gv shifts_5br shifts_5ga shifts_6ar shifts_6cy

section \<open>Keys of language names\<close>

lemma name_number_snoc: "name_number (s @ [c]) = 256 * name_number s + of_char c"
  by (simp add: name_number_def)

lemma PluralsKey_name_key: "PluralsKey s = name_key (map ConvertKeyChar s)"
proof -
  have "fold (\<lambda>ch data. push_char (ConvertKeyChar ch) data) s k = fold push_char (map ConvertKeyChar s) k" for k
    by (induction s arbitrary: k) auto
  then show ?thesis by (simp add: PluralsKey_def name_key_def)
qed

lemma of_char_less: "(of_char c :: nat) < 256"
  using of_char_mod_256 [of c, where ?'a = nat] by (metis mod_less_divisor zero_less_numeral)

lemma push_char_unat: "unat (push_char c k) = (256 * unat k + of_char c) mod 2 ^ 64"
proof -
  let ?c = "of_nat (of_char c) :: uint64"
  have "n < 8" if "bit ?c n" for n
  proof (rule ccontr)
    assume "\<not> n < 8"
    then have "(of_char c :: nat) < 2 ^ n"
      using power_increasing [of 8 n "2 :: nat"] by (intro less_le_trans [OF of_char_less]) simp
    then have "\<not> bit (of_char c :: nat) n" by (simp add: bit_iff_odd div_less)
    then show False using that by (simp add: bit_simps)
  qed
  then have "push_bit 8 k AND ?c = 0" by (intro bit_eqI) (simp add: bit_simps, metis not_less)
  then have "push_char c k = push_bit 8 k + ?c"
    by (simp add: push_char_def disjunctive_add_eq_or of_nat_of_char)
  also have "\<dots> = of_nat (256 * unat k + of_char c)" by (simp add: push_bit_eq_mult mult.commute)
  finally show ?thesis by (simp only: unat_of_nat) simp
qed

lemma name_key_unat: "unat (name_key s) = name_number s mod 2 ^ 64"
proof (induction s rule: rev_induct)
  case (snoc c s)
  have "unat (name_key (s @ [c])) = (256 * unat (name_key s) + of_char c) mod 2 ^ 64"
    using push_char_unat by (simp add: name_key_def)
  also have "\<dots> = (256 * name_number s + of_char c) mod 2 ^ 64"
    unfolding snoc.IH by (metis mod_add_left_eq mod_mult_right_eq)
  finally show ?case by (simp add: name_number_snoc)
qed (simp add: name_key_def name_number_def)

lemma name_number_append: "name_number (a @ b) = name_number a * 256 ^ length b + name_number b"
  by (induction b rule: rev_induct) (simp_all add: name_number_snoc algebra_simps flip: append_assoc, simp add: name_number_def)

lemma name_number_less: "name_number s < 256 ^ length s"
proof (induction s rule: rev_induct)
  case (snoc c s)
  then have "256 * name_number s + 256 \<le> 256 * 256 ^ length s" by simp
  then show ?case
    using of_char_less [of c] unfolding name_number_snoc length_append_singleton power_Suc by linarith
qed (simp add: name_number_def)

lemma of_char_pos: "c \<noteq> CHR 0x00 \<Longrightarrow> 0 < (of_char c :: nat)"
  using of_char_eq_iff [of c "CHR 0x00", where ?'a = nat] by simp

lemma name_number_inj: "name_ok s \<Longrightarrow> name_ok t \<Longrightarrow> name_number s = name_number t \<Longrightarrow> s = t"
proof (induction s arbitrary: t rule: rev_induct)
  case Nil
  show ?case
  proof (cases t rule: rev_cases)
    case (snoc t' d)
    then have "0 < name_number t" using Nil of_char_pos [of d] by (simp add: name_number_snoc)
    then show ?thesis using Nil by (simp add: name_number_def)
  qed simp
next
  case (snoc c s)
  show ?case
  proof (cases t rule: rev_cases)
    case Nil
    then show ?thesis using snoc.prems of_char_pos [of c] by (simp add: name_number_snoc) (simp add: name_number_def)
  next
    case t: (snoc t' d)
    then have eq: "256 * name_number s + of_char c = 256 * name_number t' + of_char d"
      using snoc.prems by (simp add: name_number_snoc)
    have "(256 * name_number s + of_char c) div 256 = name_number s" "(256 * name_number t' + of_char d) div 256 = name_number t'"
      using of_char_less [of c] of_char_less [of d] by simp_all
    then have "name_number s = name_number t'" using eq by simp
    moreover from this have "c = d" using eq by simp
    ultimately show ?thesis using snoc t by simp
  qed
qed

text \<open>A name of eight characters or more has a key above those of all shorter names.\<close>

lemma name_number_ge: "name_ok s \<Longrightarrow> s \<noteq> [] \<Longrightarrow> 256 ^ (length s - 1) \<le> name_number s"
proof (cases s)
  case (Cons c s')
  assume "name_ok s" "s \<noteq> []"
  then have "1 \<le> (of_char c :: nat)" using of_char_pos [of c] Cons by simp
  then have "1 * 256 ^ length s' \<le> of_char c * (256 :: nat) ^ length s'" by (rule mult_le_mono1)
  moreover have "name_number s = of_char c * 256 ^ length s' + name_number s'"
    using name_number_append [of "[c]" s'] by (simp add: Cons name_number_def)
  ultimately have "256 ^ length s' \<le> name_number s" by linarith
  then show ?thesis by (simp add: Cons)
qed simp

lemma name_key_long:
  assumes "name_ok s" "8 \<le> length s"
  shows "256 ^ 7 \<le> unat (name_key s)"
proof -
  let ?a = "take (length s - 8) s" and ?b = "drop (length s - 8) s"
  have b: "length ?b = 8" "name_ok ?b" using assms by (simp_all add: list_all_iff) (meson in_set_dropD)
  have "name_number s = name_number ?a * 256 ^ 8 + name_number ?b"
    using name_number_append [of ?a ?b] b(1) by simp
  moreover have "name_number ?b < 2 ^ 64" using name_number_less [of ?b] b(1) by simp
  ultimately have "unat (name_key s) = name_number ?b" by (simp add: name_key_unat)
  moreover have "?b \<noteq> []" using b(1) by (metis length_0_conv zero_neq_numeral)
  then have "256 ^ 7 \<le> name_number ?b" using name_number_ge [OF b(2)] unfolding b(1) by simp
  ultimately show ?thesis by simp
qed

lemma name_key_short: "length s \<le> 7 \<Longrightarrow> unat (name_key s) = name_number s \<and> unat (name_key s) < 256 ^ 7"
proof -
  assume "length s \<le> 7"
  then have "name_number s < 256 ^ 7" using name_number_less [of s] power_increasing [of "length s" 7 "256 :: nat"] by simp
  then show ?thesis by (simp add: name_key_unat)
qed

lemma name_key_eq_short:
  assumes "name_ok s" "name_ok t" "length t \<le> 7"
  shows "name_key s = name_key t \<longleftrightarrow> s = t"
proof
  assume eq: "name_key s = name_key t"
  have "length s \<le> 7"
    using name_key_long [OF assms(1)] name_key_short [OF assms(3)] eq by (cases "length s \<le> 7") auto
  then show "s = t" using name_number_inj [OF assms(1,2)] name_key_short assms(3) eq by metis
qed simp

section \<open>Lookup by key is lookup by name\<close>

lemma table_names: "list_all (\<lambda>(name, rule). name_ok (map ConvertKeyChar name) \<and> length name \<le> 7) PluralRulesTable"
  by (simp add: PluralRulesTable_def ConvertKeyChar_def char_of_def)

lemma map_of_inj_key:
  assumes "\<And>k v. (k, v) \<in> set xs \<Longrightarrow> f x = f k \<longleftrightarrow> x = k"
  shows "map_of (map (\<lambda>(k, v). (f k, v)) xs) (f x) = map_of xs x"
  using assms
proof (induction xs)
  case (Cons e xs)
  obtain k v where e: "e = (k, v)" by fastforce
  have "f x = f k \<longleftrightarrow> x = k" using Cons.prems [of k v] by (simp add: e)
  moreover have "map_of (map (\<lambda>(k, v). (f k, v)) xs) (f x) = map_of xs x"
    by (rule Cons.IH) (use Cons.prems in auto)
  ultimately show ?case by (simp add: e)
qed simp

lemma rule_of_key:
  assumes "name_ok s"
  shows "GeneratePluralRulesMap (name_key s) = rule_of_name s"
proof -
  let ?t = "map (\<lambda>(name, rule). (map ConvertKeyChar name, rule)) PluralRulesTable"
  have "name_key s = name_key k \<longleftrightarrow> s = k" if "(k, v) \<in> set ?t" for k v
  proof -
    note mem = that
    obtain name where "(name, v) \<in> set PluralRulesTable" "k = map ConvertKeyChar name" using mem by auto
    then have "name_ok k" "length k \<le> 7" using table_names by (auto simp: list_all_iff)
    then show ?thesis by (rule name_key_eq_short [OF assms])
  qed
  then have "map_of (map (\<lambda>(k, v). (name_key k, v)) ?t) (name_key s) = map_of ?t s"
    by (rule map_of_inj_key)
  moreover have "map (\<lambda>(k, v). (name_key k, v)) ?t = map (\<lambda>(name, rule). (PluralsKey name, rule)) PluralRulesTable"
    by (simp add: PluralsKey_name_key case_prod_unfold)
  ultimately show ?thesis unfolding GeneratePluralRulesMap_def rule_of_name_def by (simp only:)
qed

lemma name_key_pos: "name_ok s \<Longrightarrow> s \<noteq> [] \<Longrightarrow> name_key s \<noteq> 0"
proof
  assume s: "name_ok s" "s \<noteq> []" and "name_key s = 0"
  then have "name_key s = name_key []" by (simp add: name_key_def)
  then show False using name_key_eq_short [OF s(1), of "[]"] s(2) by simp
qed

lemma name_ok_takeWhile: "name_ok s \<Longrightarrow> name_ok (takeWhile P s)"
  by (induction s) auto

lemma name_key_snoc: "name_key (s @ [c]) = push_char c (name_key s)"
  by (simp add: name_key_def)

lemma language_loop:
  assumes "name_ok (map ConvertKeyChar s)" "s = [] \<or> ConvertKeyChar (hd s) \<noteq> CHR ''-''"
  shows "fold language_step s (0, 0) =
    (if CHR ''-'' \<in> set (map ConvertKeyChar s) then name_key (takeWhile (\<lambda>c. c \<noteq> CHR ''-'') (map ConvertKeyChar s)) else 0,
     name_key (map ConvertKeyChar s))"
  using assms
proof (induction s rule: rev_induct)
  case (snoc c s)
  let ?s = "map ConvertKeyChar s"
  have IH: "fold language_step s (0, 0) = (if CHR ''-'' \<in> set ?s then name_key (takeWhile (\<lambda>c. c \<noteq> CHR ''-'') ?s) else 0, name_key ?s)"
    using snoc by (cases s) auto
  have step: "fold language_step (s @ [c]) (0, 0)
      = language_step c (if CHR ''-'' \<in> set ?s then name_key (takeWhile (\<lambda>c. c \<noteq> CHR ''-'') ?s) else 0, name_key ?s)"
    unfolding IH [symmetric] by simp
  have pos: "name_key (takeWhile (\<lambda>c. c \<noteq> CHR ''-'') ?s) \<noteq> 0" if "s \<noteq> []"
  proof (rule name_key_pos)
    show "name_ok (takeWhile (\<lambda>c. c \<noteq> CHR ''-'') ?s)"
      using snoc.prems(1) by (intro name_ok_takeWhile) simp
    show "takeWhile (\<lambda>c. c \<noteq> CHR ''-'') ?s \<noteq> []" using that snoc.prems(2) by (cases s) auto
  qed
  show ?case
  proof (cases "CHR ''-'' \<in> set ?s")
    case True
    then have "s \<noteq> []" by auto
    then show ?thesis using True pos unfolding step by (auto simp: language_step_def name_key_snoc takeWhile_append)
  next
    case False
    then have "takeWhile (\<lambda>c. c \<noteq> CHR ''-'') (?s @ [ConvertKeyChar c]) = ?s @ takeWhile (\<lambda>c. c \<noteq> CHR ''-'') [ConvertKeyChar c]"
      by (intro takeWhile_append2) force
    then show ?thesis
      using False unfolding step by (cases "ConvertKeyChar c = CHR ''-''") (auto simp: language_step_def name_key_snoc)
  qed
qed (simp add: name_key_def)

section \<open>Properties\<close>


text \<open>
  C20. The rule chosen for a language is the one listed under its name, ignoring case and the kind
  of dash; without one, the rule of the part before the first dash; and without that, the rule
  with a single form. Packing names into 64 bit keys confuses no two of them, however long.
\<close>

theorem language_rule_by_name:
  assumes "name_ok (map ConvertKeyChar languageId)" "languageId = [] \<or> ConvertKeyChar (hd languageId) \<noteq> CHR ''-''"
  shows "UpdatePluralRules languageId = rule_of_language languageId"
proof -
  let ?s = "map ConvertKeyChar languageId"
  let ?p = "takeWhile (\<lambda>c. c \<noteq> CHR ''-'') ?s"
  have p: "name_ok ?p" using assms(1) by (rule name_ok_takeWhile)
  have pos: "name_key ?p \<noteq> 0" if "CHR ''-'' \<in> set ?s"
  proof (rule name_key_pos [OF p])
    show "?p \<noteq> []" using that assms(2) by (cases languageId) auto
  qed
  then show ?thesis
    using rule_of_key [OF assms(1)] rule_of_key [OF p] language_loop [OF assms]
    by (auto simp: UpdatePluralRules_def rule_of_language_def Let_def split: option.splits)
qed

theorem language_rule_by_name_witness:
  "UpdatePluralRules ''ru_RU'' = rule_of_language ''ru_RU''"
  by (rule language_rule_by_name; code_simp)

end
