(* ===== verification/LangInstance.thy ===== *)
theory LangInstance
  imports LangFiles PluralRules "HOL-Library.List_Lexorder"
begin

text \<open>
  \<open>Lang::Instance\<close> (lang/lang_instance.h and .cpp): the values of all phrases, the language pack they
  come from and its base pack. An instance and its bases are a list of packs, a base after the pack it
  is the base of (\<open>_base\<close> is the next pack, \<open>_derived\<close> the one before). The instance at the head is
  taken to be the one of the application, which the generated functions of phrases read. A failed
  \<open>Expects\<close> or \<open>Assert\<close>, an access outside of a vector and the exception of \<open>reserve\<close> are \<open>None\<close>.
\<close>

section \<open>Definitions: state\<close>

definition latin :: "string \<Rightarrow> qstring" where
  "latin s = map (\<lambda>c. of_char c) s"

record choosing_sticker =
  support :: bool
  rightIndex :: int
  rightIndexNamed :: int

record pack =
  pack_id :: qstring
  pluralId :: qstring
  pack_name :: qstring
  nativeName :: qstring
  customFilePathAbsolute :: qstring
  customFilePathRelative :: qstring
  customFileContent :: string
  pack_version :: int
  choosingStickerReplacement :: choosing_sticker
  systemLanguage :: qstring
  pack_values :: "qstring list"
  nonDefaultSet :: "bool list"
  nonDefaultValues :: "(string, string) flat_map"

record Language =
  language_id :: qstring
  language_pluralId :: qstring
  language_baseId :: qstring
  language_name :: qstring
  language_nativeName :: qstring

datatype lang_event = IdChanged nat qstring | Updated nat | WriteLangPack

text \<open>\<open>ChoosePlural\<close> is the global variable of lang_tag.cpp.\<close>

record lang_app =
  packs :: "pack list"
  app_ChoosePlural :: plural_rule
  lang_events :: "lang_event list"

text \<open>
  What is not in the sources: the generated tables and phrases (the two phrases are given the values
  of the application's instance), Qt's test for spaces, its regular expression on the name of a file,
  its conversions, the file system and the comments of \<open>base::parse\<close>.
\<close>

record lang_env =
  env_tables :: "nat lang_tables"
  keys_count :: nat
  GetOriginalValue :: "nat \<Rightarrow> qstring"
  lng_language_name :: nat
  lng_send_action_choose_sticker :: nat
  lng_user_action_choose_sticker :: nat
  choose_sticker_now :: "qstring list \<Rightarrow> qstring"
  user_choose_sticker_now :: "qstring list \<Rightarrow> qstring"
  isSpace :: "16 word \<Rightarrow> bool"
  plural_code_match :: "qstring \<Rightarrow> qstring option"
  to_utf8 :: "qstring \<Rightarrow> string"
  decode_utf16 :: "string \<Rightarrow> qstring option"
  file_exists :: "qstring \<Rightarrow> bool"
  file_content :: "qstring \<Rightarrow> string option"
  absolute_path :: "qstring \<Rightarrow> qstring"
  relative_path :: "qstring \<Rightarrow> qstring"
  env_ws :: "char \<Rightarrow> bool"
  stripComments :: "string \<Rightarrow> string"
  platform_language :: qstring
  ui_languages :: "qstring list"

definition no_sticker :: choosing_sticker where
  "no_sticker = \<lparr>support = False, rightIndex = 0, rightIndexNamed = 0\<rparr>"

definition PrepareDefaultValues :: "lang_env \<Rightarrow> qstring list" where
  "PrepareDefaultValues env = map (GetOriginalValue env) [0..<keys_count env]"

definition new_pack :: "lang_env \<Rightarrow> qstring list \<Rightarrow> pack" where
  "new_pack env vals =
     \<lparr>pack_id = [], pluralId = [], pack_name = [], nativeName = [], customFilePathAbsolute = [], customFilePathRelative = [],
      customFileContent = [], pack_version = 0, choosingStickerReplacement = no_sticker, systemLanguage = [],
      pack_values = vals, nonDefaultSet = replicate (keys_count env) False, nonDefaultValues = []\<rparr>"

definition new_Instance :: "lang_env \<Rightarrow> pack" where
  "new_Instance env = new_pack env (PrepareDefaultValues env)"

definition new_base_Instance :: "lang_env \<Rightarrow> pack" where
  "new_base_Instance env = new_pack env []"

definition kDefaultLanguage :: qstring where "kDefaultLanguage = latin ''en''"

definition kCloudLangPackName :: qstring where "kCloudLangPackName = latin ''tdesktop''"

definition kCustomLanguage :: qstring where "kCustomLanguage = latin ''#custom''"

definition kLangValuesLimit :: int where "kLangValuesLimit = 20000"

definition DefaultLanguageId :: qstring where "DefaultLanguageId = kDefaultLanguage"

definition LanguageIdOrDefault :: "qstring \<Rightarrow> qstring" where
  "LanguageIdOrDefault i = (if i \<noteq> [] then i else DefaultLanguageId)"

definition CloudLangPackName :: qstring where "CloudLangPackName = kCloudLangPackName"

definition CustomLanguageId :: qstring where "CustomLanguageId = kCustomLanguage"

definition DefaultLanguage :: Language where
  "DefaultLanguage = \<lparr>language_id = latin ''en'', language_pluralId = [], language_baseId = [],
     language_name = latin ''English'', language_nativeName = latin ''English''\<rparr>"

section \<open>Definitions: reading the state\<close>

datatype Pack = NonePack | CurrentPack | BasePack

definition pack_at :: "nat \<Rightarrow> lang_app \<Rightarrow> pack option" where
  "pack_at n s = (if n < length (packs s) then Some (packs s ! n) else None)"

definition modify_pack :: "nat \<Rightarrow> (pack \<Rightarrow> pack) \<Rightarrow> lang_app \<Rightarrow> lang_app option" where
  "modify_pack n f s = (if n < length (packs s) then Some (s\<lparr>packs := (packs s)[n := f (packs s ! n)]\<rparr>) else None)"

definition fire :: "lang_event \<Rightarrow> lang_app \<Rightarrow> lang_app" where
  "fire e s = s\<lparr>lang_events := lang_events s @ [e]\<rparr>"

definition getValue :: "pack \<Rightarrow> nat \<Rightarrow> qstring option" where
  "getValue p key = (if key < length (pack_values p) then Some (pack_values p ! key) else None)"

definition isCustom :: "pack \<Rightarrow> bool" where
  "isCustom p \<longleftrightarrow> pack_id p = CustomLanguageId \<or> pack_id p = latin ''#TEST_X'' \<or> pack_id p = latin ''#TEST_0''"

text \<open>The accessors of an instance, given with its bases.\<close>

fun instance_id :: "Pack \<Rightarrow> pack list \<Rightarrow> qstring" where
  "instance_id pk [] = []"
| "instance_id pk (p # ps) = (if pk \<noteq> BasePack then pack_id p else case ps of [] \<Rightarrow> [] | q # _ \<Rightarrow> pack_id q)"

definition baseId :: "pack list \<Rightarrow> qstring" where
  "baseId ps = instance_id BasePack ps"

fun instance_version :: "Pack \<Rightarrow> pack list \<Rightarrow> int" where
  "instance_version pk [] = 0"
| "instance_version pk (p # ps) = (if pk \<noteq> BasePack then pack_version p else case ps of [] \<Rightarrow> 0 | q # _ \<Rightarrow> pack_version q)"

fun cloudLangCode :: "Pack \<Rightarrow> pack list \<Rightarrow> qstring" where
  "cloudLangCode pk [] = []"
| "cloudLangCode pk (p # ps) = (if isCustom p \<or> pack_id p = [] then DefaultLanguageId else instance_id pk (p # ps))"

definition langPackName :: "pack \<Rightarrow> qstring" where
  "langPackName p = (if isCustom p then [] else CloudLangPackName)"

definition instance_name :: "lang_env \<Rightarrow> pack \<Rightarrow> qstring option" where
  "instance_name env p = (if pack_name p = [] then getValue p (lng_language_name env) else Some (pack_name p))"

definition instance_nativeName :: "lang_env \<Rightarrow> pack \<Rightarrow> qstring option" where
  "instance_nativeName env p = (if nativeName p = [] then getValue p (lng_language_name env) else Some (nativeName p))"

fun getNonDefaultValue :: "lang_env \<Rightarrow> string \<Rightarrow> pack list \<Rightarrow> qstring" where
  "getNonDefaultValue env key [] = []"
| "getNonDefaultValue env key (p # ps) =
     (case map_of (nonDefaultValues p) key of
        Some v \<Rightarrow> from_utf8 (env_tables env) v
      | None \<Rightarrow> getNonDefaultValue env key ps)"

fun isNonDefaultPlural :: "nat \<Rightarrow> pack list \<Rightarrow> bool option" where
  "isNonDefaultPlural key [] = Some False"
| "isNonDefaultPlural key (p # ps) =
     (if key + 5 < length (nonDefaultSet p) then
        if list_ex (\<lambda>i. nonDefaultSet p ! (key + i)) [0..<6] then Some True else isNonDefaultPlural key ps
      else None)"

definition systemLangCode :: "lang_env \<Rightarrow> pack \<Rightarrow> pack \<times> qstring" where
  "systemLangCode env p =
     (let lang = systemLanguage p;
          lang = (if lang = [] then
                    let lang = platform_language env;
                        lang = (if lang = [] \<and> ui_languages env \<noteq> [] then hd (ui_languages env) else lang)
                    in if lang = [] then DefaultLanguageId else lang
                  else lang)
      in (p\<lparr>systemLanguage := lang\<rparr>, lang))"

section \<open>Definitions: changing values\<close>

text \<open>\<open>QString::indexOf\<close>.\<close>

definition indexOf :: "qstring \<Rightarrow> qstring \<Rightarrow> int" where
  "indexOf pattern s =
     (case List.find (\<lambda>i. take (length pattern) (drop i s) = pattern) [0..<Suc (length s)] of
        Some i \<Rightarrow> int i
      | None \<Rightarrow> -1)"

definition kChoosingStickerReplacement :: qstring where "kChoosingStickerReplacement = latin ''oo''"

definition updateChoosingStickerReplacement :: "lang_env \<Rightarrow> nat \<Rightarrow> lang_app \<Rightarrow> lang_app option" where
  "updateChoosingStickerReplacement env n s =
     do { app \<leftarrow> pack_at 0 s;
          let phrase = choose_sticker_now env (pack_values app);
              first = indexOf kChoosingStickerReplacement phrase;
              phraseNamed = user_choose_sticker_now env (pack_values app);
              firstNamed = indexOf kChoosingStickerReplacement phraseNamed
          in modify_pack n (\<lambda>p. p\<lparr>choosingStickerReplacement :=
               \<lparr>support = (firstNamed \<noteq> -1 \<and> first \<noteq> -1),
                rightIndex = int (length phrase) - first,
                rightIndexNamed = int (length phraseNamed) - firstNamed\<rparr>\<rparr>) s }"

definition supportChoosingStickerReplacement :: "pack \<Rightarrow> bool" where
  "supportChoosingStickerReplacement p = support (choosingStickerReplacement p)"

definition rightIndexChoosingStickerReplacement :: "bool \<Rightarrow> pack \<Rightarrow> int" where
  "rightIndexChoosingStickerReplacement named p =
     (if named then rightIndexNamed (choosingStickerReplacement p) else rightIndex (choosingStickerReplacement p))"

text \<open>Elements of the vectors of a pack.\<close>

definition set_value :: "nat \<Rightarrow> nat \<Rightarrow> qstring \<Rightarrow> lang_app \<Rightarrow> lang_app option" where
  "set_value n key v s =
     do { p \<leftarrow> pack_at n s;
          if key < length (pack_values p) then modify_pack n (\<lambda>p. p\<lparr>pack_values := (pack_values p)[key := v]\<rparr>) s else None }"

definition set_flag :: "nat \<Rightarrow> nat \<Rightarrow> bool \<Rightarrow> lang_app \<Rightarrow> lang_app option" where
  "set_flag n key b s =
     do { p \<leftarrow> pack_at n s;
          if key < length (nonDefaultSet p) then modify_pack n (\<lambda>p. p\<lparr>nonDefaultSet := (nonDefaultSet p)[key := b]\<rparr>) s else None }"

definition get_flag :: "nat \<Rightarrow> nat \<Rightarrow> lang_app \<Rightarrow> bool option" where
  "get_flag n key s =
     do { p \<leftarrow> pack_at n s;
          if key < length (nonDefaultSet p) then Some (nonDefaultSet p ! key) else None }"

text \<open>The last statement of \<open>applyValue\<close> and \<open>resetValue\<close>.\<close>

definition sticker_changed :: "lang_env \<Rightarrow> nat \<Rightarrow> nat \<Rightarrow> lang_app \<Rightarrow> lang_app option" where
  "sticker_changed env n key s =
     (if key = lng_send_action_choose_sticker env \<or> key = lng_user_action_choose_sticker env
      then updateChoosingStickerReplacement env (if n = 0 then n else n - 1) s
      else Some s)"

definition save_value :: "lang_env \<Rightarrow> nat \<Rightarrow> nat \<Rightarrow> qstring \<Rightarrow> lang_app \<Rightarrow> lang_app option" where
  "save_value env n key v s =
     do { s \<leftarrow> set_flag n key True s;
          s \<leftarrow> (if n = 0 then set_value n key v s
               else do { known \<leftarrow> get_flag (n - 1) key s;
                         if \<not> known then set_value (n - 1) key v s else Some s });
          sticker_changed env n key s }"

definition applyValue :: "lang_env \<Rightarrow> nat \<Rightarrow> string \<times> string \<Rightarrow> lang_app \<Rightarrow> lang_app option" where
  "applyValue env n kv s =
     do { s \<leftarrow> modify_pack n (\<lambda>p. p\<lparr>nonDefaultValues := flat_put (fst kv) (snd kv) (nonDefaultValues p)\<rparr>) s;
          case ParseKeyValue (env_tables env) (fst kv) (snd kv) of
            None \<Rightarrow> Some s
          | Some (key, v) \<Rightarrow> save_value env n key v s }"

definition resetValue :: "lang_env \<Rightarrow> nat \<Rightarrow> string \<Rightarrow> lang_app \<Rightarrow> lang_app option" where
  "resetValue env n key s =
     do { s \<leftarrow> modify_pack n (\<lambda>p. p\<lparr>nonDefaultValues := flat_erase key (nonDefaultValues p)\<rparr>) s;
          case key_index (env_tables env) key of
            None \<Rightarrow> Some s
          | Some keyIndex \<Rightarrow>
              do { s \<leftarrow> set_flag n keyIndex False s;
                   s \<leftarrow> (if n = 0 then
                           let base = getNonDefaultValue env key (drop (Suc n) (packs s))
                           in set_value n keyIndex (if base \<noteq> [] then base else GetOriginalValue env keyIndex) s
                         else do { known \<leftarrow> get_flag (n - 1) keyIndex s;
                                   if \<not> known then set_value (n - 1) keyIndex (GetOriginalValue env keyIndex) s else Some s });
                   sticker_changed env n keyIndex s } }"

text \<open>The strings of the server; the calls that \<open>HandleString\<close> makes on its callbacks are a list.\<close>

datatype lang_string =
    LangString string string
  | LangPluralized string "string option" "string option" "string option" "string option" "string option" string
  | LangDeleted string

datatype string_call = SetCallback "string \<times> string" | ResetCallback string

definition value_or_empty :: "string option \<Rightarrow> string" where
  "value_or_empty v = (case v of None \<Rightarrow> [] | Some x \<Rightarrow> x)"

fun HandleString :: "lang_string \<Rightarrow> string_call list" where
  "HandleString (LangString key v) = [SetCallback (key, v)]"
| "HandleString (LangPluralized key zero one two few many other) =
     [SetCallback (key @ ''#zero'', value_or_empty zero), SetCallback (key @ ''#one'', value_or_empty one),
      SetCallback (key @ ''#two'', value_or_empty two), SetCallback (key @ ''#few'', value_or_empty few),
      SetCallback (key @ ''#many'', value_or_empty many), SetCallback (key @ ''#other'', other)]"
| "HandleString (LangDeleted key) =
     ResetCallback key # map (\<lambda>postfix. ResetCallback (key @ postfix)) [''#zero'', ''#one'', ''#two'', ''#few'', ''#many'', ''#other'']"

record lang_difference =
  diff_lang_code :: qstring
  diff_from_version :: int
  diff_version :: int
  diff_strings :: "lang_string list"

fun apply_calls :: "lang_env \<Rightarrow> nat \<Rightarrow> string_call list \<Rightarrow> lang_app \<Rightarrow> lang_app option" where
  "apply_calls env n [] s = Some s"
| "apply_calls env n (c # cs) s =
     do { s \<leftarrow> (case c of SetCallback kv \<Rightarrow> applyValue env n kv s | ResetCallback key \<Rightarrow> resetValue env n key s);
          apply_calls env n cs s }"

definition applyDifferenceToMe :: "lang_env \<Rightarrow> nat \<Rightarrow> lang_difference \<Rightarrow> lang_app \<Rightarrow> lang_app option" where
  "applyDifferenceToMe env n difference s =
     do { p \<leftarrow> pack_at n s;
          if LanguageIdOrDefault (pack_id p) = diff_lang_code difference \<and> diff_from_version difference \<le> pack_version p
          then do { s \<leftarrow> modify_pack n (\<lambda>p. p\<lparr>pack_version := diff_version difference\<rparr>) s;
                    s \<leftarrow> apply_calls env n (concat (map HandleString (diff_strings difference))) s;
                    Some (fire (Updated (if n = 0 then n else n - 1)) s) }
          else None }"

definition applyDifference :: "lang_env \<Rightarrow> Pack \<Rightarrow> lang_difference \<Rightarrow> lang_app \<Rightarrow> lang_app option" where
  "applyDifference env pk difference s =
     (case pk of
        CurrentPack \<Rightarrow> applyDifferenceToMe env 0 difference s
      | BasePack \<Rightarrow> if 1 < length (packs s) then applyDifferenceToMe env 1 difference s else None
      | NonePack \<Rightarrow> None)"

definition parse_call :: "lang_env \<Rightarrow> string_call \<Rightarrow> (nat \<rightharpoonup> qstring) \<Rightarrow> (nat \<rightharpoonup> qstring)" where
  "parse_call env c result =
     (case c of
        SetCallback kv \<Rightarrow>
          (case ParseKeyValue (env_tables env) (fst kv) (snd kv) of
             None \<Rightarrow> result
           | Some (key, v) \<Rightarrow> result(key \<mapsto> v))
      | ResetCallback k \<Rightarrow>
          (case key_index (env_tables env) k of
             None \<Rightarrow> result
           | Some keyIndex \<Rightarrow> result(keyIndex := None)))"

definition ParseStrings :: "lang_env \<Rightarrow> lang_string list \<Rightarrow> (nat \<rightharpoonup> qstring)" where
  "ParseStrings env strings = fold (parse_call env) (concat (map HandleString strings)) Map.empty"

section \<open>Definitions: choosing a language\<close>

text \<open>\<open>PrepareTestValue\<close>, the loop over the text.\<close>

fun test_loop :: "lang_env \<Rightarrow> 16 word \<Rightarrow> bool \<Rightarrow> qstring \<Rightarrow> qstring" where
  "test_loop env filler inCommand [] = []"
| "test_loop env filler inCommand (ch # rest) =
     (let newInCommand = (if ch = text_command (env_tables env) then \<not> inCommand else inCommand)
      in (if inCommand \<or> newInCommand \<or> isSpace env ch then ch else filler) # test_loop env filler newInCommand rest)"

definition PrepareTestValue :: "lang_env \<Rightarrow> qstring \<Rightarrow> 16 word \<Rightarrow> qstring" where
  "PrepareTestValue env current filler = filler # test_loop env filler False current"

definition PluralCodeForCustom :: "lang_env \<Rightarrow> qstring \<Rightarrow> qstring \<Rightarrow> qstring" where
  "PluralCodeForCustom env absolutePath relativePath =
     (let path = (if absolutePath \<noteq> [] then absolutePath else relativePath)
      in case plural_code_match env path of Some captured \<Rightarrow> captured | None \<Rightarrow> DefaultLanguageId)"

text \<open>\<open>ConvertKeyChar\<close> takes a \<open>char\<close>, the low byte of a unit.\<close>

definition unit_char :: "16 word \<Rightarrow> char" where
  "unit_char u = char_of (unat u)"

definition updatePluralRules :: "lang_env \<Rightarrow> nat \<Rightarrow> lang_app \<Rightarrow> lang_app option" where
  "updatePluralRules env n s =
     do { s \<leftarrow> modify_pack n (\<lambda>p.
            if pluralId p = [] then
              p\<lparr>pluralId := (if isCustom p then PluralCodeForCustom env (customFilePathAbsolute p) (customFilePathRelative p)
                             else LanguageIdOrDefault (pack_id p))\<rparr>
            else p) s;
          p \<leftarrow> pack_at n s;
          Some (s\<lparr>app_ChoosePlural := UpdatePluralRules (map unit_char (pluralId p))\<rparr>) }"

definition test_values :: "lang_env \<Rightarrow> pack \<Rightarrow> pack" where
  "test_values env p = p\<lparr>pack_values := map (\<lambda>v. PrepareTestValue env v (pack_id p ! 5)) (pack_values p)\<rparr>"

definition reset_pack :: "lang_env \<Rightarrow> Language \<Rightarrow> qstring \<Rightarrow> pack \<Rightarrow> pack" where
  "reset_pack env data computedPluralId p =
     p\<lparr>pack_id := LanguageIdOrDefault (language_id data), pluralId := computedPluralId,
       pack_name := language_name data, nativeName := language_nativeName data,
       customFilePathAbsolute := [], customFilePathRelative := [], customFileContent := [],
       pack_version := 0, nonDefaultValues := [],
       pack_values := map (GetOriginalValue env) [0..<length (pack_values p)],
       nonDefaultSet := map (\<lambda>_. False) (nonDefaultSet p)\<rparr>"

definition computed_plural :: "Language \<Rightarrow> qstring" where
  "computed_plural data =
     (if language_pluralId data \<noteq> [] then language_pluralId data
      else if language_baseId data \<noteq> [] then language_baseId data
      else language_id data)"

text \<open>\<open>setBaseId\<close> without a base drops it, and otherwise switches the base to a language without a base.\<close>

function switchToId :: "lang_env \<Rightarrow> nat \<Rightarrow> Language \<Rightarrow> lang_app \<Rightarrow> lang_app option"
  and setBaseId :: "lang_env \<Rightarrow> nat \<Rightarrow> qstring \<Rightarrow> qstring \<Rightarrow> lang_app \<Rightarrow> lang_app option"
  and reset :: "lang_env \<Rightarrow> nat \<Rightarrow> Language \<Rightarrow> lang_app \<Rightarrow> lang_app option" where
  "switchToId env n data s =
     do { s \<leftarrow> reset env n data s;
          p \<leftarrow> pack_at n s;
          s \<leftarrow> (if pack_id p = latin ''#TEST_X'' \<or> pack_id p = latin ''#TEST_0'' then
                  do { s \<leftarrow> modify_pack n (test_values env) s;
                       Some (if n = 0 then fire (Updated n) s else s) }
                else Some s);
          updatePluralRules env n s }"
| "setBaseId env n base_id plural_id s =
     (if base_id = [] then Some (s\<lparr>packs := take (Suc n) (packs s)\<rparr>)
      else
        let s = (if Suc n < length (packs s) then s else s\<lparr>packs := packs s @ [new_base_Instance env]\<rparr>)
        in switchToId env (Suc n) \<lparr>language_id = base_id, language_pluralId = plural_id, language_baseId = [],
             language_name = [], language_nativeName = []\<rparr> s)"
| "reset env n data s =
     do { s \<leftarrow> setBaseId env n (language_baseId data) (computed_plural data) s;
          s \<leftarrow> modify_pack n (reset_pack env data (computed_plural data)) s;
          s \<leftarrow> updateChoosingStickerReplacement env n s;
          Some (fire (IdChanged n (LanguageIdOrDefault (language_id data))) s) }"
  by pat_completeness auto
termination
  by (relation "measure (\<lambda>x. case x of
        Inl (env, n, data, s) \<Rightarrow> (if language_baseId data = [] then 0 else 3) + 2
      | Inr (Inl (env, n, base_id, plural_id, s)) \<Rightarrow> if base_id = [] then 0 else 3
      | Inr (Inr (env, n, data, s)) \<Rightarrow> (if language_baseId data = [] then 0 else 3) + 1)") auto

declare switchToId.simps [simp del] setBaseId.simps [simp del] reset.simps [simp del]

section \<open>Definitions: custom files\<close>

definition kLangFileLimit :: nat where "kLangFileLimit = 1024 * 1024"

definition kCodecMagicSize :: nat where "kCodecMagicSize = 3"

definition readUtf16Stream :: "lang_env \<Rightarrow> string \<Rightarrow> string" where
  "readUtf16Stream env content =
     (case decode_utf16 env content of
        None \<Rightarrow> []
      | Some decoded \<Rightarrow> if decoded = [] then [] else to_utf8 env decoded)"

definition ReadFile :: "lang_env \<Rightarrow> qstring \<Rightarrow> qstring \<Rightarrow> string" where
  "ReadFile env absolutePath relativePath =
     (case file_content env (if file_exists env relativePath then relativePath else absolutePath) of
        None \<Rightarrow> []
      | Some content \<Rightarrow>
          if length content > kLangFileLimit then []
          else
            let codecMagic = take kCodecMagicSize content
            in if length codecMagic < kCodecMagicSize then []
               else if (codecMagic ! 0 = CHR 0xFF \<and> codecMagic ! 1 = CHR 0xFE) \<or> (codecMagic ! 0 = CHR 0xFE \<and> codecMagic ! 1 = CHR 0xFF)
                   \<or> codecMagic ! 1 = CHR 0x00 then readUtf16Stream env content
               else if codecMagic ! 0 = CHR 0x00 then readUtf16Stream env ([CHR 0xFE, CHR 0xFF] @ content)
               else if codecMagic ! 0 = CHR 0xEF \<and> codecMagic ! 1 = CHR 0xBB \<and> codecMagic ! 2 = CHR 0xBF then drop 3 content
               else content)"

fun apply_values :: "lang_env \<Rightarrow> nat \<Rightarrow> (string \<times> string) list \<Rightarrow> lang_app \<Rightarrow> lang_app option" where
  "apply_values env n [] s = Some s"
| "apply_values env n (kv # kvs) s = do { s \<leftarrow> applyValue env n kv s; apply_values env n kvs s }"

text \<open>The callback of the parser does not reach the parser, so its calls are made after it.\<close>

definition loadFromContent :: "lang_env \<Rightarrow> nat \<Rightarrow> string \<Rightarrow> lang_app \<Rightarrow> lang_app option" where
  "loadFromContent env n content s =
     apply_values env n (parser_calls (parse_file (env_ws env) (env_tables env) Callback (stripComments env content))) s"

definition loadFromCustomContent :: "lang_env \<Rightarrow> nat \<Rightarrow> qstring \<Rightarrow> qstring \<Rightarrow> string \<Rightarrow> lang_app \<Rightarrow> lang_app option" where
  "loadFromCustomContent env n absolutePath relativePath content s =
     do { s \<leftarrow> modify_pack n (\<lambda>p. p\<lparr>pack_version := 0, customFilePathAbsolute := absolutePath, customFilePathRelative := relativePath,
                                  customFileContent := content\<rparr>) s;
          loadFromContent env n content s }"

definition fillFromCustomContent :: "lang_env \<Rightarrow> nat \<Rightarrow> qstring \<Rightarrow> qstring \<Rightarrow> string \<Rightarrow> lang_app \<Rightarrow> lang_app option" where
  "fillFromCustomContent env n absolutePath relativePath content s =
     do { s \<leftarrow> setBaseId env n [] [] s;
          s \<leftarrow> modify_pack n (\<lambda>p. p\<lparr>pack_id := CustomLanguageId, pluralId := PluralCodeForCustom env absolutePath relativePath,
                                  pack_name := [], nativeName := []\<rparr>) s;
          s \<leftarrow> loadFromCustomContent env n absolutePath relativePath content s;
          s \<leftarrow> updateChoosingStickerReplacement env n s;
          Some (fire (IdChanged n CustomLanguageId) s) }"

definition loadFromCustomFile :: "lang_env \<Rightarrow> nat \<Rightarrow> qstring \<Rightarrow> lang_app \<Rightarrow> (bool \<times> lang_app) option" where
  "loadFromCustomFile env n filePath s =
     (let absolutePath = absolute_path env filePath;
          relativePath = relative_path env filePath;
          content = ReadFile env absolutePath relativePath
      in if content \<noteq> [] then
           do { s \<leftarrow> reset env n \<lparr>language_id = CustomLanguageId, language_pluralId = PluralCodeForCustom env absolutePath relativePath,
                     language_baseId = [], language_name = [], language_nativeName = []\<rparr> s;
                s \<leftarrow> loadFromCustomContent env n absolutePath relativePath content s;
                s \<leftarrow> updatePluralRules env n s;
                Some (True, s) }
         else Some (False, s))"

definition switchToCustomFile :: "lang_env \<Rightarrow> nat \<Rightarrow> qstring \<Rightarrow> lang_app \<Rightarrow> lang_app option" where
  "switchToCustomFile env n filePath s =
     do { (loaded, s) \<leftarrow> loadFromCustomFile env n filePath s;
          Some (if loaded then fire (Updated n) (fire WriteLangPack s) else s) }"

section \<open>Definitions: storing\<close>

text \<open>
  \<open>QDataStream\<close> is an argument: how it writes a \<open>qint32\<close>, a \<open>QString\<close> and a \<open>QByteArray\<close>, and reads
  them, with \<open>None\<close> when the status is not \<open>Ok\<close> any more.
\<close>

record lang_stream =
  put_int :: "int \<Rightarrow> string"
  get_int :: "string \<Rightarrow> (int \<times> string) option"
  put_str :: "qstring \<Rightarrow> string"
  get_str :: "string \<Rightarrow> (qstring \<times> string) option"
  put_ba :: "string \<Rightarrow> string"
  get_ba :: "string \<Rightarrow> (string \<times> string) option"

definition kSerializeVersionTag :: qstring where "kSerializeVersionTag = latin ''#new''"

definition kSerializeVersion :: int where "kSerializeVersion = 1"

definition put_pair :: "lang_stream \<Rightarrow> string \<times> string \<Rightarrow> string" where
  "put_pair io kv = put_ba io (fst kv) @ put_ba io (snd kv)"

text \<open>An instance with its bases.\<close>

fun serialize_instance :: "lang_stream \<Rightarrow> pack list \<Rightarrow> string" where
  "serialize_instance io [] = []"
| "serialize_instance io (p # ps) =
     put_str io kSerializeVersionTag @ put_int io kSerializeVersion
     @ put_str io (pack_id p) @ put_str io (pluralId p) @ put_str io (pack_name p) @ put_str io (nativeName p)
     @ put_int io (pack_version p)
     @ put_str io (customFilePathAbsolute p) @ put_str io (customFilePathRelative p) @ put_ba io (customFileContent p)
     @ put_int io (int (length (nonDefaultValues p))) @ concat (map (put_pair io) (nonDefaultValues p))
     @ put_ba io (serialize_instance io ps)"

record lang_header =
  legacyFormat :: bool
  header_id :: qstring
  header_pluralId :: qstring
  header_name :: qstring
  header_nativeName :: qstring
  header_version :: int
  header_absolute :: qstring
  header_relative :: qstring
  header_content :: string
  nonDefaultValuesCount :: int

definition read_header :: "lang_stream \<Rightarrow> string \<Rightarrow> (lang_header \<times> string) option" where
  "read_header io data =
     do { (serializeVersionTag, data) \<leftarrow> get_str io data;
          if serializeVersionTag \<noteq> kSerializeVersionTag then
            do { (ver, data) \<leftarrow> get_int io data;
                 (absolute, data) \<leftarrow> get_str io data;
                 (relative, data) \<leftarrow> get_str io data;
                 (content, data) \<leftarrow> get_ba io data;
                 (n, data) \<leftarrow> get_int io data;
                 Some (\<lparr>legacyFormat = True, header_id = serializeVersionTag, header_pluralId = [], header_name = [], header_nativeName = [],
                        header_version = ver, header_absolute = absolute, header_relative = relative, header_content = content,
                        nonDefaultValuesCount = n\<rparr>, data) }
          else
            do { (serializeVersion, data) \<leftarrow> get_int io data;
                 if serializeVersion = kSerializeVersion then
                   do { (hid, data) \<leftarrow> get_str io data;
                        (plural, data) \<leftarrow> get_str io data;
                        (nm, data) \<leftarrow> get_str io data;
                        (native, data) \<leftarrow> get_str io data;
                        (ver, data) \<leftarrow> get_int io data;
                        (absolute, data) \<leftarrow> get_str io data;
                        (relative, data) \<leftarrow> get_str io data;
                        (content, data) \<leftarrow> get_ba io data;
                        (n, data) \<leftarrow> get_int io data;
                        Some (\<lparr>legacyFormat = False, header_id = hid, header_pluralId = plural, header_name = nm, header_nativeName = native,
                               header_version = ver, header_absolute = absolute, header_relative = relative, header_content = content,
                               nonDefaultValuesCount = n\<rparr>, data) }
                 else None } }"

fun read_pairs :: "lang_stream \<Rightarrow> nat \<Rightarrow> string \<Rightarrow> ((string \<times> string) list \<times> string) option" where
  "read_pairs io 0 data = Some ([], data)"
| "read_pairs io (Suc n) data =
     do { (key, data) \<leftarrow> get_ba io data;
          (v, data) \<leftarrow> get_ba io data;
          (kvs, data) \<leftarrow> read_pairs io n data;
          Some ((key, v) # kvs, data) }"

text \<open>The plural id and the base after the values; a base that cannot be read is none in the new format.\<close>

definition read_tail :: "lang_stream \<Rightarrow> lang_header \<Rightarrow> qstring \<Rightarrow> string \<Rightarrow> (qstring \<times> string) option" where
  "read_tail io h hid data =
     (if legacyFormat h then
        do { (plural, data) \<leftarrow> (if data \<noteq> [] then get_str io data else Some (hid, data));
             if data \<noteq> [] then
               do { (base, data) \<leftarrow> get_ba io data;
                    if base = [] then None else Some (plural, base) }
             else Some (plural, []) }
      else Some (header_pluralId h, case get_ba io data of Some (base, data) \<Rightarrow> base | None \<Rightarrow> []))"

definition fill_pack :: "lang_env \<Rightarrow> lang_header \<Rightarrow> qstring \<Rightarrow> qstring \<Rightarrow> pack \<Rightarrow> pack" where
  "fill_pack env h hid plural p =
     p\<lparr>pack_id := hid,
       pluralId := (if hid = CustomLanguageId then PluralCodeForCustom env (header_absolute h) (header_relative h) else plural),
       pack_name := header_name h, nativeName := header_nativeName h, pack_version := header_version h,
       customFilePathAbsolute := header_absolute h, customFilePathRelative := header_relative h, customFileContent := header_content h\<rparr>"

text \<open>The last part: the fields and the values.\<close>

definition fill_values :: "lang_env \<Rightarrow> nat \<Rightarrow> lang_header \<Rightarrow> qstring \<Rightarrow> qstring \<Rightarrow> (string \<times> string) list \<Rightarrow> lang_app \<Rightarrow> lang_app option" where
  "fill_values env n h hid plural kvs s =
     do { s \<leftarrow> modify_pack n (fill_pack env h hid plural) s;
          s \<leftarrow> apply_values env n kvs s;
          s \<leftarrow> updatePluralRules env n s;
          s \<leftarrow> updateChoosingStickerReplacement env n s;
          p \<leftarrow> pack_at n s;
          Some (fire (IdChanged n (pack_id p)) s) }"

text \<open>
  \<open>fuel\<close> bounds how deep bases are nested in the data, since what \<open>get_ba\<close> returns is not known to
  be shorter than what it reads; what is written has one base at most.
\<close>

fun fillFromSerialized :: "lang_env \<Rightarrow> lang_stream \<Rightarrow> nat \<Rightarrow> nat \<Rightarrow> string \<Rightarrow> lang_app \<Rightarrow> lang_app option" where
  "fillFromSerialized env io 0 n data s = None"
| "fillFromSerialized env io (Suc fuel) n data s =
     (case read_header io data of
        None \<Rightarrow> Some s
      | Some (h, data) \<Rightarrow>
          if nonDefaultValuesCount h > kLangValuesLimit then Some s
          else
            let custom = header_absolute h \<noteq> [];
                hid = (if custom then CustomLanguageId else header_id h);
                current = (if custom then ReadFile env (header_absolute h) (header_relative h) else [])
            in if current \<noteq> [] \<and> current \<noteq> header_content h then
                 map_option (fire WriteLangPack) (fillFromCustomContent env n (header_absolute h) (header_relative h) current s)
               else if nonDefaultValuesCount h < 0 then None
               else
                 (case read_pairs io (nat (nonDefaultValuesCount h)) data of
                    None \<Rightarrow> Some s
                  | Some (kvs, data) \<Rightarrow>
                      let s = s\<lparr>packs := take (Suc n) (packs s)\<rparr>
                      in (case read_tail io h hid data of
                            None \<Rightarrow> Some s
                          | Some (plural, base) \<Rightarrow>
                              do { s \<leftarrow> (if base \<noteq> [] then
                                           fillFromSerialized env io fuel (Suc n) base (s\<lparr>packs := packs s @ [new_base_Instance env]\<rparr>)
                                         else Some s);
                                   fill_values env n h hid plural kvs s })))"

section \<open>Definitions: specification\<close>

text \<open>
  What a user sees: each pack is a layer of values that were set and are still there, the instance
  before its base before the values of the program. The layers are numbered as the packs.
\<close>

type_synonym layers = "nat \<Rightarrow> nat \<rightharpoonup> qstring"

definition shown :: "lang_env \<Rightarrow> layers \<Rightarrow> nat \<Rightarrow> qstring" where
  "shown env l i =
     (case l 0 i of Some v \<Rightarrow> v | None \<Rightarrow> (case l 1 i of Some v \<Rightarrow> v | None \<Rightarrow> GetOriginalValue env i))"

definition layered :: "lang_env \<Rightarrow> layers \<Rightarrow> lang_app \<Rightarrow> bool" where
  "layered env l s \<longleftrightarrow>
     (length (packs s) = 1 \<or> length (packs s) = 2)
     \<and> (\<forall>n < length (packs s). length (nonDefaultSet (packs s ! n)) = keys_count env
          \<and> (\<forall>i < keys_count env. nonDefaultSet (packs s ! n) ! i \<longleftrightarrow> l n i \<noteq> None))
     \<and> (length (packs s) = 1 \<longrightarrow> (\<forall>i < keys_count env. l 1 i = None))
     \<and> length (pack_values (packs s ! 0)) = keys_count env
     \<and> (\<forall>i < keys_count env. pack_values (packs s ! 0) ! i = shown env l i)"

definition keys_ok :: "lang_env \<Rightarrow> bool" where
  "keys_ok env \<longleftrightarrow> (\<forall>key i. key_index (env_tables env) key = Some i \<longrightarrow> i < keys_count env)"

text \<open>What the operations on values leave alone.\<close>

definition stable_part :: "pack \<Rightarrow> pack" where
  "stable_part p = p\<lparr>choosingStickerReplacement := no_sticker, pack_values := [], nonDefaultSet := [], nonDefaultValues := []\<rparr>"

definition changes_values :: "nat \<Rightarrow> ((string, string) flat_map \<Rightarrow> (string, string) flat_map) \<Rightarrow> lang_app \<Rightarrow> lang_app \<Rightarrow> bool" where
  "changes_values n f s s' \<longleftrightarrow>
     length (packs s') = length (packs s)
     \<and> (\<forall>j < length (packs s). stable_part (packs s' ! j) = stable_part (packs s ! j)
          \<and> nonDefaultValues (packs s' ! j) = (if j = n then f (nonDefaultValues (packs s ! j)) else nonDefaultValues (packs s ! j)))
     \<and> app_ChoosePlural s' = app_ChoosePlural s \<and> lang_events s' = lang_events s"

text \<open>The calls on the callbacks, as changes of the stored pairs.\<close>

fun store_call :: "string_call \<Rightarrow> (string, string) flat_map \<Rightarrow> (string, string) flat_map" where
  "store_call (SetCallback kv) m = flat_put (fst kv) (snd kv) m"
| "store_call (ResetCallback key) m = flat_erase key m"

text \<open>
  A key may be deleted from the instance when the base shows through as it was saved: its value has
  text and no tags, or it has none.
\<close>

definition plain_in_base :: "lang_env \<Rightarrow> layers \<Rightarrow> pack list \<Rightarrow> string_call \<Rightarrow> bool" where
  "plain_in_base env l bases c \<longleftrightarrow>
     (case c of
        SetCallback kv \<Rightarrow> True
      | ResetCallback key \<Rightarrow>
          (case key_index (env_tables env) key of
             None \<Rightarrow> True
           | Some i \<Rightarrow>
               (case l 1 i of
                  None \<Rightarrow> getNonDefaultValue env key bases = []
                | Some v \<Rightarrow> v \<noteq> [] \<and> getNonDefaultValue env key bases = v)))"

text \<open>The common shape of setting and resetting the value of a key.\<close>

definition change_value :: "lang_env \<Rightarrow> nat \<Rightarrow> nat \<Rightarrow> bool \<Rightarrow> qstring \<Rightarrow> lang_app \<Rightarrow> lang_app option" where
  "change_value env n key b v s =
     do { s \<leftarrow> set_flag n key b s;
          s \<leftarrow> (if n = 0 then set_value n key v s
               else do { known \<leftarrow> get_flag (n - 1) key s;
                         if \<not> known then set_value (n - 1) key v s else Some s });
          sticker_changed env n key s }"

text \<open>The flags of a state are those of the layers; its values may be those of other layers.\<close>

definition flags_layered :: "lang_env \<Rightarrow> layers \<Rightarrow> lang_app \<Rightarrow> bool" where
  "flags_layered env l s \<longleftrightarrow>
     (length (packs s) = 1 \<or> length (packs s) = 2)
     \<and> (\<forall>n < length (packs s). length (nonDefaultSet (packs s ! n)) = keys_count env
          \<and> (\<forall>i < keys_count env. nonDefaultSet (packs s ! n) ! i \<longleftrightarrow> l n i \<noteq> None))
     \<and> (length (packs s) = 1 \<longrightarrow> (\<forall>i < keys_count env. l 1 i = None))"

definition cleared :: "lang_env \<Rightarrow> Language \<Rightarrow> pack \<Rightarrow> bool" where
  "cleared env data p \<longleftrightarrow>
     nonDefaultSet p = replicate (keys_count env) False \<and> nonDefaultValues p = [] \<and> pack_version p = 0
     \<and> pack_id p = LanguageIdOrDefault (language_id data) \<and> pack_name p = language_name data \<and> nativeName p = language_nativeName data"

definition base_language :: "Language \<Rightarrow> Language" where
  "base_language data = \<lparr>language_id = language_baseId data, language_pluralId = computed_plural data, language_baseId = [],
     language_name = [], language_nativeName = []\<rparr>"

definition is_test_id :: "qstring \<Rightarrow> bool" where
  "is_test_id i \<longleftrightarrow> i = latin ''#TEST_X'' \<or> i = latin ''#TEST_0''"

text \<open>A small program with two phrases, for the examples.\<close>

definition sample_env :: lang_env where
  "sample_env =
     \<lparr>env_tables = \<lparr>key_index = (\<lambda>k. if k = ''lng_a'' then Some 0 else if k = ''lng_b'' then Some 1 else None), from_utf8 = latin,
        tag_index = (\<lambda>n. if n = ''count'' then Some 3 else None), tag_replaced_in = (\<lambda>i j. True), text_command = 0x10\<rparr>,
      keys_count = 2, GetOriginalValue = (\<lambda>i. if i = 0 then latin ''A'' else latin ''B''),
      lng_language_name = 1, lng_send_action_choose_sticker = 1, lng_user_action_choose_sticker = 1,
      choose_sticker_now = (\<lambda>vs. vs ! 1), user_choose_sticker_now = (\<lambda>vs. vs ! 1), isSpace = (\<lambda>c. c = 0x20),
      plural_code_match = (\<lambda>_. None), to_utf8 = (\<lambda>_. []), decode_utf16 = (\<lambda>_. None), file_exists = (\<lambda>_. False), file_content = (\<lambda>_. None),
      absolute_path = (\<lambda>p. p), relative_path = (\<lambda>p. p), env_ws = (\<lambda>c. c = CHR '' ''), stripComments = (\<lambda>c. c),
      platform_language = [], ui_languages = []\<rparr>"

definition sample_pack :: "qstring \<Rightarrow> qstring list \<Rightarrow> bool list \<Rightarrow> (string, string) flat_map \<Rightarrow> pack" where
  "sample_pack i vals set_flags stored =
     (new_pack sample_env vals)\<lparr>pack_id := i, pluralId := i, nonDefaultSet := set_flags, nonDefaultValues := stored\<rparr>"

definition sample_app :: "pack list \<Rightarrow> lang_app" where
  "sample_app ps = \<lparr>packs = ps, app_ChoosePlural = ChoosePlural1, lang_events = []\<rparr>"

section \<open>Single values\<close>

lemma nth_update: "j < length xs \<Longrightarrow> xs[n := v] ! j = (if n = j then v else xs ! j)"
  by (cases "n = j") simp_all

lemma ParseKeyValue_index: "ParseKeyValue tables key val = Some (i, v) \<Longrightarrow> key_index tables key = Some i"
  by (auto simp: ParseKeyValue_def split: option.splits sum.splits)

lemma changes_values_trans:
  "changes_values n f s s' \<Longrightarrow> changes_values n g s' s'' \<Longrightarrow> changes_values n (g \<circ> f) s s''"
  by (auto simp: changes_values_def)

lemma sticker_changed_ok:
  assumes "n < length (packs s)"
  shows "\<exists>s'. sticker_changed env n key s = Some s' \<and> changes_values n (\<lambda>m. m) s s'
    \<and> map pack_values (packs s') = map pack_values (packs s) \<and> map nonDefaultSet (packs s') = map nonDefaultSet (packs s)"
proof -
  have "n - 1 < length (packs s)" "packs s \<noteq> []" using assms by auto
  then show ?thesis
    using assms
    by (auto simp: sticker_changed_def updateChoosingStickerReplacement_def pack_at_def modify_pack_def changes_values_def stable_part_def
        Let_def nth_list_update map_update list_update_same_conv)
qed

lemma layered_cong:
  assumes "layered env l s" "map pack_values (packs s') = map pack_values (packs s)" "map nonDefaultSet (packs s') = map nonDefaultSet (packs s)"
  shows "layered env l s'"
proof -
  have len: "length (packs s') = length (packs s)" using assms(2) map_eq_imp_length_eq by blast
  have "pack_values (packs s' ! j) = pack_values (packs s ! j) \<and> nonDefaultSet (packs s' ! j) = nonDefaultSet (packs s ! j)"
    if "j < length (packs s)" for j
    using that len assms(2,3) by (metis nth_map)
  then show ?thesis using assms(1) len by (auto simp: layered_def)
qed

lemma shown_other: "i \<noteq> key \<Longrightarrow> shown env (l(n := (l n)(key := x))) i = shown env l i"
  unfolding shown_def by (cases "n = 0"; cases "n = 1") (simp_all split: option.split)

lemma nth_update_shown:
  assumes "length xs = k" "\<forall>i < k. xs ! i = shown env l i" "v = shown env (l(n := (l n)(key := x))) key"
  shows "\<forall>i < k. xs[key := v] ! i = shown env (l(n := (l n)(key := x))) i"
proof (intro allI impI)
  fix i assume "i < k"
  then show "xs[key := v] ! i = shown env (l(n := (l n)(key := x))) i"
    using assms by (cases "i = key") (simp_all add: shown_other)
qed

lemma set_flag_ok:
  "n < length (packs s) \<Longrightarrow> key < length (nonDefaultSet (packs s ! n)) \<Longrightarrow>
    set_flag n key b s = Some (s\<lparr>packs := (packs s)[n := (packs s ! n)\<lparr>nonDefaultSet := (nonDefaultSet (packs s ! n))[key := b]\<rparr>]\<rparr>)"
  by (simp add: set_flag_def pack_at_def modify_pack_def)

lemma set_value_ok:
  "n < length (packs s) \<Longrightarrow> key < length (pack_values (packs s ! n)) \<Longrightarrow>
    set_value n key v s = Some (s\<lparr>packs := (packs s)[n := (packs s ! n)\<lparr>pack_values := (pack_values (packs s ! n))[key := v]\<rparr>]\<rparr>)"
  by (simp add: set_value_def pack_at_def modify_pack_def)

lemma update_changes:
  assumes "stable_part p = stable_part (packs s ! j)" "nonDefaultValues p = nonDefaultValues (packs s ! j)"
  shows "changes_values n (\<lambda>m. m) s (s\<lparr>packs := (packs s)[j := p]\<rparr>)"
  using assms by (simp add: changes_values_def nth_update)

lemma shown_covered: "l 0 key = Some y \<Longrightarrow> n \<noteq> 0 \<Longrightarrow> shown env (l(n := (l n)(key := x))) i = shown env l i"
  by (cases "i = key") (simp_all add: shown_other, simp add: shown_def)

lemma layered_flags:
  "layered env l s \<longleftrightarrow> flags_layered env l s \<and> length (pack_values (packs s ! 0)) = keys_count env
     \<and> (\<forall>i < keys_count env. pack_values (packs s ! 0) ! i = shown env l i)"
  by (simp add: layered_def flags_layered_def)

lemma flags_layered_cong:
  assumes "flags_layered env l s" "map nonDefaultSet (packs s') = map nonDefaultSet (packs s)"
  shows "flags_layered env l s'"
proof -
  have len: "length (packs s') = length (packs s)" using assms(2) map_eq_imp_length_eq by blast
  have "nonDefaultSet (packs s' ! j) = nonDefaultSet (packs s ! j)" if "j < length (packs s)" for j
    using that len assms(2) by (metis nth_map)
  then show ?thesis using assms(1) len by (simp add: flags_layered_def)
qed

lemma set_flag_layered:
  assumes "flags_layered env l s" "n < length (packs s)" "key < keys_count env"
  shows "\<exists>s'. set_flag n key (x \<noteq> None) s = Some s' \<and> flags_layered env (l(n := (l n)(key := x))) s'
    \<and> changes_values n (\<lambda>m. m) s s' \<and> pack_values (packs s' ! 0) = pack_values (packs s ! 0)"
proof -
  let ?p = "(packs s ! n)\<lparr>nonDefaultSet := (nonDefaultSet (packs s ! n))[key := x \<noteq> None]\<rparr>"
  let ?s = "s\<lparr>packs := (packs s)[n := ?p]\<rparr>"
  have "length (nonDefaultSet (packs s ! n)) = keys_count env" using assms(1,2) by (simp add: flags_layered_def)
  then have "set_flag n key (x \<noteq> None) s = Some ?s" using set_flag_ok [OF assms(2)] assms(3) by simp
  moreover have "changes_values n (\<lambda>m. m) s ?s" by (simp add: update_changes stable_part_def)
  moreover have "pack_values (packs ?s ! 0) = pack_values (packs s ! 0)" using assms(2) by (cases "n = 0") simp_all
  moreover have "length (packs s) = 1 \<Longrightarrow> n = 0" using assms(2) by simp
  then have "flags_layered env (l(n := (l n)(key := x))) ?s"
    using assms(1,3) by (auto simp: flags_layered_def nth_update)
  ultimately show ?thesis by blast
qed

text \<open>The value is shown in the instance unless a layer above has the key.\<close>

lemma show_value_layered:
  assumes "layered env l s" "n < length (packs s)" "key < keys_count env" "flags_layered env l' s1"
    and "l' = l(n := (l n)(key := x))" "pack_values (packs s1 ! 0) = pack_values (packs s ! 0)" "length (packs s1) = length (packs s)"
    and "n \<noteq> 0 \<longrightarrow> l 0 key = None \<Longrightarrow> v = shown env l' key"
  shows "\<exists>s'. (if n = 0 then set_value n key v s1
      else do { known \<leftarrow> get_flag (n - 1) key s1; if \<not> known then set_value (n - 1) key v s1 else Some s1 }) = Some s'
    \<and> layered env l' s' \<and> changes_values n (\<lambda>m. m) s1 s'"
proof -
  let ?s = "s1\<lparr>packs := (packs s1)[0 := (packs s1 ! 0)\<lparr>pack_values := (pack_values (packs s ! 0))[key := v]\<rparr>]\<rparr>"
  have n: "n = 0 \<or> n = 1" using assms(1,2) by (auto simp: layered_def)
  have vals: "length (pack_values (packs s ! 0)) = keys_count env" "\<forall>i < keys_count env. pack_values (packs s ! 0) ! i = shown env l i"
    using assms(1) by (simp_all add: layered_def)
  have nonempty: "0 < length (packs s1)" using assms(2,7) by linarith
  have known: "get_flag (n - 1) key s1 = Some (l 0 key \<noteq> None)" if "n = 1"
    using that assms(3-5) nonempty by (simp add: get_flag_def pack_at_def flags_layered_def)
  have value0: "set_value 0 key v s1 = Some ?s" using nonempty vals(1) assms(3,6) by (simp add: set_value_ok)
  show ?thesis
  proof (cases "n = 0 \<or> l 0 key = None")
    case True
    then have "v = shown env (l(n := (l n)(key := x))) key" using assms(5,8) by auto
    then have "\<forall>i < keys_count env. (pack_values (packs s ! 0))[key := v] ! i = shown env l' i"
      unfolding assms(5) by (rule nth_update_shown [OF vals])
    moreover have "flags_layered env l' ?s"
      using nonempty by (intro flags_layered_cong [OF assms(4)]) (simp add: map_update list_update_same_conv)
    ultimately have "layered env l' ?s" using vals(1) nonempty by (simp add: layered_flags)
    moreover have "changes_values n (\<lambda>m. m) s1 ?s" by (simp add: update_changes stable_part_def)
    ultimately show ?thesis using n True value0 known by auto
  next
    case False
    then have "\<forall>i < keys_count env. pack_values (packs s1 ! 0) ! i = shown env l' i"
      using vals(2) assms(5,6) shown_covered [of l key] by auto
    then have "layered env l' s1" using assms(4,6) vals(1) by (simp add: layered_flags)
    moreover have "changes_values n (\<lambda>m. m) s1 s1" by (simp add: changes_values_def)
    ultimately show ?thesis using False n known by auto
  qed
qed

lemma change_value_layered:
  assumes "layered env l s" "n < length (packs s)" "key < keys_count env" "l' = l(n := (l n)(key := x))"
    and "n \<noteq> 0 \<longrightarrow> l 0 key = None \<Longrightarrow> v = shown env l' key"
  shows "\<exists>s'. change_value env n key (x \<noteq> None) v s = Some s' \<and> layered env l' s' \<and> changes_values n (\<lambda>m. m) s s'"
proof -
  obtain s1 where s1: "set_flag n key (x \<noteq> None) s = Some s1" "flags_layered env l' s1" "changes_values n (\<lambda>m. m) s s1"
    "pack_values (packs s1 ! 0) = pack_values (packs s ! 0)"
    using set_flag_layered [of env l s n key x] assms(1-4) by (auto simp: layered_flags)
  have len: "length (packs s1) = length (packs s)" using s1(3) by (simp add: changes_values_def)
  obtain s2 where s2: "(if n = 0 then set_value n key v s1
      else do { known \<leftarrow> get_flag (n - 1) key s1; if \<not> known then set_value (n - 1) key v s1 else Some s1 }) = Some s2"
    "layered env l' s2" "changes_values n (\<lambda>m. m) s1 s2"
    using show_value_layered [OF assms(1-3) s1(2) assms(4) s1(4) len assms(5)] by blast
  have "n < length (packs s2)" using s2(3) len assms(2) by (simp add: changes_values_def)
  then obtain s3 where s3: "sticker_changed env n key s2 = Some s3" "changes_values n (\<lambda>m. m) s2 s3"
    "map pack_values (packs s3) = map pack_values (packs s2)" "map nonDefaultSet (packs s3) = map nonDefaultSet (packs s2)"
    using sticker_changed_ok by blast
  have "changes_values n (\<lambda>m. m) s s3"
    using changes_values_trans [OF changes_values_trans [OF s1(3) s2(3)] s3(2)] by (simp add: comp_def)
  then show ?thesis
    using s1(1) s2(1) s3(1) layered_cong [OF s2(2) s3(3,4)] by (auto simp: change_value_def)
qed

lemma drop_tl: "drop (Suc 0) xs = tl xs" "tl (xs[0 := p]) = tl xs"
  by (cases xs; simp)+

lemma modify_stored:
  assumes "layered env l s" "n < length (packs s)"
  shows "\<exists>s'. modify_pack n (\<lambda>p. p\<lparr>nonDefaultValues := f (nonDefaultValues p)\<rparr>) s = Some s' \<and> layered env l s' \<and> changes_values n f s s'
    \<and> (n = 0 \<longrightarrow> tl (packs s') = tl (packs s))"
proof -
  let ?s = "s\<lparr>packs := (packs s)[n := (packs s ! n)\<lparr>nonDefaultValues := f (nonDefaultValues (packs s ! n))\<rparr>]\<rparr>"
  have "layered env l ?s"
    by (rule layered_cong [OF assms(1)]) (simp_all add: map_update list_update_same_conv assms(2))
  moreover have "changes_values n f s ?s"
    by (simp add: changes_values_def nth_update stable_part_def)
  ultimately show ?thesis using assms(2) by (auto simp: modify_pack_def drop_tl)
qed

lemma store_call_eq: "store_call (SetCallback kv) = flat_put (fst kv) (snd kv)" "store_call (ResetCallback key) = flat_erase key"
  by (simp_all add: fun_eq_iff)

lemma applyValue_layered:
  assumes "keys_ok env" "layered env l s" "n < length (packs s)"
  shows "\<exists>s'. applyValue env n kv s = Some s' \<and> layered env (l(n := parse_call env (SetCallback kv) (l n))) s'
    \<and> changes_values n (store_call (SetCallback kv)) s s'"
proof -
  obtain s1 where s1: "modify_pack n (\<lambda>p. p\<lparr>nonDefaultValues := flat_put (fst kv) (snd kv) (nonDefaultValues p)\<rparr>) s = Some s1"
    "layered env l s1" "changes_values n (flat_put (fst kv) (snd kv)) s s1"
    using modify_stored [OF assms(2,3), of "flat_put (fst kv) (snd kv)"] by blast
  show ?thesis
  proof (cases "ParseKeyValue (env_tables env) (fst kv) (snd kv)")
    case None
    then show ?thesis using s1 by (simp add: applyValue_def parse_call_def store_call_eq)
  next
    case (Some kv')
    obtain key v where kv': "kv' = (key, v)" by (cases kv')
    have key: "key < keys_count env" using Some kv' assms(1) by (auto simp: keys_ok_def dest: ParseKeyValue_index)
    have n: "n < length (packs s1)" "n = 0 \<or> n = 1" using s1(2,3) assms(3) by (auto simp: changes_values_def layered_def)
    then have "n \<noteq> 0 \<longrightarrow> l 0 key = None \<Longrightarrow> v = shown env (l(n := (l n)(key := Some v))) key" by (auto simp: shown_def)
    then obtain s2 where s2: "change_value env n key (Some v \<noteq> None) v s1 = Some s2" "layered env (l(n := (l n)(key := Some v))) s2" "changes_values n (\<lambda>m. m) s1 s2"
      using change_value_layered [OF s1(2) n(1) key refl, of v "Some v"] by blast
    have "save_value env n key v s1 = Some s2" using s2(1) by (simp add: save_value_def change_value_def)
    then show ?thesis
      using s1(1) s2 Some kv' changes_values_trans [OF s1(3) s2(3)] by (auto simp: applyValue_def parse_call_def comp_def store_call_eq)
  qed
qed

lemma resetValue_layered:
  assumes "keys_ok env" "layered env l s" "n < length (packs s)" "n = 0 \<Longrightarrow> plain_in_base env l (tl (packs s)) (ResetCallback key)"
  shows "\<exists>s'. resetValue env n key s = Some s' \<and> layered env (l(n := parse_call env (ResetCallback key) (l n))) s'
    \<and> changes_values n (store_call (ResetCallback key)) s s'"
proof -
  obtain s1 where s1: "modify_pack n (\<lambda>p. p\<lparr>nonDefaultValues := flat_erase key (nonDefaultValues p)\<rparr>) s = Some s1"
    "layered env l s1" "changes_values n (flat_erase key) s s1" "n = 0 \<longrightarrow> tl (packs s1) = tl (packs s)"
    using modify_stored [OF assms(2,3), of "flat_erase key"] by blast
  show ?thesis
  proof (cases "key_index (env_tables env) key")
    case None
    then show ?thesis using s1 by (simp add: resetValue_def parse_call_def store_call_eq)
  next
    case (Some i)
    let ?v = "if n = 0 \<and> getNonDefaultValue env key (tl (packs s1)) \<noteq> [] then getNonDefaultValue env key (tl (packs s1)) else GetOriginalValue env i"
    let ?l = "l(n := (l n)(i := None))"
    have i: "i < keys_count env" using Some assms(1) by (auto simp: keys_ok_def)
    have n: "n < length (packs s1)" "n = 0 \<or> n = 1" using s1(2,3) assms(3) by (auto simp: changes_values_def layered_def)
    have "?v = shown env ?l i" if "n \<noteq> 0 \<longrightarrow> l 0 i = None"
      using that n(2) assms(4) s1(4) Some by (auto simp: shown_def plain_in_base_def split: option.splits)
    then obtain s2 where s2: "change_value env n i False ?v s1 = Some s2" "layered env ?l s2" "changes_values n (\<lambda>m. m) s1 s2"
      using change_value_layered [OF s1(2) n(1) i, of ?l None ?v] by auto
    have flag: "set_flag n i False s1 = Some (s1\<lparr>packs := (packs s1)[n := (packs s1 ! n)\<lparr>nonDefaultSet := (nonDefaultSet (packs s1 ! n))[i := False]\<rparr>]\<rparr>)"
      using set_flag_ok [OF n(1)] s1(2) n(1) i by (simp add: layered_def)
    have "resetValue env n key s = change_value env n i False ?v s1"
      using s1(1) Some n(2) by (auto simp: resetValue_def change_value_def flag drop_tl Let_def)
    then show ?thesis
      using s2 Some changes_values_trans [OF s1(3) s2(3)] by (auto simp: parse_call_def comp_def store_call_eq)
  qed
qed

section \<open>Differences\<close>

lemma getNonDefaultValue_cong:
  "map nonDefaultValues ps = map nonDefaultValues qs \<Longrightarrow> getNonDefaultValue env key ps = getNonDefaultValue env key qs"
proof (induction ps arbitrary: qs)
  case (Cons p ps)
  then show ?case by (cases qs) (auto split: option.split)
qed simp

lemma call_layered:
  assumes "keys_ok env" "layered env l s" "n < length (packs s)" "n = 0 \<Longrightarrow> plain_in_base env l (tl (packs s)) c"
  shows "\<exists>s'. (case c of SetCallback kv \<Rightarrow> applyValue env n kv s | ResetCallback key \<Rightarrow> resetValue env n key s) = Some s'
    \<and> layered env (l(n := parse_call env c (l n))) s' \<and> changes_values n (store_call c) s s'"
proof (cases c)
  case (SetCallback kv)
  show ?thesis unfolding SetCallback using applyValue_layered [OF assms(1-3)] by simp
next
  case (ResetCallback key)
  show ?thesis unfolding ResetCallback using resetValue_layered [OF assms(1-3)] assms(4) ResetCallback by simp
qed

lemma apply_calls_layered:
  assumes "keys_ok env" "layered env l s" "n < length (packs s)" "n = 0 \<Longrightarrow> list_all (plain_in_base env l (tl (packs s))) calls"
  shows "\<exists>s'. apply_calls env n calls s = Some s' \<and> layered env (l(n := fold (parse_call env) calls (l n))) s'
    \<and> changes_values n (fold store_call calls) s s'"
  using assms(2-)
proof (induction calls arbitrary: l s)
  case Nil
  then show ?case by (simp add: changes_values_def)
next
  case (Cons c calls)
  let ?l = "l(n := parse_call env c (l n))"
  obtain s1 where s1: "(case c of SetCallback kv \<Rightarrow> applyValue env n kv s | ResetCallback key \<Rightarrow> resetValue env n key s) = Some s1"
    "layered env ?l s1" "changes_values n (store_call c) s s1"
    using call_layered [OF assms(1) Cons.prems(1,2), of c] Cons.prems(3) by auto
  have len: "length (packs s1) = length (packs s)" using s1(3) by (simp add: changes_values_def)
  have "map nonDefaultValues (tl (packs s1)) = map nonDefaultValues (tl (packs s))" if "n = 0"
    using that s1(3) len by (intro nth_equalityI) (auto simp: changes_values_def nth_tl)
  then have bases: "getNonDefaultValue env key (tl (packs s1)) = getNonDefaultValue env key (tl (packs s))" if "n = 0" for key
    using that getNonDefaultValue_cong by blast
  have "plain_in_base env ?l (tl (packs s1)) = plain_in_base env l (tl (packs s))" if "n = 0"
    using that by (auto simp: fun_eq_iff plain_in_base_def bases split: string_call.split option.split)
  then have "n = 0 \<Longrightarrow> list_all (plain_in_base env ?l (tl (packs s1))) calls" using Cons.prems(3) by simp
  then obtain s2 where s2: "apply_calls env n calls s1 = Some s2" "layered env (?l(n := fold (parse_call env) calls (?l n))) s2"
    "changes_values n (fold store_call calls) s1 s2"
    using Cons.IH [OF s1(2)] Cons.prems(2) unfolding len by blast
  moreover have "fold store_call (c # calls) = fold store_call calls \<circ> store_call c"
    "fold (parse_call env) (c # calls) (l n) = fold (parse_call env) calls (?l n)" "?l(n := x) = l(n := x)" for x
    by (simp_all add: fun_eq_iff)
  ultimately have "layered env (l(n := fold (parse_call env) (c # calls) (l n))) s2" "changes_values n (fold store_call (c # calls)) s s2"
    using changes_values_trans [OF s1(3) s2(3)] by (simp_all only:)
  moreover have "apply_calls env n (c # calls) s = Some s2" using s1(1) s2(1) by simp
  ultimately show ?case by blast
qed

lemma modify_other_fields:
  assumes "layered env l s" "n < length (packs s)" "pack_values (f (packs s ! n)) = pack_values (packs s ! n)"
    "nonDefaultSet (f (packs s ! n)) = nonDefaultSet (packs s ! n)"
  shows "modify_pack n f s = Some (s\<lparr>packs := (packs s)[n := f (packs s ! n)]\<rparr>)" "layered env l (s\<lparr>packs := (packs s)[n := f (packs s ! n)]\<rparr>)"
proof -
  show "modify_pack n f s = Some (s\<lparr>packs := (packs s)[n := f (packs s ! n)]\<rparr>)" using assms(2) by (simp add: modify_pack_def)
  show "layered env l (s\<lparr>packs := (packs s)[n := f (packs s ! n)]\<rparr>)"
    by (rule layered_cong [OF assms(1)]) (simp_all add: map_update list_update_same_conv assms)
qed

lemma layered_fire: "layered env l (fire e s) = layered env l s"
  by (simp add: layered_def fire_def)

lemma stable_part_version: "stable_part p = stable_part q \<Longrightarrow> pack_version p = pack_version q"
  by (cases p; cases q) (simp add: stable_part_def)

lemma difference_layered:
  assumes "keys_ok env" "layered env l s" "n < length (packs s)"
    and "LanguageIdOrDefault (pack_id (packs s ! n)) = diff_lang_code d" "diff_from_version d \<le> pack_version (packs s ! n)"
    and "n = 0 \<Longrightarrow> list_all (plain_in_base env l (tl (packs s))) (concat (map HandleString (diff_strings d)))"
  shows "\<exists>s'. applyDifferenceToMe env n d s = Some s'
    \<and> layered env (l(n := fold (parse_call env) (concat (map HandleString (diff_strings d))) (l n))) s'
    \<and> length (packs s') = length (packs s) \<and> pack_version (packs s' ! n) = diff_version d
    \<and> nonDefaultValues (packs s' ! n) = fold store_call (concat (map HandleString (diff_strings d))) (nonDefaultValues (packs s ! n))
    \<and> lang_events s' = lang_events s @ [Updated (n - 1)]"
proof -
  let ?calls = "concat (map HandleString (diff_strings d))"
  let ?f = "\<lambda>p. p\<lparr>pack_version := diff_version d\<rparr>"
  let ?s1 = "s\<lparr>packs := (packs s)[n := ?f (packs s ! n)]\<rparr>"
  have s1: "modify_pack n ?f s = Some ?s1" "layered env l ?s1" using modify_other_fields [OF assms(2,3), of ?f] by simp_all
  moreover have "n < length (packs ?s1)" "n = 0 \<Longrightarrow> tl (packs ?s1) = tl (packs s)" using assms(3) by (simp_all add: drop_tl)
  ultimately obtain s2 where s2: "apply_calls env n ?calls ?s1 = Some s2" "layered env (l(n := fold (parse_call env) ?calls (l n))) s2"
    "changes_values n (fold store_call ?calls) ?s1 s2"
    using apply_calls_layered [OF assms(1), of l ?s1 n ?calls] assms(6) by auto
  have "applyDifferenceToMe env n d s = Some (fire (Updated (n - 1)) s2)"
    using s1(1) s2(1) assms(3-5) by (cases n) (simp_all add: applyDifferenceToMe_def pack_at_def)
  moreover have "stable_part (packs s2 ! n) = stable_part (?f (packs s ! n))" using s2(3) assms(3) by (simp add: changes_values_def)
  then have "pack_version (packs s2 ! n) = diff_version d" by (rule stable_part_version [THEN trans]) simp
  ultimately show ?thesis
    using s2(2,3) assms(3) by (simp add: layered_fire changes_values_def) (simp add: fire_def)
qed

section \<open>Languages\<close>

lemma updatePluralRules_ok:
  assumes "n < length (packs s)"
  shows "\<exists>pl. updatePluralRules env n s =
      Some (s\<lparr>packs := (packs s)[n := (packs s ! n)\<lparr>pluralId := pl\<rparr>], app_ChoosePlural := UpdatePluralRules (map unit_char pl)\<rparr>)
    \<and> (pluralId (packs s ! n) \<noteq> [] \<longrightarrow> pl = pluralId (packs s ! n))"
  using assms by (auto simp: updatePluralRules_def modify_pack_def pack_at_def)

lemma sticker_ok:
  assumes "n < length (packs s)"
  shows "\<exists>c. updateChoosingStickerReplacement env n s = Some (s\<lparr>packs := (packs s)[n := (packs s ! n)\<lparr>choosingStickerReplacement := c\<rparr>]\<rparr>)"
proof -
  have "packs s \<noteq> []" using assms by auto
  then show ?thesis using assms by (simp add: updateChoosingStickerReplacement_def pack_at_def modify_pack_def Let_def) blast
qed

lemma reset_after_base:
  assumes "setBaseId env n (language_baseId data) (computed_plural data) s = Some s1" "n < length (packs s1)"
  shows "\<exists>c s'. reset env n data s = Some s'
    \<and> packs s' = (packs s1)[n := (reset_pack env data (computed_plural data) (packs s1 ! n))\<lparr>choosingStickerReplacement := c\<rparr>]"
proof -
  let ?s2 = "s1\<lparr>packs := (packs s1)[n := reset_pack env data (computed_plural data) (packs s1 ! n)]\<rparr>"
  obtain c where "updateChoosingStickerReplacement env n ?s2 = Some (?s2\<lparr>packs := (packs ?s2)[n := (packs ?s2 ! n)\<lparr>choosingStickerReplacement := c\<rparr>]\<rparr>)"
    using sticker_ok [of n ?s2 env] assms(2) by auto
  then show ?thesis
    using assms by (auto simp: reset.simps modify_pack_def fire_def)
qed

lemma switch_after_base:
  assumes "setBaseId env n (language_baseId data) (computed_plural data) s = Some s1" "n < length (packs s1)"
    and "length (nonDefaultSet (packs s1 ! n)) = keys_count env"
  shows "\<exists>p s'. switchToId env n data s = Some s' \<and> packs s' = (packs s1)[n := p] \<and> cleared env data p
    \<and> app_ChoosePlural s' = UpdatePluralRules (map unit_char (pluralId p)) \<and> (computed_plural data \<noteq> [] \<longrightarrow> pluralId p = computed_plural data)
    \<and> (\<not> is_test_id (language_id data) \<longrightarrow> pack_values p = map (GetOriginalValue env) [0..<length (pack_values (packs s1 ! n))])"
proof -
  obtain c s2 where s2: "reset env n data s = Some s2"
    "packs s2 = (packs s1)[n := (reset_pack env data (computed_plural data) (packs s1 ! n))\<lparr>choosingStickerReplacement := c\<rparr>]"
    using reset_after_base [OF assms(1,2)] by blast
  let ?p = "(reset_pack env data (computed_plural data) (packs s1 ! n))\<lparr>choosingStickerReplacement := c\<rparr>"
  have "LanguageIdOrDefault i = latin ''#TEST_X'' \<longleftrightarrow> i = latin ''#TEST_X''" "LanguageIdOrDefault i = latin ''#TEST_0'' \<longleftrightarrow> i = latin ''#TEST_0''" for i
    by (auto simp: LanguageIdOrDefault_def DefaultLanguageId_def kDefaultLanguage_def latin_def)
  then obtain q s3 where s3: "(if pack_id ?p = latin ''#TEST_X'' \<or> pack_id ?p = latin ''#TEST_0'' then
        do { s \<leftarrow> modify_pack n (test_values env) s2; Some (if n = 0 then fire (Updated n) s else s) } else Some s2) = Some s3"
    "packs s3 = (packs s1)[n := q]" "q = (if is_test_id (language_id data) then test_values env ?p else ?p)"
    using assms(2) s2(2)
    by (cases "is_test_id (language_id data)") (auto simp: is_test_id_def reset_pack_def modify_pack_def fire_def)
  obtain pl where pl: "updatePluralRules env n s3 =
      Some (s3\<lparr>packs := (packs s3)[n := (packs s3 ! n)\<lparr>pluralId := pl\<rparr>], app_ChoosePlural := UpdatePluralRules (map unit_char pl)\<rparr>)"
    "pluralId (packs s3 ! n) \<noteq> [] \<longrightarrow> pl = pluralId (packs s3 ! n)"
    using updatePluralRules_ok [of n s3 env] s3(2) assms(2) by auto
  have "switchToId env n data s = updatePluralRules env n s3"
    using s2 s3(1) assms(2) by (simp add: switchToId.simps pack_at_def)
  moreover have "cleared env data (q\<lparr>pluralId := pl\<rparr>)"
    using assms(3) by (simp add: s3(3) cleared_def reset_pack_def test_values_def map_replicate_const)
  ultimately show ?thesis
    using pl s3(2,3) assms(2) by (auto simp: reset_pack_def test_values_def)
qed

lemma base_switched:
  assumes "layered env l s"
  shows "\<exists>s1. setBaseId env 0 (language_baseId data) (computed_plural data) s = Some s1 \<and> packs s1 ! 0 = packs s ! 0
    \<and> (if language_baseId data = [] then length (packs s1) = 1 else length (packs s1) = 2 \<and> cleared env (base_language data) (packs s1 ! 1))"
proof (cases "language_baseId data = []")
  case True
  then show ?thesis using assms by (auto simp: setBaseId.simps layered_def)
next
  case False
  define s0 where "s0 = (if 1 < length (packs s) then s else s\<lparr>packs := packs s @ [new_base_Instance env]\<rparr>)"
  have s0: "length (packs s0) = 2" "packs s0 ! 0 = packs s ! 0" "length (nonDefaultSet (packs s0 ! 1)) = keys_count env"
    using assms by (auto simp: s0_def layered_def nth_append new_base_Instance_def new_pack_def)
  have "setBaseId env 1 (language_baseId (base_language data)) (computed_plural (base_language data)) s0 = Some s0"
    using s0(1) by (simp add: setBaseId.simps base_language_def)
  then obtain p s1 where "switchToId env 1 (base_language data) s0 = Some s1" "packs s1 = (packs s0)[1 := p]" "cleared env (base_language data) p"
    using switch_after_base [of env 1 "base_language data" s0 s0] s0 by auto
  then show ?thesis
    using False s0 by (auto simp: setBaseId.simps s0_def base_language_def Let_def)
qed

lemma switch_layered:
  assumes "layered env l s" "\<not> is_test_id (language_id data)"
  shows "\<exists>s'. switchToId env 0 data s = Some s' \<and> layered env (\<lambda>_. Map.empty) s' \<and> cleared env data (packs s' ! 0)
    \<and> (if language_baseId data = [] then length (packs s') = 1 else length (packs s') = 2 \<and> cleared env (base_language data) (packs s' ! 1))
    \<and> app_ChoosePlural s' = UpdatePluralRules (map unit_char (pluralId (packs s' ! 0)))
    \<and> (computed_plural data \<noteq> [] \<longrightarrow> pluralId (packs s' ! 0) = computed_plural data)"
proof -
  obtain s1 where s1: "setBaseId env 0 (language_baseId data) (computed_plural data) s = Some s1" "packs s1 ! 0 = packs s ! 0"
    "if language_baseId data = [] then length (packs s1) = 1 else length (packs s1) = 2 \<and> cleared env (base_language data) (packs s1 ! 1)"
    using base_switched [OF assms(1)] by blast
  have "0 < length (packs s1)" using s1(3) by (auto split: if_splits)
  moreover have "length (nonDefaultSet (packs s1 ! 0)) = keys_count env" using assms(1) s1(2) by (auto simp: layered_def)
  ultimately obtain p s' where s': "switchToId env 0 data s = Some s'" "packs s' = (packs s1)[0 := p]" "cleared env data p"
    "app_ChoosePlural s' = UpdatePluralRules (map unit_char (pluralId p))" "computed_plural data \<noteq> [] \<longrightarrow> pluralId p = computed_plural data"
    "pack_values p = map (GetOriginalValue env) [0..<length (pack_values (packs s1 ! 0))]"
    using switch_after_base [OF s1(1)] assms(2) by blast
  have len: "length (pack_values (packs s1 ! 0)) = keys_count env" using assms(1) s1(2) by (simp add: layered_def)
  have flags: "nonDefaultSet (packs s' ! n) = replicate (keys_count env) False" if "n < length (packs s')" for n
  proof (cases "n = 0")
    case True
    then show ?thesis using s'(2,3) \<open>0 < length (packs s1)\<close> by (simp add: cleared_def)
  next
    case False
    then have "n = 1" "language_baseId data \<noteq> []" using that s'(2) s1(3) by (auto split: if_splits)
    then show ?thesis using s'(2) s1(3) by (simp add: cleared_def)
  qed
  have "length (packs s') = 1 \<or> length (packs s') = 2" using s'(2) s1(3) by (simp split: if_splits)
  moreover have "packs s' ! 0 = p" using s'(2) \<open>0 < length (packs s1)\<close> by simp
  ultimately have "layered env (\<lambda>_. Map.empty) s'"
    using flags s'(6) len by (simp add: layered_def shown_def)
  then show ?thesis using s' s1(3) \<open>packs s' ! 0 = p\<close> by auto
qed

section \<open>Properties\<close>

lemmas sample_simps = sample_app_def sample_pack_def sample_env_def new_pack_def no_sticker_def

lemma sample_keys: "keys_ok sample_env"
  by (simp add: keys_ok_def sample_env_def)



text \<open>
  C27. Switching to a language always succeeds and starts afresh: the instance, and a base exactly if
  the language has one, forget all values and versions, every phrase shows the value of the program, and
  the plural rules are those of the plural id, the base or the language, the first one given. The
  two languages for tests, which change the values, are excluded.
\<close>

theorem language_switched:
  assumes "layered env l s" "\<not> is_test_id (language_id data)"
  shows "\<exists>s'. switchToId env 0 data s = Some s' \<and> layered env (\<lambda>_. Map.empty) s' \<and> cleared env data (packs s' ! 0)
    \<and> (if language_baseId data = [] then length (packs s') = 1 else length (packs s') = 2 \<and> cleared env (base_language data) (packs s' ! 1))
    \<and> app_ChoosePlural s' = UpdatePluralRules (map unit_char (pluralId (packs s' ! 0)))
    \<and> (computed_plural data \<noteq> [] \<longrightarrow> pluralId (packs s' ! 0) = computed_plural data)"
  using switch_layered [OF assms] .

theorem language_switched_witness:
  "\<exists>s'. switchToId sample_env 0 \<lparr>language_id = latin ''sc'', language_pluralId = [], language_baseId = latin ''it'',
        language_name = [], language_nativeName = []\<rparr> (sample_app [new_Instance sample_env]) = Some s'
    \<and> length (packs s') = 2 \<and> pluralId (packs s' ! 0) = latin ''it''"
  (is "\<exists>s'. switchToId ?env 0 ?data ?s = Some s' \<and> _ s'")
proof -
  have "layered ?env (\<lambda>_. Map.empty) ?s"
    by (auto simp: layered_def sample_simps new_Instance_def PrepareDefaultValues_def less_Suc_eq numeral_2_eq_2 shown_def)
  moreover have "\<not> is_test_id (language_id ?data)" by (simp add: is_test_id_def latin_def)
  ultimately show ?thesis using language_switched [of ?env _ ?s ?data] by (auto simp: computed_plural_def latin_def)
qed

text \<open>
  A finding: deleting a string shows the bytes of the base's value and not the compiled phrase,
  so that its tags stand there with their braces and are not replaced any more.
\<close>

lemma deleted_string_shows_braces:
  "map_option (\<lambda>s. getValue (packs s ! 0) 0) (resetValue sample_env 0 ''lng_a''
      (sample_app [sample_pack (latin ''sc'') [latin ''E'', latin ''B''] [True, False] [(''lng_a'', ''E'')],
                   sample_pack (latin ''it'') [] [True, False] [(''lng_a'', ''C{count}'')]]))
   = Some (Some (latin ''C{count}''))"
  "ParseKeyValue (env_tables sample_env) ''lng_a'' ''C{count}'' = Some (0, [0x43, 0x10, 0x20, 0x23, 0x10])"
  by (simp_all add: resetValue_def modify_pack_def sample_simps set_flag_def set_value_def pack_at_def flat_erase_def sticker_changed_def
      latin_def getValue_def ParseKeyValue_def readTag_def isTagChar_def less_eq_char_def append_run_def tag_replacer_def kTextCommandLangTag_def)

end
