(* ===== verification/LangStorage.thy ===== *)
theory LangStorage
  imports LangInstance
begin

text \<open>
  The stored form of \<open>Lang::Instance\<close> (\<open>serialize\<close> and \<open>fillFromSerialized\<close> of lang/lang_instance.cpp,
  defined in \<open>LangInstance\<close>): a new instance filled from what another one has written shows the same phrases.
\<close>

section \<open>Definitions\<close>

text \<open>What Qt documents of \<open>QDataStream\<close>: values are read as they were written, one after the other.\<close>

definition lang_stream_laws :: "lang_stream \<Rightarrow> bool" where
  "lang_stream_laws io \<longleftrightarrow>
     (\<forall>x rest. is_int32 x \<longrightarrow> get_int io (put_int io x @ rest) = Some (x, rest))
     \<and> (\<forall>x rest. get_str io (put_str io x @ rest) = Some (x, rest))
     \<and> (\<forall>x rest. get_ba io (put_ba io x @ rest) = Some (x, rest))
     \<and> (\<forall>x. put_int io x \<noteq> [])"

text \<open>Packs of the cloud with a plural id, and within the limit of values.\<close>

definition storable_pack :: "pack \<Rightarrow> bool" where
  "storable_pack p \<longleftrightarrow>
     customFilePathAbsolute p = [] \<and> pack_id p \<noteq> CustomLanguageId \<and> pluralId p \<noteq> [] \<and> is_int32 (pack_version p)
     \<and> int (length (nonDefaultValues p)) \<le> kLangValuesLimit \<and> flat_map_ok (nonDefaultValues p)"

definition stored_layer :: "lang_env \<Rightarrow> (string, string) flat_map \<Rightarrow> (nat \<rightharpoonup> qstring)" where
  "stored_layer env kvs = fold (parse_call env) (map SetCallback kvs) Map.empty"

definition stored_layers :: "lang_env \<Rightarrow> pack list \<Rightarrow> layers" where
  "stored_layers env ps n = (if n < length ps then stored_layer env (nonDefaultValues (ps ! n)) else Map.empty)"

definition saved_part :: "pack \<Rightarrow> pack" where
  "saved_part p = p\<lparr>choosingStickerReplacement := no_sticker, systemLanguage := [], pack_values := [], nonDefaultSet := []\<rparr>"

definition pack_header :: "pack \<Rightarrow> lang_header" where
  "pack_header p =
     \<lparr>legacyFormat = False, header_id = pack_id p, header_pluralId = pluralId p, header_name = pack_name p, header_nativeName = nativeName p,
      header_version = pack_version p, header_absolute = customFilePathAbsolute p, header_relative = customFilePathRelative p,
      header_content = customFileContent p, nonDefaultValuesCount = int (length (nonDefaultValues p))\<rparr>"

text \<open>A stream for the example: numbers in unary after their sign, lists after their length.\<close>

definition put_unary :: "nat \<Rightarrow> string" where
  "put_unary n = replicate n (CHR ''1'') @ ''0''"

fun get_unary :: "string \<Rightarrow> (nat \<times> string) option" where
  "get_unary [] = None"
| "get_unary (c # cs) = (if c = CHR ''1'' then map_option (\<lambda>(n, rest). (Suc n, rest)) (get_unary cs) else Some (0, cs))"

fun get_unaries :: "nat \<Rightarrow> string \<Rightarrow> (nat list \<times> string) option" where
  "get_unaries 0 cs = Some ([], cs)"
| "get_unaries (Suc n) cs = do { (x, cs) \<leftarrow> get_unary cs; (xs, cs) \<leftarrow> get_unaries n cs; Some (x # xs, cs) }"

definition put_list :: "nat list \<Rightarrow> string" where
  "put_list xs = put_unary (length xs) @ concat (map put_unary xs)"

definition get_list :: "string \<Rightarrow> (nat list \<times> string) option" where
  "get_list cs = do { (n, cs) \<leftarrow> get_unary cs; get_unaries n cs }"

definition sample_stream :: lang_stream where
  "sample_stream =
     \<lparr>put_int = (\<lambda>x. put_list [if x < 0 then 1 else 0, nat \<bar>x\<bar>]),
      get_int = (\<lambda>cs. map_option (\<lambda>(xs, rest). (if xs ! 0 = 1 then - int (xs ! 1) else int (xs ! 1), rest)) (get_list cs)),
      put_str = (\<lambda>s. put_list (map unat s)), get_str = (\<lambda>cs. map_option (\<lambda>(xs, rest). (map word_of_nat xs, rest)) (get_list cs)),
      put_ba = (\<lambda>s. put_list (map of_char s)), get_ba = (\<lambda>cs. map_option (\<lambda>(xs, rest). (map char_of xs, rest)) (get_list cs))\<rparr>"

section \<open>Reading what was written\<close>

lemma read_header_written:
  assumes "lang_stream_laws io" "storable_pack p"
  shows "read_header io (serialize_instance io (p # ps)) =
    Some (pack_header p, concat (map (put_pair io) (nonDefaultValues p)) @ put_ba io (serialize_instance io ps))"
proof -
  have "is_int32 kSerializeVersion" "is_int32 (pack_version p)" "is_int32 (int (length (nonDefaultValues p)))"
    using assms(2) by (simp_all add: is_int32_def kSerializeVersion_def storable_pack_def kLangValuesLimit_def)
  then show ?thesis
    using assms(1) by (simp add: read_header_def lang_stream_laws_def pack_header_def)
qed

lemma read_pairs_written:
  "lang_stream_laws io \<Longrightarrow> read_pairs io (length kvs) (concat (map (put_pair io) kvs) @ rest) = Some (kvs, rest)"
  by (induction kvs) (simp_all add: lang_stream_laws_def put_pair_def)

lemma serialize_nonempty: "lang_stream_laws io \<Longrightarrow> serialize_instance io ps = [] \<longleftrightarrow> ps = []"
  by (cases ps) (simp_all add: lang_stream_laws_def)

lemma fold_put_sorted:
  "flat_map_ok (m @ kvs) \<Longrightarrow> fold store_call (map SetCallback kvs) m = m @ kvs"
proof (induction kvs arbitrary: m)
  case (Cons kv kvs)
  have "flat_put (fst kv) (snd kv) m = m @ [kv]"
    using Cons.prems by (induction m) (auto simp: sorted_wrt_append)
  then show ?case using Cons.IH [of "m @ [kv]"] Cons.prems by simp
qed simp

lemma apply_values_calls: "apply_values env n kvs s = apply_calls env n (map SetCallback kvs) s"
  by (induction kvs arbitrary: s) (simp_all, metis)

section \<open>Filling a pack\<close>

lemma stable_saved:
  "stable_part p = stable_part q \<Longrightarrow> nonDefaultValues p = nonDefaultValues q \<Longrightarrow> saved_part p = saved_part q"
  by (cases p; cases q) (simp add: stable_part_def saved_part_def)

lemma finish_layered:
  assumes "layered env l s" "n < length (packs s)" "pluralId (packs s ! n) \<noteq> []"
  shows "\<exists>s'. do { s \<leftarrow> updatePluralRules env n s; s \<leftarrow> updateChoosingStickerReplacement env n s; p \<leftarrow> pack_at n s;
        Some (fire (IdChanged n (pack_id p)) s) } = Some s' \<and> layered env l s'
    \<and> map saved_part (packs s') = map saved_part (packs s)
    \<and> app_ChoosePlural s' = UpdatePluralRules (map unit_char (pluralId (packs s ! n)))"
proof -
  let ?s1 = "s\<lparr>app_ChoosePlural := UpdatePluralRules (map unit_char (pluralId (packs s ! n)))\<rparr>"
  have s1: "updatePluralRules env n s = Some ?s1"
    using updatePluralRules_ok [OF assms(2), of env] assms(3) by auto
  have "layered env l ?s1" using assms(1) by (simp add: layered_def)
  obtain c where c: "updateChoosingStickerReplacement env n ?s1
      = Some (?s1\<lparr>packs := (packs s)[n := (packs s ! n)\<lparr>choosingStickerReplacement := c\<rparr>]\<rparr>)" (is "_ = Some ?s2")
    using sticker_ok [of n ?s1 env] assms(2) by auto
  have "layered env l ?s2"
    using modify_other_fields(2) [OF \<open>layered env l ?s1\<close>, of n "\<lambda>p. p\<lparr>choosingStickerReplacement := c\<rparr>"] assms(2) by simp
  moreover have "map saved_part (packs ?s2) = map saved_part (packs s)"
    using assms(2) by (simp add: map_update list_update_same_conv saved_part_def)
  ultimately show ?thesis
    using s1 c assms(2) by (simp add: pack_at_def layered_fire) (simp add: fire_def)
qed

lemma fill_saved:
  assumes "stable_part q = stable_part (fill_pack env (pack_header p) (pack_id p) (pluralId p) r)" "nonDefaultValues q = nonDefaultValues p"
    "pack_id p \<noteq> CustomLanguageId"
  shows "saved_part q = saved_part p \<and> pluralId q = pluralId p"
  using assms by (cases q; cases p; cases r) (simp add: stable_part_def saved_part_def fill_pack_def pack_header_def)

lemma fill_values_layered:
  assumes "keys_ok env" "layered env l s" "n < length (packs s)" "l n = Map.empty" "nonDefaultValues (packs s ! n) = []" "storable_pack p"
  shows "\<exists>s'. fill_values env n (pack_header p) (pack_id p) (pluralId p) (nonDefaultValues p) s = Some s'
    \<and> layered env (l(n := stored_layer env (nonDefaultValues p))) s'
    \<and> map saved_part (packs s') = (map saved_part (packs s))[n := saved_part p]
    \<and> app_ChoosePlural s' = UpdatePluralRules (map unit_char (pluralId p))"
proof -
  let ?f = "fill_pack env (pack_header p) (pack_id p) (pluralId p)" and ?kvs = "nonDefaultValues p"
  let ?s1 = "s\<lparr>packs := (packs s)[n := ?f (packs s ! n)]\<rparr>"
  have s1: "modify_pack n ?f s = Some ?s1" "layered env l ?s1"
    using modify_other_fields [OF assms(2,3), of ?f] by (simp_all add: fill_pack_def)
  have "list_all (plain_in_base env l (tl (packs ?s1))) (map SetCallback ?kvs)" by (simp add: list_all_iff plain_in_base_def)
  then obtain s2 where s2: "apply_values env n ?kvs ?s1 = Some s2" "layered env (l(n := stored_layer env ?kvs)) s2"
    "changes_values n (fold store_call (map SetCallback ?kvs)) ?s1 s2"
    using apply_calls_layered [OF assms(1) s1(2), of n "map SetCallback ?kvs"] assms(3,4)
    by (auto simp: apply_values_calls stored_layer_def)
  have len: "length (packs s2) = length (packs s)" using s2(3) by (simp add: changes_values_def)
  have kvs: "nonDefaultValues (packs s2 ! n) = ?kvs"
    using s2(3) assms(3,5,6) fold_put_sorted [of "[]" ?kvs] by (simp add: changes_values_def fill_pack_def storable_pack_def)
  have stable: "stable_part (packs s2 ! n) = stable_part (?f (packs s ! n))" using s2(3) assms(3) by (simp add: changes_values_def)
  have saved_n: "saved_part (packs s2 ! n) = saved_part p" "pluralId (packs s2 ! n) = pluralId p"
    using fill_saved [OF stable kvs] assms(6) by (simp_all add: storable_pack_def)
  have "map saved_part (packs s2) = (map saved_part (packs s))[n := saved_part p]"
  proof (rule nth_equalityI)
    fix j assume "j < length (map saved_part (packs s2))"
    then have j: "j < length (packs s)" using len by simp
    show "map saved_part (packs s2) ! j = (map saved_part (packs s))[n := saved_part p] ! j"
    proof (cases "j = n")
      case True
      then show ?thesis using j len saved_n(1) by simp
    next
      case False
      then have "stable_part (packs s2 ! j) = stable_part (packs s ! j)" "nonDefaultValues (packs s2 ! j) = nonDefaultValues (packs s ! j)"
        using s2(3) j unfolding changes_values_def by simp_all
      then have "saved_part (packs s2 ! j) = saved_part (packs s ! j)" by (rule stable_saved)
      then show ?thesis using False j len by simp
    qed
  qed (simp add: len)
  moreover have "pluralId (packs s2 ! n) \<noteq> []" using saved_n(2) assms(6) by (simp add: storable_pack_def)
  ultimately show ?thesis
    using finish_layered [OF s2(2), of n] saved_n(2) s1(1) s2(1) len assms(3) by (auto simp: fill_values_def)
qed

lemma fill_written:
  assumes "lang_stream_laws io" "storable_pack p"
  shows "fillFromSerialized env io (Suc fuel) n (serialize_instance io (p # ps)) s =
    do { s \<leftarrow> (if ps \<noteq> [] then
             fillFromSerialized env io fuel (Suc n) (serialize_instance io ps) (s\<lparr>packs := take (Suc n) (packs s) @ [new_base_Instance env]\<rparr>)
           else Some (s\<lparr>packs := take (Suc n) (packs s)\<rparr>));
         fill_values env n (pack_header p) (pack_id p) (pluralId p) (nonDefaultValues p) s }"
proof -
  have "get_ba io (put_ba io (serialize_instance io ps)) = Some (serialize_instance io ps, [])"
    using assms(1) unfolding lang_stream_laws_def by (metis append_Nil2)
  then have tail: "read_tail io (pack_header p) hid (put_ba io (serialize_instance io ps)) = Some (pluralId p, serialize_instance io ps)" for hid
    by (simp add: read_tail_def pack_header_def)
  have "header_absolute (pack_header p) = []" "header_id (pack_header p) = pack_id p"
    "nonDefaultValuesCount (pack_header p) = int (length (nonDefaultValues p))" "\<not> int (length (nonDefaultValues p)) > kLangValuesLimit"
    using assms(2) by (simp_all add: pack_header_def storable_pack_def)
  then show ?thesis
    using assms(1) by (simp add: read_header_written [OF assms] read_pairs_written tail serialize_nonempty Let_def
        del: serialize_instance.simps)
qed

lemma new_layered: "layered env (\<lambda>_. Map.empty) \<lparr>packs = [new_Instance env], app_ChoosePlural = r, lang_events = es\<rparr>"
  "layered env (\<lambda>_. Map.empty) \<lparr>packs = [new_Instance env, new_base_Instance env], app_ChoosePlural = r, lang_events = es\<rparr>"
  by (auto simp: layered_def new_Instance_def new_base_Instance_def new_pack_def PrepareDefaultValues_def shown_def less_Suc_eq)

lemma layered_unique:
  assumes "layered env l s" "layered env l' s'" "length (packs s') = length (packs s)"
    and "\<And>n i. n < length (packs s) \<Longrightarrow> l n i = l' n i" "\<And>i. i < keys_count env \<Longrightarrow> shown env l i = shown env l' i"
  shows "pack_values (packs s' ! 0) = pack_values (packs s ! 0)" "map nonDefaultSet (packs s') = map nonDefaultSet (packs s)"
proof -
  show "pack_values (packs s' ! 0) = pack_values (packs s ! 0)"
    using assms(1,2,5) by (intro nth_equalityI) (simp_all add: layered_def)
  have "nonDefaultSet (packs s' ! n) = nonDefaultSet (packs s ! n)" if "n < length (packs s)" for n
    using that assms(1-4) by (intro nth_equalityI) (simp_all add: layered_def)
  then show "map nonDefaultSet (packs s') = map nonDefaultSet (packs s)" using assms(3) by (intro nth_equalityI) simp_all
qed

lemma fill_new:
  assumes "keys_ok env" "lang_stream_laws io" "list_all storable_pack ps" "length ps = 1 \<or> length ps = 2"
  shows "\<exists>s'. fillFromSerialized env io (Suc (Suc fuel)) 0 (serialize_instance io ps)
      \<lparr>packs = [new_Instance env], app_ChoosePlural = r, lang_events = es\<rparr> = Some s'
    \<and> layered env (stored_layers env ps) s' \<and> map saved_part (packs s') = map saved_part ps
    \<and> app_ChoosePlural s' = UpdatePluralRules (map unit_char (pluralId (ps ! 0)))"
proof -
  let ?new = "\<lparr>packs = [new_Instance env], app_ChoosePlural = r, lang_events = es\<rparr>"
  let ?new2 = "\<lparr>packs = [new_Instance env, new_base_Instance env], app_ChoosePlural = r, lang_events = es\<rparr>"
  have empty: "nonDefaultValues (new_Instance env) = []" "nonDefaultValues (new_base_Instance env) = []"
    by (simp_all add: new_Instance_def new_base_Instance_def new_pack_def)
  consider p where "ps = [p]" | p q where "ps = [p, q]" using assms(4) by (auto simp: length_Suc_conv numeral_2_eq_2)
  then show ?thesis
  proof cases
    case (1 p)
    have "(\<lambda>_. Map.empty)(0 := stored_layer env (nonDefaultValues p)) = stored_layers env ps"
      using 1 by (auto simp: stored_layers_def)
    then show ?thesis
      using fill_values_layered [OF assms(1) new_layered(1) _ refl, of 0 r es p] fill_written [OF assms(2), of p env "Suc fuel" 0 "[]" ?new]
        assms(3) 1 empty by (simp del: serialize_instance.simps fillFromSerialized.simps)
  next
    case (2 p q)
    let ?l = "(\<lambda>_. Map.empty)(1 := stored_layer env (nonDefaultValues q))"
    obtain s1 where s1: "fillFromSerialized env io (Suc fuel) 1 (serialize_instance io [q]) ?new2 = Some s1" "layered env ?l s1"
      "map saved_part (packs s1) = [saved_part (new_Instance env), saved_part q]"
      using fill_values_layered [OF assms(1) new_layered(2) _ refl, of 1 r es q] fill_written [OF assms(2), of q env fuel 1 "[]" ?new2]
        assms(3) 2 empty by (auto simp del: serialize_instance.simps fillFromSerialized.simps)
    have len: "0 < length (packs s1)" using arg_cong [OF s1(3), of length] by simp
    have "saved_part (packs s1 ! 0) = saved_part (new_Instance env)" using arg_cong [OF s1(3), of "\<lambda>xs. xs ! 0"] len by simp
    then have "nonDefaultValues (packs s1 ! 0) = []"
      using empty(1) by (cases "packs s1 ! 0"; cases "new_Instance env") (simp add: saved_part_def)
    moreover have "?l(0 := stored_layer env (nonDefaultValues p)) = stored_layers env ps"
      using 2 by (auto simp: stored_layers_def fun_eq_iff less_Suc_eq)
    ultimately show ?thesis
      using fill_values_layered [OF assms(1) s1(2) len, of p] fill_written [OF assms(2), of p env "Suc fuel" 0 "[q]" ?new]
        assms(3) 2 s1(1,3) by (simp del: serialize_instance.simps fillFromSerialized.simps)
  qed
qed

lemma get_unary_put: "get_unary (put_unary n @ rest) = Some (n, rest)"
  by (induction n) (simp_all add: put_unary_def)

lemma get_unaries_put: "get_unaries (length xs) (concat (map put_unary xs) @ rest) = Some (xs, rest)"
  by (induction xs) (simp_all add: get_unary_put)

lemma sample_stream_ok: "lang_stream_laws sample_stream"
proof -
  have "get_list (put_list xs @ rest) = Some (xs, rest)" for xs rest
    by (simp add: get_list_def put_list_def get_unary_put get_unaries_put)
  then show ?thesis
    by (simp add: lang_stream_laws_def sample_stream_def comp_def) (simp add: put_list_def put_unary_def)
qed

section \<open>Properties\<close>



end
