(* ===== verification/PeerIds.thy ===== *)
theory PeerIds
  imports Prelude
begin

text \<open>
  Identifiers of users, chats and channels (data/data_peer_id.h and .cpp): a 64 bit word with the
  number in the low 48 bits and the kind in the 8 bits above, the highest of which is kept free; their form in
  the API and both serialized forms. A \<open>ChatIdType\<close> is its kind and its number.
\<close>

unbundle bit_operations_syntax

section \<open>Definitions\<close>

type_synonym BareId = "64 word"

datatype chat_type = UserId | ChatId | ChannelId | FakeChatId

primrec kShift :: "chat_type \<Rightarrow> BareId" where
  "kShift UserId = 0"
| "kShift ChatId = 1"
| "kShift ChannelId = 2"
| "kShift FakeChatId = 0x7F"

definition kReservedBit :: BareId where "kReservedBit = 0x80"

definition kChatTypeMask :: BareId where "kChatTypeMask = 0xFFFFFFFFFFFF"

type_synonym PeerId = BareId

definition peer_id :: "chat_type \<Rightarrow> BareId \<Rightarrow> PeerId" where
  "peer_id t bare = bare OR push_bit 48 (kShift t)"

definition peer_is :: "chat_type \<Rightarrow> PeerId \<Rightarrow> bool" where
  "peer_is t v \<longleftrightarrow> drop_bit 48 v AND 0xFF = kShift t"

definition peer_to :: "chat_type \<Rightarrow> PeerId \<Rightarrow> BareId" where
  "peer_to t v = (if peer_is t v then v AND kChatTypeMask else 0)"

definition peerIsUser :: "PeerId \<Rightarrow> bool" where "peerIsUser = peer_is UserId"

definition peerIsChat :: "PeerId \<Rightarrow> bool" where "peerIsChat = peer_is ChatId"

definition peerIsChannel :: "PeerId \<Rightarrow> bool" where "peerIsChannel = peer_is ChannelId"

definition peerFromUser :: "BareId \<Rightarrow> PeerId" where "peerFromUser = peer_id UserId"

definition peerFromChat :: "BareId \<Rightarrow> PeerId" where "peerFromChat = peer_id ChatId"

definition peerFromChannel :: "BareId \<Rightarrow> PeerId" where "peerFromChannel = peer_id ChannelId"

definition peerToUser :: "PeerId \<Rightarrow> BareId" where "peerToUser = peer_to UserId"

definition peerToChat :: "PeerId \<Rightarrow> BareId" where "peerToChat = peer_to ChatId"

definition peerToChannel :: "PeerId \<Rightarrow> BareId" where "peerToChannel = peer_to ChannelId"

definition peerToBareMTPInt :: "PeerId \<Rightarrow> BareId" where
  "peerToBareMTPInt v = v AND kChatTypeMask"

datatype MTPPeer = MTPpeerUser BareId | MTPpeerChat BareId | MTPpeerChannel BareId

fun peerFromMTP :: "MTPPeer \<Rightarrow> PeerId" where
  "peerFromMTP (MTPpeerUser user_id) = peerFromUser user_id"
| "peerFromMTP (MTPpeerChat chat_id) = peerFromChat chat_id"
| "peerFromMTP (MTPpeerChannel channel_id) = peerFromChannel channel_id"

definition peerToMTP :: "PeerId \<Rightarrow> MTPPeer" where
  "peerToMTP v =
     (if peerIsUser v then MTPpeerUser (peerToBareMTPInt v)
      else if peerIsChat v then MTPpeerChat (peerToBareMTPInt v)
      else if peerIsChannel v then MTPpeerChannel (peerToBareMTPInt v)
      else MTPpeerUser 0)"

definition PeerIdMask :: BareId where "PeerIdMask = 0xFFFFFFFF"

definition PeerIdTypeMask :: BareId where "PeerIdTypeMask = 0xF00000000"

primrec legacy_shift :: "chat_type \<Rightarrow> BareId" where
  "legacy_shift UserId = 0x000000000"
| "legacy_shift ChatId = 0x100000000"
| "legacy_shift ChannelId = 0x200000000"
| "legacy_shift FakeChatId = 0xF00000000"

definition DeserializePeerId :: "64 word \<Rightarrow> PeerId" where
  "DeserializePeerId serialized =
     (let flag = push_bit 48 kReservedBit;
          legacy = (serialized AND flag = 0)
      in if \<not> legacy then serialized AND NOT flag
         else if serialized AND PeerIdTypeMask = legacy_shift UserId then peerFromUser (serialized AND PeerIdMask)
         else if serialized AND PeerIdTypeMask = legacy_shift ChatId then peerFromChat (serialized AND PeerIdMask)
         else if serialized AND PeerIdTypeMask = legacy_shift ChannelId then peerFromChannel (serialized AND PeerIdMask)
         else if serialized AND PeerIdTypeMask = legacy_shift FakeChatId then peer_id FakeChatId (serialized AND PeerIdMask)
         else 0)"

text \<open>\<open>Expects\<close> fails for an id with the reserved bit.\<close>

definition SerializePeerId :: "PeerId \<Rightarrow> 64 word option" where
  "SerializePeerId v = (if v AND push_bit 48 kReservedBit = 0 then Some (v OR push_bit 48 kReservedBit) else None)"

section \<open>Bits\<close>

lemma kChatTypeMask_mask: "kChatTypeMask = mask 48"
  by (simp add: kChatTypeMask_def mask_eq_exp_minus_1)

lemma flag_bit: "push_bit 48 kReservedBit = (push_bit 55 1 :: 64 word)"
  by (simp add: kReservedBit_def push_bit_eq_mult)

lemma flag_clear: "v AND push_bit 55 1 = (0 :: 64 word) \<longleftrightarrow> \<not> bit v 55"
  by (simp add: bit_iff_and_push_bit_not_eq_0)

lemma flag_set_clear: "\<not> bit v n \<Longrightarrow> (v OR push_bit n 1) AND NOT (push_bit n 1) = v" for v :: "64 word"
  by (rule bit_word_eqI) (auto simp: bit_simps)

lemma flag_set: "n < 64 \<Longrightarrow> bit (v OR push_bit n 1) n" for v :: "64 word"
  by (simp add: bit_simps)

lemma small_bits:
  fixes b :: "64 word"
  assumes "b < 2 ^ n" "bit b m"
  shows "m < n"
proof -
  have "take_bit n b = b" using assms(1) by (simp add: take_bit_eq_mask less_mask_eq)
  then show ?thesis using assms(2) by (metis bit_take_bit_iff)
qed

lemma small_bits48: "b < 0x1000000000000 \<Longrightarrow> bit b m \<Longrightarrow> m < 48" for b :: "64 word"
  using small_bits [of b 48 m] by simp

lemma kShift_bits: "drop_bit 8 (kShift t) = 0" "kShift t AND 0xFF = kShift t" "\<not> bit (kShift t) 7"
  by (cases t; simp)+

lemma peer_id_number: "b < 2 ^ 48 \<Longrightarrow> peer_id t b AND kChatTypeMask = b"
  unfolding kChatTypeMask_mask peer_id_def
  by (rule bit_word_eqI) (auto simp: bit_simps dest: small_bits48)

lemma peer_id_type: "b < 2 ^ 48 \<Longrightarrow> drop_bit 48 (peer_id t b) AND 0xFF = kShift t"
proof -
  assume "b < 2 ^ 48"
  then have "drop_bit 48 b = 0" by (intro bit_word_eqI) (auto simp: bit_simps dest: small_bits48)
  moreover have "drop_bit 48 (push_bit 48 (kShift t)) = kShift t" by (cases t) simp_all
  ultimately show ?thesis by (simp add: peer_id_def kShift_bits(2))
qed

lemma kShift_inj: "kShift t = kShift t' \<longleftrightarrow> t = t'"
  by (cases t; cases t') simp_all

lemma peer_id_no_flag: "b < 2 ^ 48 \<Longrightarrow> \<not> bit (peer_id t b) 55"
  using kShift_bits(3) by (auto simp: peer_id_def bit_simps dest: small_bits48)

lemma legacy_type:
  assumes "b < 2 ^ 32"
  shows "(b OR legacy_shift t) AND PeerIdTypeMask = legacy_shift t" "(b OR legacy_shift t) AND PeerIdMask = b" "\<not> bit (b OR legacy_shift t) 55"
proof -
  have b: "bit b m \<Longrightarrow> m < 32" for m using small_bits [OF assms] .
  have mask: "PeerIdMask = mask 32" by (simp add: PeerIdMask_def mask_eq_exp_minus_1)
  have typemask: "PeerIdTypeMask = push_bit 32 (mask 4)" by (simp add: PeerIdTypeMask_def mask_eq_exp_minus_1 push_bit_eq_mult)
  have zero: "b AND PeerIdTypeMask = 0" unfolding typemask by (rule bit_word_eqI) (auto simp: bit_simps dest: b)
  have same: "b AND PeerIdMask = b" unfolding mask by (rule bit_word_eqI) (auto simp: bit_simps dest: b)
  show "(b OR legacy_shift t) AND PeerIdTypeMask = legacy_shift t"
    using zero by (cases t) (simp_all add: and.commute [of "b OR _"] bit.conj_disj_distrib and.commute [of _ b] PeerIdTypeMask_def)
  show "(b OR legacy_shift t) AND PeerIdMask = b"
    using same by (cases t) (simp_all add: and.commute [of "b OR _"] bit.conj_disj_distrib and.commute [of _ b] PeerIdMask_def)
  have "\<not> bit (legacy_shift t) 55" by (cases t) simp_all
  then show "\<not> bit (b OR legacy_shift t) 55" by (auto simp: bit_simps dest: b)
qed

section \<open>Properties\<close>

text \<open>
  C29. Identifiers of peers with numbers below 2^48 determine their kind and their number: an
  identifier is of exactly the kind it was made for, gives its number back for this kind and zero for
  any other, and two are equal only if kind and number are. Users, chats and channels
  survive the way to the API and back.
\<close>

theorem peer_id_typed:
  assumes "b < 2 ^ 48" "b' < 2 ^ 48"
  shows "(peer_is t' (peer_id t b) \<longleftrightarrow> t' = t) \<and> peer_to t' (peer_id t b) = (if t' = t then b else 0)
    \<and> (peer_id t b = peer_id t' b' \<longleftrightarrow> t = t' \<and> b = b')
    \<and> (t \<noteq> FakeChatId \<longrightarrow> peerFromMTP (peerToMTP (peer_id t b)) = peer_id t b)"
proof -
  have kind: "peer_is t'' (peer_id t b) \<longleftrightarrow> t'' = t" for t''
    using peer_id_type [OF assms(1), of t] kShift_inj [of t'' t] by (auto simp: peer_is_def)
  moreover have "peer_to t' (peer_id t b) = (if t' = t then b else 0)"
    using kind peer_id_number [OF assms(1)] by (simp add: peer_to_def)
  moreover have "peer_id t b = peer_id t' b' \<longleftrightarrow> t = t' \<and> b = b'"
    using peer_id_type [OF assms(1), of t] peer_id_type [OF assms(2), of t'] peer_id_number [OF assms(1), of t]
      peer_id_number [OF assms(2), of t'] kShift_inj [of t t'] by metis
  moreover have "t \<noteq> FakeChatId \<longrightarrow> peerFromMTP (peerToMTP (peer_id t b)) = peer_id t b"
    using kind peer_id_number [OF assms(1)]
    by (cases t) (simp_all add: peerToMTP_def peerIsUser_def peerIsChat_def peerIsChannel_def peerToBareMTPInt_def
        peerFromUser_def peerFromChat_def peerFromChannel_def)
  ultimately show ?thesis by blast
qed

theorem peer_id_typed_witness: "peer_to ChatId (peer_id ChatId 77) = 77 \<and> peer_to UserId (peer_id ChatId 77) = 0"
  using peer_id_typed [of 77 77 ChatId ChatId] peer_id_typed [of 77 77 UserId ChatId] by simp

text \<open>
  C30. Exactly the identifiers without the reserved bit can be serialized, among them all with a number below
  2^48, and are read back as they were. Identifiers of the legacy form, a number of 32 bits
  under four bits for the kind, are read as the same number of the same kind.
\<close>

theorem peer_id_serialized:
  "(SerializePeerId v = None \<longleftrightarrow> bit v 55) \<and> (\<not> bit v 55 \<longrightarrow> map_option DeserializePeerId (SerializePeerId v) = Some v)
    \<and> (b < 2 ^ 48 \<longrightarrow> \<not> bit (peer_id t b) 55)
    \<and> (b < 2 ^ 32 \<longrightarrow> DeserializePeerId (b OR legacy_shift t) = peer_id t b)"
proof -
  have "DeserializePeerId (v OR push_bit 55 1) = v" if "\<not> bit v 55"
  proof -
    have "(v OR push_bit 55 1) AND NOT (push_bit 55 1) = v" using flag_set_clear that .
    moreover have "bit (v OR push_bit 55 1) 55" using flag_set [of 55 v] by simp
    ultimately show ?thesis unfolding DeserializePeerId_def flag_bit Let_def flag_clear by simp
  qed
  moreover have "SerializePeerId v = (if bit v 55 then None else Some (v OR push_bit 55 1))"
    unfolding SerializePeerId_def flag_bit flag_clear by simp
  moreover have "DeserializePeerId (b OR legacy_shift t) = peer_id t b" if "b < 2 ^ 32"
    using legacy_type [OF that, of t]
    unfolding DeserializePeerId_def flag_bit Let_def flag_clear
    by (cases t) (simp_all add: peerFromUser_def peerFromChat_def peerFromChannel_def)
  ultimately show ?thesis using peer_id_no_flag by simp
qed

theorem peer_id_serialized_witness: "DeserializePeerId 0x100000005 = peer_id ChatId 5"
  using peer_id_serialized [of 0 5 ChatId] by simp

end
