(* ===== verification/TcpProtocol.thy ===== *)
theory TcpProtocol
  imports Prelude "HOL-Library.Monad_Syntax"
begin

text \<open>
  The framing of packets in mtproto/connection_tcp.cpp: \<open>TcpConnection::Protocol\<close> with its three
  versions, and \<open>parsePacket\<close>. A buffer of \<open>mtpPrime\<close> values is a list of 32 bit words, its memory
  their bytes in little endian order. A failed \<open>Expects\<close> or \<open>Assert\<close> is \<open>None\<close>. Random padding
  and the hash of the key are arguments.
\<close>

section \<open>Definitions\<close>

definition word_bytes :: "uint32 \<Rightarrow> bytes" where
  "word_bytes x = [ucast x, ucast (drop_bit 8 x), ucast (drop_bit 16 x), ucast (drop_bit 24 x)]"

definition ints_bytes :: "uint32 list \<Rightarrow> bytes" where
  "ints_bytes xs = concat (map word_bytes xs)"

definition bytes_word :: "byte \<Rightarrow> byte \<Rightarrow> byte \<Rightarrow> byte \<Rightarrow> uint32" where
  "bytes_word a b c d = ucast a OR push_bit 8 (ucast b) OR push_bit 16 (ucast c) OR push_bit 24 (ucast d)"

fun bytes_ints :: "bytes \<Rightarrow> uint32 list" where
  "bytes_ints (a # b # c # d # rest) = bytes_word a b c d # bytes_ints rest"
| "bytes_ints _ = []"

definition subspan :: "nat \<Rightarrow> nat \<Rightarrow> 'a list \<Rightarrow> 'a list" where
  "subspan offset cnt xs = take cnt (drop offset xs)"

definition kPacketSizeMax :: int where
  "kPacketSizeMax = 0x01000000 * 4"

definition kUnknownSize :: int where "kUnknownSize = -1"

definition kInvalidSize :: int where "kInvalidSize = -2"

datatype protocol = Version0 | Version1 bytes | VersionD bytes

fun protocol_id :: "protocol \<Rightarrow> uint32" where
  "protocol_id (VersionD secret) = 0xDDDDDDDD"
| "protocol_id _ = 0xEFEFEFEF"

fun supportsArbitraryLength :: "protocol \<Rightarrow> bool" where
  "supportsArbitraryLength (VersionD secret) = True"
| "supportsArbitraryLength _ = False"

text \<open>The key that \<open>prepareKey\<close> copies.\<close>

fun prepareKey :: "(bytes \<Rightarrow> bytes) \<Rightarrow> protocol \<Rightarrow> bytes \<Rightarrow> bytes" where
  "prepareKey sha256 Version0 source = source"
| "prepareKey sha256 (Version1 secret) source = sha256 (source @ secret)"
| "prepareKey sha256 (VersionD secret) source = sha256 (source @ secret)"

definition finalizePacket0 :: "uint32 list \<Rightarrow> bytes option" where
  "finalizePacket0 buffer =
     (if \<not> (length buffer > 2 \<and> length buffer < 0x1000003) then None
      else
        let intsSize = word_of_nat (length buffer - 2) :: uint32;
            bytesSize = unat intsSize * 4;
            data = ints_bytes buffer
        in if intsSize < 0x7F
           then Some (subspan 7 (1 + bytesSize) (data[7 := ucast intsSize]))
           else Some (subspan 4 (4 + bytesSize)
                  (data[4 := 0x7F, 5 := ucast (intsSize AND 0xFF), 6 := ucast (drop_bit 8 intsSize AND 0xFF),
                        7 := ucast (drop_bit 16 intsSize AND 0xFF)])))"

text \<open>\<open>random\<close> is the value drawn for the size of the padding, \<open>pads\<close> those pushed back.\<close>

definition finalizePacketD :: "uint32 \<Rightarrow> (nat \<Rightarrow> uint32) \<Rightarrow> uint32 list \<Rightarrow> bytes option" where
  "finalizePacketD random pads buffer =
     (if \<not> (length buffer > 2 \<and> length buffer < 0x1000003) then None
      else
        let intsSize = word_of_nat (length buffer - 2) :: uint32;
            padding = unat (random AND 0x0F);
            bytesSize = unat intsSize * 4 + padding;
            buffer = buffer[1 := word_of_nat bytesSize];
            buffer = buffer @ map pads [0..<(padding + 3) div 4]
        in Some (subspan 4 (4 + bytesSize) (ints_bytes buffer)))"

fun finalizePacket :: "uint32 \<Rightarrow> (nat \<Rightarrow> uint32) \<Rightarrow> protocol \<Rightarrow> uint32 list \<Rightarrow> bytes option" where
  "finalizePacket random pads (VersionD secret) buffer = finalizePacketD random pads buffer"
| "finalizePacket random pads _ buffer = finalizePacket0 buffer"

text \<open>A byte read as a \<open>char\<close> is signed.\<close>

definition readPacketLength0 :: "bytes \<Rightarrow> int" where
  "readPacketLength0 bs =
     (if bs = [] then kUnknownSize
      else
        let first = sint (bs ! 0)
        in if first = 0x7F then
             (if length bs < 4 then kUnknownSize
              else
                let ints = ucast (bs ! 1) OR push_bit 8 (ucast (bs ! 2)) OR push_bit 16 (ucast (bs ! 3)) :: uint32
                in if ints \<ge> 0x7F then sint (push_bit 2 ints) + 4 else kInvalidSize)
           else if first > 0 \<and> first < 0x7F then sint (push_bit 2 (word_of_int first :: uint32)) + 1
           else kInvalidSize)"

definition readPacketLengthD :: "bytes \<Rightarrow> int" where
  "readPacketLengthD bs =
     (if length bs < 4 then kUnknownSize
      else
        let v = bytes_word (bs ! 0) (bs ! 1) (bs ! 2) (bs ! 3) + 4
        in if v \<ge> 8 \<and> v < word_of_int kPacketSizeMax then sint v else kInvalidSize)"

fun readPacketLength :: "protocol \<Rightarrow> bytes \<Rightarrow> int" where
  "readPacketLength (VersionD secret) bs = readPacketLengthD bs"
| "readPacketLength _ bs = readPacketLength0 bs"

definition readPacket :: "protocol \<Rightarrow> bytes \<Rightarrow> bytes option" where
  "readPacket p bs =
     (let size = readPacketLength p bs
      in if size = kUnknownSize \<or> size = kInvalidSize \<or> int (length bs) < size then None
         else
           let sizeLength = (case p of VersionD _ \<Rightarrow> 4 | _ \<Rightarrow> if sint (bs ! 0) = 0x7F then 4 else 1)
           in Some (subspan sizeLength (nat size - sizeLength) bs))"

definition parsePacket :: "protocol \<Rightarrow> bytes \<Rightarrow> uint32 list option" where
  "parsePacket p bs =
     do { packet \<leftarrow> readPacket p bs;
          let ints = bytes_ints packet;
          if ints = [] then None
          else if length ints < 3 then Some [ints ! 0]
          else Some ints }"

text \<open>\<open>Protocol::Create\<close>; \<open>None\<close> is the \<open>Unexpected\<close> at its end.\<close>

definition Create :: "bytes \<Rightarrow> protocol option" where
  "Create secret =
     (if (length secret \<ge> 21 \<and> secret ! 0 = 0xEE) \<or> (length secret = 17 \<and> secret ! 0 = 0xDD)
      then Some (VersionD (subspan 1 16 secret))
      else if length secret = 16 then Some (Version1 secret)
      else if secret = [] then Some Version0
      else None)"

section \<open>Bytes of words\<close>

lemma length_word_bytes [simp]: "length (word_bytes x) = 4"
  by (simp add: word_bytes_def)

lemma length_ints_bytes [simp]: "length (ints_bytes xs) = 4 * length xs"
  by (induction xs) (simp_all add: ints_bytes_def)

lemma ints_bytes_Cons: "ints_bytes (x # xs) = word_bytes x @ ints_bytes xs"
  by (simp add: ints_bytes_def)

lemma ints_bytes_append: "ints_bytes (xs @ ys) = ints_bytes xs @ ints_bytes ys"
  by (simp add: ints_bytes_def)

lemma bytes_word_bytes: "bytes_word (ucast x) (ucast (drop_bit 8 x)) (ucast (drop_bit 16 x)) (ucast (drop_bit 24 x)) = x"
proof (rule bit_word_eqI)
  fix n
  assume "n < LENGTH(32)"
  then consider "n < 8" | "8 \<le> n" "n < 16" | "16 \<le> n" "n < 24" | "24 \<le> n" "n < 32" by fastforce
  then show "bit (bytes_word (ucast x) (ucast (drop_bit 8 x)) (ucast (drop_bit 16 x)) (ucast (drop_bit 24 x))) n = bit x n"
    by cases (auto simp: bytes_word_def bit_simps)
qed

lemma bytes_ints_bytes: "bytes_ints (ints_bytes xs @ rest) = xs @ bytes_ints rest"
  by (induction xs) (simp_all add: ints_bytes_def word_bytes_def bytes_word_bytes)

section \<open>Sizes\<close>

lemma sint_small32: "0 \<le> k \<Longrightarrow> k < 2 ^ 31 \<Longrightarrow> sint (word_of_int k :: uint32) = k"
  by (simp add: signed_of_int signed_take_bit_int_eq_self)

lemma sint_shift_small: "0 \<le> k \<Longrightarrow> k < 2 ^ 29 \<Longrightarrow> sint (push_bit 2 (word_of_int k :: uint32)) = 4 * k"
proof -
  assume k: "0 \<le> k" "k < 2 ^ 29"
  have "push_bit 2 (word_of_int k :: uint32) = word_of_int (4 * k)" by (simp add: push_bit_eq_mult mult.commute)
  then show ?thesis using k sint_small32 [of "4 * k"] by simp
qed

lemma first_byte_small: "n < 0x7F \<Longrightarrow> sint (ucast (word_of_nat n :: uint32) :: byte) = int n"
proof -
  assume "n < 0x7F"
  then have "(ucast (word_of_nat n :: uint32) :: byte) = word_of_int (int n)"
    by (simp add: unsigned_of_nat take_bit_nat_eq_self)
  then show ?thesis using \<open>n < 0x7F\<close> by (simp only: signed_of_int) (simp add: signed_take_bit_int_eq_self)
qed

lemma three_bytes:
  fixes x :: uint32
  assumes "unat x < 2 ^ 24"
  shows "ucast (ucast (x AND 0xFF) :: byte) OR push_bit 8 (ucast (ucast (drop_bit 8 x AND 0xFF) :: byte))
    OR push_bit 16 (ucast (ucast (drop_bit 16 x AND 0xFF) :: byte)) = x"
proof (rule bit_word_eqI)
  fix n
  assume n: "n < LENGTH(32)"
  have "(0xFF :: int) = mask 8" by (simp add: mask_eq_exp_minus_1)
  then have mask: "bit (0xFF :: int) m \<longleftrightarrow> m < 8" for m
    by (simp only: bit_mask_iff) (simp add: possible_bit_def)
  have high: "24 \<le> n \<Longrightarrow> \<not> bit x n"
  proof -
    assume "24 \<le> n"
    then have "unat x < 2 ^ n" using assms power_increasing [of 24 n "2 :: nat"] by simp
    then have "\<not> bit (unat x) n" by (simp add: bit_iff_odd)
    then show ?thesis by (simp add: bit_unsigned_iff)
  qed
  consider "n < 8" | "8 \<le> n" "n < 16" | "16 \<le> n" "n < 24" | "24 \<le> n" by fastforce
  then show "bit (ucast (ucast (x AND 0xFF) :: byte) OR push_bit 8 (ucast (ucast (drop_bit 8 x AND 0xFF) :: byte))
    OR push_bit 16 (ucast (ucast (drop_bit 16 x AND 0xFF) :: byte)) :: uint32) n = bit x n"
    using n high by cases (auto simp: bit_simps mask)
qed

section \<open>Packets\<close>

lemma finalizePacket0_eq:
  assumes "0 < length ps" "length ps < 0x1000001"
  shows "finalizePacket0 (a # b # ps) =
    Some ((if length ps < 0x7F then [ucast (word_of_nat (length ps) :: uint32)]
       else let n = word_of_nat (length ps) :: uint32
            in [0x7F, ucast (n AND 0xFF), ucast (drop_bit 8 n AND 0xFF), ucast (drop_bit 16 n AND 0xFF)]) @ ints_bytes ps)"
proof -
  have n: "unat (word_of_nat (length ps) :: uint32) = length ps" using assms by (simp add: unsigned_of_nat take_bit_nat_eq_self)
  then have "(word_of_nat (length ps) :: uint32) < 0x7F \<longleftrightarrow> length ps < 0x7F" by (simp add: word_less_nat_alt)
  then show ?thesis
    using assms n by (simp add: finalizePacket0_def ints_bytes_Cons word_bytes_def subspan_def Let_def)
qed

lemma readPacketLength0_packet:
  assumes "0 < length ps" "length ps < 0x1000000" "finalizePacket0 (a # b # ps) = Some pkt"
  shows "readPacketLength0 (pkt @ rest) = int (length pkt)"
proof (cases "length ps < 0x7F")
  case True
  then have "pkt = [ucast (word_of_nat (length ps) :: uint32)] @ ints_bytes ps"
    using assms finalizePacket0_eq [of ps a b] by simp
  then show ?thesis
    using True assms(1) first_byte_small [OF True] sint_shift_small [of "int (length ps)"]
    by (simp add: readPacketLength0_def)
next
  case False
  let ?n = "word_of_nat (length ps) :: uint32"
  have n: "unat ?n = length ps" using assms by (simp add: unsigned_of_nat take_bit_nat_eq_self)
  have pkt: "pkt = [0x7F, ucast (?n AND 0xFF), ucast (drop_bit 8 ?n AND 0xFF), ucast (drop_bit 16 ?n AND 0xFF)] @ ints_bytes ps"
    using assms False finalizePacket0_eq [of ps a b] by (simp add: Let_def)
  have "?n \<ge> 0x7F" using False n by (simp add: word_le_nat_alt)
  moreover have "sint (push_bit 2 ?n) = 4 * int (length ps)"
    using sint_shift_small [of "int (length ps)"] assms(2) by simp
  ultimately show ?thesis
    using three_bytes [of ?n] n assms(2) by (simp add: pkt readPacketLength0_def)
qed

lemma readPacket0_packet:
  assumes "0 < length ps" "length ps < 0x1000000" "finalizePacket0 (a # b # ps) = Some pkt" "\<forall>s. p \<noteq> VersionD s"
  shows "readPacket p (pkt @ rest) = Some (ints_bytes ps)"
proof -
  have len: "readPacketLength p (pkt @ rest) = int (length pkt)"
    using readPacketLength0_packet [OF assms(1-3)] assms(4) by (cases p) simp_all
  show ?thesis
  proof (cases "length ps < 0x7F")
    case True
    then have "pkt = [ucast (word_of_nat (length ps) :: uint32)] @ ints_bytes ps"
      using assms finalizePacket0_eq [of ps a b] by simp
    then show ?thesis
      using len True first_byte_small [OF True] assms(4)
      by (cases p) (auto simp: readPacket_def kUnknownSize_def kInvalidSize_def subspan_def Let_def)
  next
    case False
    let ?n = "word_of_nat (length ps) :: uint32"
    have pkt: "pkt = [0x7F, ucast (?n AND 0xFF), ucast (drop_bit 8 ?n AND 0xFF), ucast (drop_bit 16 ?n AND 0xFF)] @ ints_bytes ps"
      using assms False finalizePacket0_eq [of ps a b] by (simp add: Let_def)
    show ?thesis
      using len assms(4)
      by (cases p) (auto simp: pkt readPacket_def kUnknownSize_def kInvalidSize_def subspan_def Let_def)
  qed
qed

lemma finalizePacketD_eq:
  assumes "0 < length ps" "length ps < 0x1000001"
  shows "finalizePacketD random pads (a # b # ps) =
    (let padding = unat (random AND 0x0F); size = 4 * length ps + padding
     in Some (word_bytes (word_of_nat size) @ ints_bytes ps @ take padding (ints_bytes (map pads [0..<(padding + 3) div 4]))))"
proof -
  have n: "unat (word_of_nat (length ps) :: uint32) = length ps" using assms by (simp add: unsigned_of_nat take_bit_nat_eq_self)
  show ?thesis
    using assms n
    by (simp add: finalizePacketD_def ints_bytes_Cons ints_bytes_append subspan_def Let_def mult.commute)
qed

lemma readPacketLengthD_packet:
  assumes "8 \<le> sz + 4" "sz + 4 < 0x4000000"
  shows "readPacketLengthD (word_bytes (word_of_nat sz) @ rest) = int sz + 4"
proof -
  have v: "(word_of_nat sz + 4 :: uint32) = word_of_nat (sz + 4)" by simp
  have u: "unat (word_of_nat (sz + 4) :: uint32) = sz + 4" using assms by (simp only: unsigned_of_nat) (simp add: take_bit_nat_eq_self)
  have "(word_of_nat (sz + 4) :: uint32) \<ge> 8" "(word_of_nat (sz + 4) :: uint32) < word_of_int kPacketSizeMax"
    using assms u by (simp_all add: word_le_nat_alt word_less_nat_alt kPacketSizeMax_def)
  moreover have "sint (word_of_nat (sz + 4) :: uint32) = int sz + 4"
    using sint_small32 [of "int (sz + 4)"] assms by simp
  ultimately show ?thesis
    by (simp add: readPacketLengthD_def word_bytes_def bytes_word_bytes v Let_def del: of_nat_add)
qed

lemma readPacketD_packet:
  assumes "0 < length ps" "length ps < 0x1000001" "finalizePacketD random pads (a # b # ps) = Some pkt"
    "4 * length ps + unat (random AND 0x0F) + 4 < 0x4000000"
  shows "readPacketLengthD (pkt @ rest) = int (length pkt) \<and>
    (\<exists>pad. length pad = unat (random AND 0x0F) \<and> readPacket (VersionD secret) (pkt @ rest) = Some (ints_bytes ps @ pad))"
proof -
  define padding where "padding = unat (random AND 0x0F)"
  define pad where "pad = take padding (ints_bytes (map pads [0..<(padding + 3) div 4]))"
  have "padding \<le> (padding + 3) div 4 * 4" by linarith
  then have pad: "length pad = padding" by (simp add: pad_def)
  let ?sz = "4 * length ps + padding"
  have pkt: "pkt = word_bytes (word_of_nat ?sz) @ ints_bytes ps @ pad"
    using assms(3) finalizePacketD_eq [OF assms(1,2), of random pads a b] by (simp add: Let_def pad_def padding_def)
  have "readPacketLengthD (pkt @ rest) = int ?sz + 4"
    unfolding pkt append_assoc by (rule readPacketLengthD_packet) (use assms(1,4) padding_def in linarith)+
  then have len: "readPacketLengthD (pkt @ rest) = int (length pkt)" by (simp add: pkt pad)
  moreover have "readPacket (VersionD secret) (pkt @ rest) = Some (ints_bytes ps @ pad)"
    using len by (simp add: readPacket_def kUnknownSize_def kInvalidSize_def subspan_def Let_def) (simp add: pkt pad)
  ultimately show ?thesis using pad padding_def by blast
qed

lemma bytes_ints_short: "bytes_ints (ints_bytes ps @ pad) = ps @ bytes_ints pad"
  by (rule bytes_ints_bytes)

lemma length_bytes_ints: "length (bytes_ints bs) = length bs div 4"
  by (induction bs rule: bytes_ints.induct) auto

section \<open>Properties\<close>



text \<open>
  A finding: the contract of \<open>finalizePacket\<close> admits a packet of 0x1000000 values, whose size does
  not fit into the three bytes written for it; the reader takes it for an invalid packet.
\<close>

lemma largest_packet_unreadable:
  assumes "length ps = 0x1000000" "finalizePacket0 (a # b # ps) = Some pkt"
  shows "readPacketLength0 pkt = kInvalidSize"
proof -
  have "(word_of_nat (length ps) :: uint32) = 0x1000000" by (simp add: assms(1))
  then have "pkt = [0x7F, 0, 0, 0] @ ints_bytes ps"
    using finalizePacket0_eq [of ps a b] assms by (simp add: Let_def)
  then show ?thesis by (simp add: readPacketLength0_def)
qed

end
