(* ===== verification/TcpStream.thy ===== *)
theory TcpStream
  imports TcpProtocol
begin

text \<open>
  The receiving side of \<open>TcpConnection\<close> (mtproto/connection_tcp.h and .cpp): \<open>socketRead\<close> cuts the
  stream of bytes, which arrives in pieces of any size, into packets in one of two buffers, and
  \<open>socketPacket\<close> hands them on. The buffers are lists of bytes, the spans of the source are offsets
  into them; a subspan out of range and a failed \<open>Assert\<close> or \<open>Expects\<close> are \<open>None\<close>. The record
  \<open>tcp_env\<close> holds what is outside: the key stream of the AES-CTR cipher (the value of a byte after
  decryption, by its position in the stream), the parser of the first reply, and whether the owner
  closes the socket after the events it got so far.
\<close>

section \<open>Definitions\<close>

definition kSmallBufferSize :: nat where "kSmallBufferSize = 256 * 1024"

definition kMinPacketBuffer :: nat where "kMinPacketBuffer = 256"

definition kErrorCodeOther :: int where "kErrorCodeOther = -499"

datatype Status = Waiting | Ready | Finished

datatype tcp_event = ConnectionError int | ReceivedData | ReceivedSome | Connected

record 'n tcp_env =
  env_crypt :: "nat \<Rightarrow> byte \<Rightarrow> byte"
  env_reply :: "uint32 list \<Rightarrow> 'n option"
  env_closes :: "tcp_event list \<Rightarrow> bool"

record 'n tcp =
  smallBuffer :: bytes
  largeBuffer :: bytes
  usingLargeBuffer :: bool
  offsetBytes :: nat
  readBytes :: nat
  leftBytes :: nat
  receivePosition :: nat
  status :: Status
  checkNonce :: 'n
  receivedQueue :: "uint32 list list"
  tcp_events :: "tcp_event list"

definition emit :: "tcp_event \<Rightarrow> 'n tcp \<Rightarrow> 'n tcp" where
  "emit e s = s\<lparr>tcp_events := tcp_events s @ [e]\<rparr>"

definition current_buffer :: "'n tcp \<Rightarrow> bytes" where
  "current_buffer s = (if usingLargeBuffer s then largeBuffer s else smallBuffer s)"

text \<open>Copying to the start of a buffer, as \<open>bytes::copy\<close> and \<open>bytes::move\<close> do.\<close>

definition copy_to_start :: "bytes \<Rightarrow> bytes \<Rightarrow> bytes" where
  "copy_to_start buffer bs = bs @ drop (length bs) buffer"

definition ensureAvailableInBuffer :: "nat \<Rightarrow> 'n tcp \<Rightarrow> 'n tcp option" where
  "ensureAvailableInBuffer amount s =
     (if offsetBytes s > length (current_buffer s) then None
      else
        let full = drop (offsetBytes s) (current_buffer s); bs = take (readBytes s) full
        in if length full \<ge> amount then Some s
           else if readBytes s > length full then None
           else if amount \<le> length (smallBuffer s) then
             Some (if usingLargeBuffer s
                   then s\<lparr>smallBuffer := copy_to_start (smallBuffer s) bs, usingLargeBuffer := False, largeBuffer := [], offsetBytes := 0\<rparr>
                   else s\<lparr>smallBuffer := copy_to_start (smallBuffer s) bs, offsetBytes := 0\<rparr>)
           else if amount \<le> length (largeBuffer s) then
             (if usingLargeBuffer s then Some (s\<lparr>largeBuffer := copy_to_start (largeBuffer s) bs, offsetBytes := 0\<rparr>) else None)
           else Some (s\<lparr>largeBuffer := copy_to_start (replicate amount 0) bs, usingLargeBuffer := True, offsetBytes := 0\<rparr>))"

definition handle_packet :: "'n tcp_env \<Rightarrow> uint32 list \<Rightarrow> 'n tcp \<Rightarrow> 'n tcp" where
  "handle_packet env data s =
     (if length data = 1
      then if data ! 0 \<noteq> 0 then emit (ConnectionError (sint (data ! 0))) s else s
      else case status s of
        Ready \<Rightarrow> emit ReceivedData (s\<lparr>receivedQueue := receivedQueue s @ [data]\<rparr>)
      | Waiting \<Rightarrow>
          (case env_reply env data of
             Some nonce \<Rightarrow> if nonce = checkNonce s then emit Connected (s\<lparr>status := Ready\<rparr>)
                           else emit (ConnectionError kErrorCodeOther) s
           | None \<Rightarrow> emit (ConnectionError kErrorCodeOther) s)
      | Finished \<Rightarrow> s)"

definition socketPacket :: "'n tcp_env \<Rightarrow> protocol \<Rightarrow> bytes \<Rightarrow> 'n tcp \<Rightarrow> 'n tcp option" where
  "socketPacket env p bs s = do { data \<leftarrow> parsePacket p bs; Some (handle_packet env data s) }"

text \<open>Whether \<open>socketRead\<close> returns at once, or waits for more bytes.\<close>

datatype loop_end = Returns | Waits

text \<open>
  The inner loop over the packets in the small buffer. The span \<open>available\<close> starts at \<open>start\<close>, which is
  not \<open>offsetBytes\<close> any more once the bytes have been moved; it has \<open>readBytes\<close> bytes throughout.
\<close>

function packet_loop :: "'n tcp_env \<Rightarrow> protocol \<Rightarrow> nat \<Rightarrow> nat \<Rightarrow> 'n tcp \<Rightarrow> (loop_end \<times> 'n tcp) option" where
  "packet_loop env p start n s =
     (if n = 0 then Some (Waits, s)
      else
        let available = take n (drop start (smallBuffer s)); packetSize = readPacketLength p available
        in if packetSize = kUnknownSize then Some (Waits, s)
           else if packetSize \<le> 0 then Some (Returns, emit (ConnectionError kErrorCodeOther) s)
           else if int n \<ge> packetSize then
             do { s \<leftarrow> socketPacket env p (take (nat packetSize) available) s;
                  if env_closes env (tcp_events s) then Some (Returns, s)
                  else do {
                    s \<leftarrow> ensureAvailableInBuffer kMinPacketBuffer
                           (s\<lparr>offsetBytes := offsetBytes s + nat packetSize, readBytes := n - nat packetSize\<rparr>);
                    packet_loop env p (start + nat packetSize) (n - nat packetSize) s } }
           else do {
             s \<leftarrow> ensureAvailableInBuffer (nat packetSize) (s\<lparr>leftBytes := nat packetSize - n\<rparr>);
             Some (Waits, emit ReceivedSome s) })"
  by pat_completeness auto

termination by (relation "measure (\<lambda>(env, p, start, n, s). n)") auto

declare packet_loop.simps [simp del]

definition readLimit :: "'n tcp \<Rightarrow> int" where
  "readLimit s = (if leftBytes s > 0 then int (leftBytes s) else int kSmallBufferSize - int (offsetBytes s) - int (readBytes s))"

definition decrypt :: "'n tcp_env \<Rightarrow> nat \<Rightarrow> bytes \<Rightarrow> bytes" where
  "decrypt env position bs = map (\<lambda>i. env_crypt env (position + i) (bs ! i)) [0..<length bs]"

definition write_at :: "nat \<Rightarrow> bytes \<Rightarrow> bytes \<Rightarrow> bytes" where
  "write_at i bs buffer = take i buffer @ bs @ drop (i + length bs) buffer"

text \<open>One turn of the outer loop in which the socket gave \<open>chunk\<close>.\<close>

definition read_turn :: "'n tcp_env \<Rightarrow> protocol \<Rightarrow> bytes \<Rightarrow> 'n tcp \<Rightarrow> (loop_end \<times> 'n tcp) option" where
  "read_turn env p chunk s =
     (let limit = readLimit s; position = offsetBytes s + readBytes s; buffer = current_buffer s
      in if limit \<le> 0 \<or> int position + limit > int (length buffer) \<or> int (length chunk) > limit then None
         else
           let data = write_at position (decrypt env (receivePosition s) chunk) buffer;
               s = (if usingLargeBuffer s then s\<lparr>largeBuffer := data\<rparr> else s\<lparr>smallBuffer := data\<rparr>);
               s = s\<lparr>receivePosition := receivePosition s + length chunk, readBytes := readBytes s + length chunk\<rparr>
           in if leftBytes s > 0 then
                let s = s\<lparr>leftBytes := leftBytes s - length chunk\<rparr>
                in if leftBytes s = 0 then
                     do { s \<leftarrow> socketPacket env p (take (readBytes s) (drop (offsetBytes s) data)) s;
                          if env_closes env (tcp_events s) then Some (Returns, s)
                          else Some (Waits, s\<lparr>usingLargeBuffer := False, largeBuffer := [], offsetBytes := 0, readBytes := 0\<rparr>) }
                   else Some (Waits, emit ReceivedSome s)
              else if usingLargeBuffer s then None
              else packet_loop env p (offsetBytes s) (readBytes s) s)"

text \<open>
  The outer loop against a socket with the bytes \<open>stream\<close> still to come: each turn either fails or
  finds that so many bytes have arrived, of which the socket gives no more than asked for. The
  socket has bytes available as long as the list goes on.
\<close>

datatype arrival = Arrives nat | Fails

fun socket_loop :: "'n tcp_env \<Rightarrow> protocol \<Rightarrow> arrival list \<Rightarrow> bytes \<Rightarrow> 'n tcp \<Rightarrow> (bytes \<times> 'n tcp) option" where
  "socket_loop env p [] stream s = Some (stream, s)"
| "socket_loop env p (Fails # rest) stream s = Some (stream, emit (ConnectionError kErrorCodeOther) s)"
| "socket_loop env p (Arrives k # rest) stream s =
     (let chunk = take (min k (nat (readLimit s))) stream
      in if readLimit s \<le> 0 then None
         else if chunk = [] then Some (stream, s)
         else do {
           (e, s) \<leftarrow> read_turn env p chunk s;
           if e = Returns \<or> env_closes env (tcp_events s) then Some (drop (length chunk) stream, s)
           else socket_loop env p rest (drop (length chunk) stream) s })"

definition socketRead :: "'n tcp_env \<Rightarrow> protocol \<Rightarrow> arrival list \<Rightarrow> bytes \<Rightarrow> 'n tcp \<Rightarrow> (bytes \<times> 'n tcp) option" where
  "socketRead env p arrivals stream s =
     (if \<not> (leftBytes s > 0 \<or> \<not> usingLargeBuffer s) then None
      else if env_closes env (tcp_events s) then Some (stream, emit (ConnectionError kErrorCodeOther) s)
      else
        let s = (if smallBuffer s = [] then s\<lparr>smallBuffer := replicate kSmallBufferSize 0\<rparr> else s)
        in socket_loop env p arrivals stream s)"

text \<open>A connection that was just made.\<close>

definition new_tcp :: "'n \<Rightarrow> 'n tcp" where
  "new_tcp nonce = \<lparr>smallBuffer = [], largeBuffer = [], usingLargeBuffer = False, offsetBytes = 0, readBytes = 0, leftBytes = 0,
     receivePosition = 0, status = Waiting, checkNonce = nonce, receivedQueue = [], tcp_events = []\<rparr>"

section \<open>Definitions: the packets of a stream\<close>

text \<open>
  The reference: the packets at the start of a string of bytes and what is left after them, which
  is incomplete or not a packet at all.
\<close>

function frames :: "protocol \<Rightarrow> bytes \<Rightarrow> bytes list \<times> bytes" where
  "frames p bs =
     (let n = readPacketLength p bs
      in if n \<le> 0 \<or> n > int (length bs) then ([], bs)
         else (take (nat n) bs # fst (frames p (drop (nat n) bs)), snd (frames p (drop (nat n) bs))))"
  by pat_completeness auto

termination by (relation "measure (\<lambda>(p, bs). length bs)") auto

declare frames.simps [simp del]

definition bad_frame :: "protocol \<Rightarrow> bytes \<Rightarrow> bool" where
  "bad_frame p bs \<longleftrightarrow> bs \<noteq> [] \<and> readPacketLength p bs \<le> 0 \<and> readPacketLength p bs \<noteq> kUnknownSize"

text \<open>What the owner of a connection sees, and how it changes when packets are handed on.\<close>

definition seen :: "'n tcp \<Rightarrow> Status \<times> uint32 list list \<times> tcp_event list" where
  "seen s = (status s, receivedQueue s, filter (\<lambda>e. e \<noteq> ReceivedSome) (tcp_events s))"

fun deliver_all :: "'n tcp_env \<Rightarrow> protocol \<Rightarrow> bytes list \<Rightarrow> 'n tcp \<Rightarrow> 'n tcp option" where
  "deliver_all env p [] s = Some s"
| "deliver_all env p (b # bs) s = do { s \<leftarrow> socketPacket env p b s; deliver_all env p bs s }"

text \<open>The state between two reads, when the bytes \<open>held\<close> have come since the last packet.\<close>

definition holding :: "protocol \<Rightarrow> bytes \<Rightarrow> 'n tcp \<Rightarrow> bool" where
  "holding p held s \<longleftrightarrow> length (smallBuffer s) = kSmallBufferSize \<and> offsetBytes s + readBytes s \<le> length (current_buffer s)
     \<and> take (readBytes s) (drop (offsetBytes s) (current_buffer s)) = held \<and> (\<not> usingLargeBuffer s \<longrightarrow> largeBuffer s = [])
     \<and> (if leftBytes s = 0
        then \<not> usingLargeBuffer s \<and> readPacketLength p held = kUnknownSize \<and> offsetBytes s + kMinPacketBuffer \<le> kSmallBufferSize
        else readPacketLength p held = int (readBytes s + leftBytes s)
             \<and> offsetBytes s + readBytes s + leftBytes s \<le> length (current_buffer s))"

definition same :: "'n tcp \<Rightarrow> 'n tcp \<Rightarrow> bool" where
  "same s t \<longleftrightarrow> seen s = seen t \<and> checkNonce s = checkNonce t"

text \<open>What a part of the loop that starts in \<open>s\<close> with the bytes \<open>bs\<close> has done in the end.\<close>

definition reads_frames :: "'n tcp_env \<Rightarrow> protocol \<Rightarrow> bytes \<Rightarrow> 'n tcp \<Rightarrow> loop_end \<Rightarrow> 'n tcp \<Rightarrow> bool" where
  "reads_frames env p bs s e s' \<longleftrightarrow>
     (\<exists>t. deliver_all env p (fst (frames p bs)) s = Some t
       \<and> (if bad_frame p (snd (frames p bs)) then e = Returns \<and> same s' (emit (ConnectionError kErrorCodeOther) t)
          else e = Waits \<and> same s' t \<and> holding p (snd (frames p bs)) s'))"

section \<open>Sizes and frames\<close>

lemma high_bits_clear:
  fixes x :: uint32
  assumes "\<And>n. 24 \<le> n \<Longrightarrow> \<not> bit x n"
  shows "uint x < 2 ^ 24"
proof -
  have "take_bit 24 x = x" by (rule bit_word_eqI) (use assms in \<open>auto simp: bit_take_bit_iff not_le [symmetric]\<close>)
  then show ?thesis by (metis take_bit_int_less_exp unsigned_take_bit_eq)
qed

lemma three_byte_size:
  fixes a b c :: byte
  shows "sint (push_bit 2 (ucast a OR push_bit 8 (ucast b) OR push_bit 16 (ucast c) :: uint32))
    = 4 * uint (ucast a OR push_bit 8 (ucast b) OR push_bit 16 (ucast c) :: uint32)" (is "sint (push_bit 2 ?x) = _")
proof -
  have "\<not> bit ?x n" if "24 \<le> n" for n
    using that by (auto simp: bit_simps dest: bit_imp_le_length)
  then have "uint ?x < 2 ^ 24" by (rule high_bits_clear)
  then show ?thesis using sint_shift_small [of "uint ?x"] by simp
qed

text \<open>A packet has at least four bytes after its size.\<close>

lemma readPacketLength_cases:
  "readPacketLength p bs = kUnknownSize \<and> length bs < 4 \<or> readPacketLength p bs = kInvalidSize \<and> bs \<noteq> []
   \<or> readPacketLength p bs \<ge> (case p of VersionD _ \<Rightarrow> 8 | _ \<Rightarrow> if sint (bs ! 0) = 0x7F then 8 else 5) \<and> bs \<noteq> []"
proof (cases "\<exists>k. p = VersionD k")
  case True
  then obtain k where [simp]: "p = VersionD k" by blast
  define v where "v = bytes_word (bs ! 0) (bs ! 1) (bs ! 2) (bs ! 3) + 4"
  have "sint v \<ge> 8" if "v \<ge> 8" "v < word_of_int kPacketSizeMax"
  proof -
    have "8 \<le> uint v" "uint v < 0x4000000"
      using that by (simp_all add: word_less_def word_le_def kPacketSizeMax_def)
    then show ?thesis using sint_small32 [of "uint v"] by simp
  qed
  then show ?thesis by (auto simp: readPacketLengthD_def v_def Let_def)
next
  case False
  define first where "first = sint (bs ! 0)"
  define x :: uint32 where "x = ucast (bs ! 1) OR push_bit 8 (ucast (bs ! 2)) OR push_bit 16 (ucast (bs ! 3))"
  have "sint (push_bit 2 (word_of_int first :: uint32)) = 4 * first" if "first > 0" "first < 0x7F"
    using that by (intro sint_shift_small) simp_all
  moreover have "sint (push_bit 2 x) \<ge> 0x1FC" if "x \<ge> 0x7F"
    using that unfolding x_def three_byte_size by (simp add: word_le_def)
  moreover have "readPacketLength p bs = readPacketLength0 bs" using False by (cases p) simp_all
  ultimately show ?thesis
    using False unfolding readPacketLength0_def Let_def x_def [symmetric] first_def [symmetric]
    by (cases p) auto
qed

lemma readPacketLength_append:
  "readPacketLength p bs \<noteq> kUnknownSize \<Longrightarrow> readPacketLength p (bs @ xs) = readPacketLength p bs"
proof (cases "\<exists>k. p = VersionD k")
  case True
  assume "readPacketLength p bs \<noteq> kUnknownSize"
  with True show ?thesis by (auto simp: readPacketLengthD_def nth_append Let_def)
next
  case False
  assume "readPacketLength p bs \<noteq> kUnknownSize"
  with False show ?thesis by (cases p) (auto simp: readPacketLength0_def nth_append Let_def split: if_splits)
qed

lemma readPacketLength_take:
  assumes "readPacketLength p bs \<noteq> kUnknownSize" "4 \<le> n"
  shows "readPacketLength p (take n bs) = readPacketLength p bs"
proof (cases "n \<le> length bs")
  case True
  then have "readPacketLength p (take n bs) \<noteq> kUnknownSize"
    using readPacketLength_cases [of p "take n bs"] assms(2) by (auto simp: kUnknownSize_def kInvalidSize_def split: if_splits protocol.splits)
  then show ?thesis using readPacketLength_append [of p "take n bs" "drop n bs"] by simp
qed simp

lemma parsePacket_packet:
  assumes "readPacketLength p bs > 0" "readPacketLength p bs \<le> int (length bs)"
  shows "\<exists>data. parsePacket p (take (nat (readPacketLength p bs)) bs) = Some data"
proof -
  define n where "n = nat (readPacketLength p bs)"
  define h :: nat where "h = (case p of VersionD _ \<Rightarrow> 4 | _ \<Rightarrow> if sint (bs ! 0) = 0x7F then 4 else 1)"
  have n: "h + 4 \<le> n" "n \<le> length bs" "4 \<le> n" "bs \<noteq> []"
    using readPacketLength_cases [of p bs] assms
    by (auto simp: n_def h_def kUnknownSize_def kInvalidSize_def split: protocol.splits if_splits)
  have "readPacketLength p (take n bs) = int n"
    using readPacketLength_take [of p bs n] assms n(3) by (simp add: n_def kUnknownSize_def)
  moreover have "take n bs ! 0 = bs ! 0" using n(3) by simp
  ultimately have "readPacket p (take n bs) = Some (subspan h (n - h) (take n bs))"
    using n by (simp add: readPacket_def h_def kUnknownSize_def kInvalidSize_def Let_def)
  moreover have "bytes_ints (subspan h (n - h) (take n bs)) \<noteq> []"
    using n length_bytes_ints [of "subspan h (n - h) (take n bs)"] by (auto simp: subspan_def)
  ultimately show ?thesis by (simp add: parsePacket_def Let_def flip: n_def)
qed

lemma frames_append:
  "frames p (bs @ xs) = (fst (frames p bs) @ fst (frames p (snd (frames p bs) @ xs)), snd (frames p (snd (frames p bs) @ xs)))"
proof (induction p bs rule: frames.induct)
  case (1 p bs)
  define n where "n = readPacketLength p bs"
  show ?case
  proof (cases "n \<le> 0 \<or> n > int (length bs)")
    case True
    then have "frames p bs = ([], bs)" by (subst frames.simps) (auto simp: n_def Let_def)
    then show ?thesis by simp
  next
    case False
    have "frames p bs = (take (nat n) bs # fst (frames p (drop (nat n) bs)), snd (frames p (drop (nat n) bs)))"
      using False by (subst frames.simps) (simp add: n_def Let_def)
    moreover have "readPacketLength p (bs @ xs) = n"
      using False by (simp add: n_def readPacketLength_append kUnknownSize_def)
    then have "frames p (bs @ xs) = (take (nat n) bs # fst (frames p (drop (nat n) bs @ xs)), snd (frames p (drop (nat n) bs @ xs)))"
      using False nat_le_iff [of n "length bs"] by (subst frames.simps) (simp add: Let_def)
    ultimately show ?thesis using 1 [of n] False by (simp add: n_def)
  qed
qed

lemma frames_none: "readPacketLength p bs \<le> 0 \<or> readPacketLength p bs > int (length bs) \<Longrightarrow> frames p bs = ([], bs)"
  by (subst frames.simps) (simp add: Let_def)

lemma frames_packet:
  "0 < readPacketLength p bs \<Longrightarrow> readPacketLength p bs \<le> int (length bs) \<Longrightarrow>
     frames p bs = (take (nat (readPacketLength p bs)) bs # fst (frames p (drop (nat (readPacketLength p bs)) bs)),
       snd (frames p (drop (nat (readPacketLength p bs)) bs)))"
  by (subst frames.simps) (simp add: Let_def)

lemma readPacketLength_Nil [simp]: "readPacketLength p [] = kUnknownSize"
  by (cases p) (simp_all add: readPacketLength0_def readPacketLengthD_def)

lemma frames_Nil [simp]: "frames p [] = ([], [])"
  by (simp add: frames_none kUnknownSize_def)

section \<open>Handing on packets\<close>

lemma same_refl [simp]: "same s s"
  by (simp add: same_def)

lemma same_trans: "same s t \<Longrightarrow> same t u \<Longrightarrow> same s u"
  by (simp add: same_def)

lemma same_emit: "same s t \<Longrightarrow> same (emit e s) (emit e t)"
  by (simp add: same_def seen_def emit_def)

lemma same_emit_some: "same s t \<Longrightarrow> same (emit ReceivedSome s) t"
  by (simp add: same_def seen_def emit_def)

text \<open>\<open>socketPacket\<close> leaves the buffers alone, and only reads what the owner sees.\<close>

lemma handle_packet_frame:
  "\<exists>st q ev. handle_packet env data s = s\<lparr>status := st, receivedQueue := q, tcp_events := ev\<rparr>"
proof -
  have "handle_packet env data s = s\<lparr>status := status (handle_packet env data s),
      receivedQueue := receivedQueue (handle_packet env data s), tcp_events := tcp_events (handle_packet env data s)\<rparr>"
    by (simp add: handle_packet_def emit_def split: Status.splits option.splits)
  then show ?thesis by metis
qed

lemma socketPacket_frame:
  "socketPacket env p bs s = Some s' \<Longrightarrow> \<exists>st q ev. s' = s\<lparr>status := st, receivedQueue := q, tcp_events := ev\<rparr>"
  using handle_packet_frame [of env _ s] by (auto simp: socketPacket_def bind_eq_Some_conv)

lemma handle_packet_same: "same s t \<Longrightarrow> same (handle_packet env data s) (handle_packet env data t)"
  by (cases "status s") (auto simp: handle_packet_def same_def seen_def emit_def split: option.splits)

lemma socketPacket_same:
  "socketPacket env p bs s = Some s' \<Longrightarrow> same s t \<Longrightarrow> \<exists>t'. socketPacket env p bs t = Some t' \<and> same s' t'"
  using handle_packet_same [of s t env] by (auto simp: socketPacket_def bind_eq_Some_conv)

lemma deliver_all_same:
  "deliver_all env p bs s = Some s' \<Longrightarrow> same s t \<Longrightarrow> \<exists>t'. deliver_all env p bs t = Some t' \<and> same s' t'"
proof (induction bs arbitrary: s t)
  case (Cons b bs)
  then obtain s1 where s1: "socketPacket env p b s = Some s1" "deliver_all env p bs s1 = Some s'" by (auto simp: bind_eq_Some_conv)
  then obtain t1 where "socketPacket env p b t = Some t1" "same s1 t1" using socketPacket_same [OF s1(1) Cons.prems(2)] by blast
  then show ?case using Cons.IH [OF s1(2)] by auto
qed simp

lemma deliver_all_append:
  "deliver_all env p (bs @ cs) s = do { s \<leftarrow> deliver_all env p bs s; deliver_all env p cs s }"
  by (induction bs arbitrary: s) (auto split: bind_splits)

section \<open>The buffers\<close>

lemma copy_to_start_simps [simp]:
  "length bs \<le> length buffer \<Longrightarrow> length (copy_to_start buffer bs) = length buffer"
  "take (length bs) (copy_to_start buffer bs) = bs"
  "length bs \<le> k \<Longrightarrow> drop k (copy_to_start buffer bs) = drop k buffer"
  by (simp_all add: copy_to_start_def)

text \<open>
  Making room while the small buffer is in use: the bytes read so far stay readable at the offset,
  and after it there is as much space as asked for.
\<close>

lemma ensureAvailable_small:
  assumes "\<not> usingLargeBuffer s" "largeBuffer s = []" "length (smallBuffer s) = kSmallBufferSize"
    "offsetBytes s + readBytes s \<le> kSmallBufferSize"
  obtains small large big o' where
    "ensureAvailableInBuffer amount s = Some (s\<lparr>smallBuffer := small, largeBuffer := large, usingLargeBuffer := big, offsetBytes := o'\<rparr>)"
    "length small = kSmallBufferSize" "\<not> big \<longrightarrow> large = []" "o' + amount \<le> length (if big then large else small)"
    "take (readBytes s) (drop o' (if big then large else small)) = take (readBytes s) (drop (offsetBytes s) (smallBuffer s))"
    "amount \<le> kSmallBufferSize \<longrightarrow> \<not> big"
    "kSmallBufferSize < offsetBytes s + amount \<and> amount \<le> kSmallBufferSize \<longrightarrow> o' = 0 \<and> small = copy_to_start (smallBuffer s) (take (readBytes s) (drop (offsetBytes s) (smallBuffer s)))"
    "offsetBytes s + amount \<le> kSmallBufferSize \<longrightarrow> o' = offsetBytes s \<and> small = smallBuffer s"
proof -
  define held where "held = take (readBytes s) (drop (offsetBytes s) (smallBuffer s))"
  have held: "length held = readBytes s" using assms by (simp add: held_def)
  consider "offsetBytes s + amount \<le> kSmallBufferSize" | "kSmallBufferSize < offsetBytes s + amount" "amount \<le> kSmallBufferSize"
    | "kSmallBufferSize < amount" by linarith
  then show thesis
  proof cases
    case 1
    then have "amount \<le> kSmallBufferSize - offsetBytes s" "offsetBytes s \<le> kSmallBufferSize" by simp_all
    then have "ensureAvailableInBuffer amount s = Some s"
      using assms by (simp add: ensureAvailableInBuffer_def current_buffer_def Let_def)
    then show thesis using that [of "offsetBytes s" False "[]" "smallBuffer s"] 1 assms by simp
  next
    case 2
    then have "ensureAvailableInBuffer amount s = Some (s\<lparr>smallBuffer := copy_to_start (smallBuffer s) held, offsetBytes := 0\<rparr>)"
      using assms by (simp add: ensureAvailableInBuffer_def current_buffer_def Let_def held_def)
    moreover have "length (copy_to_start (smallBuffer s) held) = kSmallBufferSize" "take (readBytes s) (copy_to_start (smallBuffer s) held) = held"
      using held assms(3,4) copy_to_start_simps(2) [of held "smallBuffer s"] by simp_all
    ultimately show thesis
      using that [of 0 False "[]" "copy_to_start (smallBuffer s) held"] 2 assms by (simp add: held_def)
  next
    case 3
    then have "ensureAvailableInBuffer amount s = Some (s\<lparr>largeBuffer := copy_to_start (replicate amount 0) held, usingLargeBuffer := True, offsetBytes := 0\<rparr>)"
      using assms by (simp add: ensureAvailableInBuffer_def current_buffer_def Let_def held_def)
    moreover have "length (copy_to_start (replicate amount 0) held) = amount" "take (readBytes s) (copy_to_start (replicate amount 0) held) = held"
      using held 3 assms(4) copy_to_start_simps(2) [of held "replicate amount 0"] by simp_all
    ultimately show thesis
      using that [of 0 True "copy_to_start (replicate amount 0) held" "smallBuffer s"] 3 assms by (simp add: held_def)
  qed
qed

lemma reads_frames_packet:
  assumes "0 < readPacketLength p bs" "readPacketLength p bs \<le> int (length bs)"
    "socketPacket env p (take (nat (readPacketLength p bs)) bs) s = Some s1" "same s1 s2"
    "reads_frames env p (drop (nat (readPacketLength p bs)) bs) s2 e s'"
  shows "reads_frames env p bs s e s'"
proof -
  define rest where "rest = drop (nat (readPacketLength p bs)) bs"
  obtain t where t: "deliver_all env p (fst (frames p rest)) s2 = Some t"
    "if bad_frame p (snd (frames p rest)) then e = Returns \<and> same s' (emit (ConnectionError kErrorCodeOther) t)
     else e = Waits \<and> same s' t \<and> holding p (snd (frames p rest)) s'"
    using assms(5) by (auto simp: reads_frames_def rest_def)
  have "same s2 s1" using assms(4) by (simp add: same_def)
  then obtain t' where t': "deliver_all env p (fst (frames p rest)) s1 = Some t'" "same t t'"
    using deliver_all_same [OF t(1)] by blast
  have "deliver_all env p (fst (frames p bs)) s = Some t'"
    using assms(3) t'(1) by (simp add: frames_packet [OF assms(1,2)] rest_def)
  moreover have "snd (frames p bs) = snd (frames p rest)" by (simp add: frames_packet [OF assms(1,2)] rest_def)
  ultimately show ?thesis
    using t(2) t'(2) same_trans same_emit [OF t'(2)] unfolding reads_frames_def by (auto split: if_splits)
qed

section \<open>The loops\<close>

text \<open>
  The state at the head of the inner loop: the bytes \<open>bs\<close> are found both at the offset and at the
  start of \<open>available\<close>, and when these are not the same the packet area is at the front of the buffer.
\<close>

lemma packet_loop_spec:
  assumes "env_closes env = (\<lambda>_. False)" "\<not> usingLargeBuffer s" "largeBuffer s = []" "leftBytes s = 0"
    "length (smallBuffer s) = kSmallBufferSize" "readBytes s = n" "offsetBytes s + n \<le> kSmallBufferSize" "start + n \<le> kSmallBufferSize"
    "offsetBytes s + kMinPacketBuffer \<le> kSmallBufferSize" "start = offsetBytes s \<or> offsetBytes s + n < kMinPacketBuffer"
    "take n (drop start (smallBuffer s)) = bs" "take n (drop (offsetBytes s) (smallBuffer s)) = bs"
  shows "\<exists>e s'. packet_loop env p start n s = Some (e, s') \<and> reads_frames env p bs s e s' \<and> receivePosition s' = receivePosition s"
  using assms
proof (induction n arbitrary: start s bs rule: less_induct)
  case (less n)
  note [simp] = less.prems(1-6)
  note offset = less.prems(7,8,9)
  define size where "size = readPacketLength p bs"
  have bs: "length bs = n" using less.prems(5,8,11) by auto
  note unfold = packet_loop.simps [of env p start n s, unfolded Let_def less.prems(11), folded size_def]
  have waits: "holding p bs s" if "size = kUnknownSize"
    using that less.prems unfolding holding_def size_def current_buffer_def by auto
  consider "size = kUnknownSize" | "size \<noteq> kUnknownSize" "size \<le> 0" | "0 < size" "size \<le> int n" | "int n < size" "n \<noteq> 0" "0 < size"
    | "n = 0" by linarith
  then show ?case
  proof cases
    case 1
    then have "packet_loop env p start n s = Some (Waits, s)" unfolding unfold by simp
    then show ?thesis using waits [OF 1] 1
      by (simp add: reads_frames_def frames_none size_def kUnknownSize_def bad_frame_def)
  next
    case 2
    then have "bs \<noteq> []" by (auto simp: size_def)
    then have "packet_loop env p start n s = Some (Returns, emit (ConnectionError kErrorCodeOther) s)"
      using 2 bs unfolding unfold by auto
    then show ?thesis using 2 \<open>bs \<noteq> []\<close>
      by (simp add: reads_frames_def frames_none size_def [symmetric] bad_frame_def emit_def)
  next
    case 3
    define k where "k = nat size"
    have k: "0 < k" "k \<le> n" "size = int k" using 3 by (simp_all add: k_def)
    obtain s1 where s1: "socketPacket env p (take k bs) s = Some s1"
      using parsePacket_packet [of p bs] 3 bs by (auto simp: socketPacket_def size_def k_def)
    then obtain st q ev where s1': "s1 = s\<lparr>status := st, receivedQueue := q, tcp_events := ev\<rparr>"
      using socketPacket_frame by blast
    define s2 where "s2 = s1\<lparr>offsetBytes := offsetBytes s1 + k, readBytes := n - k\<rparr>"
    have fields: "\<not> usingLargeBuffer s2" "largeBuffer s2 = []" "length (smallBuffer s2) = kSmallBufferSize" "smallBuffer s2 = smallBuffer s"
      "offsetBytes s2 = offsetBytes s + k" "readBytes s2 = n - k" "offsetBytes s2 + readBytes s2 \<le> kSmallBufferSize"
      using offset k by (simp_all add: s2_def s1')
    obtain small large big o' where ensure:
      "ensureAvailableInBuffer kMinPacketBuffer s2 = Some (s2\<lparr>smallBuffer := small, largeBuffer := large, usingLargeBuffer := big, offsetBytes := o'\<rparr>)"
      "length small = kSmallBufferSize" "\<not> big \<longrightarrow> large = []" "o' + kMinPacketBuffer \<le> length (if big then large else small)"
      "take (n - k) (drop o' (if big then large else small)) = take (n - k) (drop (offsetBytes s + k) (smallBuffer s))"
      "kMinPacketBuffer \<le> kSmallBufferSize \<longrightarrow> \<not> big"
      "kSmallBufferSize < offsetBytes s + k + kMinPacketBuffer \<and> kMinPacketBuffer \<le> kSmallBufferSize \<longrightarrow>
         o' = 0 \<and> small = copy_to_start (smallBuffer s) (take (n - k) (drop (offsetBytes s + k) (smallBuffer s)))"
      "offsetBytes s + k + kMinPacketBuffer \<le> kSmallBufferSize \<longrightarrow> o' = offsetBytes s + k \<and> small = smallBuffer s"
      by (rule ensureAvailable_small [OF fields(1,2,3,7), of kMinPacketBuffer, unfolded fields(4,5,6)])
    define s3 where "s3 = s2\<lparr>smallBuffer := small, largeBuffer := large, usingLargeBuffer := big, offsetBytes := o'\<rparr>"
    have sizes: "2 * kMinPacketBuffer \<le> kSmallBufferSize" by (simp add: kMinPacketBuffer_def kSmallBufferSize_def)
    have rest: "take (n - k) (drop (offsetBytes s + k) (smallBuffer s)) = drop k bs" "take (n - k) (drop (start + k) (smallBuffer s)) = drop k bs"
      using less.prems(11,12) k(2) by (simp_all flip: drop_drop drop_take add: add.commute)
    have place: "o' + (n - k) \<le> kSmallBufferSize \<and> (start + k = o' \<or> o' + (n - k) < kMinPacketBuffer)
      \<and> take (n - k) (drop (start + k) small) = drop k bs"
    proof (cases "kSmallBufferSize < offsetBytes s + k + kMinPacketBuffer")
      case True
      then have moved: "start = offsetBytes s" "n - k < kMinPacketBuffer" "n - k \<le> start + k" "o' = 0"
        using less.prems(10) offset k sizes ensure(7) by auto
      have "small = copy_to_start (smallBuffer s) (drop k bs)" using ensure(7) True sizes rest(1) by simp
      then have "drop (start + k) small = drop (start + k) (smallBuffer s)"
        using moved(3) bs by (simp add: copy_to_start_simps(3))
      then have "take (n - k) (drop (start + k) small) = drop k bs" using rest(2) by simp
      with moved offset k show ?thesis by simp
    next
      case False
      then show ?thesis using ensure(8) less.prems(10) offset k rest(2) fields(5) by auto
    qed
    have "\<exists>e s'. packet_loop env p (start + k) (n - k) s3 = Some (e, s') \<and> reads_frames env p (drop k bs) s3 e s'
        \<and> receivePosition s' = receivePosition s3"
    proof (rule less.IH)
      show "take (n - k) (drop (offsetBytes s3) (smallBuffer s3)) = drop k bs"
        using ensure(5,6) sizes rest(1) by (simp add: s3_def)
    qed (use k place ensure sizes offset fields in \<open>auto simp: s3_def s2_def s1'\<close>)
    then obtain e s' where s': "packet_loop env p (start + k) (n - k) s3 = Some (e, s')" "reads_frames env p (drop k bs) s3 e s'"
      "receivePosition s' = receivePosition s3" by blast
    have "packet_loop env p start n s = Some (e, s')"
      using 3 s1 ensure(1) s'(1) unfolding unfold s3_def [symmetric] by (simp add: k_def [symmetric] s2_def kUnknownSize_def flip: s3_def)
    moreover have "same s1 s3" by (simp add: same_def seen_def s3_def s2_def)
    then have "reads_frames env p bs s e s'"
      using reads_frames_packet [of p bs env s s1 s3 e s'] 3 s1 s'(2) bs by (simp add: size_def k_def)
    ultimately show ?thesis using s'(3) by (simp add: s3_def s2_def s1')
  next
    case 4
    define k where "k = nat size"
    have k: "n < k" "size = int k" using 4 by (simp_all add: k_def)
    define s2 where "s2 = s\<lparr>leftBytes := k - n\<rparr>"
    have fields: "\<not> usingLargeBuffer s2" "largeBuffer s2 = []" "length (smallBuffer s2) = kSmallBufferSize"
      "offsetBytes s2 + readBytes s2 \<le> kSmallBufferSize" "take (readBytes s2) (drop (offsetBytes s2) (smallBuffer s2)) = bs" "readBytes s2 = n"
      using offset(1) less.prems(12) by (simp_all add: s2_def)
    obtain small large big o' where ensure:
      "ensureAvailableInBuffer k s2 = Some (s2\<lparr>smallBuffer := small, largeBuffer := large, usingLargeBuffer := big, offsetBytes := o'\<rparr>)"
      "length small = kSmallBufferSize" "\<not> big \<longrightarrow> large = []" "o' + k \<le> length (if big then large else small)"
      "take n (drop o' (if big then large else small)) = bs"
      by (rule ensureAvailable_small [OF fields(1-4), of k, unfolded fields(5), unfolded fields(6)])
    define s3 where "s3 = s2\<lparr>smallBuffer := small, largeBuffer := large, usingLargeBuffer := big, offsetBytes := o'\<rparr>"
    have "packet_loop env p start n s = Some (Waits, emit ReceivedSome s3)"
      using 4 ensure(1) unfolding unfold by (simp add: k_def [symmetric] s2_def [symmetric] s3_def kUnknownSize_def)
    moreover have "frames p bs = ([], bs)" using 4 bs by (simp add: frames_none size_def)
    moreover have "\<not> bad_frame p bs" using 4 by (simp add: bad_frame_def size_def)
    moreover have "holding p bs (emit ReceivedSome s3)"
      using ensure k 4 unfolding holding_def by (auto simp: current_buffer_def emit_def s3_def s2_def size_def)
    moreover have "same (emit ReceivedSome s3) s"
      by (rule same_emit_some) (simp add: same_def seen_def s3_def s2_def)
    ultimately show ?thesis by (simp add: reads_frames_def emit_def s3_def s2_def)
  next
    case 5
    then have "size = kUnknownSize" using bs by (simp add: size_def)
    moreover have "packet_loop env p start n s = Some (Waits, s)" using 5 unfolding unfold by simp
    ultimately show ?thesis using waits
      by (simp add: reads_frames_def frames_none size_def kUnknownSize_def bad_frame_def)
  qed
qed

lemma length_write_at: "i + length bs \<le> length buffer \<Longrightarrow> length (write_at i bs buffer) = length buffer"
  by (simp add: write_at_def)

lemma read_write_at:
  assumes "k + r + length bs \<le> length buffer"
  shows "take (r + length bs) (drop k (write_at (k + r) bs buffer)) = take r (drop k buffer) @ bs"
proof -
  have "drop k (write_at (k + r) bs buffer) = take r (drop k buffer) @ bs @ drop (k + r + length bs) buffer"
    using assms by (simp add: write_at_def drop_take)
  then show ?thesis using assms by simp
qed

lemma reads_frames_same:
  assumes "same s t" "reads_frames env p bs s e s'"
  shows "reads_frames env p bs t e s'"
proof -
  obtain u where u: "deliver_all env p (fst (frames p bs)) s = Some u"
    "if bad_frame p (snd (frames p bs)) then e = Returns \<and> same s' (emit (ConnectionError kErrorCodeOther) u)
     else e = Waits \<and> same s' u \<and> holding p (snd (frames p bs)) s'"
    using assms(2) by (auto simp: reads_frames_def)
  obtain v where "deliver_all env p (fst (frames p bs)) t = Some v" "same u v"
    using deliver_all_same [OF u(1) assms(1)] by blast
  then show ?thesis
    using u(2) same_trans same_emit [of u v] unfolding reads_frames_def by (auto split: if_splits)
qed

lemma length_decrypt [simp]: "length (decrypt env position bs) = length bs"
  by (simp add: decrypt_def)

lemma decrypt_append: "decrypt env position (bs @ cs) = decrypt env position bs @ decrypt env (position + length bs) cs"
proof -
  have "map (\<lambda>i. env_crypt env (position + i) ((bs @ cs) ! i)) [length bs..<length bs + length cs]
      = map (\<lambda>i. env_crypt env (position + length bs + i) (cs ! i)) [0..<length cs]"
    by (rule nth_equalityI) (simp_all add: nth_append add.assoc)
  then show ?thesis by (simp add: decrypt_def upt_add_eq_append [of 0 "length bs" "length cs"] nth_append)
qed

text \<open>One read: whatever was held, with the new bytes behind it, is cut into packets.\<close>

lemma read_turn_spec:
  assumes "env_closes env = (\<lambda>_. False)" "holding p held s" "chunk \<noteq> []" "int (length chunk) \<le> readLimit s"
  shows "\<exists>e s'. read_turn env p chunk s = Some (e, s')
    \<and> reads_frames env p (held @ decrypt env (receivePosition s) chunk) s e s' \<and> receivePosition s' = receivePosition s + length chunk"
proof -
  define data where "data = decrypt env (receivePosition s) chunk"
  define buffer where "buffer = write_at (offsetBytes s + readBytes s) data (current_buffer s)"
  have hold: "length (smallBuffer s) = kSmallBufferSize" "offsetBytes s + readBytes s \<le> length (current_buffer s)"
    "take (readBytes s) (drop (offsetBytes s) (current_buffer s)) = held" "\<not> usingLargeBuffer s \<longrightarrow> largeBuffer s = []"
    using assms(2) by (simp_all add: holding_def)
  have held: "length held = readBytes s" using hold(2,3) by auto
  have sizes: "4 \<le> kMinPacketBuffer" by (simp add: kMinPacketBuffer_def)
  show ?thesis
  proof (cases "leftBytes s = 0")
    case True
    then have small: "\<not> usingLargeBuffer s" "readPacketLength p held = kUnknownSize" "offsetBytes s + kMinPacketBuffer \<le> kSmallBufferSize"
      using assms(2) by (simp_all add: holding_def)
    have "readBytes s < 4" using readPacketLength_cases [of p held] small(2) held
      by (auto simp: kUnknownSize_def kInvalidSize_def split: protocol.splits if_splits)
    then have limit: "readLimit s > 0" "offsetBytes s + readBytes s + length chunk \<le> kSmallBufferSize"
      using small(3) sizes True assms(4) by (simp_all add: readLimit_def)
    define s1 where "s1 = s\<lparr>smallBuffer := buffer, receivePosition := receivePosition s + length chunk, readBytes := readBytes s + length chunk\<rparr>"
    have turn: "read_turn env p chunk s = packet_loop env p (offsetBytes s) (readBytes s + length chunk) s1"
      using limit assms(4) small(1) True hold(1)
      by (simp add: read_turn_def Let_def readLimit_def current_buffer_def buffer_def data_def s1_def)
    have content: "length buffer = kSmallBufferSize" "take (readBytes s + length chunk) (drop (offsetBytes s) buffer) = held @ data"
      using limit(2) small(1) hold(1,3) read_write_at [of "offsetBytes s" "readBytes s" data "smallBuffer s"]
      by (simp_all add: buffer_def current_buffer_def data_def length_write_at)
    have "\<exists>e s'. packet_loop env p (offsetBytes s) (readBytes s + length chunk) s1 = Some (e, s')
        \<and> reads_frames env p (held @ data) s1 e s' \<and> receivePosition s' = receivePosition s1"
      by (rule packet_loop_spec) (use assms(1) small True hold(4) content limit(2) in \<open>simp_all add: s1_def\<close>)
    moreover have "same s1 s" by (simp add: same_def seen_def s1_def)
    ultimately show ?thesis using reads_frames_same [of s1 s] by (auto simp: turn data_def s1_def)
  next
    case False
    have left: "readPacketLength p held = int (readBytes s + leftBytes s)" "offsetBytes s + readBytes s + leftBytes s \<le> length (current_buffer s)"
      using False assms(2) by (simp_all add: holding_def)
    have chunk: "length chunk \<le> leftBytes s" using False assms(4) by (simp add: readLimit_def)
    define s1 where "s1 = (if usingLargeBuffer s then s\<lparr>largeBuffer := buffer\<rparr> else s\<lparr>smallBuffer := buffer\<rparr>)
      \<lparr>receivePosition := receivePosition s + length chunk, readBytes := readBytes s + length chunk, leftBytes := leftBytes s - length chunk\<rparr>"
    have content: "length buffer = length (current_buffer s)" "take (readBytes s + length chunk) (drop (offsetBytes s) buffer) = held @ data"
      using left(2) chunk hold(3) read_write_at [of "offsetBytes s" "readBytes s" data "current_buffer s"]
      by (simp_all add: buffer_def data_def length_write_at)
    have size: "readPacketLength p (held @ data) = int (readBytes s + leftBytes s)"
      using left(1) False by (simp add: readPacketLength_append kUnknownSize_def)
    have same: "same s1 s" by (simp add: same_def seen_def s1_def)
    have buffers: "length (smallBuffer s1) = kSmallBufferSize" "current_buffer s1 = buffer" "\<not> usingLargeBuffer s1 \<longrightarrow> largeBuffer s1 = []"
      "offsetBytes s1 = offsetBytes s" "readBytes s1 = readBytes s + length chunk" "leftBytes s1 = leftBytes s - length chunk"
      using content(1) hold by (auto simp: s1_def current_buffer_def)
    have turn: "read_turn env p chunk s = (if length chunk = leftBytes s
      then do { s \<leftarrow> socketPacket env p (held @ data) s1;
                Some (Waits, s\<lparr>usingLargeBuffer := False, largeBuffer := [], offsetBytes := 0, readBytes := 0\<rparr>) }
      else Some (Waits, emit ReceivedSome s1))"
    proof -
      have "\<not> (readLimit s \<le> 0 \<or> int (offsetBytes s + readBytes s) + readLimit s > int (length (current_buffer s)) \<or> int (length chunk) > readLimit s)"
        using False left(2) assms(4) by (simp add: readLimit_def)
      note limit = if_not_P [OF this]
      show ?thesis
        unfolding read_turn_def Let_def data_def [symmetric] buffer_def [symmetric] limit
        using False chunk content(2) assms(1) by (cases "usingLargeBuffer s"; cases "length chunk = leftBytes s") (simp_all add: s1_def)
    qed
    show ?thesis
    proof (cases "length chunk = leftBytes s")
      case True
      have full: "length (held @ data) = readBytes s + leftBytes s" using True held by (simp add: data_def)
      obtain s2 where s2: "socketPacket env p (held @ data) s1 = Some s2"
        using parsePacket_packet [of p "held @ data"] size False full by (auto simp: socketPacket_def)
      then obtain st q ev where s2': "s2 = s1\<lparr>status := st, receivedQueue := q, tcp_events := ev\<rparr>"
        using socketPacket_frame by blast
      define s3 where "s3 = s2\<lparr>usingLargeBuffer := False, largeBuffer := [], offsetBytes := 0, readBytes := 0\<rparr>"
      have "holding p [] s3"
        using buffers True by (simp add: holding_def s3_def s2' current_buffer_def kMinPacketBuffer_def kSmallBufferSize_def)
      moreover have "same s3 s2" by (simp add: same_def seen_def s3_def)
      ultimately have "reads_frames env p [] s2 Waits s3" by (simp add: reads_frames_def bad_frame_def)
      then have "reads_frames env p (held @ data) s1 Waits s3"
        using reads_frames_packet [of p "held @ data" env s1 s2 s2 Waits s3] size False full s2 by simp
      then show ?thesis using turn True s2 reads_frames_same [OF same] by (simp add: s3_def s2' data_def) (simp add: s1_def)
    next
      case partial: False
      have "frames p (held @ data) = ([], held @ data)" "\<not> bad_frame p (held @ data)"
        using size partial chunk held False by (simp_all add: frames_none bad_frame_def data_def)
      moreover have "holding p (held @ data) (emit ReceivedSome s1)"
        using buffers content left(2) chunk partial size
        unfolding holding_def by (auto simp: emit_def current_buffer_def)
      moreover have "same (emit ReceivedSome s1) s" using same by (rule same_emit_some)
      ultimately show ?thesis using turn partial by (simp add: reads_frames_def data_def emit_def) (simp add: s1_def)
    qed
  qed
qed

text \<open>The whole loop, against a socket that does not fail.\<close>

lemma reads_frames_step:
  assumes "reads_frames env p bs s Waits s1" "\<not> bad_frame p (snd (frames p bs))"
    "reads_frames env p (snd (frames p bs) @ cs) s1 e s'"
  shows "reads_frames env p (bs @ cs) s e s'"
proof -
  obtain t where t: "deliver_all env p (fst (frames p bs)) s = Some t" "same s1 t"
    using assms(1,2) by (auto simp: reads_frames_def)
  obtain u where u: "deliver_all env p (fst (frames p (snd (frames p bs) @ cs))) t = Some u"
    "if bad_frame p (snd (frames p (snd (frames p bs) @ cs))) then e = Returns \<and> same s' (emit (ConnectionError kErrorCodeOther) u)
     else e = Waits \<and> same s' u \<and> holding p (snd (frames p (snd (frames p bs) @ cs))) s'"
    using reads_frames_same [OF t(2) assms(3)] by (auto simp: reads_frames_def)
  then show ?thesis
    using t(1) unfolding reads_frames_def by (simp add: frames_append [of p bs cs] deliver_all_append)
qed

lemma holding_reads:
  assumes "holding p held s"
  shows "reads_frames env p held s Waits s"
proof -
  have "length held = readBytes s" using assms by (auto simp: holding_def)
  then have "frames p held = ([], held)" "\<not> bad_frame p held"
    using assms by (auto simp: holding_def frames_none bad_frame_def kUnknownSize_def split: if_splits)
  with assms show ?thesis by (simp add: reads_frames_def)
qed

lemma readLimit_pos:
  assumes "holding p held s"
  shows "readLimit s > 0"
proof (cases "leftBytes s = 0")
  case True
  have "length held = readBytes s" using assms by (auto simp: holding_def)
  then have "readBytes s < 4" using True assms readPacketLength_cases [of p held]
    by (auto simp: holding_def kUnknownSize_def kInvalidSize_def split: protocol.splits if_splits)
  moreover have "4 \<le> kMinPacketBuffer" by (simp add: kMinPacketBuffer_def)
  ultimately show ?thesis using True assms by (simp add: holding_def readLimit_def)
qed (simp add: readLimit_def)

lemma socket_loop_spec:
  assumes "env_closes env = (\<lambda>_. False)" "holding p held s" "Fails \<notin> set arrivals"
  shows "\<exists>used rest e s'. socket_loop env p arrivals stream s = Some (rest, s') \<and> stream = used @ rest
    \<and> reads_frames env p (held @ decrypt env (receivePosition s) used) s e s'
    \<and> receivePosition s' = receivePosition s + length used
    \<and> (e = Waits \<and> Arrives 0 \<notin> set arrivals \<and> length stream \<le> length arrivals \<longrightarrow> rest = [])"
  using assms(2,3)
proof (induction arrivals arbitrary: held stream s)
  case Nil
  show ?case
    by (rule exI [of _ "[]"], rule exI [of _ stream], rule exI [of _ Waits], rule exI [of _ s])
      (simp add: decrypt_def holding_reads [OF Nil.prems(1)])
next
  case (Cons a arrivals)
  obtain k where a: "a = Arrives k" using Cons.prems(2) by (cases a) auto
  define chunk where "chunk = take (min k (nat (readLimit s))) stream"
  define rest where "rest = drop (length chunk) stream"
  have stream: "stream = chunk @ rest" by (simp add: chunk_def rest_def min_def)
  have limit: "readLimit s > 0" using readLimit_pos [OF Cons.prems(1)] .
  show ?case
  proof (cases "chunk = []")
    case True
    then have "socket_loop env p (a # arrivals) stream s = Some (stream, s)" using limit by (simp add: a chunk_def [symmetric])
    moreover have "k \<noteq> 0 \<Longrightarrow> stream = []" using True limit by (auto simp: chunk_def)
    ultimately have "socket_loop env p (a # arrivals) stream s = Some (stream, s)
      \<and> (Arrives 0 \<notin> set (a # arrivals) \<longrightarrow> stream = [])" by (auto simp: a)
    then show ?thesis
      apply -
      by (rule exI [of _ "[]"], rule exI [of _ stream], rule exI [of _ Waits], rule exI [of _ s])
        (simp add: decrypt_def holding_reads [OF Cons.prems(1)])
  next
    case False
    define bs where "bs = held @ decrypt env (receivePosition s) chunk"
    have "int (length chunk) \<le> readLimit s" using limit by (simp add: chunk_def)
    then obtain e1 s1 where s1: "read_turn env p chunk s = Some (e1, s1)" "reads_frames env p bs s e1 s1"
      "receivePosition s1 = receivePosition s + length chunk"
      using read_turn_spec [OF assms(1) Cons.prems(1) False] by (auto simp: bs_def)
    have loop: "socket_loop env p (a # arrivals) stream s = (if e1 = Returns then Some (rest, s1) else socket_loop env p arrivals rest s1)"
      using limit False s1(1) assms(1) by (simp add: a chunk_def [symmetric] rest_def)
    show ?thesis
    proof (cases "e1 = Returns")
      case True
      then have "socket_loop env p (a # arrivals) stream s = Some (rest, s1)" "reads_frames env p bs s Returns s1"
        using loop s1 by simp_all
      with s1(3) stream show ?thesis
        apply -
        by (rule exI [of _ chunk], rule exI [of _ rest], rule exI [of _ Returns], rule exI [of _ s1]) (simp add: bs_def)
    next
      case waits: False
      then have e1: "e1 = Waits" by (cases e1) simp_all
      have good: "\<not> bad_frame p (snd (frames p bs))" "holding p (snd (frames p bs)) s1"
        using s1(2) e1 by (auto simp: reads_frames_def split: if_splits)
      have "Fails \<notin> set arrivals" using Cons.prems(2) by simp
      from Cons.IH [OF good(2) this, of rest] obtain used rest' e s' where IH: "socket_loop env p arrivals rest s1 = Some (rest', s')" "rest = used @ rest'"
        "reads_frames env p (snd (frames p bs) @ decrypt env (receivePosition s1) used) s1 e s'"
        "receivePosition s' = receivePosition s1 + length used"
        "e = Waits \<and> Arrives 0 \<notin> set arrivals \<and> length rest \<le> length arrivals \<longrightarrow> rest' = []"
        by blast
      have "reads_frames env p (bs @ decrypt env (receivePosition s1) used) s e s'"
        using reads_frames_step [OF _ good(1) IH(3)] s1(2) e1 by simp
      moreover have "bs @ decrypt env (receivePosition s1) used = held @ decrypt env (receivePosition s) (chunk @ used)"
        by (simp add: bs_def decrypt_append s1(3))
      moreover have "length rest < length stream" using False stream by (cases chunk) auto
      then have "e = Waits \<and> Arrives 0 \<notin> set (a # arrivals) \<and> length stream \<le> length (a # arrivals) \<longrightarrow> rest' = []"
        using IH(5) by auto
      moreover have "socket_loop env p (a # arrivals) stream s = Some (rest', s')" using loop waits IH(1) by simp
      ultimately show ?thesis
        using IH(2,4) s1(3) stream
        apply -
        by (rule exI [of _ "chunk @ used"], rule exI [of _ rest'], rule exI [of _ e], rule exI [of _ s']) auto
    qed
  qed
qed

text \<open>The state before a read: a new connection, or one that has read before.\<close>

lemma new_tcp_holding:
  "holding p [] ((new_tcp nonce)\<lparr>smallBuffer := replicate kSmallBufferSize 0\<rparr>)"
  by (simp add: holding_def new_tcp_def current_buffer_def kSmallBufferSize_def kMinPacketBuffer_def)

lemma socketRead_spec:
  assumes "env_closes env = (\<lambda>_. False)" "s = new_tcp nonce \<and> held = [] \<or> holding p held s" "Fails \<notin> set arrivals"
  shows "\<exists>used rest e s'. socketRead env p arrivals stream s = Some (rest, s') \<and> stream = used @ rest
    \<and> reads_frames env p (held @ decrypt env (receivePosition s) used) s e s'
    \<and> receivePosition s' = receivePosition s + length used
    \<and> (e = Waits \<and> Arrives 0 \<notin> set arrivals \<and> length stream \<le> length arrivals \<longrightarrow> rest = [])"
proof -
  define s1 where "s1 = (if smallBuffer s = [] then s\<lparr>smallBuffer := replicate kSmallBufferSize 0\<rparr> else s)"
  have "holding p held s1 \<and> (leftBytes s > 0 \<or> \<not> usingLargeBuffer s)"
  proof (cases "holding p held s")
    case True
    then have "smallBuffer s \<noteq> []" by (auto simp: holding_def kSmallBufferSize_def)
    with True show ?thesis by (auto simp: s1_def holding_def split: if_splits)
  next
    case False
    with assms(2) show ?thesis using new_tcp_holding [of p nonce] by (simp add: s1_def new_tcp_def)
  qed
  then have s1: "holding p held s1" "leftBytes s > 0 \<or> \<not> usingLargeBuffer s" by simp_all
  have read: "socketRead env p arrivals stream s = socket_loop env p arrivals stream s1"
    using s1(2) assms(1) by (simp add: socketRead_def s1_def)
  have same: "same s1 s" "receivePosition s1 = receivePosition s" by (simp_all add: same_def seen_def s1_def)
  obtain used rest e s' where loop: "socket_loop env p arrivals stream s1 = Some (rest, s')" "stream = used @ rest"
    "reads_frames env p (held @ decrypt env (receivePosition s1) used) s1 e s'" "receivePosition s' = receivePosition s1 + length used"
    "e = Waits \<and> Arrives 0 \<notin> set arrivals \<and> length stream \<le> length arrivals \<longrightarrow> rest = []"
    using socket_loop_spec [OF assms(1) s1(1) assms(3)] by blast
  have "reads_frames env p (held @ decrypt env (receivePosition s) used) s e s'"
    using reads_frames_same [OF same(1) loop(3)] same(2) by simp
  with loop same(2) show ?thesis unfolding read by auto
qed

text \<open>
  C33. However the bytes of the stream are split up on arrival, \<open>socketRead\<close> hands on exactly the
  packets that the decrypted stream consists of, each once and in order: the packets handed on and
  the bytes still held are those that cutting the bytes received so far gives. No assertion fails
  and no span leaves its buffer, also when bytes are moved under the span that is being walked
  over, and everything that arrives is read. A frame that is not a packet makes it report an error
  after all packets before it.
\<close>

theorem stream_cut_into_packets:
  assumes "env_closes env = (\<lambda>_. False)" "s = new_tcp nonce \<and> held = [] \<or> holding p held s" "Fails \<notin> set arrivals"
  shows "\<exists>used rest s' t. socketRead env p arrivals stream s = Some (rest, s') \<and> stream = used @ rest
    \<and> (let (packets, left) = frames p (held @ decrypt env (receivePosition s) used)
       in deliver_all env p packets s = Some t
          \<and> (if bad_frame p left then seen s' = seen (emit (ConnectionError kErrorCodeOther) t)
             else seen s' = seen t \<and> holding p left s'
                  \<and> (Arrives 0 \<notin> set arrivals \<and> length stream \<le> length arrivals \<longrightarrow> rest = [])))"
proof -
  obtain used rest e s' where r: "socketRead env p arrivals stream s = Some (rest, s')" "stream = used @ rest"
    "reads_frames env p (held @ decrypt env (receivePosition s) used) s e s'"
    "e = Waits \<and> Arrives 0 \<notin> set arrivals \<and> length stream \<le> length arrivals \<longrightarrow> rest = []"
    using socketRead_spec [OF assms] by blast
  then show ?thesis
    by (auto simp: reads_frames_def same_def split_beta Let_def split: if_splits)
qed

text \<open>A packet of four bytes in two pieces: it is the message of the server that something went wrong.\<close>

theorem stream_cut_into_packets_witness:
  "\<exists>s'. socketRead \<lparr>env_crypt = (\<lambda>_ b. b), env_reply = (\<lambda>_. None), env_closes = (\<lambda>_. False)\<rparr> Version0
      (replicate 5 (Arrives 2)) [1, 5, 0, 0, 0] (new_tcp (0::nat)) = Some ([], s') \<and> seen s' = (Waiting, [], [ConnectionError 5])"
proof -
  define env :: "nat tcp_env" where "env = \<lparr>env_crypt = (\<lambda>_ b. b), env_reply = (\<lambda>_. None), env_closes = (\<lambda>_. False)\<rparr>"
  have env: "env_closes env = (\<lambda>_. False)" "Fails \<notin> set (replicate 5 (Arrives 2))" by (simp_all add: env_def)
  have decrypt: "decrypt env i bs = bs" for i bs by (simp add: decrypt_def env_def map_nth)
  have size: "readPacketLength Version0 (1 # bs) = 5" for bs by (simp add: readPacketLength0_def)
  obtain used rest s' t where r: "socketRead env Version0 (replicate 5 (Arrives 2)) [1, 5, 0, 0, 0] (new_tcp 0) = Some (rest, s')"
    "[1, 5, 0, 0, 0] = used @ rest" "deliver_all env Version0 (fst (frames Version0 used)) (new_tcp 0) = Some t"
    "if bad_frame Version0 (snd (frames Version0 used)) then seen s' = seen (emit (ConnectionError kErrorCodeOther) t)
     else seen s' = seen t \<and> rest = []"
  proof -
    have start: "new_tcp 0 = new_tcp 0 \<and> [] = [] \<or> holding Version0 [] (new_tcp (0::nat))" by simp
    have all: "Arrives 0 \<notin> set (replicate 5 (Arrives 2)) \<and> length [1, 5, 0, 0, 0 :: byte] \<le> length (replicate 5 (Arrives 2))" by simp
    note that_used = that
    from stream_cut_into_packets [OF env(1) start env(2), of "[1, 5, 0, 0, 0]", unfolded decrypt append_Nil case_prod_beta Let_def]
    obtain used rest s' t where "socketRead env Version0 (replicate 5 (Arrives 2)) [1, 5, 0, 0, 0] (new_tcp 0) = Some (rest, s')"
      "[1, 5, 0, 0, 0] = used @ rest" "deliver_all env Version0 (fst (frames Version0 used)) (new_tcp 0) = Some t"
      "if bad_frame Version0 (snd (frames Version0 used)) then seen s' = seen (emit (ConnectionError kErrorCodeOther) t)
       else seen s' = seen t \<and> holding Version0 (snd (frames Version0 used)) s' \<and> (Arrives 0 \<notin> set (replicate 5 (Arrives 2)) \<and>
          length [1, 5, 0, 0, 0 :: byte] \<le> length (replicate 5 (Arrives 2)) \<longrightarrow> rest = [])"
      by (elim exE conjE)
    with that_used all show thesis by (auto split: if_splits)
  qed
  have "\<not> bad_frame Version0 (snd (frames Version0 used))"
  proof (cases "length used = 5")
    case True
    then have "rest = []" using arg_cong [OF r(2), of length] by simp
    then have "used = [1, 5, 0, 0, 0]" using r(2) by simp
    then show ?thesis using size [of "[5, 0, 0, 0]"] by (simp add: frames_packet bad_frame_def)
  next
    case False
    have "length used + length rest = 5" using arg_cong [OF r(2), of length] by simp
    then have "used = [] \<or> (\<exists>us. used = 1 # us \<and> length us < 4)" using r(2) False by (cases used) auto
    then show ?thesis using size by (auto simp: frames_none bad_frame_def)
  qed
  with r have r': "rest = []" "used = [1, 5, 0, 0, 0]" "seen s' = seen t" by auto
  have "fst (frames Version0 used) = [[1, 5, 0, 0, 0]]" using size [of "[5, 0, 0, 0]"] by (simp add: r'(2) frames_packet)
  then have "t = emit (ConnectionError 5) (new_tcp 0)"
    using r(3) size [of "[5, 0, 0, 0]"]
    by (simp add: socketPacket_def parsePacket_def readPacket_def handle_packet_def subspan_def bytes_word_def kUnknownSize_def kInvalidSize_def Let_def)
  with r(1) r' show ?thesis by (auto simp: env_def seen_def emit_def new_tcp_def)
qed

end
