(* ===== verification/DcOptions.thy ===== *)
theory DcOptions
  imports TcpProtocol
begin

text \<open>
  \<open>MTP::DcOptions\<close> (mtproto/mtproto_dc_options.h and .cpp), the list of the servers of each data
  center, with the arithmetic of shifted data center ids (mtproto/core_types.h, mtproto/facade.h).
  RSA keys are values of a type argument, with the operations of \<open>RSAPublicKey\<close> that are used in
  the record \<open>rsa\<close>; the locks are not modelled, but the work of \<open>WriteLocker\<close>'s destructor is. A
  failed \<open>Assert\<close>, or a read through an end iterator, is \<open>None\<close>.
\<close>

section \<open>Definitions: data center ids\<close>

type_synonym DcId = int

definition kDcShift :: int where "kDcShift = 10000"

definition kUpdaterDcShift :: int where "kUpdaterDcShift = 3"

definition kExportMediaDcShift :: int where "kExportMediaDcShift = 5"

definition kGroupCallStreamDcShift :: int where "kGroupCallStreamDcShift = 6"

definition kMaxMediaDcCount :: int where "kMaxMediaDcCount = 0x10"

definition kBaseDownloadDcShift :: int where "kBaseDownloadDcShift = 0x10"

definition kBaseUploadDcShift :: int where "kBaseUploadDcShift = 0x20"

definition kUploadSessionsCount :: int where "kUploadSessionsCount = 2"

definition kDestroyKeyStartDcShift :: int where "kDestroyKeyStartDcShift = 0x100"

definition kTemporaryMainDc :: int where "kTemporaryMainDc = 1000"

definition BareDcId :: "int \<Rightarrow> DcId" where
  "BareDcId shiftedDcId = shiftedDcId smod kDcShift"

definition ShiftDcId :: "DcId \<Rightarrow> int \<Rightarrow> int" where
  "ShiftDcId dcId v = dcId + kDcShift * v"

definition GetDcIdShift :: "int \<Rightarrow> int" where
  "GetDcIdShift shiftedDcId = shiftedDcId sdiv kDcShift"

definition downloadDcId :: "DcId \<Rightarrow> int \<Rightarrow> int option" where
  "downloadDcId dcId index =
     (if index < kMaxMediaDcCount then Some (ShiftDcId dcId (kBaseDownloadDcShift + index)) else None)"

definition isDownloadDcId :: "int \<Rightarrow> bool" where
  "isDownloadDcId shiftedDcId \<longleftrightarrow> shiftedDcId \<ge> the (downloadDcId 0 0)
     \<and> shiftedDcId < the (downloadDcId 0 (kMaxMediaDcCount - 1)) + kDcShift"

definition uploadDcId :: "int \<Rightarrow> int option" where
  "uploadDcId index =
     (if index \<ge> 0 \<and> index < kUploadSessionsCount then Some (ShiftDcId 0 (kBaseUploadDcShift + index)) else None)"

definition isUploadDcId :: "int \<Rightarrow> bool" where
  "isUploadDcId shiftedDcId \<longleftrightarrow> shiftedDcId \<ge> ShiftDcId 0 kBaseUploadDcShift
     \<and> shiftedDcId < ShiftDcId 0 (kBaseUploadDcShift + (kUploadSessionsCount - 1)) + kDcShift"

definition isMediaClusterDcId :: "int \<Rightarrow> bool" where
  "isMediaClusterDcId shiftedDcId \<longleftrightarrow>
     (let shift = GetDcIdShift shiftedDcId
      in isDownloadDcId shiftedDcId \<or> shift = kGroupCallStreamDcShift \<or> shift = kExportMediaDcShift
         \<or> shift = kUpdaterDcShift)"

definition isTemporaryDcId :: "int \<Rightarrow> bool" where
  "isTemporaryDcId shiftedDcId \<longleftrightarrow> BareDcId shiftedDcId \<ge> kTemporaryMainDc"

definition getRealIdFromTemporaryDcId :: "int \<Rightarrow> DcId" where
  "getRealIdFromTemporaryDcId shiftedDcId =
     (let dcId = BareDcId shiftedDcId in if dcId \<ge> kTemporaryMainDc then dcId - kTemporaryMainDc else 0)"

definition getTemporaryIdFromRealDcId :: "int \<Rightarrow> DcId" where
  "getTemporaryIdFromRealDcId shiftedDcId =
     (let dcId = BareDcId shiftedDcId in if dcId < kTemporaryMainDc then dcId + kTemporaryMainDc else 0)"

definition destroyKeyNextDcId :: "int \<Rightarrow> int" where
  "destroyKeyNextDcId shiftedDcId =
     (let shift = GetDcIdShift shiftedDcId
      in ShiftDcId (BareDcId shiftedDcId) (if shift \<noteq> 0 then shift + 1 else kDestroyKeyStartDcShift))"

section \<open>Definitions: endpoints\<close>

text \<open>The flags of \<open>dcOption\<close> in the scheme of the API (Resources/tl/api.tl).\<close>

definition f_ipv6 :: uint32 where "f_ipv6 = 1"

definition f_media_only :: uint32 where "f_media_only = 2"

definition f_tcpo_only :: uint32 where "f_tcpo_only = 4"

definition f_cdn :: uint32 where "f_cdn = 8"

definition f_static :: uint32 where "f_static = 16"

definition f_secret :: uint32 where "f_secret = 1024"

record Endpoint =
  ep_id :: DcId
  ep_flags :: uint32
  ep_ip :: string
  ep_port :: int
  ep_secret :: bytes

type_synonym dc_data = "(DcId, Endpoint list) flat_map"

datatype Environment = Production | Test

datatype DcType = Regular | Temporary | MediaCluster | Cdn

record 'k rsa =
  rsa_parse :: "string \<Rightarrow> 'k"
  rsa_make :: "bytes \<Rightarrow> bytes \<Rightarrow> 'k"
  rsa_none :: 'k
  rsa_valid :: "'k \<Rightarrow> bool"
  rsa_fingerprint :: "'k \<Rightarrow> uint64"
  rsa_N :: "'k \<Rightarrow> bytes"
  rsa_E :: "'k \<Rightarrow> bytes"

record 'k dc_options =
  dc_environment :: Environment
  dc_data :: dc_data
  dc_cdnDcIds :: "DcId list"
  dc_publicKeys :: "(uint64, 'k) flat_map"
  dc_cdnPublicKeys :: "(DcId, (uint64, 'k) flat_map) flat_map"
  dc_immutable :: bool
  dc_changed :: "DcId list"
  dc_cdnConfigChanged :: nat

definition ValidateSecret :: "bytes \<Rightarrow> bool" where
  "ValidateSecret secret \<longleftrightarrow> (length secret \<ge> 21 \<and> secret ! 0 = 0xEE)
     \<or> (length secret = 17 \<and> secret ! 0 = 0xDD) \<or> length secret = 16 \<or> secret = []"

definition has_flag :: "uint32 \<Rightarrow> Endpoint \<Rightarrow> bool" where
  "has_flag flag e \<longleftrightarrow> ep_flags e AND flag \<noteq> 0"

definition ApplyOneOption :: "Endpoint \<Rightarrow> dc_data \<Rightarrow> bool \<times> dc_data" where
  "ApplyOneOption option data =
     (case map_of data (ep_id option) of
        Some list \<Rightarrow>
          if list_ex (\<lambda>e. ep_ip e = ep_ip option \<and> ep_port e = ep_port option) list then (False, data)
          else (True, flat_put (ep_id option) (list @ [option]) data)
      | None \<Rightarrow> (True, flat_emplace (ep_id option) [option] data))"

text \<open>The comparison of two sets of options, and the walk over both.\<close>

definition options_find :: "Endpoint list \<Rightarrow> Endpoint \<Rightarrow> bool" where
  "options_find options what = list_ex (\<lambda>e. ep_ip e = ep_ip what \<and> ep_port e = ep_port what) options"

definition options_equal :: "Endpoint list \<Rightarrow> Endpoint list \<Rightarrow> bool" where
  "options_equal m n \<longleftrightarrow> length m = length n \<and> list_all (options_find n) m"

definition max_dc_id :: DcId where "max_dc_id = 2 ^ 31 - 1"

fun CountOptionsDifference :: "dc_data \<Rightarrow> dc_data \<Rightarrow> DcId list option" where
  "CountOptionsDifference [] [] = Some []"
| "CountOptionsDifference ((aId, m) # a) [] =
     (if aId < max_dc_id then map_option (\<lambda>r. aId # r) (CountOptionsDifference a []) else None)"
| "CountOptionsDifference [] ((bId, n) # b) =
     (if bId < max_dc_id then map_option (\<lambda>r. bId # r) (CountOptionsDifference [] b) else None)"
| "CountOptionsDifference ((aId, m) # a) ((bId, n) # b) =
     (if aId < bId then map_option (\<lambda>r. aId # r) (CountOptionsDifference a ((bId, n) # b))
      else if bId < aId then map_option (\<lambda>r. bId # r) (CountOptionsDifference ((aId, m) # a) b)
      else map_option (\<lambda>r. if options_equal m n then r else aId # r) (CountOptionsDifference a b))"

section \<open>Definitions: operations\<close>

definition computeCdnDcIds :: "'k dc_options \<Rightarrow> 'k dc_options option" where
  "computeCdnDcIds d =
     (if list_all (\<lambda>(id, list). list \<noteq> []) (dc_data d)
      then Some (d\<lparr>dc_cdnDcIds := fold (\<lambda>(id, list) ids. if has_flag f_cdn (hd list) then flat_insert (BareDcId id) ids else ids)
                       (dc_data d) []\<rparr>)
      else None)"

definition processFromList :: "Endpoint list \<Rightarrow> bool \<Rightarrow> 'k dc_options \<Rightarrow> 'k dc_options option" where
  "processFromList options overwrite d =
     (if options = [] \<or> dc_immutable d then Some d
      else
        let data = (if overwrite then [] else dc_data d);
            data = fold (\<lambda>option data. snd (ApplyOneOption option data)) options data
        in do {
          difference \<leftarrow> CountOptionsDifference (dc_data d) data;
          d \<leftarrow> computeCdnDcIds (if difference \<noteq> [] then d\<lparr>dc_data := data\<rparr> else d);
          Some (d\<lparr>dc_changed := dc_changed d @ difference\<rparr>) })"

definition setFromList :: "Endpoint list \<Rightarrow> 'k dc_options \<Rightarrow> 'k dc_options option" where
  "setFromList options d = processFromList options True d"

definition addFromList :: "Endpoint list \<Rightarrow> 'k dc_options \<Rightarrow> 'k dc_options option" where
  "addFromList options d = processFromList options False d"

definition constructAddOne :: "Endpoint \<Rightarrow> 'k dc_options \<Rightarrow> 'k dc_options option" where
  "constructAddOne option d =
     computeCdnDcIds (d\<lparr>dc_data := snd (ApplyOneOption (option\<lparr>ep_id := BareDcId (ep_id option)\<rparr>) (dc_data d))\<rparr>)"

text \<open>The endpoints of one item of the other options, with whether any was new.\<close>

fun apply_list :: "Endpoint list \<Rightarrow> dc_data \<Rightarrow> bool \<times> dc_data" where
  "apply_list [] data = (False, data)"
| "apply_list (e # es) data =
     (let (changed, data) = ApplyOneOption e data; (result, data) = apply_list es data
      in (changed \<or> result, data))"

fun apply_items :: "dc_data \<Rightarrow> dc_data \<Rightarrow> DcId list \<times> dc_data" where
  "apply_items [] data = ([], data)"
| "apply_items ((dcId, list) # items) data =
     (let (changed, data) = apply_list list data; (ids, data) = apply_items items data
      in (if changed then dcId # ids else ids, data))"

definition insert_keys :: "(uint64, 'k) flat_map \<Rightarrow> (uint64, 'k) flat_map \<Rightarrow> (uint64, 'k) flat_map" where
  "insert_keys new keys = fold (\<lambda>(fingerprint, key) keys. flat_emplace fingerprint key keys) new keys"

definition merge_keys :: "(DcId, (uint64, 'k) flat_map) flat_map \<Rightarrow> (DcId, (uint64, 'k) flat_map) flat_map \<Rightarrow>
    (DcId, (uint64, 'k) flat_map) flat_map" where
  "merge_keys other all =
     fold (\<lambda>(dcId, new) all. if new = [] then all
             else flat_put dcId (insert_keys new (case map_of all dcId of Some keys \<Rightarrow> keys | None \<Rightarrow> [])) all) other all"

definition addFromOther :: "'k dc_options \<Rightarrow> 'k dc_options \<Rightarrow> 'k dc_options option" where
  "addFromOther options d =
     (if dc_immutable d \<or> dc_data options = [] then Some d
      else
        let (idsChanged, data) = apply_items (dc_data options) (dc_data d);
            keys = merge_keys (dc_cdnPublicKeys options) (dc_cdnPublicKeys d)
        in do {
          d \<leftarrow> computeCdnDcIds (d\<lparr>dc_data := data, dc_cdnPublicKeys := keys\<rparr>);
          Some (d\<lparr>dc_changed := dc_changed d @ idsChanged\<rparr>) })"

definition hasMediaOnlyOptionsFor :: "DcId \<Rightarrow> 'k dc_options \<Rightarrow> bool" where
  "hasMediaOnlyOptionsFor dcId d =
     (case map_of (dc_data d) dcId of None \<Rightarrow> False | Some list \<Rightarrow> list_ex (has_flag f_media_only) list)"

definition dcType :: "int \<Rightarrow> 'k dc_options \<Rightarrow> DcType" where
  "dcType shiftedDcId d =
     (if isTemporaryDcId shiftedDcId then Temporary
      else if BareDcId shiftedDcId \<in> set (dc_cdnDcIds d) then Cdn
      else if isMediaClusterDcId shiftedDcId \<and> hasMediaOnlyOptionsFor (BareDcId shiftedDcId) d then MediaCluster
      else Regular)"

definition configEnumDcIds :: "'k dc_options \<Rightarrow> DcId list option" where
  "configEnumDcIds d =
     (if list_all (\<lambda>(id, list). list \<noteq> []) (dc_data d)
      then Some (sort (map fst (filter (\<lambda>(id, list). \<not> has_flag f_cdn (hd list) \<and> \<not> isTemporaryDcId id) (dc_data d))))
      else None)"

datatype Address = IPv4 | IPv6

datatype Protocol = Tcp | Http

type_synonym Variants = "Address \<Rightarrow> Protocol \<Rightarrow> Endpoint list"

definition push_variant :: "Address \<Rightarrow> Protocol \<Rightarrow> Endpoint \<Rightarrow> Variants \<Rightarrow> Variants" where
  "push_variant a p e v = v(a := (v a)(p := v a p @ [e]))"

definition lookup_step :: "DcType \<Rightarrow> Endpoint \<Rightarrow> Variants \<Rightarrow> Variants" where
  "lookup_step type e v =
     (if type = Cdn \<and> \<not> has_flag f_cdn e then v
      else if type \<noteq> MediaCluster \<and> has_flag f_media_only e then v
      else if \<not> ValidateSecret (ep_secret e) then v
      else
        let address = (if has_flag f_ipv6 e then IPv6 else IPv4);
            v = push_variant address Tcp e v
        in if \<not> has_flag (f_tcpo_only OR f_secret) e then push_variant address Http e v else v)"

definition FilterIfHasWithFlag :: "uint32 \<Rightarrow> Variants \<Rightarrow> Variants" where
  "FilterIfHasWithFlag flag v = (\<lambda>a p. if list_ex (has_flag flag) (v a p) then filter (has_flag flag) (v a p) else v a p)"

definition lookup_dc :: "DcId \<Rightarrow> DcType \<Rightarrow> bool \<Rightarrow> 'k dc_options \<Rightarrow> Variants" where
  "lookup_dc dcId type throughProxy d =
     (case map_of (dc_data d) dcId of
        None \<Rightarrow> (\<lambda>a p. [])
      | Some list \<Rightarrow>
          let v = fold (lookup_step type) list (\<lambda>a p. []);
              v = (if type = MediaCluster then FilterIfHasWithFlag f_media_only v else v)
          in if throughProxy then FilterIfHasWithFlag f_static v else v)"

definition setCDNConfig :: "'k rsa \<Rightarrow> (DcId \<times> string) list \<Rightarrow> 'k dc_options \<Rightarrow> 'k dc_options option" where
  "setCDNConfig rsa keys d =
     do { d \<leftarrow> computeCdnDcIds (d\<lparr>dc_cdnPublicKeys :=
            fold (\<lambda>(dcId, data) all. let key = rsa_parse rsa data
                    in if rsa_valid rsa key
                       then flat_put dcId (flat_emplace (rsa_fingerprint rsa key) key
                              (case map_of all dcId of Some keys \<Rightarrow> keys | None \<Rightarrow> [])) all
                       else all) keys []\<rparr>);
          Some (d\<lparr>dc_cdnConfigChanged := dc_cdnConfigChanged d + 1\<rparr>) }"

definition hasCDNKeysForDc :: "DcId \<Rightarrow> 'k dc_options \<Rightarrow> bool" where
  "hasCDNKeysForDc dcId d \<longleftrightarrow> map_of (dc_cdnPublicKeys d) dcId \<noteq> None"

fun find_key :: "'k rsa \<Rightarrow> (uint64, 'k) flat_map \<Rightarrow> uint64 list \<Rightarrow> 'k" where
  "find_key rsa keys [] = rsa_none rsa"
| "find_key rsa keys (f # fs) = (case map_of keys f of Some key \<Rightarrow> key | None \<Rightarrow> find_key rsa keys fs)"

definition getDcRSAKey :: "'k rsa \<Rightarrow> DcId \<Rightarrow> uint64 list \<Rightarrow> 'k dc_options \<Rightarrow> 'k" where
  "getDcRSAKey rsa dcId fingerprints d =
     (case map_of (dc_cdnPublicKeys d) dcId of
        Some keys \<Rightarrow> find_key rsa keys fingerprints
      | None \<Rightarrow> find_key rsa (dc_publicKeys d) fingerprints)"

section \<open>Definitions: built in options\<close>

definition kBuiltInDcs :: "(DcId \<times> string \<times> int) list" where
  "kBuiltInDcs =
     [(1, ''149.154.175.50'', 443),
      (2, ''149.154.167.51'', 443),
      (2, ''95.161.76.100'', 443),
      (3, ''149.154.175.100'', 443),
      (4, ''149.154.167.91'', 443),
      (5, ''149.154.171.5'', 443)]"

definition kBuiltInDcsIPv6 :: "(DcId \<times> string \<times> int) list" where
  "kBuiltInDcsIPv6 =
     [(1, ''2001:0b28:f23d:f001:0000:0000:0000:000a'', 443),
      (2, ''2001:067c:04e8:f002:0000:0000:0000:000a'', 443),
      (3, ''2001:0b28:f23d:f003:0000:0000:0000:000a'', 443),
      (4, ''2001:067c:04e8:f004:0000:0000:0000:000a'', 443),
      (5, ''2001:0b28:f23f:f005:0000:0000:0000:000a'', 443)]"

definition kBuiltInDcsTest :: "(DcId \<times> string \<times> int) list" where
  "kBuiltInDcsTest =
     [(1, ''149.154.175.10'', 443),
      (2, ''149.154.167.40'', 443),
      (3, ''149.154.175.117'', 443)]"

definition kBuiltInDcsIPv6Test :: "(DcId \<times> string \<times> int) list" where
  "kBuiltInDcsIPv6Test =
     [(1, ''2001:0b28:f23d:f001:0000:0000:0000:000e'', 443),
      (2, ''2001:067c:04e8:f002:0000:0000:0000:000e'', 443),
      (3, ''2001:0b28:f23d:f003:0000:0000:0000:000e'', 443)]"

text \<open>The built in keys, as the lines of their PEM text.\<close>

definition kTestPublicRSAKeys :: "string list" where
  "kTestPublicRSAKeys =
     [''-----BEGIN RSA PUBLIC KEY-----'',
      ''MIIBCgKCAQEAyMEdY1aR+sCR3ZSJrtztKTKqigvO/vBfqACJLZtS7QMgCGXJ6XIR'',
      ''yy7mx66W0/sOFa7/1mAZtEoIokDP3ShoqF4fVNb6XeqgQfaUHd8wJpDWHcR2OFwv'',
      ''plUUI1PLTktZ9uW2WE23b+ixNwJjJGwBDJPQEQFBE+vfmH0JP503wr5INS1poWg/'',
      ''j25sIWeYPHYeOrFp/eXaqhISP6G+q2IeTaWTXpwZj4LzXq5YOpk4bYEQ6mvRq7D1'',
      ''aHWfYmlEGepfaYR8Q0YqvvhYtMte3ITnuSJs171+GDqpdKcSwHnd6FudwGO4pcCO'',
      ''j4WcDuXc2CTHgH8gFTNhp/Y8/SpDOhvn9QIDAQAB'',
      ''-----END RSA PUBLIC KEY-----'']"

definition kPublicRSAKeys :: "string list" where
  "kPublicRSAKeys =
     [''-----BEGIN RSA PUBLIC KEY-----'',
      ''MIIBCgKCAQEA6LszBcC1LGzyr992NzE0ieY+BSaOW622Aa9Bd4ZHLl+TuFQ4lo4g'',
      ''5nKaMBwK/BIb9xUfg0Q29/2mgIR6Zr9krM7HjuIcCzFvDtr+L0GQjae9H0pRB2OO'',
      ''62cECs5HKhT5DZ98K33vmWiLowc621dQuwKWSQKjWf50XYFw42h21P2KXUGyp2y/'',
      ''+aEyZ+uVgLLQbRA1dEjSDZ2iGRy12Mk5gpYc397aYp438fsJoHIgJ2lgMv5h7WY9'',
      ''t6N/byY9Nw9p21Og3AoXSL2q/2IJ1WRUhebgAdGVMlV1fkuOQoEzR7EdpqtQD9Cs'',
      ''5+bfo3Nhmcyvk5ftB0WkJ9z6bNZ7yxrP8wIDAQAB'',
      ''-----END RSA PUBLIC KEY-----'']"

definition pem_text :: "string list \<Rightarrow> string" where
  "pem_text ls = butlast (concat (map (\<lambda>l. l @ [CHR 0x0A]) ls))"

definition isTestMode :: "'k dc_options \<Rightarrow> bool" where
  "isTestMode d \<longleftrightarrow> dc_environment d \<noteq> Production"

definition readBuiltInPublicKeys :: "'k rsa \<Rightarrow> 'k dc_options \<Rightarrow> 'k dc_options" where
  "readBuiltInPublicKeys rsa d =
     (let parsed = rsa_parse rsa (pem_text (if dc_environment d = Test then kTestPublicRSAKeys else kPublicRSAKeys))
      in if rsa_valid rsa parsed
         then d\<lparr>dc_publicKeys := flat_emplace (rsa_fingerprint rsa parsed) parsed (dc_publicKeys d)\<rparr>
         else d)"

definition apply_built_in :: "uint32 \<Rightarrow> (DcId \<times> string \<times> int) list \<Rightarrow> dc_data \<Rightarrow> dc_data" where
  "apply_built_in flags entries data =
     fold (\<lambda>(id, ip, port) data. snd (ApplyOneOption
             \<lparr>ep_id = id, ep_flags = flags, ep_ip = ip, ep_port = port, ep_secret = []\<rparr> data)) entries data"

definition constructFromBuiltIn :: "'k rsa \<Rightarrow> 'k dc_options \<Rightarrow> 'k dc_options option" where
  "constructFromBuiltIn rsa d =
     (let d = readBuiltInPublicKeys rsa (d\<lparr>dc_data := []\<rparr>);
          data = apply_built_in f_static (if isTestMode d then kBuiltInDcsTest else kBuiltInDcs) (dc_data d);
          data = apply_built_in (f_static OR f_ipv6) (if isTestMode d then kBuiltInDcsIPv6Test else kBuiltInDcsIPv6) data
      in computeCdnDcIds (d\<lparr>dc_data := data\<rparr>))"

definition new_DcOptions :: "'k rsa \<Rightarrow> Environment \<Rightarrow> 'k dc_options option" where
  "new_DcOptions rsa environment =
     constructFromBuiltIn rsa \<lparr>dc_environment = environment, dc_data = [], dc_cdnDcIds = [], dc_publicKeys = [],
       dc_cdnPublicKeys = [], dc_immutable = False, dc_changed = [], dc_cdnConfigChanged = 0\<rparr>"

section \<open>Definitions: what the options promise\<close>

text \<open>
  The abstract view of the options is the list of endpoints of each data center, where an endpoint
  is known by its address.
\<close>

definition address :: "Endpoint \<Rightarrow> string \<times> int" where
  "address e = (ep_ip e, ep_port e)"

definition endpoints :: "dc_data \<Rightarrow> DcId \<Rightarrow> Endpoint list" where
  "endpoints data dcId = (case map_of data dcId of Some list \<Rightarrow> list | None \<Rightarrow> [])"

abbreviation addresses :: "dc_data \<Rightarrow> DcId \<Rightarrow> (string \<times> int) set" where
  "addresses data dcId \<equiv> address ` set (endpoints data dcId)"

definition list_ok :: "DcId \<Rightarrow> Endpoint list \<Rightarrow> bool" where
  "list_ok dcId list \<longleftrightarrow> list \<noteq> [] \<and> (\<forall>e \<in> set list. ep_id e = dcId) \<and> distinct (map address list)"

definition data_ok :: "dc_data \<Rightarrow> bool" where
  "data_ok data \<longleftrightarrow> flat_map_ok data \<and> (\<forall>(dcId, list) \<in> set data. list_ok dcId list)"

definition ids_bounded :: "dc_data \<Rightarrow> bool" where
  "ids_bounded data \<longleftrightarrow> (\<forall>dcId \<in> fst ` set data. dcId < max_dc_id)"

definition options_ok :: "'k dc_options \<Rightarrow> bool" where
  "options_ok d \<longleftrightarrow> data_ok (dc_data d) \<and> ids_bounded (dc_data d) \<and> sorted_wrt (<) (dc_cdnDcIds d)
     \<and> set (dc_cdnDcIds d) = {BareDcId dcId | dcId. endpoints (dc_data d) dcId \<noteq> [] \<and> has_flag f_cdn (hd (endpoints (dc_data d) dcId))}"

text \<open>The CDN keys of a data center, and the endpoints of a list that fit a type, an address family and a protocol.\<close>

definition keys_of :: "(DcId, (uint64, 'k) flat_map) flat_map \<Rightarrow> DcId \<Rightarrow> (uint64, 'k) flat_map" where
  "keys_of keys dcId = (case map_of keys dcId of Some inner \<Rightarrow> inner | None \<Rightarrow> [])"

definition keys_ok :: "(DcId, (uint64, 'k) flat_map) flat_map \<Rightarrow> bool" where
  "keys_ok keys \<longleftrightarrow> flat_map_ok keys \<and> (\<forall>inner \<in> snd ` set keys. flat_map_ok inner)"

definition fitting :: "DcType \<Rightarrow> Address \<Rightarrow> Protocol \<Rightarrow> Endpoint \<Rightarrow> bool" where
  "fitting type a p e \<longleftrightarrow> (type = Cdn \<longrightarrow> has_flag f_cdn e) \<and> (has_flag f_media_only e \<longrightarrow> type = MediaCluster)
     \<and> Create (ep_secret e) \<noteq> None \<and> (a = IPv6 \<longleftrightarrow> has_flag f_ipv6 e)
     \<and> (p = Http \<longrightarrow> \<not> has_flag f_tcpo_only e \<and> \<not> has_flag f_secret e)"

text \<open>
  The states the options of one account pass through, from their construction, with what the
  server, the local configuration and the connections bring. \<open>options_step\<close> is one operation.
\<close>

inductive options_step :: "'k rsa \<Rightarrow> 'k dc_options \<Rightarrow> 'k dc_options \<Rightarrow> bool" for rsa where
  set_list: "setFromList options d = Some d' \<Longrightarrow> \<forall>e \<in> set options. ep_id e < max_dc_id \<Longrightarrow> options_step rsa d d'"
| add_list: "addFromList options d = Some d' \<Longrightarrow> \<forall>e \<in> set options. ep_id e < max_dc_id \<Longrightarrow> options_step rsa d d'"
| add_one: "constructAddOne option d = Some d' \<Longrightarrow> options_step rsa d d'"
| add_other: "addFromOther options d = Some d' \<Longrightarrow> options_ok options \<Longrightarrow> keys_ok (dc_cdnPublicKeys options) \<Longrightarrow> options_step rsa d d'"
| set_cdn: "setCDNConfig rsa keys d = Some d' \<Longrightarrow> options_step rsa d d'"

inductive options_reachable :: "'k rsa \<Rightarrow> 'k dc_options \<Rightarrow> bool" for rsa where
  start: "new_DcOptions rsa environment = Some d \<Longrightarrow> options_reachable rsa d"
| step: "options_reachable rsa d \<Longrightarrow> options_step rsa d d' \<Longrightarrow> options_reachable rsa d'"

text \<open>The endpoints with a flag, if there are any.\<close>

definition prefer_flag :: "uint32 \<Rightarrow> Endpoint list \<Rightarrow> Endpoint list" where
  "prefer_flag flag list = (if list_ex (has_flag flag) list then filter (has_flag flag) list else list)"

text \<open>Examples: keys that are all invalid, and options with one ordinary and one CDN data center.\<close>

definition no_rsa :: "unit rsa" where
  "no_rsa = \<lparr>rsa_parse = (\<lambda>_. ()), rsa_make = (\<lambda>_ _. ()), rsa_none = (), rsa_valid = (\<lambda>_. False),
     rsa_fingerprint = (\<lambda>_. 0), rsa_N = (\<lambda>_. []), rsa_E = (\<lambda>_. [])\<rparr>"

definition sample_options :: "unit dc_options" where
  "sample_options = \<lparr>dc_environment = Production,
     dc_data = [(2, [\<lparr>ep_id = 2, ep_flags = f_static, ep_ip = ''10.0.0.2'', ep_port = 443, ep_secret = []\<rparr>]),
                (4, [\<lparr>ep_id = 4, ep_flags = f_cdn, ep_ip = ''10.0.0.4'', ep_port = 443, ep_secret = []\<rparr>])],
     dc_cdnDcIds = [4], dc_publicKeys = [], dc_cdnPublicKeys = [], dc_immutable = False, dc_changed = [],
     dc_cdnConfigChanged = 0\<rparr>"

section \<open>Shifted data center ids\<close>

lemmas dc_shift_defs = kDcShift_def kUpdaterDcShift_def kExportMediaDcShift_def kGroupCallStreamDcShift_def
  kMaxMediaDcCount_def kBaseDownloadDcShift_def kBaseUploadDcShift_def kUploadSessionsCount_def
  kDestroyKeyStartDcShift_def kTemporaryMainDc_def

lemma nonneg_smod: "0 \<le> (a::int) \<Longrightarrow> 0 < b \<Longrightarrow> a smod b = a mod b"
  by (simp add: signed_modulo_int_def sgn_if minus_mult_div_eq_mod)

lemma nonneg_sdiv: "0 \<le> (a::int) \<Longrightarrow> 0 < b \<Longrightarrow> a sdiv b = a div b"
  by (simp add: signed_divide_int_def sgn_if)

lemma BareDcId_ShiftDcId: "0 \<le> dc \<Longrightarrow> dc < kDcShift \<Longrightarrow> 0 \<le> v \<Longrightarrow> BareDcId (ShiftDcId dc v) = dc"
  by (simp add: BareDcId_def ShiftDcId_def nonneg_smod kDcShift_def)

lemma GetDcIdShift_ShiftDcId: "0 \<le> dc \<Longrightarrow> dc < kDcShift \<Longrightarrow> 0 \<le> v \<Longrightarrow> GetDcIdShift (ShiftDcId dc v) = v"
  by (simp add: GetDcIdShift_def ShiftDcId_def nonneg_sdiv kDcShift_def)

lemma BareDcId_id: "0 \<le> dc \<Longrightarrow> dc < kDcShift \<Longrightarrow> BareDcId dc = dc"
  using BareDcId_ShiftDcId [of dc 0] by (simp add: ShiftDcId_def)

lemma isDownloadDcId_iff: "isDownloadDcId x \<longleftrightarrow> 160000 \<le> x \<and> x < 320000"
  by (simp add: isDownloadDcId_def downloadDcId_def ShiftDcId_def dc_shift_defs)

lemma isUploadDcId_iff: "isUploadDcId x \<longleftrightarrow> 320000 \<le> x \<and> x < 340000"
  by (simp add: isUploadDcId_def ShiftDcId_def dc_shift_defs)

text \<open>
  C34. Shifted data center ids carry the data center and the shift apart: both are read back, a
  download session of a data center is recognised as one and never as an upload session, a
  temporary id is recognised and leads back to the real one, and the sessions that destroy keys
  never run into the shifts of another kind.
\<close>

theorem shifted_ids_roundtrip:
  assumes "0 \<le> dc" "dc < kDcShift" "0 \<le> v"
  shows "BareDcId (ShiftDcId dc v) = dc \<and> GetDcIdShift (ShiftDcId dc v) = v
    \<and> (v < kMaxMediaDcCount \<longrightarrow> (\<exists>x. downloadDcId dc v = Some x \<and> BareDcId x = dc \<and> isDownloadDcId x \<and> \<not> isUploadDcId x))
    \<and> (dc < kTemporaryMainDc \<longrightarrow> \<not> isTemporaryDcId (ShiftDcId dc v)
         \<and> (let t = getTemporaryIdFromRealDcId (ShiftDcId dc v) in isTemporaryDcId t \<and> getRealIdFromTemporaryDcId t = dc))
    \<and> (v = 0 \<or> kDestroyKeyStartDcShift \<le> v \<longrightarrow>
         (let n = destroyKeyNextDcId (ShiftDcId dc v)
          in BareDcId n = dc \<and> kDestroyKeyStartDcShift \<le> GetDcIdShift n \<and> v < GetDcIdShift n
             \<and> \<not> isDownloadDcId n \<and> \<not> isUploadDcId n \<and> \<not> isMediaClusterDcId n))"
proof -
  have [simp]: "BareDcId (ShiftDcId dc v) = dc" "GetDcIdShift (ShiftDcId dc v) = v"
    using assms by (simp_all add: BareDcId_ShiftDcId GetDcIdShift_ShiftDcId)
  have download: "v < kMaxMediaDcCount \<Longrightarrow> BareDcId (ShiftDcId dc (kBaseDownloadDcShift + v)) = dc
      \<and> isDownloadDcId (ShiftDcId dc (kBaseDownloadDcShift + v)) \<and> \<not> isUploadDcId (ShiftDcId dc (kBaseDownloadDcShift + v))"
    using assms BareDcId_ShiftDcId [of dc "kBaseDownloadDcShift + v"]
    by (simp add: isDownloadDcId_iff isUploadDcId_iff) (simp add: ShiftDcId_def dc_shift_defs)
  have temporary: "dc < kTemporaryMainDc \<Longrightarrow> BareDcId (dc + kTemporaryMainDc) = dc + kTemporaryMainDc"
    using assms by (intro BareDcId_id) (simp_all add: dc_shift_defs)
  have destroy: "BareDcId (ShiftDcId dc w) = dc \<and> GetDcIdShift (ShiftDcId dc w) = w \<and> \<not> isDownloadDcId (ShiftDcId dc w)
      \<and> \<not> isUploadDcId (ShiftDcId dc w) \<and> \<not> isMediaClusterDcId (ShiftDcId dc w)" if "kDestroyKeyStartDcShift \<le> w" for w
  proof -
    have "GetDcIdShift (ShiftDcId dc w) = w" "BareDcId (ShiftDcId dc w) = dc"
      using assms that by (simp_all add: GetDcIdShift_ShiftDcId BareDcId_ShiftDcId kDestroyKeyStartDcShift_def)
    then show ?thesis
      using assms that by (simp add: isDownloadDcId_iff isUploadDcId_iff isMediaClusterDcId_def)
        (simp add: ShiftDcId_def dc_shift_defs)
  qed
  show ?thesis
    using assms download temporary destroy [of kDestroyKeyStartDcShift] destroy [of "v + 1"]
    by (auto simp: downloadDcId_def isTemporaryDcId_def getTemporaryIdFromRealDcId_def
        getRealIdFromTemporaryDcId_def destroyKeyNextDcId_def Let_def kDestroyKeyStartDcShift_def)
qed

theorem shifted_ids_roundtrip_witness: "BareDcId (ShiftDcId 4 2) = 4"
  using shifted_ids_roundtrip [of 4 2] by (simp add: kDcShift_def)

section \<open>Secrets\<close>

text \<open>\<open>ValidateSecret\<close> accepts exactly the secrets for which \<open>TcpConnection::Protocol::Create\<close> makes a protocol.\<close>

lemma valid_secret_iff: "ValidateSecret secret \<longleftrightarrow> Create secret \<noteq> None"
  by (auto simp: ValidateSecret_def Create_def)

section \<open>Endpoints\<close>

lemma map_of_flat: "flat_map_ok m \<Longrightarrow> (k, v) \<in> set m \<longleftrightarrow> map_of m k = Some v"
  by (auto simp: flat_map_ok_distinct dest: map_of_SomeD intro: map_of_is_SomeI)

lemma data_ok_iff: "data_ok data \<longleftrightarrow> flat_map_ok data \<and> (\<forall>k l. map_of data k = Some l \<longrightarrow> list_ok k l)"
  by (auto simp: data_ok_def map_of_flat)

lemma list_ok_endpoints: "data_ok data \<Longrightarrow> endpoints data i = [] \<or> list_ok i (endpoints data i)"
  by (auto simp: data_ok_iff endpoints_def split: option.splits)

lemma map_of_endpoints: "data_ok data \<Longrightarrow> map_of data i = (if endpoints data i = [] then None else Some (endpoints data i))"
  by (auto simp: data_ok_iff endpoints_def list_ok_def split: option.splits)

lemma ids_bounded_iff: "data_ok data \<Longrightarrow> ids_bounded data \<longleftrightarrow> (\<forall>i. endpoints data i \<noteq> [] \<longrightarrow> i < max_dc_id)"
  by (auto simp: ids_bounded_def map_of_endpoints dom_map_of_conv_image_fst [symmetric] dom_def split: if_splits)

lemma same_address: "ep_ip e = ep_ip f \<and> ep_port e = ep_port f \<longleftrightarrow> address e = address f"
  by (simp add: address_def)

lemma endpoints_flat_put: "endpoints (flat_put k l m) i = (if i = k then l else endpoints m i)"
  by (simp add: endpoints_def map_of_flat_put)

lemma ApplyOneOption_eq:
  "data_ok data \<Longrightarrow> ApplyOneOption e data =
     (if address e \<in> addresses data (ep_id e) then (False, data)
      else (True, (if endpoints data (ep_id e) = [] then flat_emplace (ep_id e) [e] data
                   else flat_put (ep_id e) (endpoints data (ep_id e) @ [e]) data)))"
  by (auto simp: ApplyOneOption_def same_address list_ex_iff map_of_endpoints image_iff eq_commute)

text \<open>The new option is the last of its data center, unless its address is known there.\<close>

lemma endpoints_ApplyOneOption:
  assumes "data_ok data"
  shows "endpoints (snd (ApplyOneOption e data)) i =
     endpoints data i @ (if i = ep_id e \<and> address e \<notin> addresses data i then [e] else [])"
proof -
  have "endpoints data k = [] \<Longrightarrow> endpoints (flat_emplace k l data) i = (if i = k then l else endpoints data i)" for k l
    using assms by (simp add: endpoints_def map_of_flat_emplace data_ok_def split: option.splits)
      (metis assms data_ok_iff endpoints_def list_ok_def option.simps(5))
  with assms show ?thesis by (cases "i = ep_id e") (simp_all add: ApplyOneOption_eq endpoints_flat_put)
qed

lemma addresses_ApplyOneOption:
  "data_ok data \<Longrightarrow> addresses (snd (ApplyOneOption e data)) i = addresses data i \<union> (if ep_id e = i then {address e} else {})"
  by (cases "ep_id e = i"; cases "address e \<in> addresses data i") (simp_all add: endpoints_ApplyOneOption insert_absorb)

lemma map_of_ApplyOneOption:
  assumes "data_ok data"
  shows "map_of (snd (ApplyOneOption e data)) i =
    (if i = ep_id e \<and> address e \<notin> addresses data i then Some (endpoints data i @ [e]) else map_of data i)"
  using assms by (auto simp: ApplyOneOption_eq map_of_flat_put map_of_flat_emplace data_ok_def map_of_endpoints)

lemma data_ok_ApplyOneOption [intro]:
  assumes "data_ok data"
  shows "data_ok (snd (ApplyOneOption e data))"
proof -
  have "flat_map_ok (snd (ApplyOneOption e data))"
    using assms by (auto simp: ApplyOneOption_eq data_ok_def)
  then show ?thesis
    using assms list_ok_endpoints [OF assms, of "ep_id e"]
    by (auto simp: data_ok_iff map_of_ApplyOneOption list_ok_def)
qed

lemma data_ok_fold [intro]: "data_ok data \<Longrightarrow> data_ok (fold (\<lambda>e data. snd (ApplyOneOption e data)) es data)"
  by (induction es arbitrary: data) (simp_all add: data_ok_ApplyOneOption)

lemma addresses_fold:
  "data_ok data \<Longrightarrow> addresses (fold (\<lambda>e data. snd (ApplyOneOption e data)) es data) i =
     addresses data i \<union> address ` set (filter (\<lambda>e. ep_id e = i) es)"
  by (induction es arbitrary: data) (simp_all add: data_ok_ApplyOneOption addresses_ApplyOneOption)

lemma endpoints_fold_prefix:
  "data_ok data \<Longrightarrow> \<exists>rest. endpoints (fold (\<lambda>e data. snd (ApplyOneOption e data)) es data) i = endpoints data i @ rest
      \<and> set rest \<subseteq> {e \<in> set es. ep_id e = i}"
proof (induction es arbitrary: data)
  case (Cons e es)
  then obtain rest where "endpoints (fold (\<lambda>e data. snd (ApplyOneOption e data)) (e # es) data) i
      = endpoints (snd (ApplyOneOption e data)) i @ rest" "set rest \<subseteq> {e \<in> set es. ep_id e = i}"
    using data_ok_ApplyOneOption [OF Cons.prems, of e] by fastforce
  then show ?case by (auto simp: endpoints_ApplyOneOption Cons.prems)
qed simp

lemma ids_bounded_fold:
  assumes "data_ok data" "ids_bounded data" "\<forall>e \<in> set es. ep_id e < max_dc_id"
  shows "ids_bounded (fold (\<lambda>e data. snd (ApplyOneOption e data)) es data)"
  unfolding ids_bounded_iff [OF data_ok_fold [OF assms(1)]]
proof (intro allI impI)
  fix i assume "endpoints (fold (\<lambda>e data. snd (ApplyOneOption e data)) es data) i \<noteq> []"
  then have "addresses data i \<noteq> {} \<or> filter (\<lambda>e. ep_id e = i) es \<noteq> []"
    using addresses_fold [OF assms(1), of es i] by (auto simp del: set_filter)
  with assms show "i < max_dc_id" by (auto simp: ids_bounded_iff filter_empty_conv)
qed

lemma data_ok_Nil [simp]: "data_ok []"
  by (simp add: data_ok_def)

lemma endpoints_Nil [simp]: "endpoints [] i = []"
  by (simp add: endpoints_def)

section \<open>The difference of two sets of options\<close>

lemma endpoints_Cons: "endpoints ((k, l) # m) i = (if i = k then l else endpoints m i)"
  by (simp add: endpoints_def)

lemma data_ok_Cons: "data_ok ((k, l) # m) \<longleftrightarrow> (\<forall>i \<in> fst ` set m. k < i) \<and> list_ok k l \<and> data_ok m"
  by (auto simp: data_ok_def)

lemma endpoints_later: "data_ok ((k, l) # m) \<Longrightarrow> i \<le> k \<Longrightarrow> endpoints m i = []"
  by (force simp: data_ok_Cons endpoints_def split: option.splits dest: map_of_SomeD)

lemma options_find_iff: "options_find n e \<longleftrightarrow> address e \<in> address ` set n"
  by (auto simp: options_find_def list_ex_iff same_address image_iff eq_commute)

lemma options_equal_iff:
  assumes "list_ok i m" "list_ok i n"
  shows "options_equal m n \<longleftrightarrow> address ` set m = address ` set n"
proof -
  have card: "length l = card (address ` set l)" if "list_ok i l" for l
    using that distinct_card [of "map address l"] by (simp add: list_ok_def)
  have find: "list_all (options_find n) m \<longleftrightarrow> address ` set m \<subseteq> address ` set n"
    by (simp add: list_all_iff options_find_iff image_subset_iff)
  show ?thesis
    using card [OF assms(1)] card [OF assms(2)] card_subset_eq [of "address ` set n" "address ` set m"]
    by (auto simp: options_equal_def find)
qed

lemma endpoints_key: "data_ok ((k, l) # m) \<Longrightarrow> endpoints m i \<noteq> [] \<Longrightarrow> k < i"
  using endpoints_later [of k l m i] by (cases "i \<le> k") auto

lemma differ_sym: "{i. f i \<noteq> g i} = {i. g i \<noteq> f i}"
  by auto

lemma differing_first:
  assumes "data_ok ((k, l) # a)" "\<And>i. endpoints b i \<noteq> [] \<Longrightarrow> k < i"
    "sorted_wrt (<) r" "set r = {i. addresses a i \<noteq> addresses b i}"
  shows "sorted_wrt (<) (k # r) \<and> set (k # r) = {i. addresses ((k, l) # a) i \<noteq> addresses b i}"
    "sorted_wrt (<) (k # r) \<and> set (k # r) = {i. addresses b i \<noteq> addresses ((k, l) # a) i}"
proof -
  have later: "k < i" if "i \<in> set r" for i
    using that assms(2,4) endpoints_key [OF assms(1), of i] by (cases "endpoints a i = []") auto
  have "l \<noteq> []" "endpoints b k = []" "endpoints a k = []"
    using assms(1,2) endpoints_later [OF assms(1), of k] by (auto simp: data_ok_Cons list_ok_def)
  then have "{i. addresses ((k, l) # a) i \<noteq> addresses b i} = insert k {i. addresses a i \<noteq> addresses b i}"
    by (auto simp: endpoints_Cons)
  with later assms(3,4) show
    "sorted_wrt (<) (k # r) \<and> set (k # r) = {i. addresses ((k, l) # a) i \<noteq> addresses b i}"
    "sorted_wrt (<) (k # r) \<and> set (k # r) = {i. addresses b i \<noteq> addresses ((k, l) # a) i}"
    by (auto simp: eq_commute)
qed

lemma differing_both:
  assumes "data_ok ((k, l) # a)" "data_ok ((k, n) # b)"
    "sorted_wrt (<) r" "set r = {i. addresses a i \<noteq> addresses b i}"
  shows "sorted_wrt (<) (if options_equal l n then r else k # r)
    \<and> set (if options_equal l n then r else k # r) = {i. addresses ((k, l) # a) i \<noteq> addresses ((k, n) # b) i}"
proof -
  have later: "k < i" if "i \<in> set r" for i
    using that assms(4) endpoints_key [OF assms(1), of i] endpoints_key [OF assms(2), of i]
    by (cases "endpoints a i = []") auto
  have equal: "options_equal l n \<longleftrightarrow> address ` set l = address ` set n"
    using assms(1,2) options_equal_iff [of k l n] by (simp add: data_ok_Cons)
  have "endpoints a k = []" "endpoints b k = []"
    using endpoints_later [OF assms(1), of k] endpoints_later [OF assms(2), of k] by simp_all
  then have "{i. addresses ((k, l) # a) i \<noteq> addresses ((k, n) # b) i} =
      (if options_equal l n then {} else {k}) \<union> {i. addresses a i \<noteq> addresses b i}"
    using equal by (auto simp: endpoints_Cons)
  with later assms(3,4) show ?thesis by auto
qed

lemma CountOptionsDifference_spec:
  "data_ok a \<Longrightarrow> data_ok b \<Longrightarrow> ids_bounded a \<Longrightarrow> ids_bounded b \<Longrightarrow>
     \<exists>r. CountOptionsDifference a b = Some r \<and> sorted_wrt (<) r \<and> set r = {i. addresses a i \<noteq> addresses b i}"
proof (induction a b rule: CountOptionsDifference.induct)
  case (2 aId m a)
  then obtain r where "CountOptionsDifference a [] = Some r" "sorted_wrt (<) r" "set r = {i. addresses a i \<noteq> addresses [] i}"
    by (auto simp: data_ok_Cons ids_bounded_def)
  with 2 differing_first(1) [of aId m a "[]" r] show ?case by (simp add: ids_bounded_def)
next
  case (3 bId n b)
  then obtain r where "CountOptionsDifference [] b = Some r" "sorted_wrt (<) r" "set r = {i. addresses b i \<noteq> addresses [] i}"
    by (auto simp: data_ok_Cons ids_bounded_def)
  with 3 differing_first(2) [of bId n b "[]" r] show ?case by (simp add: ids_bounded_def)
next
  case (4 aId m a bId n b)
  have a: "data_ok a" "ids_bounded a" and b: "data_ok b" "ids_bounded b"
    using 4 by (auto simp: data_ok_Cons ids_bounded_def)
  have first_a: "aId < i" if "aId < bId" "endpoints ((bId, n) # b) i \<noteq> []" for i
    using that endpoints_key [OF 4(5), of i] by (auto simp: endpoints_Cons split: if_splits)
  have first_b: "bId < i" if "bId < aId" "endpoints ((aId, m) # a) i \<noteq> []" for i
    using that endpoints_key [OF 4(4), of i] by (auto simp: endpoints_Cons split: if_splits)
  consider "aId < bId" | "bId < aId" | "aId = bId" by linarith
  then show ?case
  proof cases
    case 1
    from 4(1) [OF 1 a(1) 4(5) a(2) 4(7)] obtain r where "CountOptionsDifference a ((bId, n) # b) = Some r
      \<and> sorted_wrt (<) r \<and> set r = {i. addresses a i \<noteq> addresses ((bId, n) # b) i}" ..
    with 1 4(4) first_a differing_first(1) [of aId m a "(bId, n) # b" r] show ?thesis by simp
  next
    case 2
    from 4(2) [OF order_less_not_sym [OF 2] 2 4(4) b(1) 4(6) b(2)] obtain r where "CountOptionsDifference ((aId, m) # a) b = Some r
      \<and> sorted_wrt (<) r \<and> set r = {i. addresses ((aId, m) # a) i \<noteq> addresses b i}" ..
    moreover have "{i. addresses ((aId, m) # a) i \<noteq> addresses b i} = {i. addresses b i \<noteq> addresses ((aId, m) # a) i}"
      by (rule differ_sym)
    ultimately show ?thesis
      using 2 4(5) first_b differing_first(2) [of bId n b "(aId, m) # a" r] by simp
  next
    case 3
    then have "\<not> aId < bId" "\<not> bId < aId" by simp_all
    from 4(3) [OF this a(1) b(1) a(2) b(2)] obtain r where "CountOptionsDifference a b = Some r
      \<and> sorted_wrt (<) r \<and> set r = {i. addresses a i \<noteq> addresses b i}" ..
    with 3 4(4,5) differing_both [of aId m a n b r] show ?thesis by (cases "options_equal m n") simp_all
  qed
qed simp

section \<open>Operations\<close>

lemma data_ok_nonempty: "data_ok data \<Longrightarrow> list_all (\<lambda>(dcId, list). list \<noteq> []) data"
  by (auto simp: data_ok_def list_ok_def list_all_iff)

lemma fold_cdn_ids:
  "sorted_wrt (<) ids \<Longrightarrow>
     sorted_wrt (<) (fold (\<lambda>(k, list) ids. if has_flag f_cdn (hd list) then flat_insert (BareDcId k) ids else ids) data ids)
     \<and> set (fold (\<lambda>(k, list) ids. if has_flag f_cdn (hd list) then flat_insert (BareDcId k) ids else ids) data ids) =
       set ids \<union> {BareDcId k | k list. (k, list) \<in> set data \<and> has_flag f_cdn (hd list)}"
proof (induction data arbitrary: ids)
  case (Cons e data)
  obtain k list where [simp]: "e = (k, list)" by (cases e)
  show ?case
  proof (cases "has_flag f_cdn (hd list)")
    case True
    then show ?thesis using Cons.IH [of "flat_insert (BareDcId k) ids"] Cons.prems sorted_flat_insert by auto
  next
    case False
    then show ?thesis using Cons by auto
  qed
qed simp

lemma options_ok_changed: "options_ok d \<Longrightarrow> options_ok (d\<lparr>dc_changed := events\<rparr>)"
  by (simp add: options_ok_def)

text \<open>The destructor of \<open>WriteLocker\<close> never fails on well formed data, and restores the cached ids.\<close>

lemma computeCdnDcIds_ok:
  assumes "data_ok (dc_data d)" "ids_bounded (dc_data d)"
  obtains ids where "computeCdnDcIds d = Some (d\<lparr>dc_cdnDcIds := ids\<rparr>)" "options_ok (d\<lparr>dc_cdnDcIds := ids\<rparr>)"
proof -
  define ids where "ids = fold (\<lambda>(k, list) ids. if has_flag f_cdn (hd list) then flat_insert (BareDcId k) ids else ids) (dc_data d) []"
  have "{BareDcId k | k list. (k, list) \<in> set (dc_data d) \<and> has_flag f_cdn (hd list)}
      = {BareDcId k | k. endpoints (dc_data d) k \<noteq> [] \<and> has_flag f_cdn (hd (endpoints (dc_data d) k))}"
    using assms(1) by (auto simp: map_of_endpoints map_of_flat data_ok_def split: if_splits)
  then have "options_ok (d\<lparr>dc_cdnDcIds := ids\<rparr>)"
    using assms fold_cdn_ids [of "[]" "dc_data d"] by (simp add: options_ok_def ids_def)
  then show thesis
    using that [of ids] assms by (simp add: computeCdnDcIds_def data_ok_nonempty ids_def)
qed

lemma processFromList_spec:
  assumes "options_ok d" "\<not> dc_immutable d" "options \<noteq> []" "\<forall>e \<in> set options. ep_id e < max_dc_id"
  shows "\<exists>d' difference. processFromList options overwrite d = Some d' \<and> options_ok d'
    \<and> (\<forall>i. addresses (dc_data d') i = (if overwrite then {} else addresses (dc_data d) i) \<union> address ` {e \<in> set options. ep_id e = i})
    \<and> (\<not> overwrite \<longrightarrow> (\<forall>i. \<exists>more. endpoints (dc_data d') i = endpoints (dc_data d) i @ more))
    \<and> dc_changed d' = dc_changed d @ difference \<and> sorted_wrt (<) difference
    \<and> set difference = {i. addresses (dc_data d') i \<noteq> addresses (dc_data d) i}"
proof -
  define start where "start = (if overwrite then [] else dc_data d)"
  define data where "data = fold (\<lambda>option data. snd (ApplyOneOption option data)) options start"
  have start: "data_ok start" "ids_bounded start"
    using assms(1) by (simp_all add: start_def options_ok_def ids_bounded_def)
  have data: "data_ok data" "ids_bounded data"
    using start assms(4) by (simp_all add: data_def data_ok_fold ids_bounded_fold)
  have addresses: "addresses data i = (if overwrite then {} else addresses (dc_data d) i) \<union> address ` {e \<in> set options. ep_id e = i}" for i
    using addresses_fold [OF start(1), of options i] by (simp add: data_def start_def)
  have kept: "\<exists>more. endpoints data i = endpoints start i @ more" for i
    using endpoints_fold_prefix [OF start(1), of options i] by (auto simp: data_def)
  obtain difference where difference: "CountOptionsDifference (dc_data d) data = Some difference"
    "sorted_wrt (<) difference" "set difference = {i. addresses (dc_data d) i \<noteq> addresses data i}"
    using CountOptionsDifference_spec [of "dc_data d" data] assms(1) data by (auto simp: options_ok_def)
  define d1 where "d1 = (if difference \<noteq> [] then d\<lparr>dc_data := data\<rparr> else d)"
  have same: "addresses (dc_data d1) i = addresses data i" for i
    using difference(3) by (cases "difference = []") (simp_all add: d1_def)
  have prefix: "\<exists>more. endpoints (dc_data d1) i = endpoints (dc_data d) i @ more" if "\<not> overwrite" for i
    using kept [of i] that by (simp add: d1_def start_def)
  have "data_ok (dc_data d1)" "ids_bounded (dc_data d1)"
    using assms(1) data by (simp_all add: d1_def options_ok_def)
  then obtain ids where ids: "computeCdnDcIds d1 = Some (d1\<lparr>dc_cdnDcIds := ids\<rparr>)" "options_ok (d1\<lparr>dc_cdnDcIds := ids\<rparr>)"
    by (rule computeCdnDcIds_ok)
  have "dc_changed d1 = dc_changed d" by (simp add: d1_def)
  moreover have "processFromList options overwrite d = do { difference \<leftarrow> CountOptionsDifference (dc_data d) data;
      d' \<leftarrow> computeCdnDcIds (if difference \<noteq> [] then d\<lparr>dc_data := data\<rparr> else d);
      Some (d'\<lparr>dc_changed := dc_changed d' @ difference\<rparr>) }"
    unfolding processFromList_def Let_def data_def start_def using assms(2,3) by (simp only: if_False simp_thms)
  ultimately have "processFromList options overwrite d
      = Some (d1\<lparr>dc_cdnDcIds := ids, dc_changed := dc_changed d @ difference\<rparr>)"
    using difference(1) ids(1) by (simp add: d1_def [symmetric])
  moreover have "set difference = {i. addresses data i \<noteq> addresses (dc_data d) i}"
    unfolding difference(3) by (rule differ_sym)
  ultimately show ?thesis
    using difference(2) same addresses prefix options_ok_changed [OF ids(2)] by simp
qed

text \<open>
  C35. \<open>setFromList\<close> and \<open>addFromList\<close> on a well formed state with a list that has anything in it
  and no data center of the largest id: nothing fails, the addresses of every data center are
  those listed (and for \<open>addFromList\<close> those it had, whose endpoints stay first and unchanged),
  \<open>changed\<close> fires once, in increasing order, for exactly the data centers whose addresses are not
  the same as before, and the cached ids of CDN data centers are right again.
\<close>

theorem options_from_list:
  assumes "options_ok d" "\<not> dc_immutable d" "options \<noteq> []" "\<forall>e \<in> set options. ep_id e < max_dc_id"
  shows "\<exists>d' difference. processFromList options overwrite d = Some d' \<and> options_ok d'
    \<and> (\<forall>i. addresses (dc_data d') i = (if overwrite then {} else addresses (dc_data d) i) \<union> address ` {e \<in> set options. ep_id e = i})
    \<and> (\<not> overwrite \<longrightarrow> (\<forall>i. \<exists>more. endpoints (dc_data d') i = endpoints (dc_data d) i @ more))
    \<and> dc_changed d' = dc_changed d @ difference \<and> sorted_wrt (<) difference
    \<and> set difference = {i. addresses (dc_data d') i \<noteq> addresses (dc_data d) i}"
  using processFromList_spec [OF assms] .

lemma sample_options_ok: "options_ok sample_options"
proof -
  have data: "data_ok (dc_data sample_options)" "ids_bounded (dc_data sample_options)"
    by (simp_all add: sample_options_def data_ok_def list_ok_def ids_bounded_def max_dc_id_def address_def)
  have "{BareDcId dcId | dcId. endpoints (dc_data sample_options) dcId \<noteq> []
      \<and> has_flag f_cdn (hd (endpoints (dc_data sample_options) dcId))} = {4}"
    by (auto simp: sample_options_def endpoints_def has_flag_def f_cdn_def f_static_def BareDcId_id kDcShift_def
        split: if_splits option.splits intro!: exI [of _ 4])
  then show ?thesis using data by (simp add: options_ok_def) (simp add: sample_options_def)
qed

theorem options_from_list_witness:
  "\<exists>d'. setFromList [\<lparr>ep_id = 2, ep_flags = 0, ep_ip = ''10.0.0.7'', ep_port = 80, ep_secret = []\<rparr>] sample_options = Some d'
     \<and> addresses (dc_data d') 2 = {(''10.0.0.7'', 80)} \<and> dc_changed d' = [2, 4]"
proof -
  define e where "e = \<lparr>ep_id = 2, ep_flags = 0, ep_ip = ''10.0.0.7'', ep_port = 80, ep_secret = []\<rparr>"
  obtain d' difference where d': "processFromList [e] True sample_options = Some d'"
    "\<forall>i. addresses (dc_data d') i = address ` {x \<in> set [e]. ep_id x = i}"
    "dc_changed d' = dc_changed sample_options @ difference" "sorted_wrt (<) difference"
    "set difference = {i. addresses (dc_data d') i \<noteq> addresses (dc_data sample_options) i}"
    using options_from_list [OF sample_options_ok, of "[e]" True]
    by (auto simp: sample_options_def e_def max_dc_id_def)
  have new: "addresses (dc_data d') i = (if i = 2 then {(''10.0.0.7'', 80)} else {})" for i
    using d'(2) by (auto simp: e_def address_def)
  have "set difference = set [2, 4]"
    unfolding d'(5) new by (auto simp: sample_options_def endpoints_def address_def split: if_splits)
  then have "difference = [2, 4]" using d'(4) by (intro strict_sorted_unique) simp_all
  with d'(1,3) new show ?thesis by (simp add: setFromList_def sample_options_def flip: e_def)
qed

section \<open>Merging with other options\<close>

lemma apply_list_spec:
  "data_ok data \<Longrightarrow> snd (apply_list es data) = fold (\<lambda>e data. snd (ApplyOneOption e data)) es data
     \<and> (fst (apply_list es data) \<longleftrightarrow> (\<exists>e \<in> set es. address e \<notin> addresses data (ep_id e)))"
proof (induction es arbitrary: data)
  case (Cons e es)
  have "fst (ApplyOneOption e data) \<longleftrightarrow> address e \<notin> addresses data (ep_id e)"
    using Cons.prems by (simp add: ApplyOneOption_eq)
  with Cons.IH [OF data_ok_ApplyOneOption [OF Cons.prems, of e]] show ?case
    by (auto simp: split_beta Let_def addresses_ApplyOneOption [OF Cons.prems] split: if_splits)
qed simp

lemma apply_items_spec:
  assumes "data_ok items" "data_ok data"
  shows "snd (apply_items items data) = fold (\<lambda>e data. snd (ApplyOneOption e data)) (concat (map snd items)) data
    \<and> sorted_wrt (<) (fst (apply_items items data))
    \<and> set (fst (apply_items items data)) = {i. \<not> addresses items i \<subseteq> addresses data i}"
  using assms
proof (induction items arbitrary: data)
  case (Cons item items)
  obtain k l where [simp]: "item = (k, l)" by (cases item)
  have items: "data_ok items" "list_ok k l" "endpoints items k = []"
    using Cons.prems(1) endpoints_later [of k l items k] by (auto simp: data_ok_Cons)
  define data1 where "data1 = fold (\<lambda>e data. snd (ApplyOneOption e data)) l data"
  have data1: "data_ok data1" using Cons.prems(2) by (auto simp: data1_def)
  have other: "addresses data1 i = addresses data i" if "i \<noteq> k" for i
  proof -
    have "filter (\<lambda>e. ep_id e = i) l = []" using items(2) that by (auto simp: list_ok_def filter_empty_conv)
    then show ?thesis using addresses_fold [OF Cons.prems(2), of l i] by (simp add: data1_def del: set_filter)
  qed
  have changed: "fst (apply_list l data) \<longleftrightarrow> \<not> address ` set l \<subseteq> addresses data k"
    using apply_list_spec [OF Cons.prems(2), of l] items(2) by (auto simp: list_ok_def)
  have rest: "\<not> addresses items i \<subseteq> addresses data1 i \<longleftrightarrow> i \<noteq> k \<and> \<not> addresses items i \<subseteq> addresses data i" for i
    using items(3) other [of i] by (cases "i = k") simp_all
  have all: "{i. \<not> addresses (item # items) i \<subseteq> addresses data i} =
      (if fst (apply_list l data) then {k} else {}) \<union> {i. \<not> addresses items i \<subseteq> addresses data1 i}"
  proof (intro set_eqI)
    fix i show "i \<in> {i. \<not> addresses (item # items) i \<subseteq> addresses data i} \<longleftrightarrow>
        i \<in> (if fst (apply_list l data) then {k} else {}) \<union> {i. \<not> addresses items i \<subseteq> addresses data1 i}"
      using changed rest [of i] by (cases "i = k") (simp_all add: endpoints_Cons)
  qed
  have "k < i" if "\<not> addresses items i \<subseteq> addresses data1 i" for i
    using that endpoints_key [of k l items i] Cons.prems(1) by (cases "endpoints items i = []") auto
  then show ?case
    using Cons.IH [OF items(1) data1] apply_list_spec [OF Cons.prems(2), of l]
    unfolding all by (cases "fst (apply_list l data)") (simp_all add: split_beta Let_def data1_def [symmetric])
qed simp

lemma concat_endpoints: "data_ok items \<Longrightarrow> filter (\<lambda>e. ep_id e = i) (concat (map snd items)) = endpoints items i"
proof (induction items)
  case (Cons item items)
  obtain k l where [simp]: "item = (k, l)" by (cases item)
  have "filter (\<lambda>e. ep_id e = i) l = (if i = k then l else [])"
    using Cons.prems by (auto simp: data_ok_Cons list_ok_def filter_empty_conv filter_id_conv)
  moreover have "endpoints items k = []" "data_ok items"
    using Cons.prems endpoints_later [of k l items k] by (simp_all add: data_ok_Cons)
  ultimately show ?case using Cons.IH by (simp add: endpoints_Cons)
qed simp

lemma insert_keys_spec:
  "flat_map_ok keys \<Longrightarrow> flat_map_ok (insert_keys new keys)
     \<and> map_of (insert_keys new keys) = map_of new ++ map_of keys"
proof (induction new arbitrary: keys)
  case (Cons e new)
  obtain f k where [simp]: "e = (f, k)" by (cases e)
  have "map_of new ++ map_of (flat_emplace f k keys) = (map_of new)(f \<mapsto> k) ++ map_of keys"
    using Cons.prems by (auto simp: fun_eq_iff map_add_def map_of_flat_emplace split: option.splits)
  with Cons.IH [OF flat_map_ok_emplace [OF Cons.prems, of f k]] show ?case
    by (simp add: insert_keys_def fun_upd_def)
qed (simp add: insert_keys_def)

lemma keys_of_flat_put: "keys_of (flat_put k v m) i = (if i = k then v else keys_of m i)"
  by (simp add: keys_of_def map_of_flat_put)

lemma flat_map_ok_keys_of: "keys_ok keys \<Longrightarrow> flat_map_ok (keys_of keys i)"
  by (force simp: keys_ok_def keys_of_def dest: map_of_SomeD split: option.splits)

lemma keys_ok_flat_put: "keys_ok keys \<Longrightarrow> flat_map_ok inner \<Longrightarrow> keys_ok (flat_put k inner keys)"
  unfolding keys_ok_def
proof (intro conjI ballI)
  fix x assume *: "flat_map_ok keys \<and> (\<forall>inner \<in> snd ` set keys. flat_map_ok inner)" "flat_map_ok inner"
    "x \<in> snd ` set (flat_put k inner keys)"
  then obtain i where "map_of (flat_put k inner keys) i = Some x"
    by (auto simp: map_of_flat flat_map_ok_put)
  with * show "flat_map_ok x" by (force simp: map_of_flat_put split: if_splits dest: map_of_SomeD)
qed auto

lemma keys_of_Cons: "keys_of ((k, l) # m) i = (if i = k then l else keys_of m i)"
  by (simp add: keys_of_def)

lemma merge_keys_Cons:
  "merge_keys ((k, new) # other) all = merge_keys other (if new = [] then all else flat_put k (insert_keys new (keys_of all k)) all)"
  by (simp add: merge_keys_def keys_of_def)

lemma merge_keys_spec:
  assumes "flat_map_ok other" "keys_ok all"
  shows "keys_ok (merge_keys other all)
    \<and> map_of (keys_of (merge_keys other all) i) = map_of (keys_of other i) ++ map_of (keys_of all i)"
  using assms
proof (induction other arbitrary: all)
  case (Cons e other)
  obtain k new where [simp]: "e = (k, new)" by (cases e)
  define all1 where "all1 = (if new = [] then all else flat_put k (insert_keys new (keys_of all k)) all)"
  have "keys_ok all1"
    using Cons.prems(2) by (auto simp: all1_def insert_keys_spec flat_map_ok_keys_of intro: keys_ok_flat_put)
  moreover have "map_of (keys_of all1 i) = (if i = k then map_of new else Map.empty) ++ map_of (keys_of all i)"
    using Cons.prems(2) by (auto simp: all1_def keys_of_flat_put insert_keys_spec flat_map_ok_keys_of)
  moreover have "keys_of other k = []"
    using Cons.prems(1) by (force simp: keys_of_def dest: map_of_SomeD split: option.splits)
  ultimately show ?case
    using Cons.IH [of all1] Cons.prems(1) merge_keys_Cons [of k new other all]
    by (cases "i = k") (simp_all add: all1_def keys_of_Cons)
qed (simp add: keys_of_def merge_keys_def)

lemma addFromOther_spec:
  assumes "options_ok d" "\<not> dc_immutable d" "keys_ok (dc_cdnPublicKeys d)"
    "options_ok other" "dc_data other \<noteq> []" "keys_ok (dc_cdnPublicKeys other)"
  shows "\<exists>d' ids. addFromOther other d = Some d' \<and> options_ok d'
    \<and> (\<forall>i. addresses (dc_data d') i = addresses (dc_data d) i \<union> addresses (dc_data other) i)
    \<and> (\<forall>i. \<exists>rest. endpoints (dc_data d') i = endpoints (dc_data d) i @ rest)
    \<and> dc_changed d' = dc_changed d @ ids \<and> sorted_wrt (<) ids
    \<and> set ids = {i. addresses (dc_data d') i \<noteq> addresses (dc_data d) i}
    \<and> keys_ok (dc_cdnPublicKeys d')
    \<and> (\<forall>i. map_of (keys_of (dc_cdnPublicKeys d') i) =
          map_of (keys_of (dc_cdnPublicKeys other) i) ++ map_of (keys_of (dc_cdnPublicKeys d) i))"
proof -
  obtain ids data where items: "apply_items (dc_data other) (dc_data d) = (ids, data)" by fastforce
  define keys where "keys = merge_keys (dc_cdnPublicKeys other) (dc_cdnPublicKeys d)"
  have ok: "data_ok (dc_data d)" "data_ok (dc_data other)" "ids_bounded (dc_data d)" "ids_bounded (dc_data other)"
    using assms by (simp_all add: options_ok_def)
  note spec = apply_items_spec [OF ok(2,1), unfolded items fst_conv snd_conv]
  have addresses: "addresses data i = addresses (dc_data d) i \<union> addresses (dc_data other) i" for i
    using spec addresses_fold [OF ok(1), of "concat (map snd (dc_data other))" i] concat_endpoints [OF ok(2), of i] by simp
  have data: "data_ok data" using spec data_ok_fold [OF ok(1)] by simp
  have "\<forall>e \<in> set (concat (map snd (dc_data other))). ep_id e < max_dc_id"
    using ok(2,4) by (force simp: data_ok_def list_ok_def ids_bounded_def)
  then have bounded: "ids_bounded data" using spec ids_bounded_fold [OF ok(1,3)] by simp
  have prefix: "\<exists>rest. endpoints data i = endpoints (dc_data d) i @ rest" for i
    using spec endpoints_fold_prefix [OF ok(1), of "concat (map snd (dc_data other))" i] by auto
  have changed: "set ids = {i. addresses data i \<noteq> addresses (dc_data d) i}"
    using spec addresses by (simp add: Un_absorb2 subset_Un_eq [of "addresses _ _"] Un_commute)
  have keys: "keys_ok keys \<and> map_of (keys_of keys i) =
      map_of (keys_of (dc_cdnPublicKeys other) i) ++ map_of (keys_of (dc_cdnPublicKeys d) i)" for i
    using merge_keys_spec [of "dc_cdnPublicKeys other" "dc_cdnPublicKeys d"] assms(3,6) by (simp add: keys_def keys_ok_def)
  obtain cdn where cdn: "computeCdnDcIds (d\<lparr>dc_data := data, dc_cdnPublicKeys := keys\<rparr>)
      = Some (d\<lparr>dc_data := data, dc_cdnPublicKeys := keys, dc_cdnDcIds := cdn\<rparr>)"
    "options_ok (d\<lparr>dc_data := data, dc_cdnPublicKeys := keys, dc_cdnDcIds := cdn\<rparr>)"
    using computeCdnDcIds_ok [of "d\<lparr>dc_data := data, dc_cdnPublicKeys := keys\<rparr>"] data bounded by auto
  then have "addFromOther other d = Some (d\<lparr>dc_data := data, dc_cdnPublicKeys := keys, dc_cdnDcIds := cdn, dc_changed := dc_changed d @ ids\<rparr>)"
    using assms(2,5) items by (simp add: addFromOther_def keys_def [symmetric])
  then show ?thesis
    using options_ok_changed [OF cdn(2), of "dc_changed d @ ids"] spec addresses prefix changed keys by simp
qed

text \<open>
  C37. \<open>addFromOther\<close> with well formed options that have data: nothing fails, every data center ends
  with the addresses of both, its own endpoints first and unchanged, \<open>changed\<close> fires in increasing
  order for exactly the data centers that got a new address, and of the CDN keys those already
  known stay and the others are taken over.
\<close>

theorem merged_options:
  assumes "options_ok d" "\<not> dc_immutable d" "keys_ok (dc_cdnPublicKeys d)"
    "options_ok other" "dc_data other \<noteq> []" "keys_ok (dc_cdnPublicKeys other)"
  shows "\<exists>d' ids. addFromOther other d = Some d' \<and> options_ok d'
    \<and> (\<forall>i. addresses (dc_data d') i = addresses (dc_data d) i \<union> addresses (dc_data other) i)
    \<and> (\<forall>i. \<exists>rest. endpoints (dc_data d') i = endpoints (dc_data d) i @ rest)
    \<and> dc_changed d' = dc_changed d @ ids \<and> sorted_wrt (<) ids
    \<and> set ids = {i. addresses (dc_data d') i \<noteq> addresses (dc_data d) i}
    \<and> keys_ok (dc_cdnPublicKeys d')
    \<and> (\<forall>i. map_of (keys_of (dc_cdnPublicKeys d') i) =
          map_of (keys_of (dc_cdnPublicKeys other) i) ++ map_of (keys_of (dc_cdnPublicKeys d) i))"
  using addFromOther_spec [OF assms] .

theorem merged_options_witness:
  "\<exists>d'. addFromOther sample_options sample_options = Some d' \<and> addresses (dc_data d') 2 = {(''10.0.0.2'', 443)} \<and> dc_changed d' = []"
proof -
  obtain d' ids where d': "addFromOther sample_options sample_options = Some d'"
    "\<forall>i. addresses (dc_data d') i = addresses (dc_data sample_options) i \<union> addresses (dc_data sample_options) i"
    "dc_changed d' = dc_changed sample_options @ ids" "set ids = {i. addresses (dc_data d') i \<noteq> addresses (dc_data sample_options) i}"
    using merged_options [OF sample_options_ok _ _ sample_options_ok]
    by (auto simp: sample_options_def keys_ok_def)
  then show ?thesis by (simp add: sample_options_def endpoints_def address_def)
qed

section \<open>Lookup\<close>

lemma has_flag_or: "has_flag (f OR g) e \<longleftrightarrow> has_flag f e \<or> has_flag g e"
  by (simp add: has_flag_def bit.conj_disj_distrib or_eq_0_iff)

lemma fold_lookup_step: "fold (lookup_step type) list v a p = v a p @ filter (fitting type a p) list"
proof (induction list arbitrary: v)
  case (Cons e list)
  have "lookup_step type e v a p = v a p @ (if fitting type a p e then [e] else [])"
    by (cases a; cases p) (auto simp: lookup_step_def fitting_def push_variant_def has_flag_or Let_def
        valid_secret_iff)
  with Cons.IH show ?case by simp
qed simp

lemma prefer_flag_spec:
  "prefer_flag flag list = [] \<longleftrightarrow> list = []" "set (prefer_flag flag list) \<subseteq> set list"
  "e \<in> set list \<Longrightarrow> has_flag flag e \<Longrightarrow> \<forall>x \<in> set (prefer_flag flag list). has_flag flag x"
  "\<exists>pref. prefer_flag flag (filter P list) = filter pref list"
  by (auto simp: prefer_flag_def list_ex_iff filter_empty_conv intro: exI [of _ "\<lambda>x. has_flag flag x \<and> P x"])

lemma lookup_dc_eq:
  "lookup_dc dcId type throughProxy d a p =
     (let list = filter (fitting type a p) (endpoints (dc_data d) dcId);
          list = (if type = MediaCluster then prefer_flag f_media_only list else list)
      in if throughProxy then prefer_flag f_static list else list)"
  by (simp add: lookup_dc_def endpoints_def FilterIfHasWithFlag_def prefer_flag_def Let_def fold_lookup_step
      split: option.splits)

text \<open>
  C38. What \<open>lookup\<close> returns for an address family and a protocol are endpoints of the data center
  that fit: known to \<open>TcpConnection::Protocol::Create\<close>, of the family, media ones only for a media
  cluster, CDN ones for a CDN, and for HTTP without a secret. It is empty only if none fits: the two
  filters prefer media endpoints for a media cluster, and static ones through a proxy, but never
  leave nothing.
\<close>

theorem lookup_fitting:
  "set (lookup_dc dcId type throughProxy d a p) \<subseteq> {e \<in> set (endpoints (dc_data d) dcId). fitting type a p e}
   \<and> (lookup_dc dcId type throughProxy d a p = [] \<longleftrightarrow> (\<forall>e \<in> set (endpoints (dc_data d) dcId). \<not> fitting type a p e))
   \<and> (\<exists>pref. lookup_dc dcId type throughProxy d a p = filter pref (endpoints (dc_data d) dcId))
   \<and> (type = MediaCluster \<and> (\<exists>e \<in> set (endpoints (dc_data d) dcId). fitting type a p e \<and> has_flag f_media_only e) \<longrightarrow>
        (\<forall>e \<in> set (lookup_dc dcId type throughProxy d a p). has_flag f_media_only e))
   \<and> (throughProxy \<and> (\<exists>e \<in> set (lookup_dc dcId type False d a p). has_flag f_static e) \<longrightarrow>
        (\<forall>e \<in> set (lookup_dc dcId type throughProxy d a p). has_flag f_static e))"
proof -
  define list where "list = filter (fitting type a p) (endpoints (dc_data d) dcId)"
  define media where "media = (if type = MediaCluster then prefer_flag f_media_only list else list)"
  have eq: "lookup_dc dcId type t d a p = (if t then prefer_flag f_static media else media)" for t
    by (simp add: lookup_dc_eq list_def media_def Let_def)
  have set: "set media \<subseteq> set list" "set (lookup_dc dcId type throughProxy d a p) \<subseteq> set media"
    using prefer_flag_spec(2) by (auto simp: media_def eq)
  have empty: "lookup_dc dcId type throughProxy d a p = [] \<longleftrightarrow> list = []"
    by (simp add: eq media_def prefer_flag_spec(1))
  have "\<exists>pref. media = filter pref (endpoints (dc_data d) dcId)"
    by (cases "type = MediaCluster") (auto simp: media_def list_def prefer_flag_spec(4))
  then obtain pref where "media = filter pref (endpoints (dc_data d) dcId)" ..
  then have filter: "\<exists>pref. lookup_dc dcId type throughProxy d a p = filter pref (endpoints (dc_data d) dcId)"
    using prefer_flag_spec(4) [of f_static pref "endpoints (dc_data d) dcId"] by (auto simp: eq)
  have only: "\<forall>e \<in> set media. has_flag f_media_only e" if "type = MediaCluster" "e \<in> set list" "has_flag f_media_only e" for e
    using prefer_flag_spec(3) [OF that(2,3)] that(1) by (simp add: media_def)
  have static: "\<forall>e \<in> set (prefer_flag f_static media). has_flag f_static e" if "e \<in> set media" "has_flag f_static e" for e
    using prefer_flag_spec(3) [OF that] .
  show ?thesis
  proof (intro conjI impI)
    show "lookup_dc dcId type throughProxy d a p = [] \<longleftrightarrow> (\<forall>e \<in> set (endpoints (dc_data d) dcId). \<not> fitting type a p e)"
      unfolding empty by (simp add: list_def filter_empty_conv)
  next
    assume "type = MediaCluster \<and> (\<exists>e \<in> set (endpoints (dc_data d) dcId). fitting type a p e \<and> has_flag f_media_only e)"
    then show "\<forall>e \<in> set (lookup_dc dcId type throughProxy d a p). has_flag f_media_only e"
      using only set(2) by (auto simp: list_def)
  next
    assume "throughProxy \<and> (\<exists>e \<in> set (lookup_dc dcId type False d a p). has_flag f_static e)"
    then show "\<forall>e \<in> set (lookup_dc dcId type throughProxy d a p). has_flag f_static e"
      using static by (auto simp: eq)
  qed (use set filter in \<open>auto simp: list_def\<close>)
qed

text \<open>A media cluster reached through a proxy takes the media endpoint, not the static one.\<close>

theorem lookup_fitting_witness:
  "\<exists>e. lookup_dc 1 MediaCluster True (sample_options\<lparr>dc_data := [(1, [\<lparr>ep_id = 1, ep_flags = f_static, ep_ip = ''a'', ep_port = 1, ep_secret = []\<rparr>,
      \<lparr>ep_id = 1, ep_flags = f_media_only, ep_ip = ''b'', ep_port = 2, ep_secret = []\<rparr>])]\<rparr>) IPv4 Tcp = [e]
    \<and> has_flag f_media_only e"
proof -
  define d where "d = sample_options\<lparr>dc_data := [(1, [\<lparr>ep_id = 1, ep_flags = f_static, ep_ip = ''a'', ep_port = 1, ep_secret = []\<rparr>,
      \<lparr>ep_id = 1, ep_flags = f_media_only, ep_ip = ''b'', ep_port = 2, ep_secret = []\<rparr>])]\<rparr>"
  have endpoints: "endpoints (dc_data d) 1 = [\<lparr>ep_id = 1, ep_flags = f_static, ep_ip = ''a'', ep_port = 1, ep_secret = []\<rparr>,
      \<lparr>ep_id = 1, ep_flags = f_media_only, ep_ip = ''b'', ep_port = 2, ep_secret = []\<rparr>]"
    by (simp add: d_def endpoints_def)
  have "\<exists>e \<in> set (endpoints (dc_data d) 1). fitting MediaCluster IPv4 Tcp e \<and> has_flag f_media_only e"
    by (simp add: endpoints fitting_def has_flag_def Create_def f_media_only_def f_ipv6_def f_static_def)
  then have all: "\<forall>e \<in> set (lookup_dc 1 MediaCluster True d IPv4 Tcp). has_flag f_media_only e"
    using lookup_fitting [of 1 MediaCluster True d IPv4 Tcp] by simp
  have "lookup_dc 1 MediaCluster True d IPv4 Tcp = [\<lparr>ep_id = 1, ep_flags = f_media_only, ep_ip = ''b'', ep_port = 2, ep_secret = []\<rparr>]"
    by (simp add: lookup_dc_eq endpoints prefer_flag_def fitting_def has_flag_def Create_def f_media_only_def f_ipv6_def f_static_def)
  with all show ?thesis by (simp add: d_def)
qed

section \<open>Reachable options\<close>

lemma keys_ok_setCDNConfig:
  "keys_ok all \<Longrightarrow> keys_ok (fold (\<lambda>(dcId, data) all. let key = rsa_parse rsa data
      in if rsa_valid rsa key then flat_put dcId (flat_emplace (rsa_fingerprint rsa key) key
           (case map_of all dcId of Some keys \<Rightarrow> keys | None \<Rightarrow> [])) all else all) keys all)"
proof (induction keys arbitrary: all)
  case (Cons e keys)
  obtain k data where [simp]: "e = (k, data)" by (cases e)
  have "flat_map_ok (case map_of all k of Some keys \<Rightarrow> keys | None \<Rightarrow> [])"
    using flat_map_ok_keys_of [OF Cons.prems, of k] by (simp add: keys_of_def)
  with Cons show ?case by (auto simp: Let_def intro: keys_ok_flat_put)
qed simp

lemma apply_built_in_eq:
  "apply_built_in flags entries data = fold (\<lambda>e data. snd (ApplyOneOption e data))
     (map (\<lambda>(dcId, ip, port). \<lparr>ep_id = dcId, ep_flags = flags, ep_ip = ip, ep_port = port, ep_secret = []\<rparr>) entries) data"
  by (induction entries arbitrary: data) (auto simp: apply_built_in_def)

lemma built_in_ok:
  "data_ok data \<Longrightarrow> ids_bounded data \<Longrightarrow> \<forall>entry \<in> set entries. fst entry < max_dc_id \<Longrightarrow>
     data_ok (apply_built_in flags entries data) \<and> ids_bounded (apply_built_in flags entries data)"
  by (simp add: apply_built_in_eq data_ok_fold ids_bounded_fold split_beta)

lemma new_DcOptions_ok:
  "\<exists>d. new_DcOptions rsa environment = Some d \<and> options_ok d \<and> keys_ok (dc_cdnPublicKeys d) \<and> \<not> dc_immutable d
     \<and> dc_environment d = environment"
proof -
  define d0 :: "'a dc_options" where "d0 = readBuiltInPublicKeys rsa \<lparr>dc_environment = environment, dc_data = [], dc_cdnDcIds = [],
      dc_publicKeys = [], dc_cdnPublicKeys = [], dc_immutable = False, dc_changed = [], dc_cdnConfigChanged = 0\<rparr>"
  define data where "data = apply_built_in (f_static OR f_ipv6) (if isTestMode d0 then kBuiltInDcsIPv6Test else kBuiltInDcsIPv6)
      (apply_built_in f_static (if isTestMode d0 then kBuiltInDcsTest else kBuiltInDcs) [])"
  have d0: "dc_data d0 = []" "dc_cdnPublicKeys d0 = []" "\<not> dc_immutable d0" "dc_environment d0 = environment"
    by (simp_all add: d0_def readBuiltInPublicKeys_def Let_def)
  have "data_ok data \<and> ids_bounded data"
    unfolding data_def by (intro built_in_ok conjunct1 [OF built_in_ok] conjunct2 [OF built_in_ok])
      (simp_all add: ids_bounded_def max_dc_id_def kBuiltInDcs_def kBuiltInDcsTest_def kBuiltInDcsIPv6_def kBuiltInDcsIPv6Test_def)
  then obtain ids where "computeCdnDcIds (d0\<lparr>dc_data := data\<rparr>) = Some (d0\<lparr>dc_data := data, dc_cdnDcIds := ids\<rparr>)"
    "options_ok (d0\<lparr>dc_data := data, dc_cdnDcIds := ids\<rparr>)"
    using computeCdnDcIds_ok [of "d0\<lparr>dc_data := data\<rparr>"] by auto
  then show ?thesis
    using d0 by (simp add: new_DcOptions_def constructFromBuiltIn_def Let_def d0_def [symmetric] data_def keys_ok_def)
qed

lemma BareDcId_bounded: "BareDcId x < max_dc_id"
proof -
  have "\<bar>x smod 10000\<bar> < 10000"
    by (simp add: signed_modulo_int_def sgn_if)
  then show ?thesis by (simp add: BareDcId_def kDcShift_def max_dc_id_def)
qed

lemma computeCdnDcIds_frame: "computeCdnDcIds d = Some d' \<Longrightarrow> \<exists>ids. d' = d\<lparr>dc_cdnDcIds := ids\<rparr>"
  by (auto simp: computeCdnDcIds_def split: if_splits)

lemma processFromList_frame:
  "processFromList options overwrite d = Some d' \<Longrightarrow> dc_cdnPublicKeys d' = dc_cdnPublicKeys d \<and> dc_immutable d' = dc_immutable d
     \<and> dc_environment d' = dc_environment d"
  by (auto simp: processFromList_def Let_def bind_eq_Some_conv dest!: computeCdnDcIds_frame split: if_splits)

lemma processFromList_ok:
  assumes "options_ok d" "\<forall>e \<in> set options. ep_id e < max_dc_id"
  shows "\<exists>d'. processFromList options overwrite d = Some d' \<and> options_ok d'"
proof (cases "options = [] \<or> dc_immutable d")
  case False
  then have "\<not> dc_immutable d" "options \<noteq> []" by simp_all
  from processFromList_spec [OF assms(1) this assms(2), of overwrite] show ?thesis
    by (elim exE conjE) (intro exI conjI)
qed (use assms in \<open>simp add: processFromList_def\<close>)

lemma constructAddOne_ok:
  assumes "options_ok d"
  shows "\<exists>d'. constructAddOne e d = Some d' \<and> options_ok d' \<and> dc_cdnPublicKeys d' = dc_cdnPublicKeys d
    \<and> dc_immutable d' = dc_immutable d"
proof -
  define e' where "e' = e\<lparr>ep_id := BareDcId (ep_id e)\<rparr>"
  have "data_ok (snd (ApplyOneOption e' (dc_data d)))" "ids_bounded (snd (ApplyOneOption e' (dc_data d)))"
    using assms ids_bounded_fold [of "dc_data d" "[e']"] by (auto simp: options_ok_def e'_def BareDcId_bounded)
  then obtain ids where "computeCdnDcIds (d\<lparr>dc_data := snd (ApplyOneOption e' (dc_data d))\<rparr>) =
      Some (d\<lparr>dc_data := snd (ApplyOneOption e' (dc_data d)), dc_cdnDcIds := ids\<rparr>)"
    "options_ok (d\<lparr>dc_data := snd (ApplyOneOption e' (dc_data d)), dc_cdnDcIds := ids\<rparr>)"
    using computeCdnDcIds_ok [of "d\<lparr>dc_data := snd (ApplyOneOption e' (dc_data d))\<rparr>"] by auto
  then show ?thesis by (simp add: constructAddOne_def e'_def)
qed

lemma setCDNConfig_ok:
  assumes "options_ok d"
  shows "\<exists>d'. setCDNConfig rsa keys d = Some d' \<and> options_ok d' \<and> keys_ok (dc_cdnPublicKeys d') \<and> dc_immutable d' = dc_immutable d"
proof -
  define all where "all = fold (\<lambda>(dcId, data) all. let key = rsa_parse rsa data
      in if rsa_valid rsa key then flat_put dcId (flat_emplace (rsa_fingerprint rsa key) key
           (case map_of all dcId of Some keys \<Rightarrow> keys | None \<Rightarrow> [])) all else all) keys []"
  have "keys_ok all" using keys_ok_setCDNConfig [of "[]" rsa keys] by (simp add: all_def keys_ok_def)
  moreover obtain ids where "computeCdnDcIds (d\<lparr>dc_cdnPublicKeys := all\<rparr>) = Some (d\<lparr>dc_cdnPublicKeys := all, dc_cdnDcIds := ids\<rparr>)"
    "options_ok (d\<lparr>dc_cdnPublicKeys := all, dc_cdnDcIds := ids\<rparr>)"
    using computeCdnDcIds_ok [of "d\<lparr>dc_cdnPublicKeys := all\<rparr>"] assms by (auto simp: options_ok_def)
  ultimately show ?thesis by (simp add: setCDNConfig_def all_def [symmetric] options_ok_def)
qed

lemma addFromOther_ok:
  assumes "options_ok d" "keys_ok (dc_cdnPublicKeys d)" "options_ok other" "keys_ok (dc_cdnPublicKeys other)"
  shows "\<exists>d'. addFromOther other d = Some d' \<and> options_ok d' \<and> keys_ok (dc_cdnPublicKeys d') \<and> dc_immutable d' = dc_immutable d"
proof (cases "dc_immutable d \<or> dc_data other = []")
  case False
  then have "\<not> dc_immutable d" "dc_data other \<noteq> []" by simp_all
  from addFromOther_spec [OF assms(1) this(1) assms(2,3) this(2) assms(4)]
  obtain d' where d': "addFromOther other d = Some d'" "options_ok d'" "keys_ok (dc_cdnPublicKeys d')"
    by (elim exE conjE)
  moreover from this False have "dc_immutable d' = dc_immutable d"
    by (auto simp: addFromOther_def Let_def bind_eq_Some_conv split: prod.splits dest!: computeCdnDcIds_frame)
  ultimately show ?thesis by blast
qed (use assms in \<open>simp add: addFromOther_def\<close>)

lemma options_step_ok:
  assumes "options_step rsa d d'" "options_ok d \<and> keys_ok (dc_cdnPublicKeys d) \<and> \<not> dc_immutable d"
  shows "options_ok d' \<and> keys_ok (dc_cdnPublicKeys d') \<and> \<not> dc_immutable d'"
  using assms(1)
proof cases
  case (set_list options)
  then show ?thesis
    using assms(2) processFromList_ok [of d options True] processFromList_frame [of options True d d'] by (auto simp: setFromList_def)
next
  case (add_list options)
  then show ?thesis
    using assms(2) processFromList_ok [of d options False] processFromList_frame [of options False d d'] by (auto simp: addFromList_def)
next
  case (add_one option)
  then show ?thesis using assms(2) constructAddOne_ok [of d option] by auto
next
  case (add_other options)
  then show ?thesis using assms(2) addFromOther_ok [of d options] by auto
next
  case (set_cdn keys)
  then show ?thesis using assms(2) setCDNConfig_ok [of d rsa keys] by auto
qed

lemma options_reachable_ok: "options_reachable rsa d \<Longrightarrow> options_ok d \<and> keys_ok (dc_cdnPublicKeys d) \<and> \<not> dc_immutable d"
proof (induction rule: options_reachable.induct)
  case (start environment d)
  then show ?case using new_DcOptions_ok [of rsa environment] by auto
qed (rule options_step_ok)



text \<open>
  A server that gives a known address a secret is not listened to: the difference sees addresses
  only, so the new endpoints, which a connection would have to use, are dropped.
\<close>

lemma new_secret_ignored:
  "setFromList [\<lparr>ep_id = 2, ep_flags = f_static OR f_secret, ep_ip = ''10.0.0.2'', ep_port = 443, ep_secret = replicate 16 7\<rparr>,
      \<lparr>ep_id = 4, ep_flags = f_cdn, ep_ip = ''10.0.0.4'', ep_port = 443, ep_secret = []\<rparr>] sample_options = Some sample_options"
  by (simp add: setFromList_def processFromList_def ApplyOneOption_def sample_options_def options_equal_def options_find_def
      computeCdnDcIds_def has_flag_def f_cdn_def f_static_def BareDcId_id kDcShift_def)

text \<open>A data center whose id is the largest \<open>int\<close> makes the walk read past the end of the other map.\<close>

lemma largest_id_reads_past_end: "CountOptionsDifference [(max_dc_id, list)] [] = None"
  by simp

end
