(* ===== verification/DcStorage.thy ===== *)
theory DcStorage
  imports DcOptions
begin

text \<open>
  Where \<open>MTP::DcOptions\<close> are kept: the binary form of the settings (\<open>serialize\<close> and
  \<open>constructFromSerialized\<close>, with the byte strings of storage/serialize_common.h) and the text form
  of the file of custom endpoints (\<open>loadFromFile\<close> and \<open>writeToFile\<close>).
\<close>

section \<open>Definitions: endpoints in a file\<close>

text \<open>
  The file is the list of its lines, \<open>None\<close> when it cannot be opened. \<open>to_int\<close> is
  \<open>QString::toInt\<close> (0 for what is not a number), \<open>set_address\<close> is \<open>QHostAddress::setAddress\<close> with
  the protocol that \<open>QHostAddress\<close> then has, \<open>show_int\<close> is how \<open>QTextStream\<close> writes a number.
\<close>

definition is_space :: "char \<Rightarrow> bool" where
  "is_space c \<longleftrightarrow> c \<in> {CHR 0x20, CHR 0x09, CHR 0x0A, CHR 0x0B, CHR 0x0C, CHR 0x0D}"

fun split_at_spaces :: "string \<Rightarrow> string list" where
  "split_at_spaces [] = [[]]"
| "split_at_spaces (c # cs) =
     (if is_space c then [] # split_at_spaces cs
      else (c # hd (split_at_spaces cs)) # tl (split_at_spaces cs))"

definition line_components :: "string \<Rightarrow> string list" where
  "line_components line = filter (\<lambda>w. w \<noteq> []) (split_at_spaces line)"

definition is_comment :: "string \<Rightarrow> bool" where
  "is_comment w \<longleftrightarrow> take 1 w = ''#''"

fun load_flags :: "string list \<Rightarrow> uint32 \<Rightarrow> uint32 option" where
  "load_flags [] flags = Some flags"
| "load_flags (w # ws) flags =
     (if is_comment w then Some flags
      else if w = ''tcpo_only'' then load_flags ws (flags OR f_tcpo_only)
      else if w = ''media_only'' then load_flags ws (flags OR f_media_only)
      else None)"

text \<open>One turn of the loop: the error, or the options of the line.\<close>

definition load_line :: "(string \<Rightarrow> int) \<Rightarrow> (string \<Rightarrow> Address option) \<Rightarrow> string \<Rightarrow> Endpoint list option" where
  "load_line to_int set_address line =
     (let components = line_components line
      in if components = [] \<or> is_comment (components ! 0) then Some []
         else if length components < 3 then None
         else
           let dcId = to_int (components ! 0); ip = components ! 1; port = to_int (components ! 2)
           in if dcId \<le> 0 \<or> dcId \<ge> kDcShift \<or> set_address ip = None \<or> port \<le> 0 then None
              else map_option (\<lambda>flags. [\<lparr>ep_id = dcId, ep_flags = flags, ep_ip = ip, ep_port = port, ep_secret = []\<rparr>])
                     (load_flags (drop 3 components) (if set_address ip = Some IPv6 then f_ipv6 else 0)))"

fun load_lines :: "(string \<Rightarrow> int) \<Rightarrow> (string \<Rightarrow> Address option) \<Rightarrow> string list \<Rightarrow> Endpoint list option" where
  "load_lines to_int set_address [] = Some []"
| "load_lines to_int set_address (line # ls) =
     do { e \<leftarrow> load_line to_int set_address line;
          options \<leftarrow> load_lines to_int set_address ls;
          Some (e @ options) }"

definition loadFromFile :: "(string \<Rightarrow> int) \<Rightarrow> (string \<Rightarrow> Address option) \<Rightarrow> string list option \<Rightarrow> 'k dc_options \<Rightarrow>
    (bool \<times> 'k dc_options) option" where
  "loadFromFile to_int set_address file d =
     (case file of
        None \<Rightarrow> Some (False, d)
      | Some ls \<Rightarrow>
          (case load_lines to_int set_address ls of
             None \<Rightarrow> Some (False, d)
           | Some options \<Rightarrow>
               if options = [] then Some (False, d)
               else map_option (\<lambda>d. (True, d\<lparr>dc_immutable := True\<rparr>))
                      (setFromList options (d\<lparr>dc_immutable := False\<rparr>))))"

definition write_line :: "(int \<Rightarrow> string) \<Rightarrow> Endpoint \<Rightarrow> string" where
  "write_line show_int e =
     show_int (ep_id e) @ '' '' @ ep_ip e @ '' '' @ show_int (ep_port e)
     @ (if has_flag f_tcpo_only e then '' tcpo_only'' else [])
     @ (if has_flag f_media_only e then '' media_only'' else [])"

definition writeToFile :: "(int \<Rightarrow> string) \<Rightarrow> 'k dc_options \<Rightarrow> string list" where
  "writeToFile show_int d = map (write_line show_int) (concat (map snd (dc_data d)))"

section \<open>Definitions: serialization\<close>

text \<open>
  \<open>QDataStream\<close> is an argument: \<open>put32\<close> writes a \<open>qint32\<close>, \<open>get32\<close> reads one and gives \<open>None\<close>
  when the status is not \<open>Ok\<close> any more. Every read that fails makes the reader return false.
\<close>

definition kVersion :: int where "kVersion = 2"

definition kMaxIpSize :: int where "kMaxIpSize = 45"

definition kMaxSecretSize :: int where "kMaxSecretSize = 32"

definition char_byte :: "char \<Rightarrow> byte" where
  "char_byte c = word_of_nat (of_char c)"

definition byte_char :: "byte \<Rightarrow> char" where
  "byte_char b = char_of (unat b)"

definition write_bytes :: "(int \<Rightarrow> bytes) \<Rightarrow> bytes \<Rightarrow> bytes" where
  "write_bytes put32 bs = (if bs = [] then put32 (-1) else put32 (int (length bs)) @ bs)"

definition write_endpoint :: "(int \<Rightarrow> bytes) \<Rightarrow> Endpoint \<Rightarrow> bytes" where
  "write_endpoint put32 e =
     put32 (ep_id e) @ put32 (sint (ep_flags e)) @ put32 (ep_port e)
     @ put32 (int (length (ep_ip e))) @ map char_byte (ep_ip e)
     @ put32 (int (length (ep_secret e))) @ ep_secret e"

definition write_key :: "(int \<Rightarrow> bytes) \<Rightarrow> 'k rsa \<Rightarrow> DcId \<times> 'k \<Rightarrow> bytes" where
  "write_key put32 rsa k =
     put32 (fst k) @ write_bytes put32 (rsa_N rsa (snd k)) @ write_bytes put32 (rsa_E rsa (snd k))"

definition stored_endpoints :: "dc_data \<Rightarrow> Endpoint list" where
  "stored_endpoints data = concat (map snd (filter (\<lambda>(id, list). \<not> isTemporaryDcId id) data))"

definition stored_keys :: "(DcId, (uint64, 'k) flat_map) flat_map \<Rightarrow> (DcId \<times> 'k) list" where
  "stored_keys keys = concat (map (\<lambda>(dcId, inner). map (\<lambda>(fingerprint, key). (dcId, key)) inner) keys)"

definition serialize_data :: "(int \<Rightarrow> bytes) \<Rightarrow> 'k rsa \<Rightarrow> 'k dc_options \<Rightarrow> bytes" where
  "serialize_data put32 rsa d =
     put32 (- kVersion)
     @ put32 (int (length (stored_endpoints (dc_data d)))) @ concat (map (write_endpoint put32) (stored_endpoints (dc_data d)))
     @ put32 (int (length (stored_keys (dc_cdnPublicKeys d)))) @ concat (map (write_key put32 rsa) (stored_keys (dc_cdnPublicKeys d)))"

definition serialize :: "(int \<Rightarrow> bytes) \<Rightarrow> 'k rsa \<Rightarrow> 'k dc_options \<Rightarrow> bytes option" where
  "serialize put32 rsa d =
     (if dc_immutable d then map_option (serialize_data put32 rsa) (new_DcOptions rsa (dc_environment d))
      else Some (serialize_data put32 rsa d))"

definition read_raw :: "int \<Rightarrow> bytes \<Rightarrow> (bytes \<times> bytes) option" where
  "read_raw n bs = (if nat n \<le> length bs then Some (take (nat n) bs, drop (nat n) bs) else None)"

definition read_bytes :: "(bytes \<Rightarrow> (int \<times> bytes) option) \<Rightarrow> bytes \<Rightarrow> (bytes \<times> bytes) option" where
  "read_bytes get32 bs =
     do { (len, bs) \<leftarrow> get32 bs;
          if len = -1 then Some ([], bs) else read_raw (take_bit 32 len) bs }"

definition read_endpoint :: "(bytes \<Rightarrow> (int \<times> bytes) option) \<Rightarrow> int \<Rightarrow> bytes \<Rightarrow> (Endpoint \<times> bytes) option" where
  "read_endpoint get32 version bs =
     do { (dcId, bs) \<leftarrow> get32 bs;
          (flags, bs) \<leftarrow> get32 bs;
          (port, bs) \<leftarrow> get32 bs;
          (ipSize, bs) \<leftarrow> get32 bs;
          if ipSize \<le> 0 \<or> ipSize > kMaxIpSize then None
          else do {
            (ip, bs) \<leftarrow> read_raw ipSize bs;
            (secret, bs) \<leftarrow>
              (if version > 0
               then do { (secretSize, bs) \<leftarrow> get32 bs;
                         if secretSize < 0 \<or> secretSize > kMaxSecretSize then None else read_raw secretSize bs }
               else Some ([], bs));
            Some (\<lparr>ep_id = dcId, ep_flags = word_of_int flags, ep_ip = map byte_char ip, ep_port = port, ep_secret = secret\<rparr>, bs) } }"

text \<open>The two loops: how far they get is kept also when they fail.\<close>

fun read_endpoints :: "(bytes \<Rightarrow> (int \<times> bytes) option) \<Rightarrow> int \<Rightarrow> nat \<Rightarrow> bytes \<Rightarrow> dc_data \<Rightarrow> dc_data \<times> bytes option" where
  "read_endpoints get32 version 0 bs data = (data, Some bs)"
| "read_endpoints get32 version (Suc n) bs data =
     (case read_endpoint get32 version bs of
        None \<Rightarrow> (data, None)
      | Some (e, bs) \<Rightarrow> read_endpoints get32 version n bs (snd (ApplyOneOption e data)))"

definition read_key :: "(bytes \<Rightarrow> (int \<times> bytes) option) \<Rightarrow> 'k rsa \<Rightarrow> bytes \<Rightarrow> ((DcId \<times> 'k) \<times> bytes) option" where
  "read_key get32 rsa bs =
     do { (dcId, bs) \<leftarrow> get32 bs;
          (n, bs) \<leftarrow> read_bytes get32 bs;
          (e, bs) \<leftarrow> read_bytes get32 bs;
          let key = rsa_make rsa n e;
          if rsa_valid rsa key then Some ((dcId, key), bs) else None }"

definition add_key :: "'k rsa \<Rightarrow> DcId \<times> 'k \<Rightarrow> (DcId, (uint64, 'k) flat_map) flat_map \<Rightarrow> (DcId, (uint64, 'k) flat_map) flat_map" where
  "add_key rsa k keys =
     flat_put (fst k) (flat_emplace (rsa_fingerprint rsa (snd k)) (snd k)
       (case map_of keys (fst k) of Some inner \<Rightarrow> inner | None \<Rightarrow> [])) keys"

fun read_keys :: "(bytes \<Rightarrow> (int \<times> bytes) option) \<Rightarrow> 'k rsa \<Rightarrow> nat \<Rightarrow> bytes \<Rightarrow> (DcId, (uint64, 'k) flat_map) flat_map \<Rightarrow>
    (DcId, (uint64, 'k) flat_map) flat_map \<times> bool" where
  "read_keys get32 rsa 0 bs keys = (keys, True)"
| "read_keys get32 rsa (Suc n) bs keys =
     (case read_key get32 rsa bs of
        None \<Rightarrow> (keys, False)
      | Some (k, bs) \<Rightarrow> read_keys get32 rsa n bs (add_key rsa k keys))"

text \<open>
  A negative count makes the loop of the source run until the data ends; as every turn reads at
  least one byte, the number of bytes left is enough turns for that.
\<close>

definition loop_turns :: "int \<Rightarrow> bytes \<Rightarrow> nat" where
  "loop_turns cnt bs = (if cnt \<ge> 0 then nat cnt else Suc (length bs))"

definition constructFromSerialized :: "(bytes \<Rightarrow> (int \<times> bytes) option) \<Rightarrow> 'k rsa \<Rightarrow> bytes \<Rightarrow> 'k dc_options \<Rightarrow>
    (bool \<times> 'k dc_options) option" where
  "constructFromSerialized get32 rsa serialized d =
     (case do { (minusVersion, bs) \<leftarrow> get32 serialized;
                let version = (if minusVersion < 0 then - minusVersion else 0);
                (cnt, bs) \<leftarrow> (if version > 0 then get32 bs else Some (minusVersion, bs));
                Some (version, cnt, bs) } of
        None \<Rightarrow> Some (False, d)
      | Some (version, cnt, bs) \<Rightarrow>
          (case read_endpoints get32 version (loop_turns cnt bs) bs [] of
             (data, None) \<Rightarrow> map_option (\<lambda>d. (False, d)) (computeCdnDcIds (d\<lparr>dc_data := data\<rparr>))
           | (data, Some bs) \<Rightarrow>
               if bs \<noteq> [] \<and> version > 1
               then (case get32 bs of
                       None \<Rightarrow> map_option (\<lambda>d. (False, d)) (computeCdnDcIds (d\<lparr>dc_data := data\<rparr>))
                     | Some (keyCount, bs) \<Rightarrow>
                         let (keys, ok) = read_keys get32 rsa (loop_turns keyCount bs) bs (dc_cdnPublicKeys d)
                         in map_option (\<lambda>d. (ok, d)) (computeCdnDcIds (d\<lparr>dc_data := data, dc_cdnPublicKeys := keys\<rparr>)))
               else map_option (\<lambda>d. (True, d)) (computeCdnDcIds (d\<lparr>dc_data := data\<rparr>))))"

section \<open>Definitions: what is kept\<close>

text \<open>What \<open>QDataStream\<close> promises: a \<open>qint32\<close> that was written is read back, and an empty stream has none.\<close>

definition stream_laws :: "(int \<Rightarrow> bytes) \<Rightarrow> (bytes \<Rightarrow> (int \<times> bytes) option) \<Rightarrow> bool" where
  "stream_laws put32 get32 \<longleftrightarrow> (\<forall>x rest. is_int32 x \<longrightarrow> get32 (put32 x @ rest) = Some (x, rest)) \<and> get32 [] = None"

definition storable_endpoint :: "Endpoint \<Rightarrow> bool" where
  "storable_endpoint e \<longleftrightarrow> is_int32 (ep_id e) \<and> is_int32 (ep_port e) \<and> ep_ip e \<noteq> [] \<and> int (length (ep_ip e)) \<le> kMaxIpSize
     \<and> int (length (ep_secret e)) \<le> kMaxSecretSize"

text \<open>A key that is valid, kept under its fingerprint, and made again from its modulus and exponent.\<close>

definition storable_key :: "'k rsa \<Rightarrow> uint64 \<times> 'k \<Rightarrow> bool" where
  "storable_key rsa fk \<longleftrightarrow> rsa_valid rsa (snd fk) \<and> rsa_fingerprint rsa (snd fk) = fst fk
     \<and> rsa_make rsa (rsa_N rsa (snd fk)) (rsa_E rsa (snd fk)) = snd fk
     \<and> is_int32 (int (length (rsa_N rsa (snd fk)))) \<and> is_int32 (int (length (rsa_E rsa (snd fk))))"

definition storable_options :: "'k rsa \<Rightarrow> 'k dc_options \<Rightarrow> bool" where
  "storable_options rsa d \<longleftrightarrow> (\<forall>e \<in> set (stored_endpoints (dc_data d)). storable_endpoint e)
     \<and> (\<forall>(dcId, inner) \<in> set (dc_cdnPublicKeys d). is_int32 dcId \<and> inner \<noteq> [] \<and> (\<forall>fk \<in> set inner. storable_key rsa fk))
     \<and> is_int32 (int (length (stored_endpoints (dc_data d)))) \<and> is_int32 (int (length (stored_keys (dc_cdnPublicKeys d))))"

text \<open>The big endian stream of \<open>QDataStream\<close>, for examples.\<close>

definition put32_be :: "int \<Rightarrow> bytes" where
  "put32_be x = rev (word_bytes (word_of_int x))"

fun get32_be :: "bytes \<Rightarrow> (int \<times> bytes) option" where
  "get32_be (d # c # b # a # rest) = Some (sint (bytes_word a b c d), rest)"
| "get32_be _ = None"

text \<open>What the text form promises, and the endpoints and what of them it keeps.\<close>

definition text_laws :: "(int \<Rightarrow> string) \<Rightarrow> (string \<Rightarrow> int) \<Rightarrow> bool" where
  "text_laws show_int to_int \<longleftrightarrow> (\<forall>n. is_int32 n \<longrightarrow> to_int (show_int n) = n \<and> show_int n \<noteq> []
     \<and> \<not> is_comment (show_int n) \<and> (\<forall>c \<in> set (show_int n). \<not> is_space c))"

definition printable_endpoint :: "(string \<Rightarrow> Address option) \<Rightarrow> Endpoint \<Rightarrow> bool" where
  "printable_endpoint set_address e \<longleftrightarrow> 0 < ep_id e \<and> ep_id e < kDcShift \<and> 0 < ep_port e \<and> is_int32 (ep_port e)
     \<and> ep_ip e \<noteq> [] \<and> (\<forall>c \<in> set (ep_ip e). \<not> is_space c)
     \<and> set_address (ep_ip e) = Some (if has_flag f_ipv6 e then IPv6 else IPv4)"

definition printed_endpoint :: "Endpoint \<Rightarrow> Endpoint" where
  "printed_endpoint e = e\<lparr>ep_flags := ep_flags e AND (f_ipv6 OR f_tcpo_only OR f_media_only), ep_secret := []\<rparr>"

text \<open>Numbers in unary, for examples.\<close>

definition show_unary :: "int \<Rightarrow> string" where
  "show_unary n = (if n < 0 then ''-'' else []) @ replicate (nat \<bar>n\<bar>) (CHR ''1'') @ ''.''"

definition read_unary :: "string \<Rightarrow> int" where
  "read_unary s = (if take 1 s = ''-'' then - (int (length s) - 2) else int (length s) - 1)"

section \<open>Rebuilding the maps\<close>

lemma data_ok_unique:
  assumes "data_ok a" "data_ok b" "endpoints a = endpoints b"
  shows "a = b"
proof (rule sorted_key_unique [of fst])
  show "sorted_wrt (\<lambda>x y. fst x < fst y) a" "sorted_wrt (\<lambda>x y. fst x < fst y) b"
    using assms(1,2) by (simp_all add: data_ok_def sorted_wrt_map)
  have "(k, l) \<in> set a \<longleftrightarrow> (k, l) \<in> set b" for k l
    using assms by (simp add: map_of_flat [of a] map_of_flat [of b] data_ok_def map_of_endpoints)
  then show "set a = set b" by auto
qed

lemma endpoints_fold_distinct:
  "data_ok data \<Longrightarrow> distinct (map address (endpoints data i @ filter (\<lambda>e. ep_id e = i) es)) \<Longrightarrow>
     endpoints (fold (\<lambda>e data. snd (ApplyOneOption e data)) es data) i = endpoints data i @ filter (\<lambda>e. ep_id e = i) es"
proof (induction es arbitrary: data)
  case (Cons e es)
  then show ?case
    using Cons.IH [OF data_ok_ApplyOneOption [OF Cons.prems(1), of e]]
    by (auto simp: endpoints_ApplyOneOption)
qed simp

lemma rebuild_data:
  assumes "data_ok data"
  shows "fold (\<lambda>e data. snd (ApplyOneOption e data)) (concat (map snd data)) [] = data"
proof (rule data_ok_unique)
  show "endpoints (fold (\<lambda>e data. snd (ApplyOneOption e data)) (concat (map snd data)) []) = endpoints data"
  proof (rule ext)
    fix i
    have "distinct (map address (endpoints data i))"
      using list_ok_endpoints [OF assms, of i] by (auto simp: list_ok_def)
    then show "endpoints (fold (\<lambda>e data. snd (ApplyOneOption e data)) (concat (map snd data)) []) i = endpoints data i"
      using endpoints_fold_distinct [of "[]" i "concat (map snd data)"] concat_endpoints [OF assms, of i] by simp
  qed
qed (use assms in auto)

lemma flat_put_last: "\<forall>k' \<in> fst ` set m. k' < k \<Longrightarrow> flat_put k v (m @ rest) = m @ flat_put k v rest"
  by (induction m) auto

lemma flat_emplace_last: "\<forall>k' \<in> fst ` set m. k' < k \<Longrightarrow> flat_emplace k v m = m @ [(k, v)]"
  by (induction m) auto

lemma map_of_last: "\<forall>k' \<in> fst ` set m. k' < (k::'a::linorder) \<Longrightarrow> map_of (m @ [(k, v)]) k = Some v"
  by (force simp: map_add_def dest: map_of_SomeD split: option.splits)

lemma map_of_absent: "\<forall>k' \<in> fst ` set m. k' < (k::'a::linorder) \<Longrightarrow> map_of m k = None"
  by (force simp: map_of_eq_None_iff)

text \<open>The keys of one data center, read after those of the data centers before it.\<close>

lemma rebuild_inner:
  assumes "\<forall>k' \<in> fst ` set acc. k' < k" "flat_map_ok (inner1 @ inner2)" "\<forall>fk \<in> set inner2. storable_key rsa fk"
  shows "fold (add_key rsa) (map (\<lambda>(f, key). (k, key)) inner2) (acc @ [(k, inner1)]) = acc @ [(k, inner1 @ inner2)]"
  using assms(2,3)
proof (induction inner2 arbitrary: inner1)
  case (Cons fk inner2)
  obtain f key where [simp]: "fk = (f, key)" by (cases fk)
  have "rsa_fingerprint rsa key = f" "\<forall>f' \<in> fst ` set inner1. f' < f"
    using Cons.prems by (auto simp: storable_key_def sorted_wrt_append)
  then have "add_key rsa (k, key) (acc @ [(k, inner1)]) = acc @ [(k, inner1 @ [(f, key)])]"
    unfolding add_key_def fst_conv snd_conv map_of_last [OF assms(1)] option.case
    using assms(1) by (simp add: flat_put_last flat_emplace_last)
  then show ?case using Cons.IH [of "inner1 @ [fk]"] Cons.prems by simp
qed simp

lemma rebuild_keys:
  assumes "keys_ok (acc @ keys)" "\<forall>(dcId, inner) \<in> set keys. inner \<noteq> [] \<and> (\<forall>fk \<in> set inner. storable_key rsa fk)"
  shows "fold (add_key rsa) (stored_keys keys) acc = acc @ keys"
  using assms
proof (induction keys arbitrary: acc)
  case (Cons e keys)
  obtain k fk inner where [simp]: "e = (k, fk # inner)" using Cons.prems(2) by (cases e; cases "snd e") auto
  obtain f key where [simp]: "fk = (f, key)" by (cases fk)
  have later: "\<forall>k' \<in> fst ` set acc. k' < k" and inner: "flat_map_ok ([fk] @ inner)"
    using Cons.prems(1) by (auto simp: keys_ok_def sorted_wrt_append)
  have keys: "\<forall>fk \<in> set inner. storable_key rsa fk" "rsa_fingerprint rsa key = f"
    using Cons.prems(2) by (auto simp: storable_key_def)
  have "add_key rsa (k, key) acc = acc @ [(k, [fk])]"
    using later keys(2) flat_put_last [OF later, of "[fk]" "[]"] by (simp add: add_key_def map_of_absent)
  then have "fold (add_key rsa) (stored_keys (e # keys)) acc = fold (add_key rsa) (stored_keys keys) (acc @ [e])"
    using rebuild_inner [OF later inner keys(1)] by (simp add: stored_keys_def)
  then show ?case using Cons.IH [of "acc @ [e]"] Cons.prems by simp
qed (simp add: stored_keys_def)

section \<open>Reading back what was written\<close>

lemma byte_char_byte [simp]: "byte_char (char_byte c) = c"
proof -
  have "of_char c < (256::nat)" by (rule nat_of_char_less_256)
  then show ?thesis by (simp add: byte_char_def char_byte_def unsigned_of_nat take_bit_nat_eq_self)
qed

lemma read_raw_append: "n = int (length xs) \<Longrightarrow> read_raw n (xs @ rest) = Some (xs, rest)"
  by (simp add: read_raw_def)

lemma stream_roundtrip: "stream_laws put32 get32 \<Longrightarrow> is_int32 x \<Longrightarrow> get32 (put32 x @ rest) = Some (x, rest)"
  by (simp add: stream_laws_def)

lemma is_int32_sint: "is_int32 (sint (x :: uint32))"
  using sint_range_size [of x] by (simp add: is_int32_def word_size)

lemma read_bytes_write:
  assumes "stream_laws put32 get32" "is_int32 (int (length bs))"
  shows "read_bytes get32 (write_bytes put32 bs @ rest) = Some (bs, rest)"
proof (cases "bs = []")
  case True
  then show ?thesis using assms by (simp add: read_bytes_def write_bytes_def stream_roundtrip is_int32_def)
next
  case False
  have "take_bit 32 (int (length bs)) = int (length bs)"
    using assms(2) by (intro take_bit_int_eq_self) (simp_all add: is_int32_def)
  with False assms show ?thesis
    by (simp add: read_bytes_def write_bytes_def stream_roundtrip read_raw_append)
qed

lemma read_endpoint_write:
  assumes "stream_laws put32 get32" "storable_endpoint e" "version > 0"
  shows "read_endpoint get32 version (write_endpoint put32 e @ rest) = Some (e, rest)"
proof -
  have "is_int32 (int (length (ep_ip e)))" "is_int32 (int (length (ep_secret e)))"
    using assms(2) by (simp_all add: storable_endpoint_def is_int32_def kMaxIpSize_def kMaxSecretSize_def)
  moreover have "read_raw (int (length (ep_ip e))) (map char_byte (ep_ip e) @ r) = Some (map char_byte (ep_ip e), r)" for r
    by (rule read_raw_append) simp
  ultimately show ?thesis
    using assms by (simp add: read_endpoint_def write_endpoint_def stream_roundtrip is_int32_sint storable_endpoint_def
        read_raw_append comp_def)
qed

lemma read_endpoints_write:
  assumes "stream_laws put32 get32" "version > 0" "\<forall>e \<in> set es. storable_endpoint e"
  shows "read_endpoints get32 version (length es) (concat (map (write_endpoint put32) es) @ rest) data
    = (fold (\<lambda>e data. snd (ApplyOneOption e data)) es data, Some rest)"
  using assms(3) by (induction es arbitrary: data) (simp_all add: read_endpoint_write [OF assms(1) _ assms(2)])

lemma read_key_write:
  assumes "stream_laws put32 get32" "storable_key rsa fk" "is_int32 dcId"
  shows "read_key get32 rsa (write_key put32 rsa (dcId, snd fk) @ rest) = Some ((dcId, snd fk), rest)"
  using assms(2,3) by (simp add: read_key_def write_key_def storable_key_def stream_roundtrip [OF assms(1)]
      read_bytes_write [OF assms(1)])

lemma read_keys_write:
  assumes "stream_laws put32 get32" "\<forall>(dcId, key) \<in> set ks. is_int32 dcId \<and> storable_key rsa (rsa_fingerprint rsa key, key)"
  shows "read_keys get32 rsa (length ks) (concat (map (write_key put32 rsa) ks)) keys = (fold (add_key rsa) ks keys, True)"
  using assms(2)
proof (induction ks arbitrary: keys)
  case (Cons k ks)
  obtain dcId key where [simp]: "k = (dcId, key)" by (cases k)
  show ?case
    using Cons read_key_write [OF assms(1), of rsa "(rsa_fingerprint rsa key, key)" dcId] by simp
qed simp

lemma data_ok_filter:
  assumes "data_ok data"
  shows "data_ok (filter P data)"
  using assms by (auto simp: data_ok_def sorted_wrt_map intro: sorted_wrt_filter)

lemma stored_keys_storable:
  assumes "storable_options rsa d"
  shows "\<forall>(dcId, key) \<in> set (stored_keys (dc_cdnPublicKeys d)). is_int32 dcId \<and> storable_key rsa (rsa_fingerprint rsa key, key)"
  using assms by (fastforce simp: storable_options_def stored_keys_def storable_key_def)


lemma stream_laws_be: "stream_laws put32_be get32_be"
  unfolding stream_laws_def
proof (intro conjI allI impI)
  fix x rest assume "is_int32 x"
  then have "sint (word_of_int x :: uint32) = x"
    by (simp add: is_int32_def signed_of_int signed_take_bit_int_eq_self)
  then show "get32_be (put32_be x @ rest) = Some (x, rest)"
    by (simp add: put32_be_def word_bytes_def bytes_word_bytes)
qed simp


text \<open>
  \<open>ValidateSecret\<close> and the protocol know secrets of any length from 21 bytes on, the reader none of
  more than 32: it gives up at the first endpoint with one, and all after it are lost.
\<close>

lemma long_secret_unreadable:
  assumes "stream_laws put32 get32" "is_int32 (ep_id e)" "is_int32 (ep_port e)" "ep_ip e \<noteq> []" "length (ep_ip e) \<le> 45"
    "length (ep_secret e) = 33" "ep_secret e ! 0 = 0xEE"
  shows "ValidateSecret (ep_secret e)" "read_endpoint get32 2 (write_endpoint put32 e @ rest) = None"
proof -
  show "ValidateSecret (ep_secret e)" using assms by (simp add: ValidateSecret_def)
  have "is_int32 (int (length (ep_ip e)))" "is_int32 (int (length (ep_secret e)))"
    using assms by (simp_all add: is_int32_def)
  moreover have "read_raw (int (length (ep_ip e))) (map char_byte (ep_ip e) @ r) = Some (map char_byte (ep_ip e), r)" for r
    by (rule read_raw_append) simp
  ultimately show "read_endpoint get32 2 (write_endpoint put32 e @ rest) = None"
    using assms by (simp add: read_endpoint_def write_endpoint_def stream_roundtrip is_int32_sint kMaxIpSize_def kMaxSecretSize_def)
qed

section \<open>The file of custom endpoints\<close>

lemma split_at_spaces_word: "\<forall>c \<in> set w. \<not> is_space c \<Longrightarrow> split_at_spaces w = [w]"
  by (induction w) auto

lemma split_at_spaces_append:
  "\<forall>c \<in> set w. \<not> is_space c \<Longrightarrow> split_at_spaces (w @ CHR '' '' # rest) = w # split_at_spaces rest"
  by (induction w) (auto simp: is_space_def)

lemma line_components_append:
  "\<forall>c \<in> set w. \<not> is_space c \<Longrightarrow> w \<noteq> [] \<Longrightarrow> line_components (w @ CHR '' '' # rest) = w # line_components rest"
  by (simp add: line_components_def split_at_spaces_append)

lemma line_components_word: "\<forall>c \<in> set w. \<not> is_space c \<Longrightarrow> w \<noteq> [] \<Longrightarrow> line_components w = [w]"
  by (simp add: line_components_def split_at_spaces_word)

lemma flag_words:
  "\<forall>c \<in> set ''tcpo_only''. \<not> is_space c" "\<forall>c \<in> set ''media_only''. \<not> is_space c"
  by (simp_all add: is_space_def)

lemma text_lawsD:
  "text_laws show_int to_int \<Longrightarrow> is_int32 n \<Longrightarrow> to_int (show_int n) = n \<and> show_int n \<noteq> []
     \<and> \<not> is_comment (show_int n) \<and> (\<forall>c \<in> set (show_int n). \<not> is_space c)"
  by (simp add: text_laws_def)

lemma printable_int32: "printable_endpoint set_address e \<Longrightarrow> is_int32 (ep_id e) \<and> is_int32 (ep_port e)"
  by (simp add: printable_endpoint_def is_int32_def kDcShift_def)

lemma write_line_components:
  assumes "text_laws show_int to_int" "printable_endpoint set_address e"
  shows "line_components (write_line show_int e) = [show_int (ep_id e), ep_ip e, show_int (ep_port e)]
     @ (if has_flag f_tcpo_only e then [''tcpo_only''] else []) @ (if has_flag f_media_only e then [''media_only''] else [])"
proof -
  have words: "show_int (ep_id e) \<noteq> []" "\<forall>c \<in> set (show_int (ep_id e)). \<not> is_space c"
    "show_int (ep_port e) \<noteq> []" "\<forall>c \<in> set (show_int (ep_port e)). \<not> is_space c"
    using text_lawsD [OF assms(1), of "ep_id e"] text_lawsD [OF assms(1), of "ep_port e"] printable_int32 [OF assms(2)] by auto
  note parts = line_components_append [OF words(2,1)] line_components_append [OF words(4,3)] line_components_word [OF words(4,3)]
    line_components_append [OF flag_words(1)] line_components_word [OF flag_words(1)] line_components_word [OF flag_words(2)]
  have ip: "line_components (ep_ip e @ CHR '' '' # rest) = ep_ip e # line_components rest" for rest
    using assms(2) by (intro line_components_append) (auto simp: printable_endpoint_def)
  show ?thesis
    using parts ip by (cases "has_flag f_tcpo_only e"; cases "has_flag f_media_only e") (simp_all add: write_line_def)
qed

lemma and_power: "(x :: uint32) AND 2 ^ n = (if bit x n then 2 ^ n else 0)"
  by (rule bit_word_eqI) (auto simp: bit_and_iff bit_exp_iff)

lemma and_flag: "f = 2 ^ n \<Longrightarrow> ep_flags e AND f = (if has_flag f e then f else 0)"
  by (simp add: has_flag_def and_power)

lemma printed_flags:
  "(if has_flag f_ipv6 e then f_ipv6 else 0) OR (if has_flag f_tcpo_only e then f_tcpo_only else 0)
     OR (if has_flag f_media_only e then f_media_only else 0) = ep_flags e AND (f_ipv6 OR f_tcpo_only OR f_media_only)"
  unfolding bit.conj_disj_distrib
  using and_flag [of f_ipv6 0 e] and_flag [of f_tcpo_only 2 e] and_flag [of f_media_only 1 e]
  by (simp add: f_ipv6_def f_tcpo_only_def f_media_only_def)

lemma load_line_write:
  assumes "text_laws show_int to_int" "printable_endpoint set_address e"
  shows "load_line to_int set_address (write_line show_int e) = Some [printed_endpoint e]"
proof -
  have words: "\<not> is_comment ''tcpo_only''" "\<not> is_comment ''media_only''" by (simp_all add: is_comment_def)
  have flags: "load_flags ((if has_flag f_tcpo_only e then [''tcpo_only''] else []) @ (if has_flag f_media_only e then [''media_only''] else [])) x
      = Some (x OR (if has_flag f_tcpo_only e then f_tcpo_only else 0) OR (if has_flag f_media_only e then f_media_only else 0))" for x
    using words by (simp add: or.assoc)
  have numbers: "to_int (show_int (ep_id e)) = ep_id e" "to_int (show_int (ep_port e)) = ep_port e" "\<not> is_comment (show_int (ep_id e))"
    using text_lawsD [OF assms(1), of "ep_id e"] text_lawsD [OF assms(1), of "ep_port e"] printable_int32 [OF assms(2)] by auto
  have "set_address (ep_ip e) = Some IPv6 \<longleftrightarrow> has_flag f_ipv6 e" "set_address (ep_ip e) \<noteq> None"
    "0 < ep_id e" "ep_id e < kDcShift" "0 < ep_port e"
    using assms(2) by (auto simp: printable_endpoint_def)
  then show ?thesis
    unfolding load_line_def write_line_components [OF assms] Let_def
    using numbers flags printed_flags [of e] by (simp add: printed_endpoint_def)
qed

lemma load_lines_write:
  assumes "text_laws show_int to_int" "\<forall>e \<in> set es. printable_endpoint set_address e"
  shows "load_lines to_int set_address (map (write_line show_int) es) = Some (map printed_endpoint es)"
  using assms(2) by (induction es) (simp_all add: load_line_write [OF assms(1)])

lemma printed_simps [simp]: "ep_id (printed_endpoint e) = ep_id e" "address (printed_endpoint e) = address e"
  by (simp_all add: printed_endpoint_def address_def)

lemma processFromList_data:
  assumes "processFromList options True d = Some d'" "options \<noteq> []" "\<not> dc_immutable d"
  shows "dc_data d' = fold (\<lambda>e data. snd (ApplyOneOption e data)) options [] \<or> dc_data d' = dc_data d"
  using assms by (auto simp: processFromList_def Let_def bind_eq_Some_conv computeCdnDcIds_def split: if_splits)

lemma all_endpoints:
  assumes "data_ok data"
  shows "set (concat (map snd data)) = {e. e \<in> set (endpoints data (ep_id e))}"
  using concat_endpoints [OF assms] by (auto simp flip: concat_endpoints [OF assms])

lemma endpoints_of_printed:
  assumes "data_ok data"
  shows "endpoints (fold (\<lambda>e data. snd (ApplyOneOption e data)) (map printed_endpoint (concat (map snd data))) []) i
    = map printed_endpoint (endpoints data i)"
proof -
  have filter: "filter (\<lambda>e. ep_id e = i) (map printed_endpoint (concat (map snd data))) = map printed_endpoint (endpoints data i)"
    unfolding filter_map comp_def printed_simps by (simp add: concat_endpoints [OF assms])
  have "distinct (map address (endpoints data i))"
    using list_ok_endpoints [OF assms, of i] by (auto simp: list_ok_def)
  with filter show ?thesis
    using endpoints_fold_distinct [of "[]" i "map printed_endpoint (concat (map snd data))"] by (simp add: comp_def)
qed

lemma listed_options:
  assumes "options_ok source" "dc_data source \<noteq> []"
  shows "map printed_endpoint (concat (map snd (dc_data source))) \<noteq> []"
    "\<forall>e \<in> set (map printed_endpoint (concat (map snd (dc_data source)))). ep_id e < max_dc_id"
  using assms by (force simp: options_ok_def data_ok_def list_ok_def ids_bounded_def dest: hd_in_set)+

text \<open>
  C40. The endpoints that \<open>writeToFile\<close> writes are the ones \<open>loadFromFile\<close> takes over, for ids of real
  data centers and addresses that \<open>QHostAddress\<close> knows: every data center has the same addresses.
  Of an endpoint only the flags for IPv6, for TCP only and for media survive, and no secret does.
  Options that were loaded are not changed by the server any more, and \<open>serialize\<close> writes the
  built in ones instead of them.
\<close>

theorem custom_endpoints:
  assumes "text_laws show_int to_int" "options_ok source" "dc_data source \<noteq> []" "options_ok d"
    "\<forall>i. \<forall>e \<in> set (endpoints (dc_data source) i). printable_endpoint set_address e"
  shows "\<exists>d'. loadFromFile to_int set_address (Some (writeToFile show_int source)) d = Some (True, d') \<and> options_ok d'
    \<and> (\<forall>i. addresses (dc_data d') i = addresses (dc_data source) i)
    \<and> (\<forall>i. addresses (dc_data source) i \<noteq> addresses (dc_data d) i \<longrightarrow>
         (\<forall>j. endpoints (dc_data d') j = map printed_endpoint (endpoints (dc_data source) j)))
    \<and> (\<forall>options overwrite. processFromList options overwrite d' = Some d')
    \<and> serialize put32 rsa d' = map_option (serialize_data put32 rsa) (new_DcOptions rsa (dc_environment d))"
proof -
  define os where "os = map printed_endpoint (concat (map snd (dc_data source)))"
  have source: "data_ok (dc_data source)" using assms(2) by (simp add: options_ok_def)
  have os: "os \<noteq> []" "\<forall>e \<in> set os. ep_id e < max_dc_id" using listed_options [OF assms(2,3)] by (simp_all add: os_def)
  have "load_lines to_int set_address (writeToFile show_int source) = Some os"
    using load_lines_write [OF assms(1), of "concat (map snd (dc_data source))" set_address] assms(5)
    unfolding all_endpoints [OF source] by (auto simp: writeToFile_def os_def)
  then have load: "loadFromFile to_int set_address (Some (writeToFile show_int source)) d =
      map_option (\<lambda>d. (True, d\<lparr>dc_immutable := True\<rparr>)) (setFromList os (d\<lparr>dc_immutable := False\<rparr>))"
    using os(1) by (simp add: loadFromFile_def)
  have d: "options_ok (d\<lparr>dc_immutable := False\<rparr>)" "\<not> dc_immutable (d\<lparr>dc_immutable := False\<rparr>)"
    using assms(4) by (simp_all add: options_ok_def)
  obtain d1 where d1: "processFromList os True (d\<lparr>dc_immutable := False\<rparr>) = Some d1" "options_ok d1"
    "\<And>i. addresses (dc_data d1) i = address ` {e \<in> set os. ep_id e = i}"
    using processFromList_spec [OF d os, of True] by (elim exE conjE) simp
  have printed: "endpoints (fold (\<lambda>e data. snd (ApplyOneOption e data)) os []) i = map printed_endpoint (endpoints (dc_data source) i)" for i
    using endpoints_of_printed [OF source] by (simp add: os_def)
  have "address ` {e \<in> set os. ep_id e = i} = addresses (dc_data source) i" for i
    using addresses_fold [of "[]" os i] unfolding printed by (simp add: image_image)
  with d1(3) have addresses: "addresses (dc_data d1) i = addresses (dc_data source) i" for i by simp
  have data: "dc_data d1 = fold (\<lambda>e data. snd (ApplyOneOption e data)) os [] \<or> dc_data d1 = dc_data d"
    using processFromList_data [OF d1(1) os(1)] by simp
  have "(\<exists>i. addresses (dc_data source) i \<noteq> addresses (dc_data d) i) \<longrightarrow>
      (\<forall>j. endpoints (dc_data d1) j = map printed_endpoint (endpoints (dc_data source) j))"
    using data addresses printed by metis
  moreover have "options_ok (d1\<lparr>dc_immutable := True\<rparr>)" using d1(2) by (simp add: options_ok_def)
  moreover have "processFromList options overwrite (d1\<lparr>dc_immutable := True\<rparr>) = Some (d1\<lparr>dc_immutable := True\<rparr>)" for options overwrite
    by (simp add: processFromList_def)
  moreover have "serialize put32 rsa (d1\<lparr>dc_immutable := True\<rparr>) = map_option (serialize_data put32 rsa) (new_DcOptions rsa (dc_environment d))"
    using processFromList_frame [OF d1(1)] by (simp add: serialize_def)
  ultimately show ?thesis
    unfolding load setFromList_def d1(1) using addresses by simp
qed

lemma text_laws_unary: "text_laws show_unary read_unary"
  by (auto simp: text_laws_def show_unary_def read_unary_def is_comment_def is_space_def take_Cons' split: if_splits)

theorem custom_endpoints_witness:
  "\<exists>d'. loadFromFile read_unary (\<lambda>_. Some IPv4) (Some (writeToFile show_unary sample_options))
       (sample_options\<lparr>dc_data := [], dc_cdnDcIds := []\<rparr>) = Some (True, d')
     \<and> addresses (dc_data d') 2 = {(''10.0.0.2'', 443)}"
proof -
  have start: "options_ok (sample_options\<lparr>dc_data := [], dc_cdnDcIds := []\<rparr>)"
    by (simp add: options_ok_def ids_bounded_def)
  have printable: "\<forall>i. \<forall>e \<in> set (endpoints (dc_data sample_options) i). printable_endpoint (\<lambda>_. Some IPv4) e"
    by (auto simp: sample_options_def endpoints_def printable_endpoint_def has_flag_def f_ipv6_def f_static_def f_cdn_def
        is_int32_def kDcShift_def is_space_def split: if_splits)
  have "dc_data sample_options \<noteq> []" by (simp add: sample_options_def)
  from custom_endpoints [OF text_laws_unary sample_options_ok this start printable, of put32_be no_rsa]
  obtain d' where d': "loadFromFile read_unary (\<lambda>_. Some IPv4) (Some (writeToFile show_unary sample_options))
       (sample_options\<lparr>dc_data := [], dc_cdnDcIds := []\<rparr>) = Some (True, d')"
     "\<forall>i. addresses (dc_data d') i = addresses (dc_data sample_options) i"
    by (elim exE conjE)
  have "addresses (dc_data d') 2 = {(''10.0.0.2'', 443)}"
    using d'(2) by (simp add: sample_options_def endpoints_def address_def)
  with d'(1) show ?thesis by blast
qed

end
