(* ===== verification/DownloadQueue.thy ===== *)
theory DownloadQueue
  imports Prelude
begin

text \<open>
  The queue of a data center in the download manager (\<open>DownloadManagerMtproto::Queue\<close> of
  storage/download_manager_mtproto.h and .cpp): tasks with their priorities, the highest first. A task is
  its number, priorities are integers.
\<close>

section \<open>Definitions\<close>

type_synonym task_id = nat

text \<open>\<open>Enqueued\<close>: the task and its priority.\<close>

type_synonym Enqueued = "task_id \<times> int"

type_synonym Queue = "Enqueued list"

text \<open>\<open>std::rotate\<close> on the range from \<open>first\<close> to \<open>last\<close> of a vector.\<close>

definition rotate_range :: "nat \<Rightarrow> nat \<Rightarrow> nat \<Rightarrow> 'a list \<Rightarrow> 'a list" where
  "rotate_range first middle last_pos xs =
     take first xs @ take (last_pos - middle) (drop middle xs) @ take (middle - first) (drop first xs) @ drop last_pos xs"

definition queue_enqueue :: "task_id \<Rightarrow> int \<Rightarrow> Queue \<Rightarrow> Queue" where
  "queue_enqueue task priority ts =
     (let position = length (takeWhile (\<lambda>e. \<not> snd e \<le> priority) ts);
          now_pos = length (takeWhile (\<lambda>e. fst e \<noteq> task) ts);
          (i, ts) = (if now_pos < length ts then (now_pos, ts[now_pos := (task, priority)])
                     else (length ts, ts @ [(task, priority)]));
          j = position
      in if j < i then rotate_range j i (i + 1) ts
         else if j > i + 1 then rotate_range i (i + 1) j ts
         else ts)"

definition queue_remove :: "task_id \<Rightarrow> Queue \<Rightarrow> Queue" where
  "queue_remove task ts = filter (\<lambda>e. fst e \<noteq> task) ts"

text \<open>The loop of \<open>resetGeneration\<close>, from the first task of priority zero; \<open>None\<close> is the failed \<open>Assert\<close>.\<close>

fun reset_loop :: "Queue \<Rightarrow> Queue option" where
  "reset_loop [] = Some []"
| "reset_loop ((task, priority) # ts) =
     (if priority \<noteq> 0 then (if priority = -1 then Some ((task, priority) # ts) else None)
      else map_option ((#) (task, -1)) (reset_loop ts))"

definition queue_resetGeneration :: "Queue \<Rightarrow> Queue option" where
  "queue_resetGeneration ts =
     map_option ((@) (takeWhile (\<lambda>e. snd e \<noteq> 0) ts)) (reset_loop (dropWhile (\<lambda>e. snd e \<noteq> 0) ts))"

definition nextTask :: "(task_id \<Rightarrow> bool) \<Rightarrow> bool \<Rightarrow> Queue \<Rightarrow> task_id option" where
  "nextTask readyToRequest onlyHighestPriority ts =
     (if ts = [] then None
      else
        let highestPriority = snd (hd ts);
            till = (if onlyHighestPriority \<and> highestPriority > 0 then takeWhile (\<lambda>e. \<not> snd e \<noteq> highestPriority) ts else ts)
        in map_option fst (List.find (\<lambda>e. readyToRequest (fst e)) till))"

text \<open>
  Specification: the queue is ordered, no task is there twice, and priorities are those that
  tasks use or the one of an older generation.
\<close>

definition queue_ok :: "Queue \<Rightarrow> bool" where
  "queue_ok ts \<longleftrightarrow> sorted_wrt (\<lambda>a b. snd b \<le> snd a) ts \<and> distinct (map fst ts) \<and> list_all (\<lambda>e. -1 \<le> snd e) ts"

text \<open>The task goes before all others of its priority; the order of the others stays.\<close>

definition insert_task :: "task_id \<Rightarrow> int \<Rightarrow> Queue \<Rightarrow> Queue" where
  "insert_task task priority ts =
     (let others = filter (\<lambda>e. fst e \<noteq> task) ts
      in takeWhile (\<lambda>e. snd e > priority) others @ (task, priority) # dropWhile (\<lambda>e. snd e > priority) others)"

definition older :: "Enqueued \<Rightarrow> Enqueued" where
  "older e = (fst e, if snd e = 0 then -1 else snd e)"

section \<open>Lemmas\<close>

lemma rotate_to_front: "rotate_range (length a) (length a + length b) (length a + length b + 1) (a @ b @ x # c) = a @ x # b @ c"
  by (simp add: rotate_range_def)

lemma rotate_to_back: "rotate_range (length a) (length a + 1) (length a + 1 + length b) (a @ x # b @ c) = a @ b @ x # c"
  by (simp add: rotate_range_def)

lemma enqueue_new:
  assumes "task \<notin> fst ` set ts"
  shows "queue_enqueue task priority ts = insert_task task priority ts"
proof -
  let ?p = "\<lambda>e. priority < snd e"
  have now_pos: "length (takeWhile (\<lambda>e. fst e \<noteq> task) ts) = length ts" "filter (\<lambda>e. fst e \<noteq> task) ts = ts"
    using assms by (subst takeWhile_eq_all_conv [THEN iffD2], force, simp, subst filter_id_conv, force)
  show ?thesis
  proof (cases "dropWhile ?p ts")
    case Nil
    moreover from Nil have "takeWhile ?p ts = ts" by (metis append_Nil2 takeWhile_dropWhile_id)
    ultimately show ?thesis using now_pos by (simp add: queue_enqueue_def insert_task_def not_le Let_def del: dropWhile_eq_Nil_conv takeWhile_eq_all_conv)
  next
    case (Cons e rest)
    define a where "a = takeWhile ?p ts"
    have ts: "ts = a @ e # rest" unfolding a_def Cons [symmetric] by simp
    have "rotate_range (length a) (length ts) (Suc (length ts)) (ts @ [(task, priority)]) = a @ (task, priority) # e # rest"
      using rotate_to_front [of a "e # rest" "(task, priority)" "[]"] unfolding ts by simp
    moreover have "length a < length ts" unfolding ts by simp
    ultimately show ?thesis
      using now_pos Cons by (simp add: queue_enqueue_def insert_task_def not_le Let_def flip: a_def)
  qed
qed

lemma enqueue_again:
  assumes "ts = a @ (task, p0) # b" "task \<notin> fst ` set a" "task \<notin> fst ` set b" "\<forall>e \<in> set b. snd e \<le> p0"
  shows "queue_enqueue task priority ts = insert_task task priority ts"
proof -
  let ?p = "\<lambda>e. priority < snd e"
  have all: "\<forall>e \<in> set a. fst e \<noteq> task" "\<forall>e \<in> set b. fst e \<noteq> task" using assms(2,3) by force+
  have now_pos: "length (takeWhile (\<lambda>e. fst e \<noteq> task) ts) = length a" "filter (\<lambda>e. fst e \<noteq> task) ts = a @ b"
    using all assms(1) by (simp_all add: takeWhile_append filter_id_conv takeWhile_tail)
  have put: "ts[length a := (task, priority)] = a @ (task, priority) # b" using assms(1) by simp
  show ?thesis
  proof (cases "\<forall>e \<in> set a. ?p e")
    case False
    then obtain e c where c: "dropWhile ?p a = e # c" by (cases "dropWhile ?p a") (auto simp: dropWhile_eq_Nil_conv)
    define a' where "a' = takeWhile ?p a"
    have a: "a = a' @ e # c" unfolding a'_def c [symmetric] by simp
    have "\<not> ?p e" using hd_dropWhile [of ?p a] c by simp
    moreover have "\<forall>x \<in> set a'. ?p x" unfolding a'_def by (auto dest: set_takeWhileD)
    ultimately have tw: "takeWhile ?p (a @ d) = a'" "dropWhile ?p (a @ d) = e # c @ d" for d
      unfolding a by (simp_all add: takeWhile_append dropWhile_append3)
    have "rotate_range (length a') (length a) (Suc (length a)) (a @ (task, priority) # b) = a' @ (task, priority) # e # c @ b"
      using rotate_to_front [of a' "e # c" "(task, priority)" b] unfolding a by simp
    moreover have "length a' < length a" unfolding a by simp
    ultimately show ?thesis
      using now_pos put tw assms(1) by (simp add: queue_enqueue_def insert_task_def not_le Let_def)
  next
    case True
    then have tw: "takeWhile ?p (a @ d) = a @ takeWhile ?p d" "dropWhile ?p (a @ d) = dropWhile ?p d" for d
      by (simp_all add: takeWhile_append dropWhile_append)
    show ?thesis
    proof (cases "priority < p0")
      case True
      have "rotate_range (length a) (length a + 1) (length a + 1 + length (takeWhile ?p b)) (a @ (task, priority) # b)
          = a @ takeWhile ?p b @ (task, priority) # dropWhile ?p b"
        using rotate_to_back [of a "takeWhile ?p b" "(task, priority)" "dropWhile ?p b"] by simp
      moreover have "takeWhile ?p b = [] \<Longrightarrow> dropWhile ?p b = b" by (metis append_Nil takeWhile_dropWhile_id)
      ultimately show ?thesis
        using now_pos put tw True assms(1)
        by (cases "takeWhile ?p b = []") (simp_all add: queue_enqueue_def insert_task_def not_le Let_def)
    next
      case False
      then have "takeWhile ?p b = []" "dropWhile ?p b = b" using assms(4) by (cases b; force)+
      then show ?thesis using now_pos put tw False assms(1) by (simp add: queue_enqueue_def insert_task_def not_le Let_def)
    qed
  qed
qed

lemma enqueue_insert:
  assumes "queue_ok ts"
  shows "queue_enqueue task priority ts = insert_task task priority ts"
proof (cases "task \<in> fst ` set ts")
  case True
  then obtain p0 where "(task, p0) \<in> set ts" by force
  then obtain a b where ts: "ts = a @ (task, p0) # b" by (auto dest: split_list)
  then show ?thesis using assms by (intro enqueue_again [OF ts]) (auto simp: queue_ok_def sorted_wrt_append)
qed (simp add: enqueue_new)

lemma sorted_takeWhile_priority:
  "sorted_wrt (\<lambda>a b. snd b \<le> snd a) ts \<Longrightarrow> e \<in> set (dropWhile (\<lambda>e. snd e > priority) ts) \<Longrightarrow> snd e \<le> (priority :: int)"
  by (induction ts) (auto split: if_splits)

lemma insert_task_ok:
  assumes "queue_ok ts" "-1 \<le> priority"
  shows "queue_ok (insert_task task priority ts)"
proof -
  let ?p = "\<lambda>e. snd e > priority"
  define us where "us = filter (\<lambda>e. fst e \<noteq> task) ts"
  have us: "sorted_wrt (\<lambda>a b. snd b \<le> snd a) us" "distinct (map fst us)" "task \<notin> fst ` set us" "\<forall>e \<in> set us. -1 \<le> snd e"
    using assms(1) by (auto simp: us_def queue_ok_def sorted_wrt_filter distinct_map_filter list_all_iff)
  obtain xs ys where split: "us = xs @ ys" "takeWhile ?p us = xs" "dropWhile ?p us = ys" by (metis takeWhile_dropWhile_id)
  have "\<forall>e \<in> set xs. priority \<le> snd e" using split(2) by (auto dest: set_takeWhileD)
  moreover have "\<forall>e \<in> set ys. snd e \<le> priority" using sorted_takeWhile_priority [OF us(1), of _ priority] split(3) by blast
  ultimately have "queue_ok (xs @ (task, priority) # ys)"
    using us assms(2) unfolding split(1) queue_ok_def by (simp add: sorted_wrt_append list_all_iff image_Un)
  then show ?thesis using split by (simp add: insert_task_def Let_def flip: us_def)
qed

lemma set_insert_task: "fst ` set (insert_task task priority ts) = insert task (fst ` set ts)"
proof -
  let ?us = "filter (\<lambda>e. fst e \<noteq> task) ts"
  have "set (takeWhile P ?us) \<union> set (dropWhile P ?us) = set ?us" for P by (metis set_append takeWhile_dropWhile_id)
  then show ?thesis by (force simp: insert_task_def Let_def)
qed

lemma queue_remove_ok: "queue_ok ts \<Longrightarrow> queue_ok (queue_remove task ts)"
  by (auto simp: queue_ok_def queue_remove_def sorted_wrt_filter distinct_map_filter list_all_iff)

lemma reset_loop_zeros:
  "queue_ok ts \<Longrightarrow> list_all (\<lambda>e. snd e \<le> 0) ts \<Longrightarrow> reset_loop ts = Some (map older ts)"
proof (induction ts rule: reset_loop.induct)
  case (2 task priority ts)
  have "map older ts = ts" if "priority = -1"
    using 2(2,3) that by (intro map_idI) (force simp: queue_ok_def list_all_iff older_def)
  moreover have "older (task, 0) = (task, -1)" "priority \<noteq> 0 \<Longrightarrow> older (task, priority) = (task, priority)"
    by (simp_all add: older_def)
  ultimately show ?case using 2 by (auto simp: queue_ok_def list_all_iff)
qed simp

lemma queue_ok_append: "queue_ok (a @ b) \<Longrightarrow> queue_ok b"
  by (auto simp: queue_ok_def sorted_wrt_append)

lemma resetGeneration_older:
  assumes "queue_ok ts"
  shows "queue_resetGeneration ts = Some (map older ts)"
proof -
  let ?p = "\<lambda>e :: Enqueued. snd e \<noteq> 0"
  obtain xs ys where split: "ts = xs @ ys" "takeWhile ?p ts = xs" "dropWhile ?p ts = ys" by (metis takeWhile_dropWhile_id)
  have ok: "queue_ok ys" using assms queue_ok_append split(1) by blast
  have "list_all (\<lambda>e. snd e \<le> 0) ys"
  proof (cases ys)
    case (Cons e rest)
    then have "snd e = 0" using hd_dropWhile [of ?p ts] split(3) by simp
    then show ?thesis using ok Cons by (auto simp: queue_ok_def list_all_iff)
  qed simp
  then have "reset_loop ys = Some (map older ys)" using reset_loop_zeros [OF ok] by simp
  moreover have "map older xs = xs"
    using split(2) by (intro map_idI) (auto simp: older_def dest: set_takeWhileD)
  ultimately show ?thesis using split by (simp add: queue_resetGeneration_def)
qed

lemma older_ok: "queue_ok ts \<Longrightarrow> queue_ok (map older ts)"
  by (auto simp: queue_ok_def older_def list_all_iff sorted_wrt_map comp_def elim!: sorted_wrt_mono_rel [rotated])

lemma nextTask_Some:
  assumes "nextTask ready only ts = Some task"
  shows "task \<in> fst ` set ts \<and> ready task"
proof -
  define us where "us = (if only \<and> snd (hd ts) > 0 then takeWhile (\<lambda>e. \<not> snd e \<noteq> snd (hd ts)) ts else ts)"
  have "map_option fst (List.find (\<lambda>e. ready (fst e)) us) = Some task"
    using assms unfolding nextTask_def Let_def us_def by (cases "ts = []") (simp, simp only: if_False)
  then obtain e where "List.find (\<lambda>e. ready (fst e)) us = Some e" "task = fst e" by auto
  then have "e \<in> set us \<and> ready (fst e)" by (auto simp: find_Some_iff)
  then have "task \<in> fst ` set us \<and> ready task" using \<open>task = fst e\<close> by blast
  moreover have "set us \<subseteq> set ts" by (auto simp: us_def dest: set_takeWhileD split: if_splits)
  ultimately show ?thesis by blast
qed

lemma nextTask_first:
  assumes "queue_ok ts" "ts = a @ (task, priority) # b" "ready task" "\<And>e. e \<in> set a \<Longrightarrow> \<not> ready (fst e)"
  shows "nextTask ready False ts = Some task"
    and "nextTask ready True ts = (if snd (hd ts) \<le> 0 \<or> priority = snd (hd ts) then Some task else None)"
proof -
  let ?r = "\<lambda>e. ready (fst e)"
  have none: "List.find ?r xs = None" if "set xs \<subseteq> set a" for xs using assms(4) that by (auto simp: find_None_iff)
  have skip: "List.find ?r (a @ xs) = List.find ?r xs" for xs using assms(4) by (induction a) auto
  have ts: "ts \<noteq> []" using assms(2) by simp
  show "nextTask ready False ts = Some task" unfolding nextTask_def using assms(2,3) ts skip by (simp add: Let_def)
  show "nextTask ready True ts = (if snd (hd ts) \<le> 0 \<or> priority = snd (hd ts) then Some task else None)"
  proof (cases "snd (hd ts) \<le> 0 \<or> priority \<noteq> snd (hd ts)")
    case True
    have "takeWhile (\<lambda>e. \<not> snd e \<noteq> h) ts = takeWhile (\<lambda>e. \<not> snd e \<noteq> h) a" if "priority \<noteq> h" for h
      unfolding assms(2) using that by (induction a) auto
    moreover have "set (takeWhile P a) \<subseteq> set a" for P by (auto dest: set_takeWhileD)
    ultimately show ?thesis
      using True assms(2,3) ts skip none by (auto simp: nextTask_def Let_def)
  next
    case False
    have "\<forall>e \<in> set a. snd e = snd (hd ts)"
      using False assms(1,2) by (cases a) (auto simp: queue_ok_def sorted_wrt_append intro: antisym)
    then have "takeWhile (\<lambda>e. \<not> snd e \<noteq> snd (hd ts)) ts = a @ (task, priority) # takeWhile (\<lambda>e. \<not> snd e \<noteq> snd (hd ts)) b"
      using False assms(2) by (simp add: takeWhile_append)
    then show ?thesis using False assms(3) ts skip by (simp add: nextTask_def Let_def)
  qed
qed

section \<open>Properties\<close>

text \<open>
  C31. The queue of a data center is kept in order: enqueueing a task, for the first time or again, puts it before all tasks of
  its priority and behind those of a higher one and moves no other task; a new generation
  lowers priority zero only and never meets another negative one; removing takes the task out. The next task
  is the first that is ready, and while something is being loaded it must have the
  highest priority of the queue, if this one is positive.
\<close>

theorem queue_ordered:
  assumes "queue_ok ts" "-1 \<le> priority"
  shows "queue_enqueue task priority ts = insert_task task priority ts \<and> queue_ok (queue_enqueue task priority ts)
    \<and> queue_resetGeneration ts = Some (map older ts) \<and> queue_ok (map older ts)
    \<and> queue_ok (queue_remove task ts) \<and> task \<notin> fst ` set (queue_remove task ts)
    \<and> (\<forall>a p b. ts = a @ (task, p) # b \<and> ready task \<and> (\<forall>e \<in> set a. \<not> ready (fst e)) \<longrightarrow>
         nextTask ready False ts = Some task
         \<and> nextTask ready True ts = (if snd (hd ts) \<le> 0 \<or> p = snd (hd ts) then Some task else None))"
  using enqueue_insert [OF assms(1)] insert_task_ok [OF assms] resetGeneration_older [OF assms(1)] older_ok [OF assms(1)]
    queue_remove_ok [OF assms(1)] nextTask_first [OF assms(1)] by (auto simp: queue_remove_def)

theorem queue_ordered_witness:
  "queue_enqueue 7 0 [(1, 5), (2, 0), (7, -1)] = [(1, 5), (7, 0), (2, 0)]"
  using queue_ordered [of "[(1, 5), (2, 0), (7, -1)]" 0 7] by (simp add: queue_ok_def insert_task_def)

end
