(* ===== verification/DownloadManager.thy ===== *)
theory DownloadManager
  imports DownloadQueue DcOptions
begin

text \<open>
  \<open>DownloadManagerMtproto\<close> with the bookkeeping of its tasks (storage/download_manager_mtproto.h and .cpp):
  how many parts are requested in which session of a data center, when sessions are added, removed and
  stopped, which task may ask for its next part, and the requests a task has sent. What a loader does as
  \<open>DownloadMtprotoTask\<close> (\<open>readyToRequest\<close> and \<open>takeNextRequestOffset\<close>) is an argument, with a
  state \<open>'u\<close> of its own. Times are in milliseconds; request ids count up; a failed \<open>Assert\<close> or \<open>Ensures\<close> is \<open>None\<close>.
\<close>

section \<open>Definitions: state\<close>

definition kDownloadPartSize :: int where "kDownloadPartSize = 128 * 1024"

definition kKillSessionTimeout :: int where "kKillSessionTimeout = 15 * 1000"

definition kStartWaitedInSession :: int where "kStartWaitedInSession = 4 * kDownloadPartSize"

definition kMaxWaitedInSession :: int where "kMaxWaitedInSession = 16 * kDownloadPartSize"

definition kStartSessionsCount :: nat where "kStartSessionsCount = 1"

definition kMaxSessionsCount :: nat where "kMaxSessionsCount = 8"

definition kMaxTrackedSessionRemoves :: int where "kMaxTrackedSessionRemoves = 64"

definition kRetryAddSessionTimeout :: int where "kRetryAddSessionTimeout = 8 * 1000"

definition kRetryAddSessionSuccesses :: int where "kRetryAddSessionSuccesses = 3"

definition kMaxTrackedSuccesses :: int where "kMaxTrackedSuccesses = kRetryAddSessionSuccesses * kMaxTrackedSessionRemoves"

definition kRemoveSessionAfterTimeouts :: int where "kRemoveSessionAfterTimeouts = 4"

definition kResetDownloadPrioritiesTimeout :: int where "kResetDownloadPrioritiesTimeout = 200"

definition kBadRequestDurationThreshold :: int where "kBadRequestDurationThreshold = 8 * 1000"

record DcSessionBalanceData =
  requested :: int
  successes :: int
  maxWaitedAmount :: int

record DcBalanceData =
  sessions :: "DcSessionBalanceData list"
  lastSessionRemove :: int
  sessionRemoveIndex :: int
  sessionRemoveTimes :: int
  timeouts :: int
  totalRequested :: int

definition new_session :: DcSessionBalanceData where
  "new_session = \<lparr>requested = 0, successes = 0, maxWaitedAmount = kStartWaitedInSession\<rparr>"

definition new_balance :: DcBalanceData where
  "new_balance = \<lparr>sessions = replicate kStartSessionsCount new_session, lastSessionRemove = 0, sessionRemoveIndex = 0,
     sessionRemoveTimes = 0, timeouts = 0, totalRequested = 0\<rparr>"

record RequestData =
  rd_offset :: int
  rd_sessionIndex :: nat
  rd_requestedInSession :: int
  rd_sent :: int

definition new_request :: "int \<Rightarrow> nat \<Rightarrow> RequestData" where
  "new_request offset index = \<lparr>rd_offset = offset, rd_sessionIndex = index, rd_requestedInSession = 0, rd_sent = 0\<rparr>"

text \<open>Unchecked parts of a CDN are ordered by their offset alone.\<close>

record 'u download_task =
  task_dcId :: DcId
  sentRequests :: "(int, RequestData) flat_map"
  requestByOffset :: "(int, int) flat_map"
  cdnDcId :: DcId
  cdnUncheckedParts :: "(int, RequestData \<times> string) flat_map"
  cdnHashesRequestId :: int
  task_loader :: 'u

datatype download_call = SendRequest int int int | CancelRequest int | KillSession int | StopSession int
  | SessionTimedOutLater DcId nat | MoreHashesLater task_id

record 'u downloads =
  balanceData :: "(DcId, DcBalanceData) flat_map"
  queues :: "(DcId, Queue) flat_map"
  killSessionsWhen :: "(DcId, int) flat_map"
  killSessionsTimer :: "int option"
  resetGenerationTimer :: "int option"
  dl_tasks :: "task_id \<Rightarrow> 'u download_task"
  dl_live :: "task_id list"
  dl_nextRequest :: int
  dl_now :: int
  dl_calls :: "download_call list"

record 'u loader_ops =
  readyToRequest :: "'u download_task \<Rightarrow> bool"
  takeNextRequestOffset :: "'u download_task \<Rightarrow> (int \<times> 'u) option"

definition update_task :: "task_id \<Rightarrow> ('u download_task \<Rightarrow> 'u download_task) \<Rightarrow> 'u downloads \<Rightarrow> 'u downloads" where
  "update_task t f s = s\<lparr>dl_tasks := (dl_tasks s)(t := f (dl_tasks s t))\<rparr>"

definition dl_call :: "download_call \<Rightarrow> 'u downloads \<Rightarrow> 'u downloads" where
  "dl_call c s = s\<lparr>dl_calls := dl_calls s @ [c]\<rparr>"

definition put_balance :: "DcId \<Rightarrow> DcBalanceData \<Rightarrow> 'u downloads \<Rightarrow> 'u downloads" where
  "put_balance dc b s = s\<lparr>balanceData := flat_put dc b (balanceData s)\<rparr>"

text \<open>\<open>operator[]\<close> of the maps: a missing entry is the default one.\<close>

definition balance_of :: "DcId \<Rightarrow> 'u downloads \<Rightarrow> DcBalanceData" where
  "balance_of dc s = (case map_of (balanceData s) dc of None \<Rightarrow> new_balance | Some b \<Rightarrow> b)"

definition queue_of :: "DcId \<Rightarrow> 'u downloads \<Rightarrow> Queue" where
  "queue_of dc s = (case map_of (queues s) dc of None \<Rightarrow> [] | Some q \<Rightarrow> q)"

definition put_queue :: "DcId \<Rightarrow> Queue \<Rightarrow> 'u downloads \<Rightarrow> 'u downloads" where
  "put_queue dc q s = s\<lparr>queues := flat_put dc q (queues s)\<rparr>"

section \<open>Definitions: balance of sessions\<close>

definition killSessionsSchedule :: "DcId \<Rightarrow> 'u downloads \<Rightarrow> 'u downloads" where
  "killSessionsSchedule dc s =
     (let s = (if dc \<in> fst ` set (killSessionsWhen s) then s
               else s\<lparr>killSessionsWhen := flat_emplace dc (dl_now s + kKillSessionTimeout) (killSessionsWhen s)\<rparr>)
      in if killSessionsTimer s \<noteq> None then s else s\<lparr>killSessionsTimer := Some (kKillSessionTimeout + 5)\<rparr>)"

definition killSessionsCancel :: "DcId \<Rightarrow> 'u downloads \<Rightarrow> 'u downloads" where
  "killSessionsCancel dc s =
     (let s = s\<lparr>killSessionsWhen := flat_erase dc (killSessionsWhen s)\<rparr>
      in if killSessionsWhen s = [] then s\<lparr>killSessionsTimer := None\<rparr> else s)"

definition changeRequestedAmount :: "DcId \<Rightarrow> nat \<Rightarrow> int \<Rightarrow> 'u downloads \<Rightarrow> (int \<times> 'u downloads) option" where
  "changeRequestedAmount dc index delta s =
     (case map_of (balanceData s) dc of
        None \<Rightarrow> None
      | Some b \<Rightarrow>
          if index < length (sessions b) then
            let result = requested (sessions b ! index) + delta;
                b = b\<lparr>sessions := (sessions b)[index := (sessions b ! index)\<lparr>requested := result\<rparr>],
                      totalRequested := totalRequested b + delta\<rparr>;
                s = put_balance dc b s
            in Some (result,
                 if delta > 0 then killSessionsCancel dc s
                 else if \<not> list_ex (\<lambda>d. requested d > 0) (sessions b) then killSessionsSchedule dc s
                 else s)
          else None)"

text \<open>The rest of \<open>requestSucceeded\<close> after the successes of all sessions were enough.\<close>

definition add_session :: "int \<Rightarrow> DcBalanceData \<Rightarrow> DcBalanceData" where
  "add_session now b =
     (let b = b\<lparr>sessions := map (\<lambda>d. d\<lparr>successes := 0\<rparr>) (sessions b)\<rparr>
      in if timeouts b > 0 then b\<lparr>timeouts := timeouts b - 1\<rparr>
         else if length (sessions b) = kMaxSessionsCount then b
         else
           let delay = (sessionRemoveTimes b + 1) * kRetryAddSessionTimeout
           in if lastSessionRemove b \<noteq> 0 \<and> now < lastSessionRemove b + delay then b
              else b\<lparr>sessions := sessions b @ [new_session]\<rparr>)"

definition count_success :: "int \<Rightarrow> DcSessionBalanceData \<Rightarrow> DcSessionBalanceData" where
  "count_success amountAtRequestStart d =
     (let d = (if amountAtRequestStart = maxWaitedAmount d \<and> maxWaitedAmount d < kMaxWaitedInSession
               then d\<lparr>maxWaitedAmount := min (maxWaitedAmount d + kDownloadPartSize) kMaxWaitedInSession\<rparr> else d)
      in d\<lparr>successes := min (successes d + 1) kMaxTrackedSuccesses\<rparr>)"

definition requestSucceeded :: "DcId \<Rightarrow> nat \<Rightarrow> int \<Rightarrow> int \<Rightarrow> 'u downloads \<Rightarrow> 'u downloads option" where
  "requestSucceeded dc index amountAtRequestStart timeAtRequestStart s =
     (case map_of (balanceData s) dc of
        None \<Rightarrow> None
      | Some b \<Rightarrow>
          if index < length (sessions b) then
            let overloaded = (timeAtRequestStart \<le> lastSessionRemove b \<or> amountAtRequestStart > maxWaitedAmount (sessions b ! index));
                duration = dl_now s - timeAtRequestStart
            in if overloaded then Some s
               else if duration \<ge> kBadRequestDurationThreshold then Some (dl_call (SessionTimedOutLater dc index) s)
               else
                 let b = b\<lparr>sessions := (sessions b)[index := count_success amountAtRequestStart (sessions b ! index)]\<rparr>;
                     notEnough = list_ex (\<lambda>d. successes d < (sessionRemoveTimes b + 1) * kRetryAddSessionSuccesses) (sessions b)
                 in Some (put_balance dc (if notEnough then b else add_session (dl_now s) b) s)
          else None)"

text \<open>\<open>ranges::min_element\<close>: the first position of the least value.\<close>

definition first_min :: "('a \<Rightarrow> int) \<Rightarrow> 'a list \<Rightarrow> nat" where
  "first_min f xs = length (takeWhile (\<lambda>x. \<exists>y \<in> set xs. f y < f x) xs)"

definition chooseSessionIndex :: "DcId \<Rightarrow> 'u downloads \<Rightarrow> nat option" where
  "chooseSessionIndex dc s = map_option (\<lambda>b. first_min requested (sessions b)) (map_of (balanceData s) dc)"

section \<open>Definitions: requests of a task\<close>

datatype FinishRequestReason = Success | Redirect | Cancel

definition sendRequest :: "task_id \<Rightarrow> RequestData \<Rightarrow> 'u downloads \<Rightarrow> (int \<times> 'u downloads) option" where
  "sendRequest t requestData s =
     (let task = dl_tasks s t; requestId = dl_nextRequest s
      in do { shiftedDcId \<leftarrow> downloadDcId (if cdnDcId task \<noteq> 0 then cdnDcId task else task_dcId task) (int (rd_sessionIndex requestData));
              Some (requestId, dl_call (SendRequest requestId shiftedDcId (rd_offset requestData)) (s\<lparr>dl_nextRequest := requestId + 1\<rparr>)) })"

definition placeSentRequest :: "task_id \<Rightarrow> int \<Rightarrow> RequestData \<Rightarrow> 'u downloads \<Rightarrow> 'u downloads option" where
  "placeSentRequest t requestId requestData s =
     do { (amount, s) \<leftarrow> changeRequestedAmount (task_dcId (dl_tasks s t)) (rd_sessionIndex requestData) kDownloadPartSize s;
          let task = dl_tasks s t;
              ok1 = (requestId \<notin> fst ` set (sentRequests task));
              ok2 = (rd_offset requestData \<notin> fst ` set (requestByOffset task));
              s = update_task t (\<lambda>task. task\<lparr>
                    sentRequests := flat_emplace requestId (requestData\<lparr>rd_requestedInSession := amount, rd_sent := dl_now s\<rparr>) (sentRequests task),
                    requestByOffset := flat_emplace (rd_offset requestData) requestId (requestByOffset task)\<rparr>) s
          in if ok1 \<and> ok2 then Some s else None }"

definition makeRequest :: "task_id \<Rightarrow> RequestData \<Rightarrow> 'u downloads \<Rightarrow> 'u downloads option" where
  "makeRequest t requestData s =
     do { (requestId, s) \<leftarrow> sendRequest t requestData s;
          placeSentRequest t requestId requestData s }"

definition finishSentRequest :: "task_id \<Rightarrow> int \<Rightarrow> FinishRequestReason \<Rightarrow> 'u downloads \<Rightarrow> (RequestData \<times> 'u downloads) option" where
  "finishSentRequest t requestId reason s =
     do { result \<leftarrow> map_of (sentRequests (dl_tasks s t)) requestId;
          let s = update_task t (\<lambda>task. if cdnHashesRequestId task = requestId then task\<lparr>cdnHashesRequestId := 0\<rparr> else task) s;
              dc = task_dcId (dl_tasks s t)
          in do { (_, s) \<leftarrow> changeRequestedAmount dc (rd_sessionIndex result) (- kDownloadPartSize) s;
                  let ok = (rd_offset result \<in> fst ` set (requestByOffset (dl_tasks s t)));
                      s = update_task t (\<lambda>task. task\<lparr>sentRequests := flat_erase requestId (sentRequests task),
                            requestByOffset := flat_erase (rd_offset result) (requestByOffset task)\<rparr>) s
                  in do { s \<leftarrow> (if reason = Success
                                then requestSucceeded dc (rd_sessionIndex result) (rd_requestedInSession result) (rd_sent result) s
                                else Some s);
                          if ok then Some (result, s) else None } } }"

definition cancelRequest :: "task_id \<Rightarrow> int \<Rightarrow> 'u downloads \<Rightarrow> 'u downloads option" where
  "cancelRequest t requestId s =
     (let hashes = (cdnHashesRequestId (dl_tasks s t) = requestId)
      in do { (_, s) \<leftarrow> finishSentRequest t requestId Cancel (dl_call (CancelRequest requestId) s);
              Some (if hashes \<and> cdnUncheckedParts (dl_tasks s t) \<noteq> [] then dl_call (MoreHashesLater t) s else s) })"

partial_function (option) cancel_loop :: "task_id \<Rightarrow> 'u downloads \<Rightarrow> 'u downloads option" where
  "cancel_loop t s =
     (if sentRequests (dl_tasks s t) = [] then Some s
      else do { s \<leftarrow> cancelRequest t (fst (hd (sentRequests (dl_tasks s t)))) s; cancel_loop t s })"

definition cancelAllRequests :: "task_id \<Rightarrow> 'u downloads \<Rightarrow> 'u downloads option" where
  "cancelAllRequests t s = map_option (update_task t (\<lambda>task. task\<lparr>cdnUncheckedParts := []\<rparr>)) (cancel_loop t s)"

definition cancelRequestForOffset :: "task_id \<Rightarrow> int \<Rightarrow> 'u downloads \<Rightarrow> 'u downloads option" where
  "cancelRequestForOffset t offset s =
     do { s \<leftarrow> (case map_of (requestByOffset (dl_tasks s t)) offset of
                 Some requestId \<Rightarrow> cancelRequest t requestId s
               | None \<Rightarrow> Some s);
          Some (update_task t (\<lambda>task. task\<lparr>cdnUncheckedParts := flat_erase offset (cdnUncheckedParts task)\<rparr>) s) }"

definition haveSentRequests :: "'u download_task \<Rightarrow> bool" where
  "haveSentRequests task \<longleftrightarrow> sentRequests task \<noteq> [] \<or> cdnUncheckedParts task \<noteq> []"

definition haveSentRequestForOffset :: "'u download_task \<Rightarrow> int \<Rightarrow> bool" where
  "haveSentRequestForOffset task offset \<longleftrightarrow>
     offset \<in> fst ` set (requestByOffset task) \<or> offset \<in> fst ` set (cdnUncheckedParts task)"

definition loadPart :: "'u loader_ops \<Rightarrow> task_id \<Rightarrow> nat \<Rightarrow> 'u downloads \<Rightarrow> 'u downloads option" where
  "loadPart ops t sessionIndex s =
     do { (offset, u) \<leftarrow> takeNextRequestOffset ops (dl_tasks s t);
          makeRequest t (new_request offset sessionIndex) (update_task t (\<lambda>task. task\<lparr>task_loader := u\<rparr>) s) }"

text \<open>The three loops of a task's \<open>removeSession\<close>.\<close>

fun move_unchecked :: "DcId \<Rightarrow> nat \<Rightarrow> 'u downloads \<Rightarrow> (int, RequestData \<times> string) flat_map \<Rightarrow> (int, RequestData \<times> string) flat_map option" where
  "move_unchecked dc sessionIndex s [] = Some []"
| "move_unchecked dc sessionIndex s ((offset, (requestData, bytes)) # parts) =
     (if rd_sessionIndex requestData = sessionIndex then
        do { newIndex \<leftarrow> chooseSessionIndex dc s;
             if newIndex < sessionIndex
             then map_option ((#) (offset, (requestData\<lparr>rd_sessionIndex := newIndex\<rparr>, bytes))) (move_unchecked dc sessionIndex s parts)
             else None }
      else map_option ((#) (offset, (requestData, bytes))) (move_unchecked dc sessionIndex s parts))"

fun redirect_requests :: "task_id \<Rightarrow> nat \<Rightarrow> (int \<times> int) list \<Rightarrow> 'u downloads \<Rightarrow> 'u downloads option" where
  "redirect_requests t sessionIndex [] s = Some s"
| "redirect_requests t sessionIndex ((requestId, offset) # rs) s =
     (let needMakeRequest = (requestId \<noteq> cdnHashesRequestId (dl_tasks s t))
      in do { s \<leftarrow> cancelRequest t requestId s;
              s \<leftarrow> (if needMakeRequest then
                     do { newIndex \<leftarrow> chooseSessionIndex (task_dcId (dl_tasks s t)) s;
                          if newIndex < sessionIndex then makeRequest t (new_request offset newIndex) s else None }
                   else Some s);
              redirect_requests t sessionIndex rs s })"

definition task_removeSession :: "nat \<Rightarrow> task_id \<Rightarrow> 'u downloads \<Rightarrow> 'u downloads option" where
  "task_removeSession sessionIndex t s =
     (let task = dl_tasks s t;
          redirect = map (\<lambda>(requestId, rd). (requestId, rd_offset rd)) (filter (\<lambda>(requestId, rd). rd_sessionIndex rd = sessionIndex) (sentRequests task))
      in do { unchecked \<leftarrow> move_unchecked (task_dcId task) sessionIndex s (cdnUncheckedParts task);
              redirect_requests t sessionIndex redirect (update_task t (\<lambda>task. task\<lparr>cdnUncheckedParts := unchecked\<rparr>) s) })"

section \<open>Definitions: the manager\<close>

definition trySendNextPart :: "'u loader_ops \<Rightarrow> DcId \<Rightarrow> 'u downloads \<Rightarrow> (bool \<times> 'u downloads) option" where
  "trySendNextPart ops dc s =
     (let b = balance_of dc s;
          s = put_balance dc b s;
          proj = (\<lambda>d. if requested d < maxWaitedAmount d then requested d else kMaxWaitedInSession);
          j = first_min proj (sessions b)
      in if sessions b = [] then None
         else if requested (sessions b ! j) + kDownloadPartSize \<le> maxWaitedAmount (sessions b ! j) then
           (case nextTask (\<lambda>t. readyToRequest ops (dl_tasks s t)) (totalRequested b > 0) (queue_of dc s) of
              Some t \<Rightarrow> map_option (Pair True) (loadPart ops t j s)
            | None \<Rightarrow> Some (False, s))
         else Some (False, s))"

partial_function (option) checkSendNext :: "'u loader_ops \<Rightarrow> DcId \<Rightarrow> 'u downloads \<Rightarrow> 'u downloads option" where
  "checkSendNext ops dc s =
     do { (sent, s) \<leftarrow> trySendNextPart ops dc s;
          if sent then checkSendNext ops dc s else Some s }"

definition dl_enqueue :: "'u loader_ops \<Rightarrow> task_id \<Rightarrow> int \<Rightarrow> 'u downloads \<Rightarrow> 'u downloads option" where
  "dl_enqueue ops t priority s =
     (let dc = task_dcId (dl_tasks s t);
          s = put_queue dc (queue_enqueue t priority (queue_of dc s)) s;
          s = (if resetGenerationTimer s = None then s\<lparr>resetGenerationTimer := Some kResetDownloadPrioritiesTimeout\<rparr> else s)
      in checkSendNext ops dc s)"

definition dl_remove :: "'u loader_ops \<Rightarrow> task_id \<Rightarrow> 'u downloads \<Rightarrow> 'u downloads option" where
  "dl_remove ops t s =
     (let dc = task_dcId (dl_tasks s t)
      in checkSendNext ops dc (put_queue dc (queue_remove t (queue_of dc s)) s))"

fun reset_queues :: "(DcId, Queue) flat_map \<Rightarrow> (DcId, Queue) flat_map option" where
  "reset_queues [] = Some []"
| "reset_queues ((dc, q) # qs) = do { q \<leftarrow> queue_resetGeneration q; qs \<leftarrow> reset_queues qs; Some ((dc, q) # qs) }"

definition dl_resetGeneration :: "'u downloads \<Rightarrow> 'u downloads option" where
  "dl_resetGeneration s = map_option (\<lambda>qs. s\<lparr>resetGenerationTimer := None, queues := qs\<rparr>) (reset_queues (queues s))"

definition checkSendNextAfterSuccess :: "'u loader_ops \<Rightarrow> DcId \<Rightarrow> 'u downloads \<Rightarrow> 'u downloads option" where
  "checkSendNextAfterSuccess ops dc s = checkSendNext ops dc (put_queue dc (queue_of dc s) s)"

fun remove_from_tasks :: "nat \<Rightarrow> task_id list \<Rightarrow> 'u downloads \<Rightarrow> 'u downloads option" where
  "remove_from_tasks index [] s = Some s"
| "remove_from_tasks index (t # ts) s = do { s \<leftarrow> task_removeSession index t s; remove_from_tasks index ts s }"

definition add_requested :: "nat \<Rightarrow> int \<Rightarrow> DcBalanceData \<Rightarrow> DcBalanceData" where
  "add_requested index delta b =
     b\<lparr>sessions := (sessions b)[index := (sessions b ! index)\<lparr>requested := requested (sessions b ! index) + delta\<rparr>]\<rparr>"

definition removeSession :: "DcId \<Rightarrow> 'u downloads \<Rightarrow> 'u downloads option" where
  "removeSession dc s =
     (let b = balance_of dc s
      in if length (sessions b) > kStartSessionsCount then
           let index = length (sessions b) - 1;
               s = put_queue dc (queue_of dc s) s;
               b = (if sessionRemoveIndex b = int index
                    then b\<lparr>sessionRemoveTimes := min (sessionRemoveTimes b + 1) kMaxTrackedSessionRemoves\<rparr>
                    else b\<lparr>sessionRemoveIndex := int index, sessionRemoveTimes := 1\<rparr>);
               s = put_balance dc (add_requested index (kMaxWaitedInSession * int kMaxSessionsCount) b) s
           in do { s \<leftarrow> remove_from_tasks index (map fst (queue_of dc s)) s;
                   let b = balance_of dc s
                   in if requested (last (sessions b)) = kMaxWaitedInSession * int kMaxSessionsCount then
                        do { shiftedDcId \<leftarrow> downloadDcId dc (int index);
                             Some (put_balance dc (b\<lparr>sessions := butlast (sessions b), lastSessionRemove := dl_now s\<rparr>)
                                     (dl_call (KillSession shiftedDcId) s)) }
                      else None }
         else None)"

definition sessionTimedOut :: "DcId \<Rightarrow> nat \<Rightarrow> 'u downloads \<Rightarrow> 'u downloads option" where
  "sessionTimedOut dc index s =
     (case map_of (balanceData s) dc of
        None \<Rightarrow> Some s
      | Some b \<Rightarrow>
          if index \<ge> length (sessions b) then Some s
          else
            let b = b\<lparr>sessions := map (\<lambda>d. d\<lparr>successes := 0\<rparr>) (sessions b)\<rparr>
            in if length (sessions b) = kStartSessionsCount then Some (put_balance dc b s)
               else if timeouts b + 1 < kRemoveSessionAfterTimeouts then Some (put_balance dc (b\<lparr>timeouts := timeouts b + 1\<rparr>) s)
               else removeSession dc (put_balance dc (b\<lparr>timeouts := 0\<rparr>) s))"

fun stop_sessions :: "DcId \<Rightarrow> nat \<Rightarrow> DcSessionBalanceData list \<Rightarrow> 'u downloads \<Rightarrow> 'u downloads option" where
  "stop_sessions dc j [] s = Some s"
| "stop_sessions dc j (d # ds) s =
     (if requested d = 0 then do { shiftedDcId \<leftarrow> downloadDcId dc (int j); stop_sessions dc (Suc j) ds (dl_call (StopSession shiftedDcId) s) }
      else None)"

definition killSessions_dc :: "DcId \<Rightarrow> 'u downloads \<Rightarrow> 'u downloads option" where
  "killSessions_dc dc s =
     (case map_of (balanceData s) dc of
        None \<Rightarrow> Some s
      | Some b \<Rightarrow>
          if totalRequested b = 0 then
            map_option (put_balance dc (new_balance\<lparr>sessions := map (\<lambda>_. new_session) (sessions b)\<rparr>)) (stop_sessions dc 0 (sessions b) s)
          else None)"

text \<open>The loop of \<open>killSessions\<close>: the entries that stay, and the time until the next one.\<close>

fun kill_loop :: "int \<Rightarrow> (DcId, int) flat_map \<Rightarrow> 'u downloads \<Rightarrow> ((DcId, int) flat_map \<times> int \<times> 'u downloads) option" where
  "kill_loop left [] s = Some ([], left, s)"
| "kill_loop left ((dc, time) # ws) s =
     (if time \<le> dl_now s then do { s \<leftarrow> killSessions_dc dc s; kill_loop left ws s }
      else
        let left = (if time - dl_now s < left then time - dl_now s else left)
        in map_option (\<lambda>(ws, left, s). ((dc, time) # ws, left, s)) (kill_loop left ws s))"

definition killSessions :: "'u downloads \<Rightarrow> 'u downloads option" where
  "killSessions s =
     do { (ws, left, s) \<leftarrow> kill_loop kKillSessionTimeout (killSessionsWhen s) (s\<lparr>killSessionsTimer := None\<rparr>);
          let s = s\<lparr>killSessionsWhen := ws\<rparr>
          in Some (if ws \<noteq> [] then s\<lparr>killSessionsTimer := Some left\<rparr> else s) }"

text \<open>The destructor of a task.\<close>

definition delete_task :: "'u loader_ops \<Rightarrow> task_id \<Rightarrow> 'u downloads \<Rightarrow> 'u downloads option" where
  "delete_task ops t s =
     do { s \<leftarrow> cancelAllRequests t s;
          s \<leftarrow> dl_remove ops t s;
          Some (s\<lparr>dl_live := filter (\<lambda>u. u \<noteq> t) (dl_live s)\<rparr>) }"

section \<open>Definitions: specification\<close>

text \<open>
  The books are in order: what a session has as requested is one part for each request of a live task
  in it. While a session is being removed, \<open>boost\<close> is what is added to it to keep others away.
\<close>

definition sent_in :: "nat \<Rightarrow> 'u download_task \<Rightarrow> nat" where
  "sent_in i x = length (filter (\<lambda>r. rd_sessionIndex (snd r) = i) (sentRequests x))"

definition load_of :: "'u downloads \<Rightarrow> DcId \<Rightarrow> nat \<Rightarrow> nat" where
  "load_of s dc i = (\<Sum>t \<in> set (dl_live s). if task_dcId (dl_tasks s t) = dc then sent_in i (dl_tasks s t) else 0)"

definition task_ok :: "nat \<Rightarrow> int \<Rightarrow> bool \<Rightarrow> 'u download_task \<Rightarrow> bool" where
  "task_ok n next_id queued x \<longleftrightarrow>
     flat_map_ok (sentRequests x) \<and> flat_map_ok (requestByOffset x) \<and> flat_map_ok (cdnUncheckedParts x)
     \<and> (\<forall>(requestId, rd) \<in> set (sentRequests x). requestId < next_id \<and> rd_sessionIndex rd < n
          \<and> map_of (requestByOffset x) (rd_offset rd) = Some requestId)
     \<and> (\<forall>(offset, requestId) \<in> set (requestByOffset x). \<exists>rd. map_of (sentRequests x) requestId = Some rd \<and> rd_offset rd = offset)
     \<and> (\<forall>(offset, (rd, bytes)) \<in> set (cdnUncheckedParts x). rd_sessionIndex rd < n)
     \<and> (haveSentRequests x \<longrightarrow> queued)"

definition session_ok :: "DcSessionBalanceData \<Rightarrow> bool" where
  "session_ok d \<longleftrightarrow> kStartWaitedInSession \<le> maxWaitedAmount d \<and> maxWaitedAmount d \<le> kMaxWaitedInSession
     \<and> kDownloadPartSize dvd maxWaitedAmount d \<and> 0 \<le> successes d \<and> successes d \<le> kMaxTrackedSuccesses"

definition balance_ok :: "(nat \<Rightarrow> int) \<Rightarrow> (nat \<Rightarrow> nat) \<Rightarrow> DcBalanceData \<Rightarrow> bool" where
  "balance_ok boost ld b \<longleftrightarrow>
     kStartSessionsCount \<le> length (sessions b) \<and> length (sessions b) \<le> kMaxSessionsCount
     \<and> (\<forall>i < length (sessions b). requested (sessions b ! i) = kDownloadPartSize * int (ld i) + boost i \<and> session_ok (sessions b ! i))
     \<and> totalRequested b = kDownloadPartSize * int (\<Sum>i < length (sessions b). ld i)
     \<and> 0 \<le> timeouts b \<and> timeouts b < kRemoveSessionAfterTimeouts
     \<and> 0 \<le> sessionRemoveTimes b \<and> sessionRemoveTimes b \<le> kMaxTrackedSessionRemoves"

definition sessions_count :: "'u downloads \<Rightarrow> DcId \<Rightarrow> nat" where
  "sessions_count s dc = (case map_of (balanceData s) dc of None \<Rightarrow> 0 | Some b \<Rightarrow> length (sessions b))"

definition queued :: "'u downloads \<Rightarrow> task_id \<Rightarrow> bool" where
  "queued s t \<longleftrightarrow> t \<in> fst ` set (queue_of (task_dcId (dl_tasks s t)) s)"

definition live_ok :: "'u downloads \<Rightarrow> task_id \<Rightarrow> bool" where
  "live_ok s t \<longleftrightarrow> task_ok (sessions_count s (task_dcId (dl_tasks s t))) (dl_nextRequest s) (queued s t) (dl_tasks s t)"

definition downloads_ok :: "(DcId \<Rightarrow> nat \<Rightarrow> int) \<Rightarrow> 'u downloads \<Rightarrow> bool" where
  "downloads_ok boost s \<longleftrightarrow>
     distinct (dl_live s) \<and> flat_map_ok (balanceData s) \<and> flat_map_ok (queues s) \<and> flat_map_ok (killSessionsWhen s)
     \<and> (\<forall>t \<in> set (dl_live s). live_ok s t)
     \<and> (\<forall>dc b. map_of (balanceData s) dc = Some b \<longrightarrow> balance_ok (boost dc) (load_of s dc) b)
     \<and> (\<forall>dc. queue_ok (queue_of dc s) \<and> (\<forall>t \<in> fst ` set (queue_of dc s). t \<in> set (dl_live s) \<and> task_dcId (dl_tasks s t) = dc))
     \<and> (\<forall>dc \<in> fst ` set (killSessionsWhen s). \<forall>b. map_of (balanceData s) dc = Some b \<longrightarrow> totalRequested b = 0)"

text \<open>What the requests of one task leave alone.\<close>

definition task_core :: "'u download_task \<Rightarrow> 'u download_task" where
  "task_core x = x\<lparr>sentRequests := [], requestByOffset := [], cdnHashesRequestId := 0\<rparr>"

definition balance_core :: "DcBalanceData \<Rightarrow> DcBalanceData" where
  "balance_core b = b\<lparr>sessions := map (\<lambda>d. d\<lparr>requested := 0\<rparr>) (sessions b), totalRequested := 0\<rparr>"

definition balances :: "'u downloads \<Rightarrow> DcId \<Rightarrow> DcBalanceData option" where
  "balances s dc = map_option balance_core (map_of (balanceData s) dc)"

definition sent_before :: "'u downloads \<Rightarrow> 'u download_task \<Rightarrow> 'u download_task \<Rightarrow> bool" where
  "sent_before s x x' \<longleftrightarrow> (\<forall>e \<in> set (sentRequests x'). e \<in> set (sentRequests x) \<or> rd_sent (snd e) = dl_now s)"

definition only_requests :: "task_id \<Rightarrow> 'u downloads \<Rightarrow> 'u downloads \<Rightarrow> bool" where
  "only_requests t s s' \<longleftrightarrow>
     dl_live s' = dl_live s \<and> queues s' = queues s \<and> dl_now s' = dl_now s
     \<and> (\<forall>u. u \<noteq> t \<longrightarrow> dl_tasks s' u = dl_tasks s u) \<and> task_core (dl_tasks s' t) = task_core (dl_tasks s t)
     \<and> (\<forall>dc. sessions_count s' dc = sessions_count s dc) \<and> balances s' = balances s
     \<and> sent_before s (dl_tasks s t) (dl_tasks s' t)"

definition only_tasks :: "task_id set \<Rightarrow> 'u downloads \<Rightarrow> 'u downloads \<Rightarrow> bool" where
  "only_tasks T s s' \<longleftrightarrow>
     dl_live s' = dl_live s \<and> queues s' = queues s \<and> dl_now s' = dl_now s
     \<and> (\<forall>u. u \<notin> T \<longrightarrow> dl_tasks s' u = dl_tasks s u)
     \<and> (\<forall>u. task_dcId (dl_tasks s' u) = task_dcId (dl_tasks s u) \<and> task_loader (dl_tasks s' u) = task_loader (dl_tasks s u))
     \<and> (\<forall>dc. sessions_count s' dc = sessions_count s dc) \<and> balances s' = balances s
     \<and> (\<forall>u. sent_before s (dl_tasks s u) (dl_tasks s' u))"

text \<open>One more request, in session \<open>i\<close> of the data center.\<close>

definition one_more :: "'u downloads \<Rightarrow> 'u downloads \<Rightarrow> DcId \<Rightarrow> nat \<Rightarrow> bool" where
  "one_more s s' dc i \<longleftrightarrow> (\<forall>d j. load_of s' d j = load_of s d j + (if d = dc \<and> j = i then 1 else 0))"

text \<open>How many parts the sessions below \<open>n\<close> could hold, and those requested in session \<open>n\<close>.\<close>

definition kMaxParts :: nat where "kMaxParts = 16"

definition spread :: "nat \<Rightarrow> (nat \<Rightarrow> nat) \<Rightarrow> nat" where
  "spread n ld = (\<Sum>j < n. max (ld j) kMaxParts) + ld n"

text \<open>A session being removed looks as if everything that can be requested was requested in it.\<close>

definition request_cap :: int where "request_cap = kMaxWaitedInSession * int kMaxSessionsCount"

definition removal_boost :: "DcId \<Rightarrow> nat \<Rightarrow> DcId \<Rightarrow> nat \<Rightarrow> int" where
  "removal_boost dc n d i = (if d = dc \<and> i = n then request_cap else 0)"

text \<open>One round of \<open>redirect_requests\<close>.\<close>

definition redirect_one :: "task_id \<Rightarrow> nat \<Rightarrow> int \<Rightarrow> int \<Rightarrow> 'u downloads \<Rightarrow> 'u downloads option" where
  "redirect_one t n r offset s =
     do { s1 \<leftarrow> cancelRequest t r s;
          if r \<noteq> cdnHashesRequestId (dl_tasks s t) then
            do { newIndex \<leftarrow> chooseSessionIndex (task_dcId (dl_tasks s1 t)) s1;
                 if newIndex < n then makeRequest t (new_request offset newIndex) s1 else None }
          else Some s1 }"

definition task_cleared :: "nat \<Rightarrow> 'u download_task \<Rightarrow> bool" where
  "task_cleared n x \<longleftrightarrow> (\<forall>(requestId, rd) \<in> set (sentRequests x). rd_sessionIndex rd < n)
     \<and> (\<forall>(offset, (rd, bytes)) \<in> set (cdnUncheckedParts x). rd_sessionIndex rd < n)"

section \<open>Books\<close>

lemma part_positive: "0 < kDownloadPartSize"
  by (simp add: kDownloadPartSize_def)

lemma filter_flat_emplace:
  "k \<notin> fst ` set m \<Longrightarrow> length (filter P (flat_emplace k v m)) = length (filter P m) + (if P (k, v) then 1 else 0)"
  by (induction k v m rule: flat_emplace.induct) (auto simp: not_less_iff_gr_or_eq)

lemma filter_flat_erase:
  "distinct (map fst m) \<Longrightarrow> map_of m k = Some v \<Longrightarrow> length (filter P m) = length (filter P (flat_erase k m)) + (if P (k, v) then 1 else 0)"
proof (induction m)
  case (Cons e m)
  have "filter (\<lambda>x. fst x \<noteq> k \<and> P x) m = filter P m" if "k \<notin> fst ` set m" using that by (intro filter_cong) force+
  then show ?case using Cons by (cases e) (auto simp: flat_erase_def split: if_splits)
qed simp

lemma load_of_update:
  assumes "distinct (dl_live s)" "t \<in> set (dl_live s)" "dl_live s' = dl_live s" "dl_tasks s' = (dl_tasks s)(t := x)"
    and "task_dcId x = task_dcId (dl_tasks s t)" "\<And>j. int (sent_in j x) = int (sent_in j (dl_tasks s t)) + (if j = i then \<delta> else 0)"
  shows "int (load_of s' dc j) = int (load_of s dc j) + (if dc = task_dcId (dl_tasks s t) \<and> j = i then \<delta> else 0)"
proof -
  let ?g = "\<lambda>s u. if task_dcId (dl_tasks s u) = dc then sent_in j (dl_tasks s u) else 0"
  have "load_of s' dc j = ?g s' t + (\<Sum>u \<in> set (dl_live s) - {t}. ?g s' u)"
    unfolding load_of_def assms(3) using assms(2) by (subst sum.remove [of _ t]) simp_all
  moreover have "load_of s dc j = ?g s t + (\<Sum>u \<in> set (dl_live s) - {t}. ?g s u)"
    unfolding load_of_def using assms(2) by (subst sum.remove [of _ t]) simp_all
  moreover have "(\<Sum>u \<in> set (dl_live s) - {t}. ?g s' u) = (\<Sum>u \<in> set (dl_live s) - {t}. ?g s u)"
    by (rule sum.cong) (simp_all add: assms(4))
  ultimately show ?thesis using assms(4,5) assms(6) [of j] by (cases "j = i") simp_all
qed

lemma sum_shift:
  assumes "finite A" "i \<in> A" "\<And>j. int (f j) = int (g j) + (if j = i then \<delta> else 0)"
  shows "int (\<Sum>j \<in> A. f j) = int (\<Sum>j \<in> A. g j) + \<delta>"
proof -
  have "(\<Sum>j \<in> A. int (f j)) = (\<Sum>j \<in> A. int (g j)) + (\<Sum>j \<in> A. if j = i then \<delta> else 0)"
    unfolding sum.distrib [symmetric] using assms(3) by simp
  then show ?thesis using assms(1,2) by simp
qed

lemma balance_of_some: "map_of (balanceData s) dc = Some b \<Longrightarrow> balance_of dc s = b"
  by (simp add: balance_of_def)

lemma balance_ok_shift:
  assumes "balance_ok boost ld b" "i < length (sessions b)" "\<And>j. int (ld' j) = int (ld j) + (if j = i then \<delta> else 0)"
    and "b' = b\<lparr>sessions := (sessions b)[i := (sessions b ! i)\<lparr>requested := requested (sessions b ! i) + kDownloadPartSize * \<delta>\<rparr>],
           totalRequested := totalRequested b + kDownloadPartSize * \<delta>\<rparr>"
  shows "balance_ok boost ld' b'"
proof -
  have "int (\<Sum>j < length (sessions b). ld' j) = int (\<Sum>j < length (sessions b). ld j) + \<delta>"
    by (rule sum_shift) (use assms(2,3) in auto)
  moreover have "ld' j = ld j" if "j \<noteq> i" for j using assms(3) [of j] that by simp
  moreover have "int (ld' i) = int (ld i) + \<delta>" using assms(3) by simp
  ultimately show ?thesis
    using assms(1,2) unfolding assms(4) balance_ok_def
    by (auto simp: nth_list_update session_ok_def algebra_simps simp del: of_nat_sum)
qed

lemma task_ok_mono: "task_ok n k q x \<Longrightarrow> k \<le> k' \<Longrightarrow> task_ok n k' q x"
  unfolding task_ok_def by (elim conjE, intro conjI) (fastforce+)

text \<open>One task and the balance of its data center change together.\<close>

lemma downloads_ok_shift:
  assumes "downloads_ok boost s" "t \<in> set (dl_live s)" "dc = task_dcId (dl_tasks s t)" "map_of (balanceData s) dc = Some b"
    and "i < length (sessions b)" "task_dcId x = dc" "\<And>j. int (sent_in j x) = int (sent_in j (dl_tasks s t)) + (if j = i then \<delta> else 0)"
    and "dl_tasks s' = (dl_tasks s)(t := x)" "dl_live s' = dl_live s" "queues s' = queues s" "dl_nextRequest s \<le> dl_nextRequest s'"
    and "b' = b\<lparr>sessions := (sessions b)[i := (sessions b ! i)\<lparr>requested := requested (sessions b ! i) + kDownloadPartSize * \<delta>\<rparr>],
           totalRequested := totalRequested b + kDownloadPartSize * \<delta>\<rparr>"
    and "balanceData s' = flat_put dc b' (balanceData s)" "task_ok (length (sessions b)) (dl_nextRequest s') (queued s t) x"
    and "flat_map_ok (killSessionsWhen s')" "\<And>d. d \<in> fst ` set (killSessionsWhen s') \<Longrightarrow> d \<noteq> dc \<Longrightarrow> d \<in> fst ` set (killSessionsWhen s)"
    and "dc \<in> fst ` set (killSessionsWhen s') \<Longrightarrow> totalRequested b' = 0"
  shows "downloads_ok boost s'"
proof -
  have ok: "distinct (dl_live s)" "flat_map_ok (balanceData s)" "flat_map_ok (queues s)" "\<And>u. u \<in> set (dl_live s) \<Longrightarrow> live_ok s u"
    "\<And>d b. map_of (balanceData s) d = Some b \<Longrightarrow> balance_ok (boost d) (load_of s d) b"
    "\<And>d. queue_ok (queue_of d s)" "\<And>d u. u \<in> fst ` set (queue_of d s) \<Longrightarrow> u \<in> set (dl_live s) \<and> task_dcId (dl_tasks s u) = d"
    "\<And>d b. d \<in> fst ` set (killSessionsWhen s) \<Longrightarrow> map_of (balanceData s) d = Some b \<Longrightarrow> totalRequested b = 0"
    using assms(1) unfolding downloads_ok_def by blast+
  have same_dc: "task_dcId (dl_tasks s' u) = task_dcId (dl_tasks s u)" for u using assms(3,6,8) by simp
  have same_queue: "queue_of d s' = queue_of d s" for d using assms(10) by (simp add: queue_of_def)
  have map_of': "map_of (balanceData s') d = (if d = dc then Some b' else map_of (balanceData s) d)" for d
    using assms(13) by (simp add: map_of_flat_put)
  have len: "length (sessions b') = length (sessions b)" using assms(12) by simp
  have counts: "sessions_count s' d = sessions_count s d" for d using map_of' len assms(4) by (simp add: sessions_count_def)
  have load: "int (load_of s' d j) = int (load_of s d j) + (if d = dc \<and> j = i then \<delta> else 0)" for d j
    using load_of_update [OF ok(1) assms(2,9,8) _ assms(7)] assms(3,6) by simp
  have "live_ok s' u" if "u \<in> set (dl_live s)" for u
  proof (cases "u = t")
    case True
    then show ?thesis
      using assms(3,4,6,8,14) same_queue by (simp add: live_ok_def sessions_count_def map_of' len queued_def)
  next
    case False
    then have "live_ok s u" "dl_tasks s' u = dl_tasks s u" using ok(4) that assms(8) by auto
    then show ?thesis using task_ok_mono [OF _ assms(11)] unfolding live_ok_def counts queued_def same_queue by simp
  qed
  moreover have "balance_ok (boost d) (load_of s' d) c" if "map_of (balanceData s') d = Some c" for d c
  proof (cases "d = dc")
    case True
    then show ?thesis using that map_of' balance_ok_shift [OF ok(5) [OF assms(4)] assms(5) _ assms(12)] load by simp
  next
    case False
    moreover have "load_of s' d = load_of s d" using load [of d] False by (simp add: fun_eq_iff)
    ultimately show ?thesis using that map_of' ok(5) by simp
  qed
  moreover have "totalRequested c = 0" if "d \<in> fst ` set (killSessionsWhen s')" "map_of (balanceData s') d = Some c" for d c
    using that(2) map_of' assms(17) ok(8) [OF assms(16) [OF that(1)]] that(1) by (cases "d = dc") simp_all
  ultimately show ?thesis
    using ok same_queue same_dc assms(9,10,13,15) unfolding downloads_ok_def by (metis flat_map_ok_put)
qed

lemma keys_flat_erase: "fst ` set (flat_erase k m) = fst ` set m - {k}"
  by (auto simp: flat_erase_def)

lemma changeRequestedAmount_ok:
  assumes "map_of (balanceData s) dc = Some b" "i < length (sessions b)"
    and "b' = b\<lparr>sessions := (sessions b)[i := (sessions b ! i)\<lparr>requested := requested (sessions b ! i) + delta\<rparr>], totalRequested := totalRequested b + delta\<rparr>"
  shows "\<exists>s'. changeRequestedAmount dc i delta s = Some (requested (sessions b ! i) + delta, s')
    \<and> balanceData s' = flat_put dc b' (balanceData s) \<and> queues s' = queues s \<and> dl_tasks s' = dl_tasks s \<and> dl_live s' = dl_live s
    \<and> dl_nextRequest s' = dl_nextRequest s \<and> dl_now s' = dl_now s
    \<and> (flat_map_ok (killSessionsWhen s) \<longrightarrow> flat_map_ok (killSessionsWhen s'))
    \<and> (\<forall>d. d \<in> fst ` set (killSessionsWhen s') \<longrightarrow> d \<noteq> dc \<longrightarrow> d \<in> fst ` set (killSessionsWhen s))
    \<and> (dc \<in> fst ` set (killSessionsWhen s') \<longrightarrow> delta \<le> 0 \<and> (\<forall>d \<in> set (sessions b'). requested d \<le> 0) \<or> delta \<le> 0 \<and> dc \<in> fst ` set (killSessionsWhen s))"
  using assms
  by (auto simp: changeRequestedAmount_def Let_def put_balance_def killSessionsCancel_def killSessionsSchedule_def flat_map_ok_erase
      flat_map_ok_emplace keys_flat_erase list_ex_iff not_less)

lemma balance_total_zero:
  assumes "balance_ok boost ld b" "\<And>i. 0 \<le> boost i" "\<forall>d \<in> set (sessions b). requested d \<le> 0"
  shows "totalRequested b = 0"
proof -
  have "ld i = 0" if "i < length (sessions b)" for i
  proof -
    have "requested (sessions b ! i) \<le> 0" using assms(3) that by simp
    then have "kDownloadPartSize * int (ld i) + boost i \<le> 0" using assms(1) that by (simp add: balance_ok_def)
    then have "kDownloadPartSize * int (ld i) \<le> 0" using assms(2) [of i] by linarith
    then show ?thesis using part_positive by (simp add: mult_le_0_iff)
  qed
  then show ?thesis using assms(1) by (simp add: balance_ok_def)
qed

lemma task_core_simps:
  "task_core x = task_core y \<Longrightarrow> task_dcId x = task_dcId y \<and> cdnUncheckedParts x = cdnUncheckedParts y \<and> task_loader x = task_loader y \<and> cdnDcId x = cdnDcId y"
  by (cases x; cases y) (simp add: task_core_def)

lemma only_requests_trans: "only_requests t s s' \<Longrightarrow> only_requests t s' s'' \<Longrightarrow> only_requests t s s''"
  unfolding only_requests_def sent_before_def by simp blast

lemma task_okD:
  assumes "task_ok n k q x"
  shows "flat_map_ok (sentRequests x)" "flat_map_ok (requestByOffset x)" "flat_map_ok (cdnUncheckedParts x)" "haveSentRequests x \<Longrightarrow> q"
    and "(r, rd) \<in> set (sentRequests x) \<Longrightarrow> r < k \<and> rd_sessionIndex rd < n \<and> map_of (requestByOffset x) (rd_offset rd) = Some r"
    and "(offset, r) \<in> set (requestByOffset x) \<Longrightarrow> \<exists>rd. map_of (sentRequests x) r = Some rd \<and> rd_offset rd = offset"
    and "(offset, (rd, bytes)) \<in> set (cdnUncheckedParts x) \<Longrightarrow> rd_sessionIndex rd < n"
  using assms unfolding task_ok_def by blast+

lemma task_okI:
  assumes "flat_map_ok (sentRequests x)" "flat_map_ok (requestByOffset x)" "flat_map_ok (cdnUncheckedParts x)" "haveSentRequests x \<Longrightarrow> q"
    and "\<And>r rd. (r, rd) \<in> set (sentRequests x) \<Longrightarrow> r < k \<and> rd_sessionIndex rd < n \<and> map_of (requestByOffset x) (rd_offset rd) = Some r"
    and "\<And>offset r. (offset, r) \<in> set (requestByOffset x) \<Longrightarrow> \<exists>rd. map_of (sentRequests x) r = Some rd \<and> rd_offset rd = offset"
    and "\<And>offset rd bytes. (offset, (rd, bytes)) \<in> set (cdnUncheckedParts x) \<Longrightarrow> rd_sessionIndex rd < n"
  shows "task_ok n k q x"
  using assms unfolding task_ok_def by blast

lemma task_ok_place:
  assumes "task_ok n k q x" "q" "requestId < k'" "k \<le> k'" "requestId \<notin> fst ` set (sentRequests x)" "rd_offset rd \<notin> fst ` set (requestByOffset x)"
    and "rd_sessionIndex rd < n"
  shows "task_ok n k' q (x\<lparr>sentRequests := flat_emplace requestId rd (sentRequests x), requestByOffset := flat_emplace (rd_offset rd) requestId (requestByOffset x)\<rparr>)"
    (is "task_ok n k' q ?x")
proof -
  note ok = task_okD [OF assms(1)]
  have none: "map_of (sentRequests x) requestId = None" "map_of (requestByOffset x) (rd_offset rd) = None"
    using assms(5,6) by (simp_all add: map_of_eq_None_iff)
  show ?thesis
  proof (rule task_okI)
    fix r rd' assume "(r, rd') \<in> set (sentRequests ?x)"
    then consider "r = requestId" "rd' = rd" | "(r, rd') \<in> set (sentRequests x)" using assms(5) by (auto simp: set_flat_emplace_new)
    then show "r < k' \<and> rd_sessionIndex rd' < n \<and> map_of (requestByOffset ?x) (rd_offset rd') = Some r"
    proof cases
      case 1
      then show ?thesis using assms(3,7) none ok(2) by (simp add: map_of_flat_emplace)
    next
      case 2
      then show ?thesis using ok(5) [OF 2] ok(2) none assms(4) by (auto simp: map_of_flat_emplace)
    qed
  next
    fix offset r assume "(offset, r) \<in> set (requestByOffset ?x)"
    then consider "offset = rd_offset rd" "r = requestId" | "(offset, r) \<in> set (requestByOffset x)" using assms(6) by (auto simp: set_flat_emplace_new)
    then show "\<exists>rd'. map_of (sentRequests ?x) r = Some rd' \<and> rd_offset rd' = offset"
    proof cases
      case 1
      then show ?thesis using none ok(1) by (simp add: map_of_flat_emplace)
    next
      case 2
      then show ?thesis using ok(6) [OF 2] ok(1) none by (auto simp: map_of_flat_emplace)
    qed
  qed (use ok assms(2) in \<open>auto simp: haveSentRequests_def\<close>)
qed

lemma task_ok_finish:
  assumes "task_ok n k q x" "map_of (sentRequests x) requestId = Some rd"
  shows "task_ok n k q (x\<lparr>cdnHashesRequestId := h, sentRequests := flat_erase requestId (sentRequests x), requestByOffset := flat_erase (rd_offset rd) (requestByOffset x)\<rparr>)"
    (is "task_ok n k q ?x")
proof -
  note ok = task_okD [OF assms(1)]
  have rd: "map_of (requestByOffset x) (rd_offset rd) = Some requestId" using ok(5) map_of_SomeD [OF assms(2)] by blast
  show ?thesis
  proof (rule task_okI)
    fix r rd' assume *: "(r, rd') \<in> set (sentRequests ?x)"
    then have r: "(r, rd') \<in> set (sentRequests x)" "r \<noteq> requestId" by (auto simp: flat_erase_def)
    then have "rd_offset rd' \<noteq> rd_offset rd" using ok(5) rd by fastforce
    then show "r < k \<and> rd_sessionIndex rd' < n \<and> map_of (requestByOffset ?x) (rd_offset rd') = Some r"
      using ok(5) [OF r(1)] by (simp add: map_of_flat_erase)
  next
    fix offset r assume *: "(offset, r) \<in> set (requestByOffset ?x)"
    then have r: "(offset, r) \<in> set (requestByOffset x)" "offset \<noteq> rd_offset rd" by (auto simp: flat_erase_def)
    then show "\<exists>rd'. map_of (sentRequests ?x) r = Some rd' \<and> rd_offset rd' = offset"
      using ok(6) [OF r(1)] assms(2) by (auto simp: map_of_flat_erase)
  next
    have "sentRequests x \<noteq> []" using assms(2) by auto
    then show q using ok(4) by (simp add: haveSentRequests_def)
  qed (use ok in auto)
qed

section \<open>Placing and finishing requests\<close>

lemma downloads_okD:
  assumes "downloads_ok boost s"
  shows "distinct (dl_live s)" "flat_map_ok (balanceData s)" "flat_map_ok (queues s)" "flat_map_ok (killSessionsWhen s)"
    and "t \<in> set (dl_live s) \<Longrightarrow> live_ok s t" "map_of (balanceData s) dc = Some b \<Longrightarrow> balance_ok (boost dc) (load_of s dc) b"
    and "queue_ok (queue_of dc s)" "t \<in> fst ` set (queue_of dc s) \<Longrightarrow> t \<in> set (dl_live s) \<and> task_dcId (dl_tasks s t) = dc"
    and "dc \<in> fst ` set (killSessionsWhen s) \<Longrightarrow> map_of (balanceData s) dc = Some b \<Longrightarrow> totalRequested b = 0"
  using assms unfolding downloads_ok_def by blast+

lemma sessions_count_some: "i < sessions_count s dc \<Longrightarrow> \<exists>b. map_of (balanceData s) dc = Some b \<and> i < length (sessions b)"
  by (auto simp: sessions_count_def split: option.splits)

lemma put_balance_counts:
  assumes "map_of (balanceData s) dc = Some b" "balanceData s' = flat_put dc b' (balanceData s)" "length (sessions b') = length (sessions b)"
  shows "sessions_count s' d = sessions_count s d" "balance_core b' = balance_core b \<Longrightarrow> balances s' = balances s"
  using assms by (simp_all add: sessions_count_def balances_def fun_eq_iff map_of_flat_put)

lemma balance_core_update:
  "i < length (sessions b) \<Longrightarrow>
     balance_core (b\<lparr>sessions := (sessions b)[i := (sessions b ! i)\<lparr>requested := v\<rparr>], totalRequested := w\<rparr>) = balance_core b"
proof -
  assume "i < length (sessions b)"
  then have "map (\<lambda>d. d\<lparr>requested := 0\<rparr>) ((sessions b)[i := (sessions b ! i)\<lparr>requested := v\<rparr>]) = map (\<lambda>d. d\<lparr>requested := 0\<rparr>) (sessions b)"
    by (intro nth_equalityI) (auto simp: nth_list_update)
  then show ?thesis by (simp add: balance_core_def)
qed

lemma sent_before_refl [simp]: "sent_before s x x"
  by (simp add: sent_before_def)

lemma one_moreI:
  assumes "\<And>d j. int (load_of s' d j) = int (load_of s d j) + (if d = dc \<and> j = i then 1 else 0)"
  shows "one_more s s' dc i"
  unfolding one_more_def
proof (intro allI)
  fix d j show "load_of s' d j = load_of s d j + (if d = dc \<and> j = i then 1 else 0)"
    using assms [of d j] by (cases "d = dc \<and> j = i") simp_all
qed

lemma placeSentRequest_ok:
  assumes "downloads_ok boost s" "t \<in> set (dl_live s)" "queued s t" "rd_sessionIndex rd < sessions_count s (task_dcId (dl_tasks s t))"
    and "requestId \<notin> fst ` set (sentRequests (dl_tasks s t))" "requestId < dl_nextRequest s"
    and "rd_offset rd \<notin> fst ` set (requestByOffset (dl_tasks s t))"
  shows "\<exists>s' rd'. placeSentRequest t requestId rd s = Some s' \<and> downloads_ok boost s' \<and> only_requests t s s' \<and> dl_nextRequest s' = dl_nextRequest s
    \<and> rd_sessionIndex rd' = rd_sessionIndex rd \<and> rd_offset rd' = rd_offset rd
    \<and> sentRequests (dl_tasks s' t) = flat_emplace requestId rd' (sentRequests (dl_tasks s t))
    \<and> requestByOffset (dl_tasks s' t) = flat_emplace (rd_offset rd) requestId (requestByOffset (dl_tasks s t))
    \<and> cdnHashesRequestId (dl_tasks s' t) = cdnHashesRequestId (dl_tasks s t)
    \<and> rd_sent rd' = dl_now s \<and> one_more s s' (task_dcId (dl_tasks s t)) (rd_sessionIndex rd)
    \<and> rd_requestedInSession rd' = kDownloadPartSize * int (load_of s' (task_dcId (dl_tasks s t)) (rd_sessionIndex rd))
         + boost (task_dcId (dl_tasks s t)) (rd_sessionIndex rd)"
proof -
  define x where "x = dl_tasks s t"
  define dc where "dc = task_dcId x"
  define i where "i = rd_sessionIndex rd"
  obtain b where b: "map_of (balanceData s) dc = Some b" "i < length (sessions b)"
    using sessions_count_some assms(4) unfolding dc_def x_def i_def by blast
  define b' where "b' = b\<lparr>sessions := (sessions b)[i := (sessions b ! i)\<lparr>requested := requested (sessions b ! i) + kDownloadPartSize\<rparr>],
    totalRequested := totalRequested b + kDownloadPartSize\<rparr>"
  obtain s1 where s1: "changeRequestedAmount dc i kDownloadPartSize s = Some (requested (sessions b ! i) + kDownloadPartSize, s1)"
    "balanceData s1 = flat_put dc b' (balanceData s)" "queues s1 = queues s" "dl_tasks s1 = dl_tasks s" "dl_live s1 = dl_live s"
    "dl_nextRequest s1 = dl_nextRequest s" "dl_now s1 = dl_now s" "flat_map_ok (killSessionsWhen s) \<longrightarrow> flat_map_ok (killSessionsWhen s1)"
    "\<forall>d. d \<in> fst ` set (killSessionsWhen s1) \<longrightarrow> d \<noteq> dc \<longrightarrow> d \<in> fst ` set (killSessionsWhen s)" "dc \<notin> fst ` set (killSessionsWhen s1)"
    using changeRequestedAmount_ok [OF b b'_def] part_positive by auto
  define rd' where "rd' = rd\<lparr>rd_requestedInSession := requested (sessions b ! i) + kDownloadPartSize, rd_sent := dl_now s\<rparr>"
  define x' where "x' = x\<lparr>sentRequests := flat_emplace requestId rd' (sentRequests x), requestByOffset := flat_emplace (rd_offset rd) requestId (requestByOffset x)\<rparr>"
  define s' where "s' = update_task t (\<lambda>_. x') s1"
  have place: "placeSentRequest t requestId rd s = Some s'"
    using assms(5,7) s1 unfolding placeSentRequest_def s'_def update_task_def x'_def rd'_def x_def dc_def i_def by (simp add: Let_def)
  have s': "dl_tasks s' = (dl_tasks s)(t := x')" "dl_live s' = dl_live s" "queues s' = queues s" "dl_nextRequest s' = dl_nextRequest s"
    "balanceData s' = flat_put dc b' (balanceData s)" "killSessionsWhen s' = killSessionsWhen s1" "dl_now s' = dl_now s"
    using s1 by (simp_all add: s'_def update_task_def)
  have count: "int (sent_in j x') = int (sent_in j x) + (if j = i then 1 else 0)" for j
    using assms(5) by (simp add: sent_in_def x'_def x_def rd'_def i_def filter_flat_emplace)
  have "task_ok (length (sessions b)) (dl_nextRequest s) (queued s t) x"
    using downloads_okD(5) [OF assms(1,2)] b(1) by (simp add: live_ok_def sessions_count_def dc_def x_def)
  then have "task_ok (length (sessions b)) (dl_nextRequest s) (queued s t) x'"
    using task_ok_place [of _ _ "queued s t" x requestId "dl_nextRequest s" rd'] assms(3,5-7) b(2) by (simp add: x'_def x_def rd'_def i_def)
  then have "downloads_ok boost s'"
    using downloads_ok_shift [OF assms(1,2) _ b, of x' 1 s' b'] s' s1(8-10) downloads_okD(4) [OF assms(1)] count
    by (simp add: dc_def x_def x'_def b'_def)
  moreover have len: "length (sessions b') = length (sessions b)" by (simp add: b'_def)
  have "balance_core b' = balance_core b" unfolding b'_def by (rule balance_core_update [OF b(2)])
  then have "only_requests t s s'"
    using s' put_balance_counts [OF b(1) s'(5) len] assms(5)
    by (auto simp: only_requests_def task_core_def x'_def x_def sent_before_def rd'_def set_flat_emplace_new)
  moreover have loads': "int (load_of s' d j) = int (load_of s d j) + (if d = dc \<and> j = i then 1 else 0)" for d j
    using load_of_update [OF downloads_okD(1) [OF assms(1)] assms(2) s'(2,1), of i 1] count by (simp add: dc_def x_def x'_def)
  have "one_more s s' dc i" using loads' by (rule one_moreI)
  moreover have "rd_requestedInSession rd' = kDownloadPartSize * int (load_of s' dc i) + boost dc i"
    using downloads_okD(6) [OF assms(1) b(1)] b(2) loads' [of dc i] by (simp add: rd'_def balance_ok_def algebra_simps)
  ultimately show ?thesis
    using place s' by (intro exI [of _ s'] exI [of _ rd']) (simp add: x'_def rd'_def dc_def x_def i_def)
qed

lemma load_positive:
  assumes "t \<in> set (dl_live s)" "map_of (sentRequests (dl_tasks s t)) requestId = Some rd"
  shows "0 < load_of s (task_dcId (dl_tasks s t)) (rd_sessionIndex rd)"
proof -
  have "(requestId, rd) \<in> set (filter (\<lambda>r. rd_sessionIndex (snd r) = rd_sessionIndex rd) (sentRequests (dl_tasks s t)))"
    using map_of_SomeD [OF assms(2)] by simp
  then have "0 < sent_in (rd_sessionIndex rd) (dl_tasks s t)"
    unfolding sent_in_def by (metis length_pos_if_in_set)
  then show ?thesis unfolding load_of_def using assms(1) by (intro sum_pos2 [of _ t]) auto
qed

lemma total_positive:
  assumes "balance_ok boost ld b" "i < length (sessions b)" "0 < ld i"
  shows "0 < totalRequested b"
proof -
  have "0 < (\<Sum>j < length (sessions b). ld j)" using assms(2,3) by (intro sum_pos2 [of _ i]) auto
  then have "0 < int (\<Sum>j < length (sessions b). ld j)" by (simp only: of_nat_0_less_iff)
  then have "0 < kDownloadPartSize * int (\<Sum>j < length (sessions b). ld j)" using part_positive by (rule mult_pos_pos [rotated])
  then show ?thesis using assms(1) unfolding balance_ok_def by argo
qed

lemma bind_Some_map: "Option.bind m (\<lambda>s. Some (f s)) = map_option f m"
  by (cases m) simp_all

lemma finishSentRequest_ok:
  assumes "downloads_ok boost s" "\<And>d i. 0 \<le> boost d i" "t \<in> set (dl_live s)" "map_of (sentRequests (dl_tasks s t)) requestId = Some rd"
  shows "\<exists>s'. (\<forall>reason. finishSentRequest t requestId reason s =
        map_option (Pair rd) (if reason = Success
          then requestSucceeded (task_dcId (dl_tasks s t)) (rd_sessionIndex rd) (rd_requestedInSession rd) (rd_sent rd) s' else Some s'))
    \<and> downloads_ok boost s' \<and> only_requests t s s' \<and> dl_nextRequest s' = dl_nextRequest s
    \<and> sentRequests (dl_tasks s' t) = flat_erase requestId (sentRequests (dl_tasks s t))
    \<and> requestByOffset (dl_tasks s' t) = flat_erase (rd_offset rd) (requestByOffset (dl_tasks s t))
    \<and> cdnHashesRequestId (dl_tasks s' t) = (if cdnHashesRequestId (dl_tasks s t) = requestId then 0 else cdnHashesRequestId (dl_tasks s t))
    \<and> one_more s' s (task_dcId (dl_tasks s t)) (rd_sessionIndex rd)"
proof -
  define x where "x = dl_tasks s t"
  define dc where "dc = task_dcId x"
  define i where "i = rd_sessionIndex rd"
  have task: "task_ok (sessions_count s dc) (dl_nextRequest s) (queued s t) x"
    using downloads_okD(5) [OF assms(1,3)] by (simp add: live_ok_def dc_def x_def)
  have sent: "map_of (sentRequests x) requestId = Some rd" using assms(4) by (simp add: x_def)
  have entry: "i < sessions_count s dc" "map_of (requestByOffset x) (rd_offset rd) = Some requestId"
    using task_okD(5) [OF task map_of_SomeD [OF sent]] by (simp_all add: i_def)
  obtain b where b: "map_of (balanceData s) dc = Some b" "i < length (sessions b)" using sessions_count_some entry(1) by blast
  define h where "h = (if cdnHashesRequestId x = requestId then 0 else cdnHashesRequestId x)"
  define s0 where "s0 = update_task t (\<lambda>task. if cdnHashesRequestId task = requestId then task\<lparr>cdnHashesRequestId := 0\<rparr> else task) s"
  have s0: "dl_tasks s0 = (dl_tasks s)(t := x\<lparr>cdnHashesRequestId := h\<rparr>)" "balanceData s0 = balanceData s" "queues s0 = queues s"
    "dl_live s0 = dl_live s" "dl_nextRequest s0 = dl_nextRequest s" "dl_now s0 = dl_now s" "killSessionsWhen s0 = killSessionsWhen s"
    by (simp_all add: s0_def update_task_def h_def x_def)
  define b' where "b' = b\<lparr>sessions := (sessions b)[i := (sessions b ! i)\<lparr>requested := requested (sessions b ! i) + - kDownloadPartSize\<rparr>],
    totalRequested := totalRequested b + - kDownloadPartSize\<rparr>"
  have b0: "map_of (balanceData s0) dc = Some b" using b(1) s0(2) by simp
  obtain s1 v where s1: "changeRequestedAmount dc i (- kDownloadPartSize) s0 = Some (v, s1)"
    "balanceData s1 = flat_put dc b' (balanceData s0)" "queues s1 = queues s0" "dl_tasks s1 = dl_tasks s0" "dl_live s1 = dl_live s0"
    "dl_nextRequest s1 = dl_nextRequest s0" "dl_now s1 = dl_now s0" "flat_map_ok (killSessionsWhen s0) \<longrightarrow> flat_map_ok (killSessionsWhen s1)"
    "\<forall>d. d \<in> fst ` set (killSessionsWhen s1) \<longrightarrow> d \<noteq> dc \<longrightarrow> d \<in> fst ` set (killSessionsWhen s0)"
    "dc \<in> fst ` set (killSessionsWhen s1) \<longrightarrow> (\<forall>d \<in> set (sessions b'). requested d \<le> 0) \<or> dc \<in> fst ` set (killSessionsWhen s0)"
    using changeRequestedAmount_ok [OF b0 b(2) b'_def] by blast
  define x' where "x' = x\<lparr>cdnHashesRequestId := h, sentRequests := flat_erase requestId (sentRequests x), requestByOffset := flat_erase (rd_offset rd) (requestByOffset x)\<rparr>"
  define s' where "s' = update_task t (\<lambda>_. x') s1"
  have s': "dl_tasks s' = (dl_tasks s)(t := x')" "dl_live s' = dl_live s" "queues s' = queues s" "dl_nextRequest s' = dl_nextRequest s"
    "balanceData s' = flat_put dc b' (balanceData s)" "killSessionsWhen s' = killSessionsWhen s1" "dl_now s' = dl_now s"
    using s0 s1 by (simp_all add: s'_def update_task_def)
  have "rd_offset rd \<in> fst ` set (requestByOffset x)" using map_of_SomeD [OF entry(2)] by force
  then have finish: "finishSentRequest t requestId reason s =
      map_option (Pair rd) (if reason = Success then requestSucceeded dc i (rd_requestedInSession rd) (rd_sent rd) s' else Some s')" for reason
    using s1(1,4) s0(1) sent unfolding finishSentRequest_def s'_def update_task_def x'_def x_def dc_def i_def
    by (simp add: Let_def bind_Some_map flip: s0_def [unfolded update_task_def])
  have count: "int (sent_in j x') = int (sent_in j x) + (if j = i then -1 else 0)" for j
    using filter_flat_erase [OF flat_map_ok_distinct [OF task_okD(1) [OF task]] sent, of "\<lambda>r. rd_sessionIndex (snd r) = j"]
    by (auto simp: sent_in_def x'_def i_def)
  have count_b: "sessions_count s dc = length (sessions b)" using b(1) by (simp add: sessions_count_def)
  have b'_shift: "b' = b\<lparr>sessions := (sessions b)[i := (sessions b ! i)\<lparr>requested := requested (sessions b ! i) + kDownloadPartSize * -1\<rparr>],
    totalRequested := totalRequested b + kDownloadPartSize * -1\<rparr>" by (simp add: b'_def)
  have loads': "int (load_of s' d j) = int (load_of s d j) + (if d = dc \<and> j = i then -1 else 0)" for d j
    using load_of_update [OF downloads_okD(1) [OF assms(1)] assms(3) s'(2,1), of i "-1"] count by (simp add: dc_def x_def x'_def)
  then have "balance_ok (boost dc) (load_of s' dc) b'"
    using balance_ok_shift [OF downloads_okD(6) [OF assms(1) b(1)] b(2) _ b'_shift] by simp
  moreover have "dc \<notin> fst ` set (killSessionsWhen s)"
    using downloads_okD(9) [OF assms(1) _ b(1)] total_positive [OF downloads_okD(6) [OF assms(1) b(1)] b(2)] load_positive [OF assms(3,4)]
    by (auto simp: dc_def x_def i_def)
  ultimately have total: "dc \<in> fst ` set (killSessionsWhen s') \<Longrightarrow> totalRequested b' = 0"
    using s1(10) s0(7) s'(6) balance_total_zero [of "boost dc" _ b'] assms(2) by auto
  have "task_ok (length (sessions b)) (dl_nextRequest s') (queued s t) x'"
    using task_ok_finish [OF task sent, of h] s'(4) count_b by (simp add: x'_def)
  then have "downloads_ok boost s'"
    using downloads_ok_shift [OF assms(1,3) _ b _ _ s'(1-3) _ b'_shift s'(5)] count total s1(8,9) s0(7) s'(4,6) downloads_okD(4) [OF assms(1)]
    by (simp add: dc_def x_def x'_def)
  moreover have len: "length (sessions b') = length (sessions b)" by (simp add: b'_def)
  have "balance_core b' = balance_core b" unfolding b'_def by (rule balance_core_update [OF b(2)])
  then have "only_requests t s s'"
    using s' put_balance_counts [OF b(1) s'(5) len]
    by (auto simp: only_requests_def task_core_def x'_def x_def sent_before_def flat_erase_def)
  moreover have "one_more s' s dc i" using loads' by (intro one_moreI) simp
  ultimately show ?thesis
    using finish s' by (intro exI [of _ s']) (simp add: x'_def dc_def x_def h_def i_def)
qed

section \<open>Cancelling and making requests\<close>

lemma dl_call_simps [simp]:
  "balanceData (dl_call c s) = balanceData s" "queues (dl_call c s) = queues s" "killSessionsWhen (dl_call c s) = killSessionsWhen s"
  "dl_tasks (dl_call c s) = dl_tasks s" "dl_live (dl_call c s) = dl_live s" "dl_nextRequest (dl_call c s) = dl_nextRequest s"
  "dl_now (dl_call c s) = dl_now s" "queue_of dc (dl_call c s) = queue_of dc s" "balance_of dc (dl_call c s) = balance_of dc s"
  "balances (dl_call c s) = balances s" "load_of (dl_call c s) = load_of s" "sessions_count (dl_call c s) dc = sessions_count s dc" "queued (dl_call c s) t = queued s t"
  by (simp_all add: dl_call_def queue_of_def balance_of_def balances_def load_of_def fun_eq_iff sessions_count_def queued_def cong: if_cong)

text \<open>The books depend on these fields only.\<close>

lemma downloads_ok_cong:
  assumes "downloads_ok boost s" "balanceData s' = balanceData s" "queues s' = queues s" "killSessionsWhen s' = killSessionsWhen s"
    and "dl_live s' = dl_live s" "dl_nextRequest s \<le> dl_nextRequest s'"
    and "\<And>t. task_dcId (dl_tasks s' t) = task_dcId (dl_tasks s t)" "\<And>t. sentRequests (dl_tasks s' t) = sentRequests (dl_tasks s t)"
    and "\<And>t. requestByOffset (dl_tasks s' t) = requestByOffset (dl_tasks s t)"
    and "\<And>t. t \<in> set (dl_live s) \<Longrightarrow> cdnUncheckedParts (dl_tasks s' t) = cdnUncheckedParts (dl_tasks s t)"
  shows "downloads_ok boost s'"
proof -
  have "sent_in i (dl_tasks s' t) = sent_in i (dl_tasks s t)" for i t by (simp add: sent_in_def assms(8))
  then have load: "load_of s' = load_of s" by (simp add: fun_eq_iff load_of_def assms(5,7) cong: if_cong)
  have queue: "queue_of dc s' = queue_of dc s" for dc by (simp add: queue_of_def assms(3))
  have counts: "sessions_count s' = sessions_count s" by (simp add: fun_eq_iff sessions_count_def assms(2))
  have "live_ok s' t" if "t \<in> set (dl_live s)" for t
    using task_ok_mono [OF downloads_okD(5) [OF assms(1) that, unfolded live_ok_def] assms(6)]
    unfolding live_ok_def task_ok_def haveSentRequests_def queued_def counts queue assms(7-9) assms(10) [OF that] .
  then show ?thesis
    using assms(1) unfolding downloads_ok_def load queue assms(2-5,7) by blast
qed

lemma downloads_ok_call [simp]: "downloads_ok boost (dl_call c s) \<longleftrightarrow> downloads_ok boost s"
  using downloads_ok_cong [of boost s "dl_call c s"] downloads_ok_cong [of boost "dl_call c s" s] by auto

lemma only_requests_call: "only_requests t (dl_call c s) s' \<longleftrightarrow> only_requests t s s'" "only_requests t s (dl_call c s') \<longleftrightarrow> only_requests t s s'"
  by (simp_all add: only_requests_def sent_before_def)

lemma one_more_call [simp]: "one_more (dl_call c s) s' dc i \<longleftrightarrow> one_more s s' dc i" "one_more s (dl_call c s') dc i \<longleftrightarrow> one_more s s' dc i"
  by (simp_all add: one_more_def)

lemma cancelRequest_ok:
  assumes "downloads_ok boost s" "\<And>d i. 0 \<le> boost d i" "t \<in> set (dl_live s)" "map_of (sentRequests (dl_tasks s t)) requestId = Some rd"
  shows "\<exists>s'. cancelRequest t requestId s = Some s' \<and> downloads_ok boost s' \<and> only_requests t s s' \<and> dl_nextRequest s' = dl_nextRequest s
    \<and> sentRequests (dl_tasks s' t) = flat_erase requestId (sentRequests (dl_tasks s t))
    \<and> requestByOffset (dl_tasks s' t) = flat_erase (rd_offset rd) (requestByOffset (dl_tasks s t))
    \<and> cdnHashesRequestId (dl_tasks s' t) = (if cdnHashesRequestId (dl_tasks s t) = requestId then 0 else cdnHashesRequestId (dl_tasks s t))
    \<and> one_more s' s (task_dcId (dl_tasks s t)) (rd_sessionIndex rd)"
proof -
  obtain s1 where "\<forall>reason. finishSentRequest t requestId reason (dl_call (CancelRequest requestId) s) =
        map_option (Pair rd) (if reason = Success
          then requestSucceeded (task_dcId (dl_tasks s t)) (rd_sessionIndex rd) (rd_requestedInSession rd) (rd_sent rd) s1 else Some s1)"
    "downloads_ok boost s1" "only_requests t s s1" "dl_nextRequest s1 = dl_nextRequest s"
    "sentRequests (dl_tasks s1 t) = flat_erase requestId (sentRequests (dl_tasks s t))"
    "requestByOffset (dl_tasks s1 t) = flat_erase (rd_offset rd) (requestByOffset (dl_tasks s t))"
    "cdnHashesRequestId (dl_tasks s1 t) = (if cdnHashesRequestId (dl_tasks s t) = requestId then 0 else cdnHashesRequestId (dl_tasks s t))"
    "one_more s1 s (task_dcId (dl_tasks s t)) (rd_sessionIndex rd)"
    using finishSentRequest_ok [of boost "dl_call (CancelRequest requestId) s", unfolded dl_call_simps downloads_ok_call only_requests_call one_more_call, OF assms]
    by blast
  then show ?thesis by (simp add: cancelRequest_def only_requests_call Let_def)
qed

lemma downloads_ok_task:
  assumes "downloads_ok boost s" "t \<in> set (dl_live s)" "task_dcId x = task_dcId (dl_tasks s t)" "sentRequests x = sentRequests (dl_tasks s t)"
    and "task_ok (sessions_count s (task_dcId x)) (dl_nextRequest s) (queued s t) x"
  shows "downloads_ok boost (update_task t (\<lambda>_. x) s)"
proof -
  let ?s = "update_task t (\<lambda>_. x) s"
  have same: "balanceData ?s = balanceData s" "queues ?s = queues s" "killSessionsWhen ?s = killSessionsWhen s" "dl_live ?s = dl_live s"
    "dl_nextRequest ?s = dl_nextRequest s" "dl_tasks ?s = (dl_tasks s)(t := x)" "queue_of dc ?s = queue_of dc s" for dc
    by (simp_all add: update_task_def queue_of_def)
  have dcs: "task_dcId (dl_tasks ?s u) = task_dcId (dl_tasks s u)" for u by (simp add: same(6) assms(3))
  have "sent_in i (dl_tasks ?s u) = sent_in i (dl_tasks s u)" for i u by (simp add: sent_in_def same(6) assms(4))
  then have load: "load_of ?s = load_of s" by (simp add: fun_eq_iff load_of_def same(4) dcs cong: if_cong)
  have counts: "sessions_count ?s = sessions_count s" by (simp add: fun_eq_iff sessions_count_def same(1))
  have "live_ok ?s u" if "u \<in> set (dl_live s)" for u
    using downloads_okD(5) [OF assms(1) that] assms(3,5) by (cases "u = t") (simp_all add: live_ok_def queued_def counts same)
  then show ?thesis
    using assms(1) unfolding downloads_ok_def load same(1-4,7) dcs by blast
qed

lemma sessions_count_le:
  assumes "downloads_ok boost s"
  shows "sessions_count s dc \<le> kMaxSessionsCount"
  using downloads_okD(6) [OF assms, of dc] by (auto simp: sessions_count_def balance_ok_def split: option.splits)

lemma makeRequest_ok:
  assumes "downloads_ok boost s" "t \<in> set (dl_live s)" "queued s t" "rd_sessionIndex rd < sessions_count s (task_dcId (dl_tasks s t))"
    and "rd_offset rd \<notin> fst ` set (requestByOffset (dl_tasks s t))"
  shows "\<exists>s' rd'. makeRequest t rd s = Some s' \<and> downloads_ok boost s' \<and> only_requests t s s' \<and> dl_nextRequest s' = dl_nextRequest s + 1
    \<and> rd_sessionIndex rd' = rd_sessionIndex rd \<and> rd_offset rd' = rd_offset rd
    \<and> sentRequests (dl_tasks s' t) = flat_emplace (dl_nextRequest s) rd' (sentRequests (dl_tasks s t))
    \<and> requestByOffset (dl_tasks s' t) = flat_emplace (rd_offset rd) (dl_nextRequest s) (requestByOffset (dl_tasks s t))
    \<and> cdnHashesRequestId (dl_tasks s' t) = cdnHashesRequestId (dl_tasks s t)
    \<and> dl_nextRequest s \<notin> fst ` set (sentRequests (dl_tasks s t))
    \<and> rd_sent rd' = dl_now s \<and> one_more s s' (task_dcId (dl_tasks s t)) (rd_sessionIndex rd)
    \<and> rd_requestedInSession rd' = kDownloadPartSize * int (load_of s' (task_dcId (dl_tasks s t)) (rd_sessionIndex rd))
         + boost (task_dcId (dl_tasks s t)) (rd_sessionIndex rd)"
proof -
  let ?id = "dl_nextRequest s"
  have "task_ok (sessions_count s (task_dcId (dl_tasks s t))) ?id (queued s t) (dl_tasks s t)"
    using downloads_okD(5) [OF assms(1,2)] by (simp add: live_ok_def)
  then have new: "?id \<notin> fst ` set (sentRequests (dl_tasks s t))" using task_okD(5) by fastforce
  have "int (rd_sessionIndex rd) < kMaxMediaDcCount"
    using assms(4) sessions_count_le [OF assms(1), of "task_dcId (dl_tasks s t)"] by (simp add: kMaxSessionsCount_def kMaxMediaDcCount_def)
  then obtain s1 sh where s1: "sendRequest t rd s = Some (?id, s1)" "s1 = dl_call (SendRequest ?id sh (rd_offset rd)) (s\<lparr>dl_nextRequest := ?id + 1\<rparr>)"
    by (auto simp: sendRequest_def downloadDcId_def Let_def)
  have same: "dl_tasks s1 = dl_tasks s" "dl_live s1 = dl_live s" "queues s1 = queues s" "balanceData s1 = balanceData s" "dl_now s1 = dl_now s"
    "dl_nextRequest s1 = ?id + 1" "killSessionsWhen s1 = killSessionsWhen s" by (simp_all add: s1(2))
  have "queued s1 t = queued s t" "sessions_count s1 dc = sessions_count s dc" "balances s1 = balances s" "load_of s1 = load_of s" for dc
    by (simp_all add: queued_def queue_of_def sessions_count_def balances_def load_of_def fun_eq_iff same cong: if_cong)
  moreover have "downloads_ok boost s1" using downloads_ok_cong [OF assms(1), of s1] by (simp add: same)
  moreover have "one_more s1 s' d i = one_more s s' d i" for s' d i using \<open>load_of s1 = load_of s\<close> by (simp add: one_more_def)
  ultimately obtain s' rd' where "placeSentRequest t ?id rd s1 = Some s'" "downloads_ok boost s'" "only_requests t s1 s'" "dl_nextRequest s' = dl_nextRequest s1"
    "rd_sessionIndex rd' = rd_sessionIndex rd" "rd_offset rd' = rd_offset rd"
    "sentRequests (dl_tasks s' t) = flat_emplace ?id rd' (sentRequests (dl_tasks s t))"
    "requestByOffset (dl_tasks s' t) = flat_emplace (rd_offset rd) ?id (requestByOffset (dl_tasks s t))"
    "cdnHashesRequestId (dl_tasks s' t) = cdnHashesRequestId (dl_tasks s t)"
    "rd_sent rd' = dl_now s" "one_more s s' (task_dcId (dl_tasks s t)) (rd_sessionIndex rd)"
    "rd_requestedInSession rd' = kDownloadPartSize * int (load_of s' (task_dcId (dl_tasks s t)) (rd_sessionIndex rd))
         + boost (task_dcId (dl_tasks s t)) (rd_sessionIndex rd)"
    using placeSentRequest_ok [of boost s1 t rd ?id] assms new by (auto simp: same)
  moreover have "only_requests t s s'"
    using \<open>only_requests t s1 s'\<close> \<open>\<And>dc. sessions_count s1 dc = sessions_count s dc\<close> \<open>balances s1 = balances s\<close>
    by (simp add: only_requests_def sent_before_def same)
  ultimately show ?thesis using s1(1) new by (intro exI [of _ s'] exI [of _ rd']) (simp add: makeRequest_def same)
qed

lemma downloads_okI:
  assumes "distinct (dl_live s)" "flat_map_ok (balanceData s)" "flat_map_ok (queues s)" "flat_map_ok (killSessionsWhen s)"
    and "\<And>t. t \<in> set (dl_live s) \<Longrightarrow> live_ok s t" "\<And>dc b. map_of (balanceData s) dc = Some b \<Longrightarrow> balance_ok (boost dc) (load_of s dc) b"
    and "\<And>dc. queue_ok (queue_of dc s)"
    and "\<And>dc t. t \<in> fst ` set (queue_of dc s) \<Longrightarrow> t \<in> set (dl_live s) \<and> task_dcId (dl_tasks s t) = dc"
    and "\<And>dc b. dc \<in> fst ` set (killSessionsWhen s) \<Longrightarrow> map_of (balanceData s) dc = Some b \<Longrightarrow> totalRequested b = 0"
  shows "downloads_ok boost s"
  using assms unfolding downloads_ok_def by blast

lemma put_balance_ok:
  assumes "downloads_ok boost s" "balance_ok (boost' dc) (load_of s dc) b" "\<And>d. d \<noteq> dc \<Longrightarrow> boost' d = boost d"
    and "\<And>t. t \<in> set (dl_live s) \<Longrightarrow> task_dcId (dl_tasks s t) = dc \<Longrightarrow> task_ok (length (sessions b)) (dl_nextRequest s) (queued s t) (dl_tasks s t)"
    and "dc \<in> fst ` set (killSessionsWhen s) \<Longrightarrow> totalRequested b = 0"
  shows "downloads_ok boost' (put_balance dc b s)"
proof -
  let ?s = "put_balance dc b s"
  have same: "queues ?s = queues s" "killSessionsWhen ?s = killSessionsWhen s" "dl_live ?s = dl_live s" "dl_nextRequest ?s = dl_nextRequest s"
    "dl_tasks ?s = dl_tasks s" "queue_of d ?s = queue_of d s" "queued ?s t = queued s t" "load_of ?s = load_of s" for d t
    by (simp_all add: put_balance_def queue_of_def queued_def load_of_def fun_eq_iff cong: if_cong)
  have map_of': "map_of (balanceData ?s) d = (if d = dc then Some b else map_of (balanceData s) d)" for d
    by (simp add: put_balance_def map_of_flat_put)
  have counts: "sessions_count ?s d = (if d = dc then length (sessions b) else sessions_count s d)" for d
    by (simp add: sessions_count_def map_of')
  have live: "live_ok ?s t" if "t \<in> set (dl_live s)" for t
    using downloads_okD(5) [OF assms(1) that] assms(4) [OF that] by (simp add: live_ok_def counts same)
  have flat: "flat_map_ok (balanceData ?s)" using downloads_okD(2) [OF assms(1)] by (simp add: put_balance_def flat_map_ok_put)
  have balance: "balance_ok (boost' d) (load_of s d) c" if "map_of (balanceData ?s) d = Some c" for d c
    using that assms(2,3) downloads_okD(6) [OF assms(1), of d c] by (cases "d = dc") (simp_all add: map_of')
  have kill: "totalRequested c = 0" if "d \<in> fst ` set (killSessionsWhen s)" "map_of (balanceData ?s) d = Some c" for d c
    using that(2) assms(5) downloads_okD(9) [OF assms(1) that(1)] that(1) by (cases "d = dc") (simp_all add: map_of')
  show ?thesis
    by (rule downloads_okI) (simp_all only: same downloads_okD(1,3,4,7,8) [OF assms(1)] live flat balance kill)
qed

lemma length_takeWhile_le_nth: "k < length xs \<Longrightarrow> \<not> P (xs ! k) \<Longrightarrow> length (takeWhile P xs) \<le> k"
  by (metis leI nth_mem set_takeWhileD takeWhile_nth)

lemma list_least: "xs \<noteq> [] \<Longrightarrow> \<exists>k < length xs. \<forall>y \<in> set xs. f (xs ! k) \<le> (f y :: int)"
proof -
  assume "xs \<noteq> []"
  then have "Min (f ` set xs) \<in> f ` set xs" by simp
  then obtain x where "x \<in> set xs" "f x = Min (f ` set xs)" by (metis imageE)
  then show ?thesis by (metis Min_le finite_imageI finite_set image_eqI in_set_conv_nth)
qed

lemma first_min_less:
  assumes "length xs = Suc n" "j < n" "f (xs ! j) \<le> f (xs ! n)"
  shows "first_min f xs < n"
proof -
  obtain k where k: "k < length xs" "\<forall>y \<in> set xs. f (xs ! k) \<le> f y" using list_least [of xs f] assms(1) by force
  have "\<exists>k < n. \<forall>y \<in> set xs. f (xs ! k) \<le> f y"
  proof (cases "k < n")
    case False
    then have "k = n" using k(1) assms(1) by simp
    then show ?thesis using k(2) assms(2,3) order_trans by blast
  qed (use k in blast)
  then obtain k' where "k' < n" "\<forall>y \<in> set xs. f (xs ! k') \<le> f y" by blast
  then show ?thesis
    using length_takeWhile_le_nth [of k' xs "\<lambda>x. \<exists>y \<in> set xs. f y < f x"] assms(1) by (fastforce simp: first_min_def not_less)
qed

lemma first_min_least:
  assumes "xs \<noteq> []"
  shows "first_min f xs < length xs" "y \<in> set xs \<Longrightarrow> f (xs ! first_min f xs) \<le> f y"
proof -
  obtain k where k: "k < length xs" "\<forall>y \<in> set xs. f (xs ! k) \<le> f y" using list_least [OF assms] by blast
  then show less: "first_min f xs < length xs"
    using length_takeWhile_le_nth [of k xs "\<lambda>x. \<exists>y \<in> set xs. f y < f x"] by (fastforce simp: first_min_def not_less)
  then have "\<not> (\<exists>y \<in> set xs. f y < f (xs ! first_min f xs))"
    unfolding first_min_def by (rule nth_length_takeWhile)
  then show "y \<in> set xs \<Longrightarrow> f (xs ! first_min f xs) \<le> f y" by force
qed

lemma spread_total: "(\<Sum>j < Suc n. ld j) \<le> spread n ld"
  unfolding spread_def by (simp add: sum_mono)

lemma spread_grow:
  assumes "\<And>j. ld' j = ld j + (if j = i then 1 else 0)"
  shows "spread n ld' \<le> spread n ld + 1"
proof -
  have "(\<Sum>j < n. max (ld' j) kMaxParts) \<le> (\<Sum>j < n. max (ld j) kMaxParts + (if j = i then 1 else 0))"
    by (intro sum_mono) (simp add: assms)
  then show ?thesis by (cases "i < n") (auto simp: spread_def assms sum.distrib)
qed

lemma spread_shrink:
  assumes "\<And>j. ld j = ld' j + (if j = n then 1 else 0)"
  shows "spread n ld = Suc (spread n ld')"
  by (simp add: spread_def assms)

lemma request_cap_parts: "request_cap = kDownloadPartSize * int (kMaxParts * kMaxSessionsCount)"
  by (simp add: request_cap_def kMaxWaitedInSession_def kMaxParts_def)

lemma chooseSessionIndex_ok:
  assumes "downloads_ok (removal_boost dc n) s" "sessions_count s dc = Suc n" "0 < n" "spread n (load_of s dc) \<le> kMaxParts * kMaxSessionsCount"
  shows "\<exists>j < n. chooseSessionIndex dc s = Some j"
proof -
  obtain b where b: "map_of (balanceData s) dc = Some b" "length (sessions b) = Suc n"
    using assms(2) by (auto simp: sessions_count_def split: option.splits)
  note ok = downloads_okD(6) [OF assms(1) b(1), unfolded balance_ok_def]
  have "load_of s dc 0 \<le> (\<Sum>i < Suc n. load_of s dc i)" by (intro member_le_sum) auto
  then have "load_of s dc 0 \<le> kMaxParts * kMaxSessionsCount" using spread_total [of "load_of s dc" n] assms(4) by linarith
  then have "kDownloadPartSize * int (load_of s dc 0) \<le> request_cap"
    unfolding request_cap_parts using part_positive by (intro mult_left_mono) (simp_all only: of_nat_le_iff less_imp_le)
  moreover have "0 \<le> kDownloadPartSize * int (load_of s dc n)" using part_positive by simp
  ultimately have "requested (sessions b ! 0) \<le> requested (sessions b ! n)"
    using ok b(2) assms(3) by (simp add: removal_boost_def)
  then show ?thesis using first_min_less [OF b(2) assms(3), of requested] b(1) by (simp add: chooseSessionIndex_def)
qed

section \<open>Removing a session\<close>

lemma move_unchecked_ok:
  assumes "chooseSessionIndex dc s = Some j" "j < n" "\<And>offset rd bytes. (offset, (rd, bytes)) \<in> set parts \<Longrightarrow> rd_sessionIndex rd < Suc n"
  shows "\<exists>parts'. move_unchecked dc n s parts = Some parts' \<and> map fst parts' = map fst parts
    \<and> (\<forall>(offset, (rd, bytes)) \<in> set parts'. rd_sessionIndex rd < n)"
  using assms(3)
proof (induction parts)
  case (Cons p parts)
  obtain offset rd bytes where p: "p = (offset, (rd, bytes))" by (cases p) auto
  obtain parts' where "move_unchecked dc n s parts = Some parts'" "map fst parts' = map fst parts"
    "\<forall>(offset, (rd, bytes)) \<in> set parts'. rd_sessionIndex rd < n"
    using Cons.IH Cons.prems by (metis list.set_intros(2))
  moreover have "rd_sessionIndex rd < Suc n" using Cons.prems [of offset rd bytes] p by simp
  ultimately show ?case using assms(1,2) p by (cases "rd_sessionIndex rd = n") auto
qed simp

lemma removal_boost_nonneg: "0 \<le> removal_boost dc n d i"
  by (simp add: removal_boost_def request_cap_def kMaxWaitedInSession_def kDownloadPartSize_def)

lemma redirect_one_ok:
  assumes "downloads_ok (removal_boost dc n) s" "t \<in> set (dl_live s)" "queued s t" "dc = task_dcId (dl_tasks s t)"
    and "sessions_count s dc = Suc n" "0 < n" "spread n (load_of s dc) \<le> kMaxParts * kMaxSessionsCount"
    and rd: "map_of (sentRequests (dl_tasks s t)) r = Some rd" "rd_offset rd = offset" and in_n: "rd_sessionIndex rd = n"
  shows "\<exists>s2. redirect_one t n r offset s = Some s2 \<and> downloads_ok (removal_boost dc n) s2 \<and> only_requests t s s2
    \<and> fst ` set (requestByOffset (dl_tasks s2 t)) \<subseteq> fst ` set (requestByOffset (dl_tasks s t))
    \<and> (r \<noteq> cdnHashesRequestId (dl_tasks s t) \<longrightarrow> cdnHashesRequestId (dl_tasks s2 t) = cdnHashesRequestId (dl_tasks s t)
          \<and> fst ` set (requestByOffset (dl_tasks s2 t)) = fst ` set (requestByOffset (dl_tasks s t)))
    \<and> spread n (load_of s2 dc) \<le> spread n (load_of s dc)
    \<and> (\<forall>q. q \<noteq> r \<longrightarrow> map_of (sentRequests (dl_tasks s t)) q \<noteq> None \<longrightarrow> map_of (sentRequests (dl_tasks s2 t)) q = map_of (sentRequests (dl_tasks s t)) q)
    \<and> (\<forall>q rd'. map_of (sentRequests (dl_tasks s2 t)) q = Some rd' \<longrightarrow> rd_sessionIndex rd' = n \<longrightarrow> q \<noteq> r \<and> map_of (sentRequests (dl_tasks s t)) q = Some rd')"
proof -
  obtain s1 where s1: "cancelRequest t r s = Some s1" "downloads_ok (removal_boost dc n) s1" "only_requests t s s1"
    "sentRequests (dl_tasks s1 t) = flat_erase r (sentRequests (dl_tasks s t))"
    "requestByOffset (dl_tasks s1 t) = flat_erase offset (requestByOffset (dl_tasks s t))"
    "one_more s1 s dc (rd_sessionIndex rd)"
    "cdnHashesRequestId (dl_tasks s1 t) = (if cdnHashesRequestId (dl_tasks s t) = r then 0 else cdnHashesRequestId (dl_tasks s t))"
    using cancelRequest_ok [OF assms(1) removal_boost_nonneg assms(2) rd(1)] rd(2) assms(4) by blast
  have placed: "offset \<in> fst ` set (requestByOffset (dl_tasks s t))"
    using task_okD(5) [OF downloads_okD(5) [OF assms(1,2), unfolded live_ok_def] map_of_SomeD [OF rd(1)]] rd(2)
    by (metis map_of_eq_None_iff option.distinct(1))
  note frame1 = s1(3) [unfolded only_requests_def]
  have dc1: "task_dcId (dl_tasks s1 t) = dc" using frame1 task_core_simps assms(4) by blast
  have queued1: "queued s1 t" using assms(3,4) frame1 dc1 by (simp add: queued_def queue_of_def)
  have total1: "Suc (spread n (load_of s1 dc)) = spread n (load_of s dc)"
    using s1(6) spread_shrink [of "load_of s dc" "load_of s1 dc" n] unfolding in_n by (simp add: one_more_def)
  show ?thesis
  proof (cases "r \<noteq> cdnHashesRequestId (dl_tasks s t)")
    case False
    then show ?thesis
      using s1 total1 by (intro exI [of _ s1]) (auto simp: redirect_one_def map_of_flat_erase keys_flat_erase)
  next
    case True
    have "spread n (load_of s1 dc) \<le> kMaxParts * kMaxSessionsCount" using total1 assms(7) by linarith
    then obtain j where j: "j < n" "chooseSessionIndex dc s1 = Some j"
      using chooseSessionIndex_ok [OF s1(2) _ assms(6)] frame1 assms(5) by auto
    have "rd_offset (new_request offset j) \<notin> fst ` set (requestByOffset (dl_tasks s1 t))"
      unfolding s1(5) keys_flat_erase by (simp add: new_request_def)
    moreover have "t \<in> set (dl_live s1)" using frame1 assms(2) by simp
    moreover have "rd_sessionIndex (new_request offset j) < sessions_count s1 (task_dcId (dl_tasks s1 t))"
      using j(1) frame1 assms(5) dc1 by (simp add: new_request_def)
    ultimately obtain s2 rd' where s2: "makeRequest t (new_request offset j) s1 = Some s2" "downloads_ok (removal_boost dc n) s2" "only_requests t s1 s2"
      "rd_sessionIndex rd' = j" "sentRequests (dl_tasks s2 t) = flat_emplace (dl_nextRequest s1) rd' (sentRequests (dl_tasks s1 t))"
      "requestByOffset (dl_tasks s2 t) = flat_emplace offset (dl_nextRequest s1) (requestByOffset (dl_tasks s1 t))"
      "cdnHashesRequestId (dl_tasks s2 t) = cdnHashesRequestId (dl_tasks s1 t)"
      "dl_nextRequest s1 \<notin> fst ` set (sentRequests (dl_tasks s1 t))" "one_more s1 s2 dc j"
      using makeRequest_ok [OF s1(2), of t "new_request offset j"] queued1 dc1 by (auto simp: new_request_def)
    have flat: "flat_map_ok (sentRequests (dl_tasks s1 t))" "map_of (sentRequests (dl_tasks s1 t)) (dl_nextRequest s1) = None"
      using downloads_okD(5) [OF s1(2) \<open>t \<in> set (dl_live s1)\<close>] s2(8) by (auto simp: live_ok_def map_of_eq_None_iff dest: task_okD(1))
    have sent: "map_of (sentRequests (dl_tasks s2 t)) q =
        (if q = dl_nextRequest s1 then Some rd' else if q = r then None else map_of (sentRequests (dl_tasks s t)) q)" for q
      using flat unfolding s2(5) by (simp add: map_of_flat_emplace) (simp add: s1(4) map_of_flat_erase)
    have keys: "fst ` set (requestByOffset (dl_tasks s2 t)) = fst ` set (requestByOffset (dl_tasks s t))"
      unfolding s2(6) s1(5) using placed by (auto simp only: set_flat_emplace_keys keys_flat_erase insert_iff Diff_iff)
    have hash: "cdnHashesRequestId (dl_tasks s2 t) = cdnHashesRequestId (dl_tasks s t)" using True s1(7) s2(7) by simp
    have total2: "spread n (load_of s2 dc) \<le> spread n (load_of s dc)"
      using s2(9) spread_grow [of "load_of s2 dc" "load_of s1 dc" j n] total1 by (simp add: one_more_def)
    show ?thesis
      using True j s1(1) s2(1-4) dc1 total2 sent flat(2) keys hash only_requests_trans [OF s1(3) s2(3)] unfolding s1(4) map_of_flat_erase
      by (intro exI [of _ s2]) (auto simp: redirect_one_def split: if_splits)
  qed
qed

lemma redirect_requests_Cons:
  "redirect_requests t n ((r, offset) # rs) s = Option.bind (redirect_one t n r offset s) (redirect_requests t n rs)"
  by (cases "cancelRequest t r s") (simp_all add: redirect_one_def Let_def)

lemma redirect_requests_ok:
  assumes "downloads_ok (removal_boost dc n) s" "t \<in> set (dl_live s)" "queued s t" "dc = task_dcId (dl_tasks s t)"
    and "sessions_count s dc = Suc n" "0 < n" "spread n (load_of s dc) \<le> kMaxParts * kMaxSessionsCount" "distinct (map fst rs)"
    and "\<And>r offset. (r, offset) \<in> set rs \<Longrightarrow> \<exists>rd. map_of (sentRequests (dl_tasks s t)) r = Some rd \<and> rd_offset rd = offset \<and> rd_sessionIndex rd = n"
    and "\<And>r rd. map_of (sentRequests (dl_tasks s t)) r = Some rd \<Longrightarrow> rd_sessionIndex rd = n \<Longrightarrow> r \<in> fst ` set rs"
  shows "\<exists>s'. redirect_requests t n rs s = Some s' \<and> downloads_ok (removal_boost dc n) s' \<and> only_requests t s s'
    \<and> fst ` set (requestByOffset (dl_tasks s' t)) \<subseteq> fst ` set (requestByOffset (dl_tasks s t))
    \<and> (cdnHashesRequestId (dl_tasks s t) \<notin> fst ` set rs \<longrightarrow> fst ` set (requestByOffset (dl_tasks s' t)) = fst ` set (requestByOffset (dl_tasks s t)))
    \<and> spread n (load_of s' dc) \<le> spread n (load_of s dc) \<and> (\<forall>r rd. map_of (sentRequests (dl_tasks s' t)) r = Some rd \<longrightarrow> rd_sessionIndex rd < n)"
  using assms
proof (induction rs arbitrary: s)
  case Nil
  have "rd_sessionIndex rd < n" if "map_of (sentRequests (dl_tasks s t)) r = Some rd" for r rd
  proof -
    have "rd_sessionIndex rd < Suc n"
      using task_okD(5) [OF downloads_okD(5) [OF Nil(1,2), unfolded live_ok_def] map_of_SomeD [OF that]] Nil(4,5) by simp
    moreover have "rd_sessionIndex rd \<noteq> n" using Nil(10) that by auto
    ultimately show ?thesis by simp
  qed
  then show ?case using Nil by (auto simp: only_requests_def)
next
  case (Cons r' rs)
  obtain r offset where r: "r' = (r, offset)" by (cases r')
  obtain rd where rd: "map_of (sentRequests (dl_tasks s t)) r = Some rd" "rd_offset rd = offset" "rd_sessionIndex rd = n"
    using Cons.prems(9) [of r offset] unfolding r by auto
  obtain s2 where s2: "redirect_one t n r offset s = Some s2" "downloads_ok (removal_boost dc n) s2" "only_requests t s s2"
    "fst ` set (requestByOffset (dl_tasks s2 t)) \<subseteq> fst ` set (requestByOffset (dl_tasks s t))"
    "r \<noteq> cdnHashesRequestId (dl_tasks s t) \<Longrightarrow> cdnHashesRequestId (dl_tasks s2 t) = cdnHashesRequestId (dl_tasks s t)
       \<and> fst ` set (requestByOffset (dl_tasks s2 t)) = fst ` set (requestByOffset (dl_tasks s t))"
    "spread n (load_of s2 dc) \<le> spread n (load_of s dc)"
    "\<And>q. q \<noteq> r \<Longrightarrow> map_of (sentRequests (dl_tasks s t)) q \<noteq> None \<Longrightarrow> map_of (sentRequests (dl_tasks s2 t)) q = map_of (sentRequests (dl_tasks s t)) q"
    "\<And>q rd'. map_of (sentRequests (dl_tasks s2 t)) q = Some rd' \<Longrightarrow> rd_sessionIndex rd' = n \<Longrightarrow> q \<noteq> r \<and> map_of (sentRequests (dl_tasks s t)) q = Some rd'"
    using redirect_one_ok [OF Cons.prems(1-7) rd] by blast
  note frame' = s2(3) [unfolded only_requests_def]
  have dc2: "task_dcId (dl_tasks s2 t) = dc" using frame' task_core_simps Cons.prems(4) by blast
  have notin: "r \<notin> fst ` set rs" "distinct (map fst rs)" using Cons.prems(8) unfolding r by simp_all
  have "\<exists>s'. redirect_requests t n rs s2 = Some s' \<and> downloads_ok (removal_boost dc n) s' \<and> only_requests t s2 s'
    \<and> fst ` set (requestByOffset (dl_tasks s' t)) \<subseteq> fst ` set (requestByOffset (dl_tasks s2 t))
    \<and> (cdnHashesRequestId (dl_tasks s2 t) \<notin> fst ` set rs \<longrightarrow> fst ` set (requestByOffset (dl_tasks s' t)) = fst ` set (requestByOffset (dl_tasks s2 t)))
    \<and> spread n (load_of s' dc) \<le> spread n (load_of s2 dc) \<and> (\<forall>r rd. map_of (sentRequests (dl_tasks s' t)) r = Some rd \<longrightarrow> rd_sessionIndex rd < n)"
  proof (rule Cons.IH [OF s2(2)])
    show "t \<in> set (dl_live s2)" using frame' Cons.prems(2) by simp
    show "queued s2 t" using frame' Cons.prems(3,4) dc2 by (simp add: queued_def queue_of_def)
    show "dc = task_dcId (dl_tasks s2 t)" by (simp add: dc2)
    show "sessions_count s2 dc = Suc n" using frame' Cons.prems(5) by simp
    show "spread n (load_of s2 dc) \<le> kMaxParts * kMaxSessionsCount" using s2(6) Cons.prems(7) by simp
    show "\<exists>rd. map_of (sentRequests (dl_tasks s2 t)) q = Some rd \<and> rd_offset rd = o' \<and> rd_sessionIndex rd = n" if q: "(q, o') \<in> set rs" for q o'
    proof -
      have "q \<noteq> r" using q notin(1) by force
      moreover obtain rd' where "map_of (sentRequests (dl_tasks s t)) q = Some rd'" "rd_offset rd' = o'" "rd_sessionIndex rd' = n"
        using Cons.prems(9) [OF list.set_intros(2) [OF q]] by blast
      ultimately show ?thesis using s2(7) by auto
    qed
    show "q \<in> fst ` set rs" if "map_of (sentRequests (dl_tasks s2 t)) q = Some rd'" "rd_sessionIndex rd' = n" for q rd'
      using s2(8) [OF that] Cons.prems(10) [of q rd'] that(2) unfolding r by simp
  qed (use Cons.prems(6) notin in simp_all)
  then obtain s' where s': "redirect_requests t n rs s2 = Some s'" "downloads_ok (removal_boost dc n) s'" "only_requests t s2 s'"
    "fst ` set (requestByOffset (dl_tasks s' t)) \<subseteq> fst ` set (requestByOffset (dl_tasks s2 t))"
    "cdnHashesRequestId (dl_tasks s2 t) \<notin> fst ` set rs \<longrightarrow> fst ` set (requestByOffset (dl_tasks s' t)) = fst ` set (requestByOffset (dl_tasks s2 t))"
    "spread n (load_of s' dc) \<le> spread n (load_of s2 dc)" "\<forall>r rd. map_of (sentRequests (dl_tasks s' t)) r = Some rd \<longrightarrow> rd_sessionIndex rd < n" by blast
  have "redirect_requests t n ((r, offset) # rs) s = Some s'"
    using s2(1) s'(1) by (simp add: redirect_requests_Cons del: redirect_requests.simps)
  moreover have "fst ` set (requestByOffset (dl_tasks s' t)) = fst ` set (requestByOffset (dl_tasks s t))"
    if "cdnHashesRequestId (dl_tasks s t) \<notin> fst ` set (r' # rs)"
    using that s2(5) s'(5) unfolding r by simp
  ultimately show ?case
    using s'(2,3,7) only_requests_trans [OF s2(3) s'(3)] order_trans [OF s'(6) s2(6)] order_trans [OF s'(4) s2(4)] unfolding r by blast
qed

end
