(* ===== verification/DownloadSessions.thy ===== *)
theory DownloadSessions
  imports DownloadManager
begin

text \<open>
  Removing a session of a data center (\<open>removeSession\<close> and \<open>sessionTimedOut\<close> of
  storage/download_manager_mtproto.cpp): its requests move to the other sessions, and no check on the way fails.
\<close>

section \<open>Definitions\<close>

text \<open>A request for hashes of a CDN is not repeated; all other parts stay requested.\<close>

definition keeps_parts :: "nat \<Rightarrow> 'u download_task \<Rightarrow> 'u download_task \<Rightarrow> bool" where
  "keeps_parts n x x' \<longleftrightarrow>
     (\<forall>offset. haveSentRequestForOffset x' offset \<longrightarrow> haveSentRequestForOffset x offset)
     \<and> ((\<forall>rd. map_of (sentRequests x) (cdnHashesRequestId x) = Some rd \<longrightarrow> rd_sessionIndex rd \<noteq> n)
     \<longrightarrow> (\<forall>offset. haveSentRequestForOffset x' offset \<longleftrightarrow> haveSentRequestForOffset x offset))"

text \<open>The state in which \<open>removeSession\<close> starts to move requests away from the last session.\<close>

definition count_removal :: "int \<Rightarrow> DcBalanceData \<Rightarrow> DcBalanceData" where
  "count_removal index b =
     (if sessionRemoveIndex b = index then b\<lparr>sessionRemoveTimes := min (sessionRemoveTimes b + 1) kMaxTrackedSessionRemoves\<rparr>
      else b\<lparr>sessionRemoveIndex := index, sessionRemoveTimes := 1\<rparr>)"

definition removal_start :: "DcId \<Rightarrow> nat \<Rightarrow> 'u downloads \<Rightarrow> 'u downloads" where
  "removal_start dc n s =
     put_balance dc (add_requested n request_cap (count_removal (int n) (balance_of dc s))) (put_queue dc (queue_of dc s) s)"

section \<open>One task\<close>

lemma update_task_simps [simp]:
  "balanceData (update_task t f s) = balanceData s" "queues (update_task t f s) = queues s" "killSessionsWhen (update_task t f s) = killSessionsWhen s"
  "dl_live (update_task t f s) = dl_live s" "dl_nextRequest (update_task t f s) = dl_nextRequest s" "dl_now (update_task t f s) = dl_now s"
  "dl_tasks (update_task t f s) = (dl_tasks s)(t := f (dl_tasks s t))"
  "queue_of dc (update_task t f s) = queue_of dc s" "balance_of dc (update_task t f s) = balance_of dc s"
  "balances (update_task t f s) = balances s" "sessions_count (update_task t f s) dc = sessions_count s dc"
  by (simp_all add: update_task_def queue_of_def balance_of_def balances_def fun_eq_iff sessions_count_def)

lemma queued_update_task [simp]:
  "task_dcId (f (dl_tasks s t)) = task_dcId (dl_tasks s t) \<Longrightarrow> queued (update_task t f s) u = queued s u"
  by (simp add: queued_def)

lemma only_requests_tasks:
  assumes "only_requests t s s'"
  shows "only_tasks {t} s s'"
proof -
  note frame = assms [unfolded only_requests_def]
  have "task_dcId (dl_tasks s' u) = task_dcId (dl_tasks s u) \<and> task_loader (dl_tasks s' u) = task_loader (dl_tasks s u)
      \<and> sent_before s (dl_tasks s u) (dl_tasks s' u)" for u
    using frame task_core_simps by (cases "u = t") auto
  then show ?thesis using frame by (simp add: only_tasks_def)
qed

lemma sent_before_trans: "sent_before s x x' \<Longrightarrow> sent_before s' x' x'' \<Longrightarrow> dl_now s' = dl_now s \<Longrightarrow> sent_before s x x''"
  unfolding sent_before_def by metis

lemma only_tasks_trans:
  assumes "only_tasks T s s'" "only_tasks U s' s''"
  shows "only_tasks (T \<union> U) s s''"
  using assms sent_before_trans [of s _ _ s'] unfolding only_tasks_def by simp blast

lemma load_of_same:
  assumes "dl_live s' = dl_live s" "\<And>t. task_dcId (dl_tasks s' t) = task_dcId (dl_tasks s t)"
    and "\<And>t i. task_dcId (dl_tasks s t) = d \<Longrightarrow> sent_in i (dl_tasks s' t) = sent_in i (dl_tasks s t)"
  shows "load_of s' d = load_of s d"
  unfolding load_of_def assms(1,2) using assms(3) by (auto simp: fun_eq_iff intro!: sum.cong)

lemma only_tasks_load:
  assumes "only_tasks T s s'" "\<And>t. t \<in> T \<Longrightarrow> task_dcId (dl_tasks s t) = dc" "d \<noteq> dc"
  shows "load_of s' d = load_of s d"
proof (rule load_of_same)
  show "sent_in i (dl_tasks s' t) = sent_in i (dl_tasks s t)" if "task_dcId (dl_tasks s t) = d" for t i
    using assms that by (cases "t \<in> T") (auto simp: only_tasks_def)
qed (use assms(1) in \<open>simp_all add: only_tasks_def\<close>)

lemma only_tasks_queued: "only_tasks T s s' \<Longrightarrow> queued s' u = queued s u \<and> queue_of dc s' = queue_of dc s"
  by (simp add: only_tasks_def queued_def queue_of_def)

lemma task_removeSession_ok:
  assumes "downloads_ok (removal_boost dc n) s" "t \<in> set (dl_live s)" "queued s t" "dc = task_dcId (dl_tasks s t)"
    and "sessions_count s dc = Suc n" "0 < n" "spread n (load_of s dc) \<le> kMaxParts * kMaxSessionsCount"
  shows "\<exists>s'. task_removeSession n t s = Some s' \<and> downloads_ok (removal_boost dc n) s' \<and> only_tasks {t} s s'
    \<and> spread n (load_of s' dc) \<le> spread n (load_of s dc) \<and> task_cleared n (dl_tasks s' t) \<and> keeps_parts n (dl_tasks s t) (dl_tasks s' t)"
proof -
  define x where "x = dl_tasks s t"
  have task: "task_ok (Suc n) (dl_nextRequest s) True x"
    using downloads_okD(5) [OF assms(1,2)] assms(3,4,5) by (simp add: live_ok_def x_def)
  obtain j where j: "j < n" "chooseSessionIndex dc s = Some j"
    using chooseSessionIndex_ok [OF assms(1,5,6,7)] by blast
  obtain parts where parts: "move_unchecked dc n s (cdnUncheckedParts x) = Some parts" "map fst parts = map fst (cdnUncheckedParts x)"
    "\<forall>(offset, (rd, bytes)) \<in> set parts. rd_sessionIndex rd < n"
    using move_unchecked_ok [OF j(2,1), of "cdnUncheckedParts x"] task_okD(7) [OF task] by blast
  define s1 where "s1 = update_task t (\<lambda>task. task\<lparr>cdnUncheckedParts := parts\<rparr>) s"
  have load1: "load_of s1 = load_of s" by (rule ext, rule load_of_same) (simp_all add: s1_def sent_in_def)
  have x1: "dl_tasks s1 t = x\<lparr>cdnUncheckedParts := parts\<rparr>" by (simp add: s1_def x_def)
  have flat_parts: "flat_map_ok parts" using task_okD(3) [OF task] by (simp add: parts(2))
  have "task_ok (Suc n) (dl_nextRequest s) True (x\<lparr>cdnUncheckedParts := parts\<rparr>)"
    using task_okD(1,2,5,6) [OF task] flat_parts parts(3) by (intro task_okI) auto
  then have ok1: "downloads_ok (removal_boost dc n) s1"
    using downloads_ok_task [OF assms(1,2), of "x\<lparr>cdnUncheckedParts := parts\<rparr>"] assms(3,4,5) unfolding s1_def by (simp add: update_task_def x_def)
  define rs where "rs = map (\<lambda>(requestId, rd). (requestId, rd_offset rd)) (filter (\<lambda>(requestId, rd). rd_sessionIndex rd = n) (sentRequests x))"
  have fst_rs: "map fst rs = map fst (filter (\<lambda>(requestId, rd). rd_sessionIndex rd = n) (sentRequests x))"
    by (simp add: rs_def case_prod_unfold)
  have distinct: "distinct (map fst (sentRequests x))" using flat_map_ok_distinct [OF task_okD(1) [OF task]] .
  have in_rs: "(r, offset) \<in> set rs \<longleftrightarrow> (\<exists>rd. map_of (sentRequests x) r = Some rd \<and> rd_offset rd = offset \<and> rd_sessionIndex rd = n)" for r offset
    using distinct by (force simp: rs_def)
  have "\<exists>s'. redirect_requests t n rs s1 = Some s' \<and> downloads_ok (removal_boost dc n) s' \<and> only_requests t s1 s'
    \<and> fst ` set (requestByOffset (dl_tasks s' t)) \<subseteq> fst ` set (requestByOffset (dl_tasks s1 t))
    \<and> (cdnHashesRequestId (dl_tasks s1 t) \<notin> fst ` set rs \<longrightarrow> fst ` set (requestByOffset (dl_tasks s' t)) = fst ` set (requestByOffset (dl_tasks s1 t)))
    \<and> spread n (load_of s' dc) \<le> spread n (load_of s1 dc) \<and> (\<forall>r rd. map_of (sentRequests (dl_tasks s' t)) r = Some rd \<longrightarrow> rd_sessionIndex rd < n)"
  proof (rule redirect_requests_ok [OF ok1])
    show "distinct (map fst rs)" unfolding fst_rs using distinct by (rule distinct_map_filter)
    show "\<exists>rd. map_of (sentRequests (dl_tasks s1 t)) r = Some rd \<and> rd_offset rd = offset \<and> rd_sessionIndex rd = n" if "(r, offset) \<in> set rs" for r offset
      using that in_rs by (auto simp: x1)
    show "r \<in> fst ` set rs" if "map_of (sentRequests (dl_tasks s1 t)) r = Some rd" "rd_sessionIndex rd = n" for r rd
      using that in_rs [of r "rd_offset rd"] by (force simp: x1)
    show "queued s1 t" using assms(3) by (simp add: s1_def)
    show "spread n (load_of s1 dc) \<le> kMaxParts * kMaxSessionsCount" using assms(7) load1 by simp
  qed (use assms in \<open>simp_all add: s1_def\<close>)
  then obtain s' where s': "redirect_requests t n rs s1 = Some s'" "downloads_ok (removal_boost dc n) s'" "only_requests t s1 s'"
    "fst ` set (requestByOffset (dl_tasks s' t)) \<subseteq> fst ` set (requestByOffset x)"
    "cdnHashesRequestId x \<notin> fst ` set rs \<Longrightarrow> fst ` set (requestByOffset (dl_tasks s' t)) = fst ` set (requestByOffset x)"
    "spread n (load_of s' dc) \<le> spread n (load_of s1 dc)" "\<And>r rd. map_of (sentRequests (dl_tasks s' t)) r = Some rd \<Longrightarrow> rd_sessionIndex rd < n"
    unfolding x1 by auto
  have same_parts: "cdnUncheckedParts (dl_tasks s' t) = parts"
    using s'(3) task_core_simps x1 unfolding only_requests_def by fastforce
  have "t \<in> set (dl_live s')" using s'(3) assms(2) by (simp add: only_requests_def s1_def)
  then have "distinct (map fst (sentRequests (dl_tasks s' t)))"
    using downloads_okD(5) [OF s'(2)] flat_map_ok_distinct task_okD(1) unfolding live_ok_def by blast
  then have "task_cleared n (dl_tasks s' t)"
    using s'(7) parts(3) unfolding task_cleared_def same_parts by (auto intro: map_of_is_SomeI)
  moreover have "keeps_parts n x (dl_tasks s' t)"
  proof -
    have "haveSentRequestForOffset (dl_tasks s' t) offset \<longleftrightarrow> haveSentRequestForOffset x offset" if "cdnHashesRequestId x \<notin> fst ` set rs" for offset
      unfolding haveSentRequestForOffset_def same_parts s'(5) [OF that] using arg_cong [OF parts(2), of set] by (simp flip: set_map)
    moreover have "haveSentRequestForOffset x offset" if "haveSentRequestForOffset (dl_tasks s' t) offset" for offset
      using that s'(4) arg_cong [OF parts(2), of set] unfolding haveSentRequestForOffset_def same_parts by (auto simp flip: set_map)
    moreover have "cdnHashesRequestId x \<in> fst ` set rs \<Longrightarrow> \<exists>rd. map_of (sentRequests x) (cdnHashesRequestId x) = Some rd \<and> rd_sessionIndex rd = n"
      using in_rs by force
    ultimately show ?thesis unfolding keeps_parts_def by blast
  qed
  moreover have "only_tasks {t} s s'"
  proof -
    have "only_tasks {t} s s1" by (simp add: only_tasks_def s1_def sent_before_def)
    then show ?thesis using only_tasks_trans [OF _ only_requests_tasks [OF s'(3)]] by force
  qed
  ultimately show ?thesis
    using s' parts(1) assms(4) by (intro exI [of _ s']) (simp add: task_removeSession_def Let_def x_def rs_def load1 flip: s1_def)
qed

section \<open>All tasks of the queue\<close>

lemma remove_from_tasks_ok:
  assumes "downloads_ok (removal_boost dc n) s" "\<And>t. t \<in> set ts \<Longrightarrow> t \<in> set (dl_live s) \<and> queued s t \<and> task_dcId (dl_tasks s t) = dc"
    and "distinct ts" "sessions_count s dc = Suc n" "0 < n" "spread n (load_of s dc) \<le> kMaxParts * kMaxSessionsCount"
  shows "\<exists>s'. remove_from_tasks n ts s = Some s' \<and> downloads_ok (removal_boost dc n) s' \<and> only_tasks (set ts) s s' \<and> spread n (load_of s' dc) \<le> spread n (load_of s dc)
    \<and> (\<forall>t \<in> set ts. task_cleared n (dl_tasks s' t) \<and> keeps_parts n (dl_tasks s t) (dl_tasks s' t))"
  using assms
proof (induction ts arbitrary: s)
  case Nil
  then show ?case by (simp add: only_tasks_def)
next
  case (Cons t ts)
  obtain s1 where s1: "task_removeSession n t s = Some s1" "downloads_ok (removal_boost dc n) s1" "only_tasks {t} s s1"
    "spread n (load_of s1 dc) \<le> spread n (load_of s dc)" "task_cleared n (dl_tasks s1 t)" "keeps_parts n (dl_tasks s t) (dl_tasks s1 t)"
    using task_removeSession_ok [OF Cons.prems(1), of t] Cons.prems(2) [of t] Cons.prems(4-6) by auto
  note frame1 = s1(3) [unfolded only_tasks_def]
  have same: "dl_tasks s1 u = dl_tasks s u" if "u \<in> set ts" for u using frame1 that Cons.prems(3) by auto
  have live1: "u \<in> set (dl_live s1) \<and> queued s1 u \<and> task_dcId (dl_tasks s1 u) = dc" if "u \<in> set ts" for u
    using Cons.prems(2) [of u] that frame1 only_tasks_queued [OF s1(3)] by simp
  have "distinct ts" "sessions_count s1 dc = Suc n" "spread n (load_of s1 dc) \<le> kMaxParts * kMaxSessionsCount"
    using Cons.prems(3,4,6) frame1 s1(4) by simp_all
  then obtain s2 where s2: "remove_from_tasks n ts s1 = Some s2" "downloads_ok (removal_boost dc n) s2" "only_tasks (set ts) s1 s2"
    "spread n (load_of s2 dc) \<le> spread n (load_of s1 dc)" "\<forall>u \<in> set ts. task_cleared n (dl_tasks s2 u) \<and> keeps_parts n (dl_tasks s1 u) (dl_tasks s2 u)"
    using Cons.IH [OF s1(2) live1 _ _ Cons.prems(5)] by blast
  have "dl_tasks s2 t = dl_tasks s1 t" using s2(3) Cons.prems(3) by (simp add: only_tasks_def)
  then have "\<forall>u \<in> set (t # ts). task_cleared n (dl_tasks s2 u) \<and> keeps_parts n (dl_tasks s u) (dl_tasks s2 u)"
    using s2(5) s1(5,6) same by simp
  moreover have "only_tasks (set (t # ts)) s s2" using only_tasks_trans [OF s1(3) s2(3)] by simp
  ultimately show ?case using s1(1,4) s2(1,2,4) by (intro exI [of _ s2]) simp
qed

lemma put_queue_ok:
  assumes "downloads_ok boost s"
  shows "downloads_ok boost (put_queue dc (queue_of dc s) s)"
proof -
  let ?s = "put_queue dc (queue_of dc s) s"
  have same: "balanceData ?s = balanceData s" "killSessionsWhen ?s = killSessionsWhen s" "dl_live ?s = dl_live s" "dl_nextRequest ?s = dl_nextRequest s"
    "dl_tasks ?s = dl_tasks s" "load_of ?s = load_of s" "sessions_count ?s = sessions_count s"
    by (simp_all add: put_queue_def load_of_def sessions_count_def fun_eq_iff cong: if_cong)
  have queue: "queue_of d ?s = queue_of d s" for d by (simp add: put_queue_def queue_of_def map_of_flat_put)
  have live: "live_ok ?s t \<longleftrightarrow> live_ok s t" for t by (simp add: live_ok_def queued_def same queue)
  have flat: "flat_map_ok (queues ?s)" using downloads_okD(3) [OF assms] by (simp add: put_queue_def flat_map_ok_put)
  show ?thesis
    by (rule downloads_okI) (simp_all only: same queue live flat downloads_okD [OF assms])
qed

lemma put_queue_simps [simp]:
  "balanceData (put_queue dc q s) = balanceData s" "killSessionsWhen (put_queue dc q s) = killSessionsWhen s" "dl_live (put_queue dc q s) = dl_live s"
  "dl_nextRequest (put_queue dc q s) = dl_nextRequest s" "dl_tasks (put_queue dc q s) = dl_tasks s" "dl_now (put_queue dc q s) = dl_now s"
  "balance_of d (put_queue dc q s) = balance_of d s" "balances (put_queue dc q s) = balances s"
  "sessions_count (put_queue dc q s) d = sessions_count s d" "load_of (put_queue dc q s) d i = load_of s d i"
  "queue_of d (put_queue dc q s) = (if d = dc then q else queue_of d s)"
  by (simp_all add: put_queue_def balance_of_def balances_def fun_eq_iff sessions_count_def load_of_def queue_of_def map_of_flat_put cong: if_cong)

lemma put_balance_simps [simp]:
  "queues (put_balance dc b s) = queues s" "killSessionsWhen (put_balance dc b s) = killSessionsWhen s" "dl_live (put_balance dc b s) = dl_live s"
  "dl_nextRequest (put_balance dc b s) = dl_nextRequest s" "dl_tasks (put_balance dc b s) = dl_tasks s" "dl_now (put_balance dc b s) = dl_now s"
  "queue_of d (put_balance dc b s) = queue_of d s" "queued (put_balance dc b s) t = queued s t" "load_of (put_balance dc b s) d i = load_of s d i"
  "balance_of d (put_balance dc b s) = (if d = dc then b else balance_of d s)"
  "balances (put_balance dc b s) d = (if d = dc then Some (balance_core b) else balances s d)"
  "sessions_count (put_balance dc b s) d = (if d = dc then length (sessions b) else sessions_count s d)"
  by (simp_all add: put_balance_def balance_of_def balances_def sessions_count_def load_of_def queue_of_def queued_def map_of_flat_put cong: if_cong)

section \<open>The whole session\<close>

lemma load_cleared:
  assumes "downloads_ok boost s" "\<And>t. t \<in> fst ` set (queue_of dc s) \<Longrightarrow> task_cleared n (dl_tasks s t)"
  shows "load_of s dc n = 0"
    and "t \<in> set (dl_live s) \<Longrightarrow> task_dcId (dl_tasks s t) = dc \<Longrightarrow> task_ok n (dl_nextRequest s) (queued s t) (dl_tasks s t)"
proof -
  have cleared: "task_cleared n (dl_tasks s t)" if "t \<in> set (dl_live s)" "task_dcId (dl_tasks s t) = dc" for t
  proof (cases "queued s t")
    case True
    then show ?thesis using assms(2) that(2) by (simp add: queued_def)
  next
    case False
    then have "\<not> haveSentRequests (dl_tasks s t)"
      using downloads_okD(5) [OF assms(1) that(1)] task_okD(4) unfolding live_ok_def by blast
    then show ?thesis by (simp add: haveSentRequests_def task_cleared_def)
  qed
  then have "sent_in n (dl_tasks s t) = 0" if "t \<in> set (dl_live s)" "task_dcId (dl_tasks s t) = dc" for t
    using cleared [OF that] by (auto simp: sent_in_def task_cleared_def filter_empty_conv)
  then show "load_of s dc n = 0" by (simp add: load_of_def)
  show "task_ok n (dl_nextRequest s) (queued s t) (dl_tasks s t)" if "t \<in> set (dl_live s)" "task_dcId (dl_tasks s t) = dc"
  proof -
    note ok = task_okD [OF downloads_okD(5) [OF assms(1) that(1), unfolded live_ok_def]]
    show ?thesis using ok cleared [OF that] unfolding task_cleared_def by (intro task_okI) blast+
  qed
qed

lemma balance_ok_boosted:
  assumes "balance_ok (\<lambda>_. 0) ld b" "length (sessions b) = Suc n"
  shows "balance_ok (removal_boost dc n dc) ld (add_requested n request_cap (count_removal (int n) b))"
    and "length (sessions (add_requested n request_cap (count_removal (int n) b))) = Suc n"
    and "totalRequested (add_requested n request_cap (count_removal (int n) b)) = totalRequested b"
    and "map successes (sessions (add_requested n request_cap (count_removal (int n) b))) = map successes (sessions b)"
    and "timeouts (add_requested n request_cap (count_removal (int n) b)) = timeouts b"
  using assms
  by (auto simp: balance_ok_def add_requested_def count_removal_def removal_boost_def nth_list_update kMaxTrackedSessionRemoves_def session_ok_def
      intro!: nth_equalityI)

lemma balance_core_fields:
  assumes "balance_core b = balance_core c"
  shows "length (sessions b) = length (sessions c)" "map successes (sessions b) = map successes (sessions c)" "timeouts b = timeouts c"
    "map maxWaitedAmount (sessions b) = map maxWaitedAmount (sessions c)" "lastSessionRemove b = lastSessionRemove c"
proof -
  have same: "map (\<lambda>d. d\<lparr>requested := 0\<rparr>) (sessions b) = map (\<lambda>d. d\<lparr>requested := 0\<rparr>) (sessions c)" "timeouts b = timeouts c" "lastSessionRemove b = lastSessionRemove c"
    using assms by (cases b; cases c; simp add: balance_core_def)+
  show "length (sessions b) = length (sessions c)" using same(1) by (rule map_eq_imp_length_eq)
  show "map successes (sessions b) = map successes (sessions c)" using arg_cong [OF same(1), of "map successes"] by (simp add: comp_def)
  show "map maxWaitedAmount (sessions b) = map maxWaitedAmount (sessions c)" using arg_cong [OF same(1), of "map maxWaitedAmount"] by (simp add: comp_def)
  show "timeouts b = timeouts c" "lastSessionRemove b = lastSessionRemove c" using same by simp_all
qed

lemma balance_ok_butlast:
  assumes "balance_ok (removal_boost dc n dc) ld b" "length (sessions b) = Suc n" "0 < n" "ld n = 0"
  shows "balance_ok (\<lambda>_. 0) ld (b\<lparr>sessions := butlast (sessions b), lastSessionRemove := now\<rparr>)"
  using assms by (auto simp: balance_ok_def nth_butlast removal_boost_def kStartSessionsCount_def)

lemma removal_start_ok:
  assumes "downloads_ok (\<lambda>_ _. 0) s" "sessions_count s dc = Suc n"
  shows "downloads_ok (removal_boost dc n) (removal_start dc n s)" "sessions_count (removal_start dc n s) dc = Suc n"
    "load_of (removal_start dc n s) = load_of s" "queue_of d (removal_start dc n s) = queue_of d s"
    "d \<noteq> dc \<Longrightarrow> balances (removal_start dc n s) d = balances s d"
proof -
  define b where "b = balance_of dc s"
  have b: "map_of (balanceData s) dc = Some b" "length (sessions b) = Suc n"
    using assms(2) by (auto simp: b_def sessions_count_def balance_of_def split: option.splits)
  note boosted = balance_ok_boosted [OF downloads_okD(6) [OF assms(1) b(1)] b(2)]
  let ?s = "put_queue dc (queue_of dc s) s"
  have ok1: "downloads_ok (\<lambda>_ _. 0) ?s" by (rule put_queue_ok [OF assms(1)])
  show "downloads_ok (removal_boost dc n) (removal_start dc n s)"
    unfolding removal_start_def b_def [symmetric]
  proof (rule put_balance_ok [OF ok1])
    have "load_of ?s dc = load_of s dc" by (simp add: fun_eq_iff)
    then show "balance_ok (removal_boost dc n dc) (load_of ?s dc) (add_requested n request_cap (count_removal (int n) b))"
      using boosted(1) by simp
    show "removal_boost dc n d = (\<lambda>_. 0)" if "d \<noteq> dc" for d using that by (simp add: removal_boost_def fun_eq_iff)
    show "task_ok (length (sessions (add_requested n request_cap (count_removal (int n) b)))) (dl_nextRequest ?s) (queued ?s t) (dl_tasks ?s t)"
      if "t \<in> set (dl_live ?s)" "task_dcId (dl_tasks ?s t) = dc" for t
      using downloads_okD(5) [OF ok1 that(1)] that(2) assms(2) boosted(2) by (simp add: live_ok_def)
    show "totalRequested (add_requested n request_cap (count_removal (int n) b)) = 0" if "dc \<in> fst ` set (killSessionsWhen ?s)"
      using downloads_okD(9) [OF assms(1) _ b(1)] that boosted(3) by simp
  qed
  show "sessions_count (removal_start dc n s) dc = Suc n" using boosted(2) by (simp add: removal_start_def b_def)
qed (simp_all add: removal_start_def fun_eq_iff)

lemma last_is_nth: "length xs = Suc n \<Longrightarrow> last xs = xs ! n"
  by (cases xs rule: rev_cases) (auto simp: nth_append)

lemma removeSession_ok:
  assumes "downloads_ok (\<lambda>_ _. 0) s" "sessions_count s dc = Suc n" "0 < n" "spread n (load_of s dc) \<le> kMaxParts * kMaxSessionsCount"
    and "map_of (balanceData s) dc = Some b"
  shows "\<exists>s' b'. removeSession dc s = Some s' \<and> downloads_ok (\<lambda>_ _. 0) s' \<and> map_of (balanceData s') dc = Some b' \<and> length (sessions b') = n
    \<and> map successes (sessions b') = butlast (map successes (sessions b)) \<and> lastSessionRemove b' = dl_now s \<and> timeouts b' = timeouts b
    \<and> spread n (load_of s' dc) \<le> spread n (load_of s dc) \<and> load_of s' dc n = 0
    \<and> (\<forall>d. d \<noteq> dc \<longrightarrow> balances s' d = balances s d \<and> load_of s' d = load_of s d)
    \<and> dl_live s' = dl_live s \<and> dl_now s' = dl_now s \<and> queues s' = queues (put_queue dc (queue_of dc s) s)
    \<and> (\<forall>t. task_dcId (dl_tasks s' t) = task_dcId (dl_tasks s t) \<and> task_loader (dl_tasks s' t) = task_loader (dl_tasks s t)
          \<and> sent_before s (dl_tasks s t) (dl_tasks s' t) \<and> (task_dcId (dl_tasks s t) \<noteq> dc \<longrightarrow> dl_tasks s' t = dl_tasks s t)
          \<and> keeps_parts n (dl_tasks s t) (dl_tasks s' t))"
proof -
  have b: "balance_of dc s = b" "length (sessions b) = Suc n" using assms(2,5) by (auto simp: sessions_count_def balance_of_def)
  define s2 where "s2 = removal_start dc n s"
  note start = removal_start_ok [OF assms(1,2), folded s2_def]
  have same2: "dl_tasks s2 = dl_tasks s" "dl_live s2 = dl_live s" "dl_now s2 = dl_now s" "queues s2 = queues (put_queue dc (queue_of dc s) s)"
    "balances s2 dc = Some (balance_core (add_requested n request_cap (count_removal (int n) b)))"
    by (simp_all add: s2_def removal_start_def b(1))
  let ?ts = "map fst (queue_of dc s2)"
  have "t \<in> set (dl_live s2) \<and> queued s2 t \<and> task_dcId (dl_tasks s2 t) = dc" if "t \<in> set ?ts" for t
    using that downloads_okD(8) [OF start(1), of t dc] by (simp add: queued_def)
  moreover have "distinct ?ts" using downloads_okD(7) [OF start(1), of dc] by (simp add: queue_ok_def)
  ultimately obtain s3 where s3: "remove_from_tasks n ?ts s2 = Some s3" "downloads_ok (removal_boost dc n) s3" "only_tasks (set ?ts) s2 s3"
    "spread n (load_of s3 dc) \<le> spread n (load_of s2 dc)"
    "\<forall>t \<in> set ?ts. task_cleared n (dl_tasks s3 t) \<and> keeps_parts n (dl_tasks s2 t) (dl_tasks s3 t)"
    using remove_from_tasks_ok [OF start(1), of ?ts] start(2) assms(3,4) start(3) by auto
  note frame3 = s3(3) [unfolded only_tasks_def]
  define b3 where "b3 = balance_of dc s3"
  have "sessions_count s3 dc = Suc n" using frame3 start(2) by simp
  then have b3: "map_of (balanceData s3) dc = Some b3" "length (sessions b3) = Suc n"
    by (auto simp: b3_def sessions_count_def balance_of_def split: option.splits)
  have core: "balance_core b3 = balance_core (add_requested n request_cap (count_removal (int n) b))"
  proof -
    have "balances s3 dc = Some (balance_core b3)" using b3(1) by (simp add: balances_def)
    then show ?thesis using frame3 same2(5) by simp
  qed
  have queue3: "queue_of d s3 = queue_of d s2" for d using only_tasks_queued [OF s3(3)] by simp
  have all_cleared: "task_cleared n (dl_tasks s3 t)" if "t \<in> fst ` set (queue_of dc s3)" for t
    using s3(5) that by (auto simp: queue3)
  note cleared = load_cleared [OF s3(2) all_cleared]
  have load3: "load_of s3 dc n = 0" by (rule cleared(1))
  have "requested (last (sessions b3)) = request_cap"
    using downloads_okD(6) [OF s3(2) b3(1)] b3(2) load3 by (simp add: balance_ok_def removal_boost_def last_is_nth)
  moreover obtain sh where sh: "downloadDcId dc (int n) = Some sh"
    using sessions_count_le [OF assms(1), of dc] assms(2) by (auto simp: downloadDcId_def kMaxSessionsCount_def kMaxMediaDcCount_def)
  moreover define s' where "s' = put_balance dc (b3\<lparr>sessions := butlast (sessions b3), lastSessionRemove := dl_now s3\<rparr>) (dl_call (KillSession sh) s3)"
  ultimately have "removeSession dc s = Some s'"
    using s3(1) assms(2,3) b
    by (simp add: removeSession_def Let_def s'_def b3_def s2_def removal_start_def count_removal_def request_cap_def kStartSessionsCount_def cong: if_cong)
  moreover have "downloads_ok (\<lambda>_ _. 0) s'"
    unfolding s'_def
  proof (rule put_balance_ok)
    show "downloads_ok (removal_boost dc n) (dl_call (KillSession sh) s3)" using s3(2) by simp
    show "balance_ok (\<lambda>_. 0) (load_of (dl_call (KillSession sh) s3) dc) (b3\<lparr>sessions := butlast (sessions b3), lastSessionRemove := dl_now s3\<rparr>)"
      using balance_ok_butlast [OF downloads_okD(6) [OF s3(2) b3(1)] b3(2) assms(3) load3] by simp
    show "(\<lambda>_. 0) = removal_boost dc n d" if "d \<noteq> dc" for d using that by (simp add: removal_boost_def fun_eq_iff)
  qed (use cleared(2) b3 downloads_okD(9) [OF s3(2) _ b3(1)] in simp_all)
  moreover have others: "balances s' d = balances s d \<and> load_of s' d = load_of s d" if "d \<noteq> dc" for d
    using that start(3,5) frame3 only_tasks_load [OF s3(3), of dc d] downloads_okD(8) [OF start(1), of _ dc] same2(1)
    by (fastforce simp: s'_def fun_eq_iff)
  moreover have "map successes (sessions b3) = map successes (sessions b)"
    using balance_core_fields(2) [OF core] balance_ok_boosted(4) [OF downloads_okD(6) [OF assms(1,5)] b(2)] by simp
  moreover have "timeouts b3 = timeouts b"
    using balance_core_fields(3) [OF core] balance_ok_boosted(5) [OF downloads_okD(6) [OF assms(1,5)] b(2)] by simp
  moreover have "load_of s' = load_of s3" by (simp add: s'_def fun_eq_iff)
  moreover have "task_dcId (dl_tasks s' t) = task_dcId (dl_tasks s t) \<and> task_loader (dl_tasks s' t) = task_loader (dl_tasks s t)
      \<and> sent_before s (dl_tasks s t) (dl_tasks s' t) \<and> (task_dcId (dl_tasks s t) \<noteq> dc \<longrightarrow> dl_tasks s' t = dl_tasks s t)
      \<and> keeps_parts n (dl_tasks s t) (dl_tasks s' t)" for t
  proof -
    have "t \<notin> set ?ts" if "task_dcId (dl_tasks s t) \<noteq> dc" using that downloads_okD(8) [OF start(1), of t dc] same2(1) by force
    then have "dl_tasks s3 t = dl_tasks s t" if "task_dcId (dl_tasks s t) \<noteq> dc" using that frame3 same2(1) by simp
    moreover have "keeps_parts n (dl_tasks s t) (dl_tasks s3 t)"
      using s3(5) frame3 same2(1) by (cases "t \<in> set ?ts") (auto simp: keeps_parts_def)
    moreover have "sent_before s (dl_tasks s t) (dl_tasks s3 t)" using frame3 same2(1,3) by (simp add: sent_before_def)
    ultimately show ?thesis using frame3 same2(1) by (simp add: s'_def)
  qed
  ultimately show ?thesis
    using s3(4) start(3) frame3 same2 b3 load3
    by (intro exI [of _ s'] exI [of _ "b3\<lparr>sessions := butlast (sessions b3), lastSessionRemove := dl_now s3\<rparr>"])
      (simp add: s'_def put_balance_def map_of_flat_put map_butlast)
qed

end
