(* ===== verification/DownloadRooms.thy ===== *)
theory DownloadRooms
  imports DownloadSessions
begin

text \<open>
  The limits of sessions in the download manager (storage/download_manager_mtproto.cpp): what keeps the
  checks of \<open>removeSession\<close> and \<open>chooseSessionIndex\<close> from failing. Only a session with room gets new
  requests, only timely answers count as successes, and a session is added only when all others had some.
\<close>

section \<open>Definitions\<close>

text \<open>
  An answer to some request of this session will count as a success: it was sent after the last session was removed, when
  not more than now is allowed was requested in the session.
\<close>

definition fresh_in :: "'u downloads \<Rightarrow> DcId \<Rightarrow> nat \<Rightarrow> DcBalanceData \<Rightarrow> bool" where
  "fresh_in s dc j b \<longleftrightarrow>
     (\<exists>t \<in> set (dl_live s). task_dcId (dl_tasks s t) = dc
        \<and> (\<exists>e \<in> set (sentRequests (dl_tasks s t)). rd_sessionIndex (snd e) = j \<and> lastSessionRemove b < rd_sent (snd e)
               \<and> rd_requestedInSession (snd e) \<le> maxWaitedAmount (sessions b ! j)))"

definition in_room :: "'u downloads \<Rightarrow> DcId \<Rightarrow> nat \<Rightarrow> DcBalanceData \<Rightarrow> bool" where
  "in_room s dc j b \<longleftrightarrow> kDownloadPartSize * int (load_of s dc j) \<le> maxWaitedAmount (sessions b ! j)"

definition room_ok :: "'u downloads \<Rightarrow> DcId \<Rightarrow> DcBalanceData \<Rightarrow> bool" where
  "room_ok s dc b \<longleftrightarrow>
     (\<Sum>j < length (sessions b). max (load_of s dc j) kMaxParts) \<le> kMaxParts * kMaxSessionsCount
     \<and> (\<forall>j < length (sessions b). 0 < successes (sessions b ! j) \<or> fresh_in s dc j b \<longrightarrow> in_room s dc j b)"

definition rooms_ok :: "'u downloads \<Rightarrow> bool" where
  "rooms_ok s \<longleftrightarrow> (\<forall>dc b. balances s dc = Some b \<longrightarrow> room_ok s dc b)"

definition sent_past :: "'u downloads \<Rightarrow> bool" where
  "sent_past s \<longleftrightarrow> (\<forall>t \<in> set (dl_live s). \<forall>e \<in> set (sentRequests (dl_tasks s t)). rd_sent (snd e) \<le> dl_now s)"

definition books_ok :: "'u downloads \<Rightarrow> bool" where
  "books_ok s \<longleftrightarrow> downloads_ok (\<lambda>_ _. 0) s \<and> rooms_ok s \<and> sent_past s"

text \<open>The same tasks and queues; no part is requested that was not.\<close>

definition tasks_shrink :: "'u downloads \<Rightarrow> 'u downloads \<Rightarrow> bool" where
  "tasks_shrink s s' \<longleftrightarrow>
     dl_live s' = dl_live s \<and> dl_now s' = dl_now s \<and> (\<forall>d. queue_of d s' = queue_of d s)
     \<and> (\<forall>t. task_dcId (dl_tasks s' t) = task_dcId (dl_tasks s t) \<and> task_loader (dl_tasks s' t) = task_loader (dl_tasks s t)
          \<and> (\<forall>offset. haveSentRequestForOffset (dl_tasks s' t) offset \<longrightarrow> haveSentRequestForOffset (dl_tasks s t) offset))"

definition no_successes :: "DcSessionBalanceData list \<Rightarrow> DcSessionBalanceData list" where
  "no_successes = map (\<lambda>d. d\<lparr>successes := 0\<rparr>)"

section \<open>Rooms\<close>

lemma balance_core_simps [simp]:
  "length (sessions (balance_core b)) = length (sessions b)" "lastSessionRemove (balance_core b) = lastSessionRemove b"
  "j < length (sessions b) \<Longrightarrow> successes (sessions (balance_core b) ! j) = successes (sessions b ! j)"
  "j < length (sessions b) \<Longrightarrow> maxWaitedAmount (sessions (balance_core b) ! j) = maxWaitedAmount (sessions b ! j)"
  by (simp_all add: balance_core_def)

lemma in_room_core [simp]: "j < length (sessions b) \<Longrightarrow> in_room s dc j (balance_core b) \<longleftrightarrow> in_room s dc j b"
  by (simp add: in_room_def)

lemma fresh_in_core [simp]: "j < length (sessions b) \<Longrightarrow> fresh_in s dc j (balance_core b) \<longleftrightarrow> fresh_in s dc j b"
  by (simp add: fresh_in_def)

lemma fresh_in_cong:
  "lastSessionRemove b' = lastSessionRemove b \<Longrightarrow> maxWaitedAmount (sessions b' ! j) = maxWaitedAmount (sessions b ! j) \<Longrightarrow> fresh_in s dc j b' \<longleftrightarrow> fresh_in s dc j b"
  by (simp add: fresh_in_def)

lemma room_ok_core [simp]: "room_ok s dc (balance_core b) \<longleftrightarrow> room_ok s dc b"
  by (auto simp: room_ok_def)

lemma rooms_okD: "rooms_ok s \<Longrightarrow> map_of (balanceData s) dc = Some b \<Longrightarrow> room_ok s dc b"
  unfolding rooms_ok_def balances_def by (metis map_option_eq_Some room_ok_core)

lemma room_okD:
  assumes "room_ok s dc b"
  shows "(\<Sum>j < length (sessions b). max (load_of s dc j) kMaxParts) \<le> kMaxParts * kMaxSessionsCount"
    and "j < length (sessions b) \<Longrightarrow> 0 < successes (sessions b ! j) \<or> fresh_in s dc j b \<Longrightarrow> in_room s dc j b"
  using assms unfolding room_ok_def by blast+

lemma room_ok_fewer_successes:
  assumes "room_ok s dc b" "length (sessions b') = length (sessions b)" "lastSessionRemove b' = lastSessionRemove b"
    and "\<And>j. j < length (sessions b) \<Longrightarrow> maxWaitedAmount (sessions b' ! j) = maxWaitedAmount (sessions b ! j) \<and> successes (sessions b' ! j) \<le> successes (sessions b ! j)"
  shows "room_ok s dc b'"
  unfolding room_ok_def
proof (intro conjI allI impI)
  show "in_room s dc j b'" if "j < length (sessions b')" "0 < successes (sessions b' ! j) \<or> fresh_in s dc j b'" for j
  proof -
    note j = assms(4) [of j] that(1) [unfolded assms(2)]
    have "0 < successes (sessions b ! j) \<or> fresh_in s dc j b"
      using j that(2) fresh_in_cong [OF assms(3), of j s dc] by auto
    then have "in_room s dc j b" using room_okD(2) [OF assms(1) j(2)] by blast
    then show ?thesis using j by (simp add: in_room_def)
  qed
qed (use room_okD(1) [OF assms(1)] assms(2) in simp)

lemma in_room_less: "in_room s dc j b \<Longrightarrow> load_of s' dc j \<le> load_of s dc j \<Longrightarrow> maxWaitedAmount (sessions b ! j) \<le> maxWaitedAmount (sessions b' ! j) \<Longrightarrow> in_room s' dc j b'"
  unfolding in_room_def using part_positive by (meson mult_left_mono of_nat_mono order.trans less_imp_le)

text \<open>Fewer requests.\<close>

lemma room_ok_less:
  assumes "room_ok s dc b" "\<And>j. load_of s' dc j \<le> load_of s dc j" "\<And>j. fresh_in s' dc j b \<Longrightarrow> fresh_in s dc j b"
  shows "room_ok s' dc b"
proof -
  have "(\<Sum>j < length (sessions b). max (load_of s' dc j) kMaxParts) \<le> (\<Sum>j < length (sessions b). max (load_of s dc j) kMaxParts)"
    by (intro sum_mono max.mono assms(2) order_refl)
  then show ?thesis
    using assms in_room_less [of s dc _ b s' b] order.trans unfolding room_ok_def by blast
qed

lemma room_ok_place:
  assumes "room_ok s dc b" "i < length (sessions b)" "one_more s s' dc i" "kDownloadPartSize * int (load_of s dc i) + kDownloadPartSize \<le> maxWaitedAmount (sessions b ! i)"
    and "maxWaitedAmount (sessions b ! i) \<le> kMaxWaitedInSession" "\<And>j. j \<noteq> i \<Longrightarrow> fresh_in s' dc j b \<Longrightarrow> fresh_in s dc j b"
  shows "room_ok s' dc b"
proof -
  have load: "load_of s' dc j = load_of s dc j + (if j = i then 1 else 0)" for j using assms(3) by (simp add: one_more_def)
  have "kDownloadPartSize * int (load_of s' dc i) \<le> kDownloadPartSize * int kMaxParts"
    using assms(4,5) by (simp add: load kMaxWaitedInSession_def kMaxParts_def algebra_simps)
  then have "load_of s' dc i \<le> kMaxParts" using part_positive by (simp add: mult_le_cancel_left)
  then have "max (load_of s' dc j) kMaxParts \<le> max (load_of s dc j) kMaxParts" for j using load [of j] by (cases "j = i") auto
  then have "(\<Sum>j < length (sessions b). max (load_of s' dc j) kMaxParts) \<le> (\<Sum>j < length (sessions b). max (load_of s dc j) kMaxParts)"
    by (intro sum_mono)
  then have "(\<Sum>j < length (sessions b). max (load_of s' dc j) kMaxParts) \<le> kMaxParts * kMaxSessionsCount"
    using room_okD(1) [OF assms(1)] by (rule order.trans)
  moreover have own: "in_room s' dc i b" using assms(4) by (simp add: in_room_def load algebra_simps)
  moreover have "in_room s' dc j b" if "j < length (sessions b)" "0 < successes (sessions b ! j) \<or> fresh_in s' dc j b" for j
  proof (cases "j = i")
    case False
    then have "in_room s dc j b" using room_okD(2) [OF assms(1) that(1)] that(2) assms(6) by blast
    then show ?thesis using False by (simp add: in_room_def load)
  qed (simp add: own)
  ultimately show ?thesis unfolding room_ok_def by blast
qed

lemma spread_bound: "(\<Sum>j < Suc n. max (ld j) kMaxParts) \<le> K \<Longrightarrow> spread n ld \<le> K"
  unfolding spread_def by simp

lemma balances_some: "balances s dc = Some b \<longleftrightarrow> (\<exists>c. map_of (balanceData s) dc = Some c \<and> b = balance_core c)"
  by (auto simp: balances_def)

lemma rooms_okI:
  assumes "\<And>dc b. map_of (balanceData s) dc = Some b \<Longrightarrow> room_ok s dc b"
  shows "rooms_ok s"
  using assms by (auto simp: rooms_ok_def balances_some)

lemma fresh_in_same:
  assumes "dl_live s' = dl_live s" "\<And>t. task_dcId (dl_tasks s' t) = task_dcId (dl_tasks s t)"
    and "\<And>t. task_dcId (dl_tasks s t) = d \<Longrightarrow> set (sentRequests (dl_tasks s' t)) \<subseteq> set (sentRequests (dl_tasks s t))"
  shows "fresh_in s' d j c \<Longrightarrow> fresh_in s d j c"
  using assms unfolding fresh_in_def by (metis (no_types) subsetD)

lemma load_beyond:
  assumes "downloads_ok boost s" "sessions_count s dc \<le> i"
  shows "load_of s dc i = 0"
proof -
  have "sent_in i (dl_tasks s t) = 0" if "t \<in> set (dl_live s)" "task_dcId (dl_tasks s t) = dc" for t
    using task_okD(5) [OF downloads_okD(5) [OF assms(1) that(1), unfolded live_ok_def]] that(2) assms(2)
    by (fastforce simp: sent_in_def filter_empty_conv)
  then show ?thesis by (simp add: load_of_def)
qed

lemma task_ok_more_sessions: "task_ok n k q x \<Longrightarrow> n \<le> n' \<Longrightarrow> task_ok n' k q x"
  by (rule task_okI) (auto dest: task_okD intro: less_le_trans)

text \<open>The balance of one data center changes, with as many requested parts, and maybe more sessions.\<close>

lemma rebalance_ok:
  assumes "books_ok s" "map_of (balanceData s) dc = Some b" "map requested (sessions b') = map requested (sessions b) @ replicate k 0"
    and "list_all session_ok (sessions b')" "totalRequested b' = totalRequested b" "0 \<le> timeouts b'" "timeouts b' < kRemoveSessionAfterTimeouts"
    and "0 \<le> sessionRemoveTimes b' \<and> sessionRemoveTimes b' \<le> kMaxTrackedSessionRemoves" "room_ok s dc b'" "length (sessions b) + k \<le> kMaxSessionsCount"
  shows "books_ok (put_balance dc b' s)" "tasks_shrink s (put_balance dc b' s)"
proof -
  have ok: "downloads_ok (\<lambda>_ _. 0) s" "rooms_ok s" "sent_past s" using assms(1) by (simp_all add: books_ok_def)
  have len: "length (sessions b') = length (sessions b) + k" using arg_cong [OF assms(3), of length] by simp
  have count: "sessions_count s dc = length (sessions b)" using assms(2) by (simp add: sessions_count_def)
  note balance = downloads_okD(6) [OF ok(1) assms(2), unfolded balance_ok_def]
  have req: "requested (sessions b' ! i) = kDownloadPartSize * int (load_of s dc i) + 0" if "i < length (sessions b')" for i
  proof -
    have "requested (sessions b' ! i) = (map requested (sessions b) @ replicate k 0) ! i" using that by (simp flip: assms(3))
    then show ?thesis using that len balance load_beyond [OF ok(1), of dc i] count by (simp add: nth_append)
  qed
  have "(\<Sum>i < length (sessions b'). load_of s dc i) = (\<Sum>i < length (sessions b). load_of s dc i)"
    using len count load_beyond [OF ok(1), of dc] by (intro sum.mono_neutral_right) auto
  then have "balance_ok (\<lambda>_. 0) (load_of s dc) b'"
    using balance assms(4-8,10) len req unfolding balance_ok_def by (simp add: list_all_length del: of_nat_sum)
  then have "downloads_ok (\<lambda>_ _. 0) (put_balance dc b' s)"
  proof (rule put_balance_ok [OF ok(1)])
    show "task_ok (length (sessions b')) (dl_nextRequest s) (queued s t) (dl_tasks s t)"
      if "t \<in> set (dl_live s)" "task_dcId (dl_tasks s t) = dc" for t
      using task_ok_more_sessions [OF downloads_okD(5) [OF ok(1) that(1), unfolded live_ok_def], of "length (sessions b')"] that(2) len count by simp
  qed (use downloads_okD(9) [OF ok(1) _ assms(2)] assms(5) in simp_all)
  moreover have same: "load_of (put_balance dc b' s) = load_of s" "fresh_in (put_balance dc b' s) d j c = fresh_in s d j c" for d j c
    by (simp_all add: fresh_in_def fun_eq_iff)
  have "room_ok (put_balance dc b' s) d c \<longleftrightarrow> room_ok s d c" for d c by (simp add: room_ok_def in_room_def same)
  then have "rooms_ok (put_balance dc b' s)"
    using ok(2) assms(9) unfolding rooms_ok_def by (metis put_balance_simps(11) option.inject room_ok_core)
  moreover have "sent_past (put_balance dc b' s)" using ok(3) by (simp add: sent_past_def)
  ultimately show "books_ok (put_balance dc b' s)" by (simp add: books_ok_def)
qed (simp add: tasks_shrink_def)

section \<open>Timeouts\<close>

lemma tasks_shrink_trans: "tasks_shrink s s' \<Longrightarrow> tasks_shrink s' s'' \<Longrightarrow> tasks_shrink s s''"
  by (simp add: tasks_shrink_def)

lemma tasks_shrink_refl [simp]: "tasks_shrink s s"
  by (simp add: tasks_shrink_def)

lemma sent_past_before:
  assumes "sent_past s" "dl_live s' = dl_live s" "dl_now s' = dl_now s" "\<And>t. sent_before s (dl_tasks s t) (dl_tasks s' t)"
  shows "sent_past s'"
  using assms unfolding sent_past_def sent_before_def by fastforce

lemma removeSession_books:
  assumes "books_ok s" "map_of (balanceData s) dc = Some b" "length (sessions b) = Suc n" "0 < n" "\<And>d. d \<in> set (sessions b) \<Longrightarrow> successes d = 0"
  shows "\<exists>s'. removeSession dc s = Some s' \<and> books_ok s' \<and> tasks_shrink s s' \<and> sessions_count s' dc = n"
proof -
  have ok: "downloads_ok (\<lambda>_ _. 0) s" "rooms_ok s" "sent_past s" using assms(1) by (simp_all add: books_ok_def)
  have count: "sessions_count s dc = Suc n" using assms(2,3) by (simp add: sessions_count_def)
  note room = rooms_okD [OF ok(2) assms(2)]
  have spread: "spread n (load_of s dc) \<le> kMaxParts * kMaxSessionsCount"
    using spread_bound room_okD(1) [OF room] unfolding assms(3) by blast
  obtain s' b' where s': "removeSession dc s = Some s'" "downloads_ok (\<lambda>_ _. 0) s'" "map_of (balanceData s') dc = Some b'" "length (sessions b') = n"
    "map successes (sessions b') = butlast (map successes (sessions b))" "lastSessionRemove b' = dl_now s"
    "spread n (load_of s' dc) \<le> spread n (load_of s dc)" "load_of s' dc n = 0"
    "\<And>d. d \<noteq> dc \<Longrightarrow> balances s' d = balances s d \<and> load_of s' d = load_of s d"
    "dl_live s' = dl_live s" "dl_now s' = dl_now s" "queues s' = queues (put_queue dc (queue_of dc s) s)"
    "\<And>t. task_dcId (dl_tasks s' t) = task_dcId (dl_tasks s t) \<and> task_loader (dl_tasks s' t) = task_loader (dl_tasks s t)
          \<and> sent_before s (dl_tasks s t) (dl_tasks s' t) \<and> (task_dcId (dl_tasks s t) \<noteq> dc \<longrightarrow> dl_tasks s' t = dl_tasks s t)
          \<and> keeps_parts n (dl_tasks s t) (dl_tasks s' t)"
    using removeSession_ok [OF ok(1) count assms(4) spread assms(2)] by auto
  have sent: "sent_past s'" using sent_past_before [OF ok(3) s'(10,11)] s'(13) by blast
  have none_fresh: "\<not> fresh_in s' dc j b'" for j
    using sent s'(6,11) by (fastforce simp: fresh_in_def sent_past_def)
  have "set (map successes (sessions b')) \<subseteq> {0}"
    unfolding s'(5) using assms(5) by (auto dest!: in_set_butlastD)
  then have "successes (sessions b' ! j) = 0" if "j < n" for j using that s'(4) by (force simp: subset_iff)
  then have "room_ok s' dc b'"
    using s'(4,6-8) spread none_fresh by (auto simp: room_ok_def spread_def)
  moreover have "room_ok s' d c" if "d \<noteq> dc" "room_ok s d c" for d c
  proof (rule room_ok_less [OF that(2)])
    show "fresh_in s d j c" if "fresh_in s' d j c" for j
      using fresh_in_same [OF s'(10), of d j c] s'(13) that \<open>d \<noteq> dc\<close> by auto
  qed (use s'(9) [OF that(1)] in simp)
  ultimately have "rooms_ok s'"
    using ok(2) s'(3,9) unfolding rooms_ok_def balances_some by (metis balances_some option.inject room_ok_core)
  moreover have "queue_of d s' = queue_of d s" for d using s'(12) put_queue_simps(11) [of d dc "queue_of dc s" s] by (simp add: queue_of_def)
  then have "tasks_shrink s s'" using s'(10,11,13) by (simp add: tasks_shrink_def keeps_parts_def)
  ultimately show ?thesis using s'(1,2,3,4) sent by (intro exI [of _ s']) (simp add: books_ok_def sessions_count_def)
qed

lemma sessionTimedOut_ok:
  assumes "books_ok s"
  shows "\<exists>s'. sessionTimedOut dc index s = Some s' \<and> books_ok s' \<and> tasks_shrink s s'"
proof (cases "\<exists>b. map_of (balanceData s) dc = Some b \<and> index < length (sessions b)")
  case False
  then show ?thesis using assms by (auto simp: sessionTimedOut_def not_less split: option.splits)
next
  case True
  then obtain b where b: "map_of (balanceData s) dc = Some b" "index < length (sessions b)" by blast
  have ok: "downloads_ok (\<lambda>_ _. 0) s" "rooms_ok s" using assms by (simp_all add: books_ok_def)
  note balance = downloads_okD(6) [OF ok(1) b(1), unfolded balance_ok_def]
  define b1 where "b1 = b\<lparr>sessions := map (\<lambda>d. d\<lparr>successes := 0\<rparr>) (sessions b)\<rparr>"
  have cleared: "list_all session_ok (sessions b1)"
    using balance by (simp add: b1_def list_all_length session_ok_def kMaxTrackedSuccesses_def kRetryAddSessionSuccesses_def kMaxTrackedSessionRemoves_def)
  have room: "room_ok s dc (b1\<lparr>timeouts := k\<rparr>)" for k
    by (rule room_ok_fewer_successes [OF rooms_okD [OF ok(2) b(1)]]) (use balance in \<open>simp_all add: b1_def session_ok_def\<close>)
  have books: "books_ok (put_balance dc (b1\<lparr>timeouts := k\<rparr>) s)" "tasks_shrink s (put_balance dc (b1\<lparr>timeouts := k\<rparr>) s)"
    if "0 \<le> k" "k < kRemoveSessionAfterTimeouts" for k
    using rebalance_ok [OF assms b(1), of "b1\<lparr>timeouts := k\<rparr>" 0] cleared room that balance by (simp_all add: b1_def comp_def)
  have same: "b1\<lparr>timeouts := timeouts b\<rparr> = b1" "length (sessions b1) = length (sessions b)" "timeouts b1 = timeouts b" by (simp_all add: b1_def)
  have unfold: "sessionTimedOut dc index s =
      (if length (sessions b) = kStartSessionsCount then Some (put_balance dc b1 s)
       else if timeouts b + 1 < kRemoveSessionAfterTimeouts then Some (put_balance dc (b1\<lparr>timeouts := timeouts b + 1\<rparr>) s)
       else removeSession dc (put_balance dc (b1\<lparr>timeouts := 0\<rparr>) s))"
    using b by (simp add: sessionTimedOut_def Let_def same flip: b1_def)
  consider "length (sessions b) = kStartSessionsCount" | "length (sessions b) \<noteq> kStartSessionsCount" "timeouts b + 1 < kRemoveSessionAfterTimeouts"
    | "length (sessions b) \<noteq> kStartSessionsCount" "\<not> timeouts b + 1 < kRemoveSessionAfterTimeouts" by blast
  then show ?thesis
  proof cases
    case 3
    let ?s = "put_balance dc (b1\<lparr>timeouts := 0\<rparr>) s"
    obtain n where n: "length (sessions b) = Suc n" "0 < n"
      using 3(1) balance by (cases "length (sessions b)") (auto simp: kStartSessionsCount_def)
    have "map_of (balanceData ?s) dc = Some (b1\<lparr>timeouts := 0\<rparr>)" by (simp add: put_balance_def map_of_flat_put)
    moreover have "successes d = 0" if "d \<in> set (sessions (b1\<lparr>timeouts := 0\<rparr>))" for d using that by (auto simp: b1_def)
    moreover have "books_ok ?s" "tasks_shrink s ?s" by (intro books; simp add: kRemoveSessionAfterTimeouts_def)+
    ultimately show ?thesis
      using removeSession_books [of ?s dc "b1\<lparr>timeouts := 0\<rparr>" n] n same(2) 3 tasks_shrink_trans unfolding unfold by fastforce
  qed (use books [of "timeouts b"] books [of "timeouts b + 1"] balance same unfold in auto)
qed

section \<open>Answers in time\<close>

lemma books_ok_call [simp]: "books_ok (dl_call c s) \<longleftrightarrow> books_ok s"
  by (simp add: books_ok_def rooms_ok_def room_ok_def in_room_def fresh_in_def sent_past_def)

lemma tasks_shrink_call [simp]: "tasks_shrink s (dl_call c s)"
  by (simp add: tasks_shrink_def)

lemma session_ok_success: "session_ok d \<Longrightarrow> session_ok (count_success amount d)"
proof -
  assume "session_ok d"
  moreover have "kDownloadPartSize dvd min (maxWaitedAmount d + kDownloadPartSize) kMaxWaitedInSession" if "kDownloadPartSize dvd maxWaitedAmount d"
    using that by (simp add: min_def kMaxWaitedInSession_def)
  ultimately show ?thesis
    using part_positive
    by (auto simp: session_ok_def count_success_def Let_def kStartWaitedInSession_def kMaxWaitedInSession_def
        kMaxTrackedSuccesses_def kRetryAddSessionSuccesses_def kMaxTrackedSessionRemoves_def)
qed

lemma count_success_less: "session_ok d \<Longrightarrow> maxWaitedAmount d \<le> maxWaitedAmount (count_success amount d)"
  using part_positive by (auto simp: session_ok_def count_success_def Let_def)

lemma count_success_requested [simp]: "requested (count_success amount d) = requested d"
  by (simp add: count_success_def Let_def)

lemma session_ok_new: "session_ok new_session"
  by (simp add: session_ok_def new_session_def kStartWaitedInSession_def kMaxWaitedInSession_def kMaxTrackedSuccesses_def
      kRetryAddSessionSuccesses_def kMaxTrackedSessionRemoves_def kDownloadPartSize_def)

lemma add_session_cases:
  assumes "0 \<le> timeouts b"
  obtains k where "add_session now b = b\<lparr>sessions := no_successes (sessions b), timeouts := k\<rparr>" "0 \<le> k" "k \<le> timeouts b"
  | "add_session now b = b\<lparr>sessions := no_successes (sessions b) @ [new_session]\<rparr>" "length (sessions b) \<noteq> kMaxSessionsCount"
proof -
  have same: "b\<lparr>sessions := no_successes (sessions b), timeouts := timeouts b\<rparr> = b\<lparr>sessions := no_successes (sessions b)\<rparr>" by simp
  let ?stay = "length (sessions b) = kMaxSessionsCount
    \<or> lastSessionRemove b \<noteq> 0 \<and> now < lastSessionRemove b + (sessionRemoveTimes b + 1) * kRetryAddSessionTimeout"
  consider "0 < timeouts b" | "timeouts b = 0" ?stay | "timeouts b = 0" "\<not> ?stay" using assms by linarith
  then show thesis
  proof cases
    case 1
    show ?thesis by (rule that(1) [of "timeouts b - 1"]) (use 1 in \<open>simp_all add: add_session_def Let_def no_successes_def\<close>)
  next
    case 2
    then have "add_session now b = b\<lparr>sessions := no_successes (sessions b), timeouts := timeouts b\<rparr>"
      unfolding same by (auto simp: add_session_def Let_def no_successes_def)
    then show ?thesis by (rule that(1)) (use 2 in simp_all)
  next
    case 3
    show ?thesis by (rule that(2)) (use 3 in \<open>auto simp: add_session_def Let_def no_successes_def\<close>)
  qed
qed

lemma no_successes_simps [simp]:
  "length (no_successes ds) = length ds" "map requested (no_successes ds) = map requested ds"
  "j < length ds \<Longrightarrow> successes (no_successes ds ! j) = 0" "j < length ds \<Longrightarrow> maxWaitedAmount (no_successes ds ! j) = maxWaitedAmount (ds ! j)"
  by (simp_all add: no_successes_def comp_def)

lemma session_ok_no_successes: "list_all session_ok ds \<Longrightarrow> list_all session_ok (no_successes ds)"
  by (auto simp: no_successes_def list_all_iff session_ok_def kMaxTrackedSuccesses_def kRetryAddSessionSuccesses_def kMaxTrackedSessionRemoves_def)

lemma room_ok_more:
  assumes "\<And>j. j < length (sessions b) \<Longrightarrow> in_room s dc j b" "list_all session_ok (sessions b)" "length (sessions b) < kMaxSessionsCount"
    and "load_of s dc (length (sessions b)) = 0"
  shows "room_ok s dc (b\<lparr>sessions := no_successes (sessions b) @ [new_session]\<rparr>)"
proof -
  have "load_of s dc j \<le> kMaxParts" if "j < length (sessions b)" for j
  proof -
    have "kDownloadPartSize * int (load_of s dc j) \<le> kDownloadPartSize * int kMaxParts"
      using assms(1) [OF that] assms(2) that by (auto simp: in_room_def list_all_length session_ok_def kMaxWaitedInSession_def kMaxParts_def)
    then show ?thesis using part_positive by (simp add: mult_le_cancel_left)
  qed
  then have "(\<Sum>j < Suc (length (sessions b)). max (load_of s dc j) kMaxParts) = (\<Sum>j < Suc (length (sessions b)). kMaxParts)"
    using assms(4) by (intro sum.cong) (auto simp: less_Suc_eq max_def)
  also have "\<dots> \<le> kMaxParts * kMaxSessionsCount" using assms(3) by (simp add: kMaxParts_def)
  finally show ?thesis
    using assms(1,4) by (auto simp: room_ok_def in_room_def nth_append new_session_def kStartWaitedInSession_def kDownloadPartSize_def less_Suc_eq)
qed

lemma requestSucceeded_ok:
  assumes "books_ok s" "map_of (balanceData s) dc = Some b" "i < length (sessions b)" "lastSessionRemove b < time \<Longrightarrow> amount \<le> maxWaitedAmount (sessions b ! i) \<Longrightarrow> in_room s dc i b"
  shows "\<exists>s'. requestSucceeded dc i amount time s = Some s' \<and> books_ok s' \<and> tasks_shrink s s'"
proof -
  have ok: "downloads_ok (\<lambda>_ _. 0) s" "rooms_ok s" using assms(1) by (simp_all add: books_ok_def)
  note balance = downloads_okD(6) [OF ok(1) assms(2), unfolded balance_ok_def]
  define b1 where "b1 = b\<lparr>sessions := (sessions b)[i := count_success amount (sessions b ! i)]\<rparr>"
  have ok1: "list_all session_ok (sessions b1)"
    unfolding b1_def list_all_iff using balance session_ok_success assms(3)
    by (auto simp: in_set_conv_nth dest!: set_update_subset_insert [THEN subsetD])
  have req1: "map requested (sessions b1) = map requested (sessions b)"
    by (simp add: b1_def map_update) (metis assms(3) list_update_id nth_map)
  have same1: "timeouts b1 = timeouts b" "sessionRemoveTimes b1 = sessionRemoveTimes b" "totalRequested b1 = totalRequested b"
    "lastSessionRemove b1 = lastSessionRemove b" "length (sessions b1) = length (sessions b)" by (simp_all add: b1_def)
  define notEnough where "notEnough = list_ex (\<lambda>d. successes d < (sessionRemoveTimes b1 + 1) * kRetryAddSessionSuccesses) (sessions b1)"
  define b2 where "b2 = (if notEnough then b1 else add_session (dl_now s) b1)"
  have unfold: "requestSucceeded dc i amount time s =
      (if time \<le> lastSessionRemove b \<or> amount > maxWaitedAmount (sessions b ! i) then Some s
       else if dl_now s - time \<ge> kBadRequestDurationThreshold then Some (dl_call (SessionTimedOutLater dc i) s)
       else Some (put_balance dc b2 s))"
    using assms(2,3) by (simp add: requestSucceeded_def Let_def b2_def b1_def notEnough_def)
  have "books_ok (put_balance dc b2 s) \<and> tasks_shrink s (put_balance dc b2 s)"
    if "lastSessionRemove b < time" "amount \<le> maxWaitedAmount (sessions b ! i)"
  proof -
    have room: "in_room s dc j b1" if "j < length (sessions b)" "in_room s dc j b" for j
      using that in_room_less [of s dc j b s b1] balance count_success_less assms(3) by (simp add: b1_def nth_list_update)
    have "in_room s dc j b1" if "j < length (sessions b)" "0 < successes (sessions b1 ! j) \<or> fresh_in s dc j b1" for j
      using that room assms(4) \<open>lastSessionRemove b < time\<close> \<open>amount \<le> maxWaitedAmount (sessions b ! i)\<close> room_okD(2) [OF rooms_okD [OF ok(2) assms(2)]]
      by (cases "j = i") (auto simp: b1_def fresh_in_def)
    then have room1: "room_ok s dc b1"
      using room_okD(1) [OF rooms_okD [OF ok(2) assms(2)]] by (simp add: room_ok_def same1)
    show ?thesis
    proof (cases notEnough)
      case True
      show ?thesis
        using rebalance_ok [OF assms(1,2), of b1 0] req1 ok1 same1 room1 balance True unfolding b2_def by simp
    next
      case False
      have "0 < successes (sessions b1 ! j)" if "j < length (sessions b)" for j
      proof -
        have "sessions b1 ! j \<in> set (sessions b1)" using that same1(5) by simp
        then have "\<not> successes (sessions b1 ! j) < (sessionRemoveTimes b1 + 1) * kRetryAddSessionSuccesses"
          using False unfolding notEnough_def list_ex_iff by blast
        moreover have "0 < (sessionRemoveTimes b1 + 1) * kRetryAddSessionSuccesses"
          using balance same1(2) by (simp add: kRetryAddSessionSuccesses_def)
        ultimately show ?thesis by linarith
      qed
      then have all: "in_room s dc j b1" if "j < length (sessions b1)" for j using room_okD(2) [OF room1] that same1(5) by simp
      have zero: "load_of s dc (length (sessions b1)) = 0"
        using load_beyond [OF ok(1)] assms(2) same1(5) by (simp add: sessions_count_def)
      have "0 \<le> timeouts b1" using balance same1(1) by simp
      then show ?thesis
      proof (cases rule: add_session_cases [of b1 "dl_now s"])
        case (1 k)
        have "room_ok s dc b2"
          by (rule room_ok_fewer_successes [OF room1]) (use 1(1) False ok1 in \<open>simp_all add: b2_def list_all_length session_ok_def\<close>)
        then show ?thesis
          using rebalance_ok [OF assms(1,2), of b2 0] req1 ok1 same1 balance 1 False session_ok_no_successes unfolding b2_def by simp
      next
        case 2
        have "length (sessions b1) < kMaxSessionsCount" using 2(2) balance same1(5) by linarith
        then show ?thesis
          using rebalance_ok [OF assms(1,2), of b2 1] room_ok_more [OF all ok1 _ zero] req1 ok1 same1 balance 2 False
            session_ok_no_successes session_ok_new unfolding b2_def by (simp add: new_session_def)
      qed
    qed
  qed
  then show ?thesis using assms(1) unfolding unfold by auto
qed

end
