(* ===== verification/DownloadSending.thy ===== *)
theory DownloadSending
  imports DownloadRooms
begin

text \<open>
  Finishing, cancelling and sending requests with all books of the download manager in order
  (storage/download_manager_mtproto.cpp), and the contract of a task's loader that
  \<open>checkSendNext\<close> needs. Here it is shown to return.
\<close>

section \<open>Definitions\<close>

definition sent_offsets :: "'u download_task \<Rightarrow> int set" where
  "sent_offsets x = {offset. haveSentRequestForOffset x offset}"

text \<open>How many more parts fit into the sessions of a data center.\<close>

definition free_room :: "'u downloads \<Rightarrow> DcId \<Rightarrow> nat" where
  "free_room s dc = (case balances s dc of None \<Rightarrow> 0
     | Some b \<Rightarrow> (\<Sum>j < length (sessions b). nat (maxWaitedAmount (sessions b ! j) - kDownloadPartSize * int (load_of s dc j))))"

text \<open>The same tasks and queues; the loaders may have given away offsets to request.\<close>

definition tasks_same :: "'u downloads \<Rightarrow> 'u downloads \<Rightarrow> bool" where
  "tasks_same s s' \<longleftrightarrow>
     dl_live s' = dl_live s \<and> dl_now s' = dl_now s \<and> (\<forall>d. queue_of d s' = queue_of d s)
     \<and> (\<forall>t. task_dcId (dl_tasks s' t) = task_dcId (dl_tasks s t))"

text \<open>What \<open>refreshFileReferenceFrom\<close> does with a request that is still there.\<close>

definition resendRequest :: "task_id \<Rightarrow> int \<Rightarrow> 'u downloads \<Rightarrow> 'u downloads option" where
  "resendRequest t requestId s =
     do { (requestData, s) \<leftarrow> finishSentRequest t requestId Redirect s;
          makeRequest t requestData s }"

text \<open>Nothing can be sent to a data center: no session has room, or no task that may ask for a part is ready.\<close>

definition idle :: "'u loader_ops \<Rightarrow> DcId \<Rightarrow> 'u downloads \<Rightarrow> bool" where
  "idle ops dc s \<longleftrightarrow>
     (\<forall>d \<in> set (sessions (balance_of dc s)). maxWaitedAmount d < requested d + kDownloadPartSize)
     \<or> nextTask (\<lambda>t. readyToRequest ops (dl_tasks s t)) (totalRequested (balance_of dc s) > 0) (queue_of dc s) = None"

definition loaders_ok :: "('u \<Rightarrow> int set \<Rightarrow> bool) \<Rightarrow> 'u downloads \<Rightarrow> bool" where
  "loaders_ok I s \<longleftrightarrow> (\<forall>t \<in> set (dl_live s). I (task_loader (dl_tasks s t)) (sent_offsets (dl_tasks s t)))"

definition send_proj :: "DcSessionBalanceData \<Rightarrow> int" where
  "send_proj d = (if requested d < maxWaitedAmount d then requested d else kMaxWaitedInSession)"

section \<open>Fewer requests\<close>

lemma books_okD:
  assumes "books_ok s"
  shows "downloads_ok (\<lambda>_ _. 0) s" "rooms_ok s" "sent_past s"
  using assms by (simp_all add: books_ok_def)

lemma erase_books:
  assumes "books_ok s" "downloads_ok (\<lambda>_ _. 0) s'" "only_requests t s s'" "set (sentRequests (dl_tasks s' t)) \<subseteq> set (sentRequests (dl_tasks s t))"
    and "one_more s' s dc i" "fst ` set (requestByOffset (dl_tasks s' t)) \<subseteq> fst ` set (requestByOffset (dl_tasks s t))"
  shows "books_ok s'" "tasks_shrink s s'"
proof -
  note frame = only_requests_tasks [OF assms(3), unfolded only_tasks_def]
  have sent: "set (sentRequests (dl_tasks s' u)) \<subseteq> set (sentRequests (dl_tasks s u))" for u
    using frame assms(4) by (cases "u = t") auto
  have "fresh_in s' d j c \<Longrightarrow> fresh_in s d j c" for d j c
    using fresh_in_same [of s' s] frame sent by simp
  moreover have "load_of s' d j \<le> load_of s d j" for d j using assms(5) by (simp add: one_more_def)
  ultimately have "room_ok s d c \<Longrightarrow> room_ok s' d c" for d c by (intro room_ok_less [of s d c s'])
  then have "rooms_ok s'" using books_okD(2) [OF assms(1)] frame by (simp add: rooms_ok_def)
  moreover have "sent_past s'" using sent_past_before [OF books_okD(3) [OF assms(1)]] frame by blast
  ultimately show "books_ok s'" using assms(2) by (simp add: books_ok_def)
  have "cdnUncheckedParts (dl_tasks s' t) = cdnUncheckedParts (dl_tasks s t)"
    using assms(3) task_core_simps unfolding only_requests_def by blast
  then have "haveSentRequestForOffset (dl_tasks s' u) offset \<Longrightarrow> haveSentRequestForOffset (dl_tasks s u) offset" for u offset
    using frame assms(6) by (cases "u = t") (auto simp: haveSentRequestForOffset_def)
  then show "tasks_shrink s s'"
    using frame by (simp add: tasks_shrink_def queue_of_def)
qed

lemma cancelRequest_books:
  assumes "books_ok s" "t \<in> set (dl_live s)" "map_of (sentRequests (dl_tasks s t)) r = Some rd"
  shows "\<exists>s'. cancelRequest t r s = Some s' \<and> books_ok s' \<and> tasks_shrink s s'
    \<and> sentRequests (dl_tasks s' t) = flat_erase r (sentRequests (dl_tasks s t))
    \<and> requestByOffset (dl_tasks s' t) = flat_erase (rd_offset rd) (requestByOffset (dl_tasks s t))
    \<and> (\<forall>u. u \<noteq> t \<longrightarrow> dl_tasks s' u = dl_tasks s u)"
proof -
  obtain s' where s': "cancelRequest t r s = Some s'" "downloads_ok (\<lambda>_ _. 0) s'" "only_requests t s s'"
    "sentRequests (dl_tasks s' t) = flat_erase r (sentRequests (dl_tasks s t))"
    "requestByOffset (dl_tasks s' t) = flat_erase (rd_offset rd) (requestByOffset (dl_tasks s t))"
    "one_more s' s (task_dcId (dl_tasks s t)) (rd_sessionIndex rd)"
    using cancelRequest_ok [OF books_okD(1) [OF assms(1)] _ assms(2,3)] by auto
  have "set (sentRequests (dl_tasks s' t)) \<subseteq> set (sentRequests (dl_tasks s t))"
    "fst ` set (requestByOffset (dl_tasks s' t)) \<subseteq> fst ` set (requestByOffset (dl_tasks s t))"
    unfolding s'(4,5) by (auto simp: flat_erase_def)
  then show ?thesis
    using s' erase_books [OF assms(1) s'(2,3) _ s'(6)] by (intro exI [of _ s']) (simp add: only_requests_def)
qed

lemma finishSentRequest_books:
  assumes "books_ok s" "t \<in> set (dl_live s)" "map_of (sentRequests (dl_tasks s t)) r = Some rd"
  shows "\<exists>s'. finishSentRequest t r reason s = Some (rd, s') \<and> books_ok s' \<and> tasks_shrink s s'"
proof -
  let ?dc = "task_dcId (dl_tasks s t)" and ?i = "rd_sessionIndex rd"
  obtain s1 where s1: "\<And>reason. finishSentRequest t r reason s =
        map_option (Pair rd) (if reason = Success then requestSucceeded ?dc ?i (rd_requestedInSession rd) (rd_sent rd) s1 else Some s1)"
    "downloads_ok (\<lambda>_ _. 0) s1" "only_requests t s s1"
    "sentRequests (dl_tasks s1 t) = flat_erase r (sentRequests (dl_tasks s t))"
    "requestByOffset (dl_tasks s1 t) = flat_erase (rd_offset rd) (requestByOffset (dl_tasks s t))"
    "one_more s1 s ?dc ?i"
    using finishSentRequest_ok [OF books_okD(1) [OF assms(1)] _ assms(2,3)] by auto
  have "set (sentRequests (dl_tasks s1 t)) \<subseteq> set (sentRequests (dl_tasks s t))"
    "fst ` set (requestByOffset (dl_tasks s1 t)) \<subseteq> fst ` set (requestByOffset (dl_tasks s t))"
    unfolding s1(4,5) by (auto simp: flat_erase_def)
  then have books1: "books_ok s1" "tasks_shrink s s1"
    using erase_books [OF assms(1) s1(2,3) _ s1(6)] by simp_all
  have entry: "(r, rd) \<in> set (sentRequests (dl_tasks s t))" using map_of_SomeD [OF assms(3)] .
  have "?i < sessions_count s ?dc"
    using task_okD(5) [OF downloads_okD(5) [OF books_okD(1) [OF assms(1)] assms(2), unfolded live_ok_def] entry] by simp
  then obtain b where b: "map_of (balanceData s) ?dc = Some b" "?i < length (sessions b)" using sessions_count_some by blast
  then have "balances s1 ?dc = Some (balance_core b)" using s1(3) by (simp add: only_requests_def balances_def)
  then obtain b1 where b1: "map_of (balanceData s1) ?dc = Some b1" "balance_core b1 = balance_core b" by (auto simp: balances_some)
  have len: "length (sessions b1) = length (sessions b)" using balance_core_fields(1) [OF b1(2)] .
  have "in_room s1 ?dc ?i b1" if "lastSessionRemove b1 < rd_sent rd" "rd_requestedInSession rd \<le> maxWaitedAmount (sessions b1 ! ?i)"
  proof -
    have "maxWaitedAmount (sessions b1 ! ?i) = maxWaitedAmount (sessions b ! ?i)"
      using balance_core_simps(4) [of ?i] b(2) b1(2) len by metis
    then have "fresh_in s ?dc ?i b"
      using assms(2) entry that balance_core_fields(5) [OF b1(2)] by (force simp: fresh_in_def)
    then have "in_room s ?dc ?i b" using room_okD(2) [OF rooms_okD [OF books_okD(2) [OF assms(1)] b(1)] b(2)] by blast
    moreover have "load_of s1 ?dc ?i \<le> load_of s ?dc ?i" using s1(6) by (simp add: one_more_def)
    ultimately show ?thesis
      using in_room_less [of s ?dc ?i b s1 b1] b(2) len balance_core_simps(4) [of ?i] b1(2) by (metis order_refl)
  qed
  then obtain s2 where "requestSucceeded ?dc ?i (rd_requestedInSession rd) (rd_sent rd) s1 = Some s2" "books_ok s2" "tasks_shrink s1 s2"
    using requestSucceeded_ok [OF books1(1) b1(1)] b(2) len by metis
  then show ?thesis using s1(1) books1 tasks_shrink_trans by (cases "reason = Success") auto
qed

lemma no_sent_offsets:
  assumes "books_ok s" "t \<in> set (dl_live s)" "sentRequests (dl_tasks s t) = []"
  shows "requestByOffset (dl_tasks s t) = []"
proof -
  have "False" if "(offset, r) \<in> set (requestByOffset (dl_tasks s t))" for offset r
    using task_okD(6) [OF downloads_okD(5) [OF books_okD(1) [OF assms(1)] assms(2), unfolded live_ok_def] that] assms(3) by simp
  then show ?thesis by (cases "requestByOffset (dl_tasks s t)") auto
qed

lemma cancel_loop_books:
  assumes "books_ok s" "t \<in> set (dl_live s)"
  shows "\<exists>s'. cancel_loop t s = Some s' \<and> books_ok s' \<and> tasks_shrink s s' \<and> sentRequests (dl_tasks s' t) = [] \<and> (\<forall>u. u \<noteq> t \<longrightarrow> dl_tasks s' u = dl_tasks s u)"
  using assms
proof (induction "length (sentRequests (dl_tasks s t))" arbitrary: s rule: less_induct)
  case less
  show ?case
  proof (cases "sentRequests (dl_tasks s t)")
    case Nil
    then show ?thesis using less.prems by (subst cancel_loop.simps) simp
  next
    case (Cons e rest)
    obtain r rd where e: "e = (r, rd)" by (cases e)
    have sent: "map_of (sentRequests (dl_tasks s t)) r = Some rd" using Cons e by simp
    obtain s1 where s1: "cancelRequest t r s = Some s1" "books_ok s1" "tasks_shrink s s1"
      "sentRequests (dl_tasks s1 t) = flat_erase r (sentRequests (dl_tasks s t))" "\<forall>u. u \<noteq> t \<longrightarrow> dl_tasks s1 u = dl_tasks s u"
      using cancelRequest_books [OF less.prems sent] by blast
    have "length (sentRequests (dl_tasks s1 t)) < length (sentRequests (dl_tasks s t))"
      using s1(4) Cons e by (simp add: flat_erase_def le_imp_less_Suc)
    moreover have "t \<in> set (dl_live s1)" using s1(3) less.prems(2) by (simp add: tasks_shrink_def)
    ultimately obtain s2 where "cancel_loop t s1 = Some s2" "books_ok s2" "tasks_shrink s1 s2" "sentRequests (dl_tasks s2 t) = []"
      "\<forall>u. u \<noteq> t \<longrightarrow> dl_tasks s2 u = dl_tasks s1 u"
      using less.hyps [OF _ s1(2)] by blast
    then show ?thesis
      using s1 Cons e tasks_shrink_trans [OF s1(3)] by (subst cancel_loop.simps) simp
  qed
qed

text \<open>Unchecked parts of a CDN are dropped, or the loader changes.\<close>

lemma update_task_books:
  assumes "books_ok s" "sentRequests (f (dl_tasks s t)) = sentRequests (dl_tasks s t)" "requestByOffset (f (dl_tasks s t)) = requestByOffset (dl_tasks s t)"
    and "task_dcId (f (dl_tasks s t)) = task_dcId (dl_tasks s t)" "flat_map_ok (cdnUncheckedParts (dl_tasks s t)) \<Longrightarrow> flat_map_ok (cdnUncheckedParts (f (dl_tasks s t)))"
    and "set (cdnUncheckedParts (f (dl_tasks s t))) \<subseteq> set (cdnUncheckedParts (dl_tasks s t))"
  shows "books_ok (update_task t f s)"
proof -
  note ok = books_okD [OF assms(1)]
  have same: "load_of (update_task t f s) = load_of s"
    using assms(2,4) by (intro ext load_of_same [THEN fun_cong]) (simp_all add: sent_in_def)
  have fresh: "fresh_in (update_task t f s) d j c = fresh_in s d j c" for d j c
    using assms(2,4) by (auto simp: fresh_in_def)
  have "downloads_ok (\<lambda>_ _. 0) (update_task t f s)"
  proof (cases "t \<in> set (dl_live s)")
    case True
    note task = task_okD [OF downloads_okD(5) [OF ok(1) True, unfolded live_ok_def]]
    have "task_ok (sessions_count s (task_dcId (dl_tasks s t))) (dl_nextRequest s) (queued s t) (f (dl_tasks s t))"
    proof (rule task_okI)
      show "queued s t" if "haveSentRequests (f (dl_tasks s t))"
        using that task(4) assms(2,6) by (cases "cdnUncheckedParts (dl_tasks s t)") (auto simp: haveSentRequests_def)
      show "rd_sessionIndex rd < sessions_count s (task_dcId (dl_tasks s t))" if "(offset, (rd, bytes)) \<in> set (cdnUncheckedParts (f (dl_tasks s t)))" for offset rd bytes
        using task(7) subsetD [OF assms(6) that] .
    qed (use task assms in simp_all)
    then show ?thesis
      using downloads_ok_task [OF ok(1) True, of "f (dl_tasks s t)"] assms(2,4) by (simp add: update_task_def)
  next
    case False
    show ?thesis by (rule downloads_ok_cong [OF ok(1)]) (use False assms(2-4) in auto)
  qed
  moreover have "rooms_ok (update_task t f s)"
    using ok(2) by (simp add: rooms_ok_def room_ok_def in_room_def same fresh)
  moreover have "sent_past (update_task t f s)" using ok(3) assms(2) by (simp add: sent_past_def)
  ultimately show ?thesis by (simp add: books_ok_def)
qed

lemma cancelAllRequests_books:
  assumes "books_ok s" "t \<in> set (dl_live s)"
  shows "\<exists>s'. cancelAllRequests t s = Some s' \<and> books_ok s' \<and> tasks_shrink s s' \<and> \<not> haveSentRequests (dl_tasks s' t) \<and> sent_offsets (dl_tasks s' t) = {}
    \<and> (\<forall>u. u \<noteq> t \<longrightarrow> dl_tasks s' u = dl_tasks s u)"
proof -
  obtain s1 where s1: "cancel_loop t s = Some s1" "books_ok s1" "tasks_shrink s s1" "sentRequests (dl_tasks s1 t) = []" "\<forall>u. u \<noteq> t \<longrightarrow> dl_tasks s1 u = dl_tasks s u"
    using cancel_loop_books [OF assms] by blast
  let ?s = "update_task t (\<lambda>task. task\<lparr>cdnUncheckedParts := []\<rparr>) s1"
  have "t \<in> set (dl_live s1)" using s1(3) assms(2) by (simp add: tasks_shrink_def)
  then have none: "requestByOffset (dl_tasks s1 t) = []" by (rule no_sent_offsets [OF s1(2) _ s1(4)])
  have "books_ok ?s" by (rule update_task_books [OF s1(2)]) simp_all
  moreover have "tasks_shrink s ?s" using s1(3) none by (simp add: tasks_shrink_def haveSentRequestForOffset_def)
  ultimately show ?thesis
    using s1 none by (intro exI [of _ ?s]) (simp add: cancelAllRequests_def haveSentRequests_def sent_offsets_def haveSentRequestForOffset_def)
qed

lemma cancelRequestForOffset_books:
  assumes "books_ok s" "t \<in> set (dl_live s)"
  shows "\<exists>s'. cancelRequestForOffset t offset s = Some s' \<and> books_ok s' \<and> tasks_shrink s s' \<and> offset \<notin> sent_offsets (dl_tasks s' t)
    \<and> (\<forall>u. u \<noteq> t \<longrightarrow> dl_tasks s' u = dl_tasks s u)"
proof -
  have "\<exists>s1. (case map_of (requestByOffset (dl_tasks s t)) offset of Some requestId \<Rightarrow> cancelRequest t requestId s | None \<Rightarrow> Some s) = Some s1
    \<and> books_ok s1 \<and> tasks_shrink s s1 \<and> offset \<notin> fst ` set (requestByOffset (dl_tasks s1 t)) \<and> (\<forall>u. u \<noteq> t \<longrightarrow> dl_tasks s1 u = dl_tasks s u)"
  proof (cases "map_of (requestByOffset (dl_tasks s t)) offset")
    case None
    moreover from None have "offset \<notin> fst ` set (requestByOffset (dl_tasks s t))" by (simp only: map_of_eq_None_iff not_False_eq_True)
    ultimately show ?thesis using assms(1) by simp
  next
    case (Some r)
    obtain rd where "map_of (sentRequests (dl_tasks s t)) r = Some rd" "rd_offset rd = offset"
      using task_okD(6) [OF downloads_okD(5) [OF books_okD(1) [OF assms(1)] assms(2), unfolded live_ok_def] map_of_SomeD [OF Some]] by blast
    then show ?thesis using cancelRequest_books [OF assms] Some by (fastforce simp: keys_flat_erase)
  qed
  then obtain s1 where s1: "(case map_of (requestByOffset (dl_tasks s t)) offset of Some requestId \<Rightarrow> cancelRequest t requestId s | None \<Rightarrow> Some s) = Some s1"
    "books_ok s1" "tasks_shrink s s1" "offset \<notin> fst ` set (requestByOffset (dl_tasks s1 t))" "\<forall>u. u \<noteq> t \<longrightarrow> dl_tasks s1 u = dl_tasks s u" by blast
  let ?s = "update_task t (\<lambda>task. task\<lparr>cdnUncheckedParts := flat_erase offset (cdnUncheckedParts task)\<rparr>) s1"
  have "books_ok ?s" by (rule update_task_books [OF s1(2)]) (auto simp: flat_erase_def intro: flat_map_ok_erase [unfolded flat_erase_def])
  moreover have "tasks_shrink s ?s" using s1(3) by (auto simp: tasks_shrink_def haveSentRequestForOffset_def keys_flat_erase)
  ultimately show ?thesis
    using s1 by (intro exI [of _ ?s]) (simp add: cancelRequestForOffset_def sent_offsets_def haveSentRequestForOffset_def keys_flat_erase)
qed

section \<open>One more request\<close>

lemma touch_balance_books:
  assumes "books_ok s"
  shows "books_ok (put_balance dc (balance_of dc s) s)" "tasks_shrink s (put_balance dc (balance_of dc s) s)"
    "map_of (balanceData (put_balance dc (balance_of dc s) s)) dc = Some (balance_of dc s)"
proof -
  note ok = books_okD [OF assms]
  have "books_ok (put_balance dc (balance_of dc s) s)"
  proof (cases "map_of (balanceData s) dc")
    case (Some b)
    note balance = downloads_okD(6) [OF ok(1) Some, unfolded balance_ok_def]
    show ?thesis
      using rebalance_ok(1) [OF assms Some, of b 0] balance rooms_okD [OF ok(2) Some] Some by (simp add: balance_of_def list_all_length)
  next
    case None
    then have count: "sessions_count s dc = 0" by (simp add: sessions_count_def)
    then have load: "load_of s dc i = 0" for i using load_beyond [OF ok(1)] by simp
    have fresh: "\<not> fresh_in s dc j c" for j c
      using task_okD(5) [OF downloads_okD(5) [OF ok(1), unfolded live_ok_def]] count by (fastforce simp: fresh_in_def)
    have "balance_ok (\<lambda>_. 0) (load_of s dc) new_balance"
      using load session_ok_new
      by (simp add: balance_ok_def new_balance_def kStartSessionsCount_def kMaxSessionsCount_def kRemoveSessionAfterTimeouts_def
          kMaxTrackedSessionRemoves_def new_session_def)
    then have "downloads_ok (\<lambda>_ _. 0) (put_balance dc new_balance s)"
      by (rule put_balance_ok [OF ok(1)])
        (use task_ok_more_sessions [OF downloads_okD(5) [OF ok(1), unfolded live_ok_def]] count in \<open>auto simp: new_balance_def\<close>)
    moreover have "room_ok s dc new_balance"
      using load fresh by (simp add: room_ok_def new_balance_def kStartSessionsCount_def kMaxSessionsCount_def kMaxParts_def new_session_def)
    then have "rooms_ok (put_balance dc new_balance s)"
      using ok(2) by (simp add: rooms_ok_def room_ok_def in_room_def fresh_in_def)
    moreover have "sent_past (put_balance dc new_balance s)" using ok(3) by (simp add: sent_past_def)
    ultimately show ?thesis using None by (simp add: books_ok_def balance_of_def)
  qed
  then show "books_ok (put_balance dc (balance_of dc s) s)" .
qed (simp_all add: tasks_shrink_def, simp add: put_balance_def map_of_flat_put)

lemma makeRequest_books:
  assumes "books_ok s" "t \<in> set (dl_live s)" "queued s t" "task_dcId (dl_tasks s t) = dc" "map_of (balanceData s) dc = Some b"
    and "j < length (sessions b)" "requested (sessions b ! j) + kDownloadPartSize \<le> maxWaitedAmount (sessions b ! j)"
    and "offset \<notin> sent_offsets (dl_tasks s t)"
  shows "\<exists>s'. makeRequest t (new_request offset j) s = Some s' \<and> books_ok s' \<and> only_requests t s s'
    \<and> sent_offsets (dl_tasks s' t) = insert offset (sent_offsets (dl_tasks s t)) \<and> free_room s' dc < free_room s dc"
proof -
  note ok = books_okD [OF assms(1)]
  note balance = downloads_okD(6) [OF ok(1) assms(5), unfolded balance_ok_def]
  have "rd_sessionIndex (new_request offset j) < sessions_count s (task_dcId (dl_tasks s t))"
    "rd_offset (new_request offset j) \<notin> fst ` set (requestByOffset (dl_tasks s t))"
    using assms(4-6,8) by (simp_all add: new_request_def sessions_count_def sent_offsets_def haveSentRequestForOffset_def)
  then obtain s' rd' where s': "makeRequest t (new_request offset j) s = Some s'" "downloads_ok (\<lambda>_ _. 0) s'" "only_requests t s s'"
    "rd_sessionIndex rd' = j" "sentRequests (dl_tasks s' t) = flat_emplace (dl_nextRequest s) rd' (sentRequests (dl_tasks s t))"
    "requestByOffset (dl_tasks s' t) = flat_emplace offset (dl_nextRequest s) (requestByOffset (dl_tasks s t))"
    "dl_nextRequest s \<notin> fst ` set (sentRequests (dl_tasks s t))" "one_more s s' dc j"
    using makeRequest_ok [OF ok(1) assms(2,3), of "new_request offset j"] assms(4) by (auto simp: new_request_def)
  note frame = only_requests_tasks [OF s'(3), unfolded only_tasks_def]
  have load: "load_of s' d i = load_of s d i + (if d = dc \<and> i = j then 1 else 0)" for d i using s'(8) by (simp add: one_more_def)
  have req: "requested (sessions b ! j) = kDownloadPartSize * int (load_of s dc j)" "session_ok (sessions b ! j)"
    using balance assms(6) by auto
  have sent: "set (sentRequests (dl_tasks s' t)) = insert (dl_nextRequest s, rd') (set (sentRequests (dl_tasks s t)))"
    unfolding s'(5) using s'(7) by (simp add: set_flat_emplace_new)
  have fresh: "fresh_in s d i c" if now: "fresh_in s' d i c" "\<not> (d = dc \<and> i = j)" for d i c
  proof -
    obtain u e where u: "u \<in> set (dl_live s)" "task_dcId (dl_tasks s u) = d" "e \<in> set (sentRequests (dl_tasks s' u))" "rd_sessionIndex (snd e) = i" "lastSessionRemove c < rd_sent (snd e)"
        "rd_requestedInSession (snd e) \<le> maxWaitedAmount (sessions c ! i)"
      using now(1) frame unfolding fresh_in_def by fastforce
    have "e \<in> set (sentRequests (dl_tasks s u))"
      using u now(2) frame sent assms(4) s'(4) by (cases "u = t") auto
    then show ?thesis using u by (auto simp: fresh_in_def)
  qed
  have "room_ok s' dc b"
    using room_ok_place [OF rooms_okD [OF ok(2) assms(5)] assms(6) s'(8)] assms(7) req fresh by (simp add: session_ok_def)
  moreover have "room_ok s' d c" if "d \<noteq> dc" "room_ok s d c" for d c
    by (rule room_ok_less [OF that(2)]) (use that(1) load fresh in simp_all)
  ultimately have "room_ok s' d c" if "balances s' d = Some c" for d c
    using that ok(2) frame assms(5) by (cases "d = dc") (auto simp: rooms_ok_def balances_some)
  then have "rooms_ok s'" by (simp add: rooms_ok_def)
  moreover have "sent_past s'" using sent_past_before [OF ok(3)] frame by blast
  moreover have "sent_offsets (dl_tasks s' t) = insert offset (sent_offsets (dl_tasks s t))"
  proof -
    have "cdnUncheckedParts (dl_tasks s' t) = cdnUncheckedParts (dl_tasks s t)"
      using s'(3) task_core_simps unfolding only_requests_def by blast
    then show ?thesis unfolding sent_offsets_def haveSentRequestForOffset_def s'(6) set_flat_emplace_keys by auto
  qed
  moreover have "free_room s' dc < free_room s dc"
  proof -
    have "balances s' dc = Some (balance_core b)" "balances s dc = Some (balance_core b)"
      using frame assms(5) by (simp_all add: balances_def)
    moreover have "(\<Sum>i < length (sessions b). nat (maxWaitedAmount (sessions b ! i) - kDownloadPartSize * int (load_of s' dc i)))
        < (\<Sum>i < length (sessions b). nat (maxWaitedAmount (sessions b ! i) - kDownloadPartSize * int (load_of s dc i)))"
    proof (rule sum_strict_mono_ex1)
      show "\<exists>i \<in> {..<length (sessions b)}. nat (maxWaitedAmount (sessions b ! i) - kDownloadPartSize * int (load_of s' dc i))
          < nat (maxWaitedAmount (sessions b ! i) - kDownloadPartSize * int (load_of s dc i))"
        using assms(6,7) req(1) part_positive by (intro bexI [of _ j]) (auto simp: load algebra_simps)
    qed (use part_positive in \<open>auto simp: load algebra_simps\<close>)
    ultimately show ?thesis by (simp add: free_room_def)
  qed
  ultimately show ?thesis using s'(1-3) by (intro exI [of _ s']) (simp add: books_ok_def)
qed

text \<open>
  Sent again, a request may be in a session with more requests than it should have. Then its answer will not
  count as a success.
\<close>

lemma room_ok_resend:
  assumes "room_ok s dc b" "load_of s' dc = load_of s dc" "i < length (sessions b)"
    and "\<And>j. fresh_in s' dc j b \<Longrightarrow> fresh_in s dc j b \<or> j = i \<and> kDownloadPartSize * int (load_of s dc i) \<le> maxWaitedAmount (sessions b ! i)"
  shows "room_ok s' dc b"
proof -
  have "in_room s' dc j b" if "j < length (sessions b)" "0 < successes (sessions b ! j) \<or> fresh_in s' dc j b" for j
    using that(2) assms(4) [of j] room_okD(2) [OF assms(1) that(1)] unfolding in_room_def assms(2) by blast
  then show ?thesis using room_okD(1) [OF assms(1)] unfolding room_ok_def assms(2) by blast
qed

lemma resendRequest_books:
  assumes "books_ok s" "t \<in> set (dl_live s)" "map_of (sentRequests (dl_tasks s t)) r = Some rd"
  shows "\<exists>s'. resendRequest t r s = Some s' \<and> books_ok s' \<and> tasks_shrink s s'"
proof -
  note ok = books_okD [OF assms(1)]
  let ?dc = "task_dcId (dl_tasks s t)" and ?i = "rd_sessionIndex rd"
  note task = task_okD [OF downloads_okD(5) [OF ok(1) assms(2), unfolded live_ok_def]]
  have entry: "(r, rd) \<in> set (sentRequests (dl_tasks s t))" using map_of_SomeD [OF assms(3)] .
  have "haveSentRequests (dl_tasks s t)" using entry by (cases "sentRequests (dl_tasks s t)") (simp_all add: haveSentRequests_def)
  then have queued: "queued s t" by (rule task(4))
  obtain s1 where s1: "finishSentRequest t r Redirect s = Some (rd, s1)" "downloads_ok (\<lambda>_ _. 0) s1" "only_requests t s s1"
    "sentRequests (dl_tasks s1 t) = flat_erase r (sentRequests (dl_tasks s t))"
    "requestByOffset (dl_tasks s1 t) = flat_erase (rd_offset rd) (requestByOffset (dl_tasks s t))"
    "one_more s1 s ?dc ?i"
    using finishSentRequest_ok [OF ok(1) _ assms(2,3)] by auto
  note frame1 = only_requests_tasks [OF s1(3), unfolded only_tasks_def]
  have pre: "t \<in> set (dl_live s1)" "queued s1 t" "?i < sessions_count s1 (task_dcId (dl_tasks s1 t))"
    "rd_offset rd \<notin> fst ` set (requestByOffset (dl_tasks s1 t))"
    using frame1 assms(2) queued task(5) [OF entry] s1(5) by (auto simp: queued_def queue_of_def keys_flat_erase)
  obtain s2 rd' where s2: "makeRequest t rd s1 = Some s2" "downloads_ok (\<lambda>_ _. 0) s2" "only_requests t s1 s2" "rd_sessionIndex rd' = ?i"
    "sentRequests (dl_tasks s2 t) = flat_emplace (dl_nextRequest s1) rd' (sentRequests (dl_tasks s1 t))"
    "requestByOffset (dl_tasks s2 t) = flat_emplace (rd_offset rd) (dl_nextRequest s1) (requestByOffset (dl_tasks s1 t))"
    "dl_nextRequest s1 \<notin> fst ` set (sentRequests (dl_tasks s1 t))" "one_more s1 s2 ?dc ?i"
    "rd_requestedInSession rd' = kDownloadPartSize * int (load_of s2 ?dc ?i)"
    using makeRequest_ok [OF s1(2) pre] frame1 by auto
  note frame = only_requests_tasks [OF only_requests_trans [OF s1(3) s2(3)], unfolded only_tasks_def]
  have load: "load_of s2 = load_of s" using s1(6) s2(8) by (simp add: one_more_def fun_eq_iff)
  have sent: "set (sentRequests (dl_tasks s2 t)) \<subseteq> insert (dl_nextRequest s1, rd') (set (sentRequests (dl_tasks s t)))"
    unfolding s2(5) set_flat_emplace_new [OF s2(7)] unfolding s1(4) by (auto simp: flat_erase_def)
  have fresh: "fresh_in s d j b \<or> d = ?dc \<and> j = ?i \<and> kDownloadPartSize * int (load_of s d j) \<le> maxWaitedAmount (sessions b ! j)"
    if now: "fresh_in s2 d j b" for d j b
  proof -
    obtain u e where u: "u \<in> set (dl_live s)" "task_dcId (dl_tasks s u) = d" "e \<in> set (sentRequests (dl_tasks s2 u))" "rd_sessionIndex (snd e) = j" "lastSessionRemove b < rd_sent (snd e)"
        "rd_requestedInSession (snd e) \<le> maxWaitedAmount (sessions b ! j)"
      using now frame unfolding fresh_in_def by fastforce
    show ?thesis
    proof (cases "u = t \<and> e = (dl_nextRequest s1, rd')")
      case True
      then show ?thesis using u s2(4,9) load by auto
    next
      case False
      then have "e \<in> set (sentRequests (dl_tasks s u))" using u(3) frame sent by (cases "u = t") auto
      then show ?thesis using u by (auto simp: fresh_in_def)
    qed
  qed
  obtain b where b: "map_of (balanceData s) ?dc = Some b" "?i < length (sessions b)" using sessions_count_some task(5) [OF entry] by blast
  have "room_ok s2 ?dc b"
    by (rule room_ok_resend [OF rooms_okD [OF ok(2) b(1)] _ b(2)]) (use load fresh in auto)
  moreover have "room_ok s2 d c" if "d \<noteq> ?dc" "room_ok s d c" for d c
    by (rule room_ok_less [OF that(2)]) (use that(1) load fresh in auto)
  ultimately have "room_ok s2 d c" if "balances s2 d = Some c" for d c
    using that ok(2) frame b(1) by (cases "d = ?dc") (auto simp: rooms_ok_def balances_some)
  then have "rooms_ok s2" by (simp add: rooms_ok_def)
  moreover have "sent_past s2" using sent_past_before [OF ok(3)] frame by blast
  moreover have "tasks_shrink s s2"
  proof -
    have "cdnUncheckedParts (dl_tasks s2 t) = cdnUncheckedParts (dl_tasks s t)"
      using only_requests_trans [OF s1(3) s2(3)] task_core_simps unfolding only_requests_def by blast
    moreover have "rd_offset rd \<in> fst ` set (requestByOffset (dl_tasks s t))"
      using task(5) [OF entry] by (metis map_of_eq_None_iff option.distinct(1))
    ultimately have "haveSentRequestForOffset (dl_tasks s u) offset" if "haveSentRequestForOffset (dl_tasks s2 u) offset" for u offset
      using that frame unfolding haveSentRequestForOffset_def s1(5) s2(6)
      by (cases "u = t") (auto simp: s2(6) s1(5) keys_flat_erase simp del: set_flat_emplace_keys simp: set_flat_emplace_keys)
    then show ?thesis using frame by (simp add: tasks_shrink_def queue_of_def)
  qed
  ultimately show ?thesis using s1(1) s2(1,2) by (intro exI [of _ s2]) (simp add: resendRequest_def books_ok_def)
qed

section \<open>Sending until nothing can be sent\<close>

lemma part_room: "kDownloadPartSize dvd a \<Longrightarrow> kDownloadPartSize dvd b \<Longrightarrow> a < b \<Longrightarrow> a + kDownloadPartSize \<le> b"
  using zdvd_imp_le [of kDownloadPartSize "b - a"] by simp

lemma full_sessions:
  assumes "balance_ok (\<lambda>_. 0) ld b" "\<not> requested (sessions b ! first_min send_proj (sessions b)) + kDownloadPartSize \<le> maxWaitedAmount (sessions b ! first_min send_proj (sessions b))"
    and "d \<in> set (sessions b)"
  shows "maxWaitedAmount d < requested d + kDownloadPartSize"
proof -
  let ?j = "first_min send_proj (sessions b)"
  have nonempty: "sessions b \<noteq> []" using assms(3) by auto
  have parts: "kDownloadPartSize dvd requested (sessions b ! i)" "session_ok (sessions b ! i)" if "i < length (sessions b)" for i
    using assms(1) that by (simp_all add: balance_ok_def)
  have "\<not> requested (sessions b ! ?j) < maxWaitedAmount (sessions b ! ?j)"
    using assms(2) part_room parts [OF first_min_least(1) [OF nonempty]] by (auto simp: session_ok_def)
  then have "kMaxWaitedInSession \<le> send_proj d"
    using first_min_least(2) [OF nonempty assms(3), of send_proj] by (simp add: send_proj_def)
  moreover have "session_ok d" using assms(3) parts by (auto simp: in_set_conv_nth)
  ultimately have "maxWaitedAmount d \<le> requested d" by (auto simp: send_proj_def session_ok_def split: if_splits)
  then show ?thesis using part_positive by simp
qed

lemma free_room_touch:
  "map_of (balanceData s) dc = Some b \<Longrightarrow> free_room (put_balance dc b s) dc = free_room s dc"
  using balances_some [of s dc "balance_core b"] by (simp add: free_room_def)

lemma loaders_ok_frame:
  assumes "loaders_ok I s" "\<And>u K K'. I u K \<Longrightarrow> K' \<subseteq> K \<Longrightarrow> I u K'" "tasks_shrink s s'"
  shows "loaders_ok I s'"
  using assms(1,3) assms(2) unfolding loaders_ok_def tasks_shrink_def sent_offsets_def by (metis (mono_tags, lifting) Collect_mono)

text \<open>
  What the manager relies on: a loader that is ready gives an offset that is not requested yet, and what it
  knows of its requests stays true when some of them end.
\<close>

locale download_loader =
  fixes ops :: "'u loader_ops" and I :: "'u \<Rightarrow> int set \<Rightarrow> bool"
  assumes take_ready: "I (task_loader x) (sent_offsets x) \<Longrightarrow> readyToRequest ops x \<Longrightarrow>
      \<exists>offset u. takeNextRequestOffset ops x = Some (offset, u) \<and> offset \<notin> sent_offsets x \<and> I u (insert offset (sent_offsets x))"
    and fewer: "I u K \<Longrightarrow> K' \<subseteq> K \<Longrightarrow> I u K'"
begin

lemma loadPart_ok:
  assumes "books_ok s" "loaders_ok I s" "t \<in> set (dl_live s)" "queued s t" "task_dcId (dl_tasks s t) = dc" "map_of (balanceData s) dc = Some b"
    and "j < length (sessions b)" "requested (sessions b ! j) + kDownloadPartSize \<le> maxWaitedAmount (sessions b ! j)"
    and "readyToRequest ops (dl_tasks s t)"
  shows "\<exists>s'. loadPart ops t j s = Some s' \<and> books_ok s' \<and> loaders_ok I s' \<and> tasks_same s s' \<and> free_room s' dc < free_room s dc
    \<and> (\<exists>b'. map_of (balanceData s') dc = Some b') \<and> (\<forall>u. u \<noteq> t \<longrightarrow> dl_tasks s' u = dl_tasks s u)"
proof -
  obtain offset u where take: "takeNextRequestOffset ops (dl_tasks s t) = Some (offset, u)" "offset \<notin> sent_offsets (dl_tasks s t)"
    "I u (insert offset (sent_offsets (dl_tasks s t)))"
    using take_ready [OF _ assms(9)] assms(2,3) by (auto simp: loaders_ok_def)
  define s1 where "s1 = update_task t (\<lambda>task. task\<lparr>task_loader := u\<rparr>) s"
  have books1: "books_ok s1" unfolding s1_def by (rule update_task_books [OF assms(1)]) simp_all
  have load1: "load_of s1 = load_of s"
    by (intro ext load_of_same [THEN fun_cong]) (simp_all add: s1_def sent_in_def)
  have offsets1: "sent_offsets (dl_tasks s1 v) = sent_offsets (dl_tasks s v)" for v
    by (simp add: s1_def sent_offsets_def haveSentRequestForOffset_def)
  have pre: "t \<in> set (dl_live s1)" "queued s1 t" "task_dcId (dl_tasks s1 t) = dc" "map_of (balanceData s1) dc = Some b"
    using assms(3-6) by (simp_all add: s1_def)
  have new: "offset \<notin> sent_offsets (dl_tasks s1 t)" using take(2) unfolding offsets1 .
  obtain s' where s': "makeRequest t (new_request offset j) s1 = Some s'" "books_ok s'" "only_requests t s1 s'"
    "sent_offsets (dl_tasks s' t) = insert offset (sent_offsets (dl_tasks s1 t))" "free_room s' dc < free_room s1 dc"
    using makeRequest_books [OF books1 pre assms(7,8) new] by blast
  note frame = only_requests_tasks [OF s'(3), unfolded only_tasks_def]
  have "I (task_loader (dl_tasks s' v)) (sent_offsets (dl_tasks s' v))" if "v \<in> set (dl_live s)" for v
  proof (cases "v = t")
    case True
    moreover have "task_loader (dl_tasks s' t) = u" using frame by (simp add: s1_def)
    ultimately show ?thesis using take(3) s'(4) unfolding offsets1 by simp
  next
    case False
    then have "dl_tasks s' v = dl_tasks s v" using frame by (simp add: s1_def)
    then show ?thesis using assms(2) that by (simp add: loaders_ok_def)
  qed
  then have "loaders_ok I s'" using frame by (simp add: loaders_ok_def s1_def)
  moreover have "free_room s1 dc = free_room s dc" unfolding free_room_def load1 by (simp add: s1_def)
  moreover have "tasks_same s s'" using frame by (simp add: tasks_same_def s1_def queue_of_def)
  moreover have "\<exists>b'. map_of (balanceData s') dc = Some b'"
    using frame assms(6) balances_some by (metis (no_types, lifting) s1_def update_task_simps(10))
  moreover have "dl_tasks s' v = dl_tasks s v" if "v \<noteq> t" for v using frame that by (simp add: s1_def)
  ultimately show ?thesis using s' take(1) by (simp add: loadPart_def s1_def)
qed

lemma trySendNextPart_ok:
  assumes "books_ok s" "loaders_ok I s"
  shows "\<exists>sent s'. trySendNextPart ops dc s = Some (sent, s') \<and> books_ok s' \<and> loaders_ok I s' \<and> tasks_same s s'
    \<and> (\<forall>u. u \<notin> fst ` set (queue_of dc s) \<longrightarrow> dl_tasks s' u = dl_tasks s u)
    \<and> (if sent then free_room (put_balance dc (balance_of dc s') s') dc < free_room (put_balance dc (balance_of dc s) s) dc else idle ops dc s')"
proof -
  define b where "b = balance_of dc s"
  define s1 where "s1 = put_balance dc b s"
  have s1: "books_ok s1" "tasks_shrink s s1" "map_of (balanceData s1) dc = Some b" "dl_tasks s1 = dl_tasks s" "dl_live s1 = dl_live s"
    "queue_of dc s1 = queue_of dc s" "balance_of dc s1 = b"
    using touch_balance_books [OF assms(1), of dc] by (simp_all add: s1_def b_def)
  have loaders1: "loaders_ok I s1" using loaders_ok_frame [OF assms(2) fewer s1(2)] .
  have same1: "tasks_same s s1" by (simp add: tasks_same_def s1_def)
  note balance = downloads_okD(6) [OF books_okD(1) [OF s1(1)] s1(3)]
  have nonempty: "sessions b \<noteq> []" using balance by (auto simp: balance_ok_def kStartSessionsCount_def)
  let ?j = "first_min send_proj (sessions b)"
  let ?room = "requested (sessions b ! ?j) + kDownloadPartSize \<le> maxWaitedAmount (sessions b ! ?j)"
  let ?next = "nextTask (\<lambda>t. readyToRequest ops (dl_tasks s1 t)) (totalRequested b > 0) (queue_of dc s1)"
  have unfold: "trySendNextPart ops dc s = (if ?room then (case ?next of Some t \<Rightarrow> map_option (Pair True) (loadPart ops t ?j s1) | None \<Rightarrow> Some (False, s1)) else Some (False, s1))"
  proof -
    have proj: "(\<lambda>d. if requested d < maxWaitedAmount d then requested d else kMaxWaitedInSession) = send_proj"
      by (simp add: send_proj_def fun_eq_iff)
    show ?thesis
      unfolding trySendNextPart_def Let_def proj b_def [symmetric] s1_def [symmetric] using nonempty by (simp only: if_False)
  qed
  show ?thesis
  proof (cases "?room \<and> ?next \<noteq> None")
    case True
    then obtain t where t: "?next = Some t" by blast
    have "t \<in> fst ` set (queue_of dc s1)" and ready: "readyToRequest ops (dl_tasks s1 t)" using nextTask_Some [OF t] by simp_all
    then have "t \<in> set (dl_live s1)" "task_dcId (dl_tasks s1 t) = dc" "queued s1 t"
      using downloads_okD(8) [OF books_okD(1) [OF s1(1)]] by (auto simp: queued_def)
    then obtain s' b' where s': "loadPart ops t ?j s1 = Some s'" "books_ok s'" "loaders_ok I s'" "tasks_same s1 s'" "free_room s' dc < free_room s1 dc"
      "map_of (balanceData s') dc = Some b'" "\<forall>u. u \<noteq> t \<longrightarrow> dl_tasks s' u = dl_tasks s1 u"
      using loadPart_ok [OF s1(1) loaders1 _ _ _ s1(3) first_min_least(1) [OF nonempty]] True ready by blast
    moreover have "free_room (put_balance dc (balance_of dc s') s') dc < free_room (put_balance dc (balance_of dc s) s) dc"
      using s'(5) free_room_touch [OF s'(6)] balance_of_some [OF s'(6)] by (simp add: s1_def b_def)
    moreover have "tasks_same s s'" using same1 s'(4) by (simp add: tasks_same_def)
    moreover have "dl_tasks s' u = dl_tasks s u" if "u \<notin> fst ` set (queue_of dc s)" for u
      using that s'(7) \<open>t \<in> fst ` set (queue_of dc s1)\<close> s1(4,6) by metis
    ultimately show ?thesis using True t unfolding unfold by auto
  next
    case False
    moreover have "idle ops dc s1"
      using False full_sessions [OF balance] by (auto simp: idle_def s1(7))
    ultimately have "trySendNextPart ops dc s = Some (False, s1)" unfolding unfold by auto
    then show ?thesis using s1(1,4) loaders1 same1 \<open>idle ops dc s1\<close> by auto
  qed
qed

lemma checkSendNext_ok:
  assumes "books_ok s" "loaders_ok I s"
  shows "\<exists>s'. checkSendNext ops dc s = Some s' \<and> books_ok s' \<and> loaders_ok I s' \<and> tasks_same s s' \<and> idle ops dc s'
    \<and> (\<forall>u. u \<notin> fst ` set (queue_of dc s) \<longrightarrow> dl_tasks s' u = dl_tasks s u)"
  using assms
proof (induction "free_room (put_balance dc (balance_of dc s) s) dc" arbitrary: s rule: less_induct)
  case less
  obtain sent s1 where s1: "trySendNextPart ops dc s = Some (sent, s1)" "books_ok s1" "loaders_ok I s1" "tasks_same s s1"
    "\<forall>u. u \<notin> fst ` set (queue_of dc s) \<longrightarrow> dl_tasks s1 u = dl_tasks s u"
    "if sent then free_room (put_balance dc (balance_of dc s1) s1) dc < free_room (put_balance dc (balance_of dc s) s) dc else idle ops dc s1"
    using trySendNextPart_ok [OF less.prems, of dc] by blast
  show ?case
  proof (cases sent)
    case True
    then obtain s2 where "checkSendNext ops dc s1 = Some s2" "books_ok s2" "loaders_ok I s2" "tasks_same s1 s2" "idle ops dc s2"
      "\<forall>u. u \<notin> fst ` set (queue_of dc s1) \<longrightarrow> dl_tasks s2 u = dl_tasks s1 u"
      using less.hyps [OF _ s1(2,3)] s1(6) by auto
    moreover have "tasks_same s s2" using s1(4) \<open>tasks_same s1 s2\<close> by (simp add: tasks_same_def)
    moreover have "queue_of dc s1 = queue_of dc s" using s1(4) by (simp add: tasks_same_def)
    ultimately show ?thesis using True s1(1,5) by (subst checkSendNext.simps) simp
  next
    case False
    then show ?thesis using s1 by (subst checkSendNext.simps) simp
  qed
qed

end

end
