(* ===== verification/DownloadOperations.thy ===== *)
theory DownloadOperations
  imports DownloadSending
begin

text \<open>
  The other operations of the download manager (storage/download_manager_mtproto.cpp) keep its books:
  enqueueing and removing tasks, new generations, stopping idle sessions, new and deleted tasks, passing time.
\<close>

section \<open>Definitions\<close>

text \<open>A task that is constructed, and time that passes.\<close>

definition new_task :: "task_id \<Rightarrow> DcId \<Rightarrow> 'u \<Rightarrow> 'u downloads \<Rightarrow> 'u downloads" where
  "new_task t dc u s = s\<lparr>dl_tasks := (dl_tasks s)(t := \<lparr>task_dcId = dc, sentRequests = [], requestByOffset = [], cdnDcId = 0,
     cdnUncheckedParts = [], cdnHashesRequestId = 0, task_loader = u\<rparr>), dl_live := t # dl_live s\<rparr>"

definition at_time :: "int \<Rightarrow> 'u downloads \<Rightarrow> 'u downloads" where
  "at_time now s = s\<lparr>dl_now := now\<rparr>"

text \<open>The same tasks are there.\<close>

definition same_live :: "'u downloads \<Rightarrow> 'u downloads \<Rightarrow> bool" where
  "same_live s s' \<longleftrightarrow>
     dl_live s' = dl_live s \<and> dl_now s' = dl_now s \<and> (\<forall>t. task_dcId (dl_tasks s' t) = task_dcId (dl_tasks s t))"

section \<open>Queues\<close>

text \<open>States that differ in what the books do not depend on.\<close>

lemma books_ok_cong:
  assumes "books_ok s" "balanceData s' = balanceData s" "killSessionsWhen s' = killSessionsWhen s" "dl_live s' = dl_live s"
    and "dl_nextRequest s' = dl_nextRequest s" "dl_tasks s' = dl_tasks s" "dl_now s \<le> dl_now s'" "flat_map_ok (queues s')"
    and "\<And>dc. queue_ok (queue_of dc s')" "\<And>dc t. t \<in> fst ` set (queue_of dc s') \<Longrightarrow> t \<in> set (dl_live s) \<and> task_dcId (dl_tasks s t) = dc"
    and "\<And>dc t. t \<in> fst ` set (queue_of dc s) \<Longrightarrow> haveSentRequests (dl_tasks s t) \<Longrightarrow> t \<in> fst ` set (queue_of dc s')"
  shows "books_ok s'"
proof -
  note ok = books_okD [OF assms(1)]
  have load: "load_of s' = load_of s" by (simp add: load_of_def fun_eq_iff assms(4,6) cong: if_cong)
  have counts: "sessions_count s' = sessions_count s" by (simp add: fun_eq_iff sessions_count_def assms(2))
  have "live_ok s' t" if "t \<in> set (dl_live s)" for t
  proof -
    note task = task_okD [OF downloads_okD(5) [OF ok(1) that, unfolded live_ok_def]]
    have "queued s' t" if "haveSentRequests (dl_tasks s t)"
      using task(4) [OF that] assms(11) [OF _ that] by (simp add: queued_def assms(6))
    then show ?thesis unfolding live_ok_def counts assms(5,6) using task by (intro task_okI) simp_all
  qed
  then have live: "t \<in> set (dl_live s) \<Longrightarrow> live_ok s' t" for t by blast
  have "downloads_ok (\<lambda>_ _. 0) s'"
  proof (intro downloads_okI)
    show "t \<in> set (dl_live s') \<and> task_dcId (dl_tasks s' t) = dc" if "t \<in> fst ` set (queue_of dc s')" for dc t
      using assms(10) [OF that] by (simp add: assms(4,6))
  qed (use downloads_okD [OF ok(1)] assms(8,9) live in \<open>simp_all add: assms(2-6) load\<close>)
  moreover have "rooms_ok s'"
    using ok(2) by (simp add: rooms_ok_def room_ok_def in_room_def fresh_in_def balances_def load assms(2,4,6))
  moreover have "sent_past s'" using ok(3) assms(7) by (force simp: sent_past_def assms(4,6))
  ultimately show ?thesis by (simp add: books_ok_def)
qed

lemma books_ok_same_queues:
  assumes "books_ok s" "balanceData s' = balanceData s" "killSessionsWhen s' = killSessionsWhen s" "dl_live s' = dl_live s"
    and "dl_nextRequest s' = dl_nextRequest s" "dl_tasks s' = dl_tasks s" "dl_now s \<le> dl_now s'" "queues s' = queues s"
  shows "books_ok s'"
proof -
  have "queue_of dc s' = queue_of dc s" for dc by (simp add: queue_of_def assms(8))
  then show ?thesis using books_ok_cong [OF assms(1-7)] assms(8) downloads_okD(3,7,8) [OF books_okD(1) [OF assms(1)]] by simp
qed

lemma at_time_books: "books_ok s \<Longrightarrow> dl_now s \<le> now \<Longrightarrow> books_ok (at_time now s)"
  by (rule books_ok_same_queues) (simp_all add: at_time_def)

lemma timer_books: "books_ok s \<Longrightarrow> books_ok (s\<lparr>resetGenerationTimer := v\<rparr>)" "books_ok s \<Longrightarrow> books_ok (s\<lparr>killSessionsTimer := w\<rparr>)"
  by (rule books_ok_same_queues; simp)+

lemma keys_insert_task: "fst ` set (insert_task t p ts) = insert t (fst ` set ts)"
proof -
  have "set (takeWhile P xs) \<union> set (dropWhile P xs) = set xs" for P and xs :: Queue
    by (metis set_append takeWhile_dropWhile_id)
  then have "set (insert_task t p ts) = insert (t, p) (set (filter (\<lambda>e. fst e \<noteq> t) ts))"
    unfolding insert_task_def Let_def by (metis (no_types, lifting) Un_insert_right list.simps(15) set_append)
  then show ?thesis by force
qed

lemma put_queue_books:
  assumes "books_ok s" "queue_ok q" "\<And>t. t \<in> fst ` set q \<Longrightarrow> t \<in> set (dl_live s) \<and> task_dcId (dl_tasks s t) = dc"
    and "\<And>t. t \<in> fst ` set (queue_of dc s) \<Longrightarrow> haveSentRequests (dl_tasks s t) \<Longrightarrow> t \<in> fst ` set q"
  shows "books_ok (put_queue dc q s)"
proof -
  note ok = downloads_okD [OF books_okD(1) [OF assms(1)]]
  have "flat_map_ok (queues (put_queue dc q s))" using ok(3) by (simp add: put_queue_def flat_map_ok_put)
  then show ?thesis
  proof (intro books_ok_cong [OF assms(1)])
    show "t \<in> fst ` set (queue_of d (put_queue dc q s))" if "t \<in> fst ` set (queue_of d s)" "haveSentRequests (dl_tasks s t)" for d t
      using that assms(4) [of t] by (cases "d = dc") simp_all
    show "t \<in> set (dl_live s) \<and> task_dcId (dl_tasks s t) = d" if "t \<in> fst ` set (queue_of d (put_queue dc q s))" for d t
      using that assms(3) [of t] ok(8) [of t d] by (cases "d = dc") simp_all
  qed (use ok(7) assms(2) in simp_all)
qed

lemma enqueue_books:
  assumes "books_ok s" "t \<in> set (dl_live s)" "dc = task_dcId (dl_tasks s t)" "-1 \<le> priority"
  shows "books_ok (put_queue dc (queue_enqueue t priority (queue_of dc s)) s)"
proof -
  note ok = downloads_okD [OF books_okD(1) [OF assms(1)]]
  show ?thesis
    unfolding enqueue_insert [OF ok(7)]
    using ok(8) assms by (intro put_queue_books insert_task_ok ok(7)) (auto simp only: keys_insert_task)
qed

lemma remove_books:
  assumes "books_ok s" "\<not> haveSentRequests (dl_tasks s t)"
  shows "books_ok (put_queue dc (queue_remove t (queue_of dc s)) s)"
proof -
  note ok = downloads_okD [OF books_okD(1) [OF assms(1)]]
  have keys: "fst ` set (queue_remove t q) = fst ` set q - {t}" for q by (auto simp: queue_remove_def)
  show ?thesis
    using ok(8) assms by (intro put_queue_books queue_remove_ok ok(7)) (auto simp only: keys Diff_iff)
qed

lemma reset_queues_older:
  "(\<And>q. q \<in> snd ` set qs \<Longrightarrow> queue_ok q) \<Longrightarrow> reset_queues qs = Some (map (\<lambda>(dc, q). (dc, map older q)) qs)"
  by (induction qs rule: reset_queues.induct) (simp_all add: resetGeneration_older)

lemma resetGeneration_books:
  assumes "books_ok s"
  shows "\<exists>s'. dl_resetGeneration s = Some s' \<and> books_ok s' \<and> dl_live s' = dl_live s \<and> dl_tasks s' = dl_tasks s
    \<and> dl_now s' = dl_now s \<and> (\<forall>dc. queue_of dc s' = map older (queue_of dc s))"
proof -
  note ok = downloads_okD [OF books_okD(1) [OF assms(1)]]
  have queues_ok: "queue_ok q" if "q \<in> snd ` set (queues s)" for q
  proof -
    from that obtain dc where "(dc, q) \<in> set (queues s)" by auto
    then have "map_of (queues s) dc = Some q" using flat_map_ok_distinct [OF ok(3)] by simp
    then show ?thesis using ok(7) [of dc] by (simp add: queue_of_def)
  qed
  define s' where "s' = s\<lparr>resetGenerationTimer := None, queues := map (\<lambda>(dc, q). (dc, map older q)) (queues s)\<rparr>"
  have "dl_resetGeneration s = Some s'" using reset_queues_older queues_ok by (simp add: dl_resetGeneration_def s'_def)
  moreover have queue: "queue_of dc s' = map older (queue_of dc s)" for dc
    by (simp add: queue_of_def s'_def map_of_map split: option.splits)
  moreover have "fst ` set (map older q) = fst ` set q" for q by (force simp: older_def image_image)
  ultimately show ?thesis
    using ok(3,7,8) older_ok
    by (intro exI [of _ s'] conjI books_ok_cong [OF assms]) (simp_all add: s'_def comp_def case_prod_unfold)
qed

section \<open>Idle sessions\<close>

lemma no_load_fresh:
  assumes "downloads_ok boost s" "load_of s dc j = 0"
  shows "\<not> fresh_in s dc j b"
proof
  assume "fresh_in s dc j b"
  then obtain t r rd where t: "t \<in> set (dl_live s)" "task_dcId (dl_tasks s t) = dc" "(r, rd) \<in> set (sentRequests (dl_tasks s t))" "rd_sessionIndex rd = j"
    by (auto simp: fresh_in_def)
  then have "map_of (sentRequests (dl_tasks s t)) r = Some rd"
    using flat_map_ok_distinct [OF task_okD(1) [OF downloads_okD(5) [OF assms(1) t(1), unfolded live_ok_def]]] by simp
  then show False using load_positive [OF t(1)] t(2,4) assms(2) by fastforce
qed

lemma stop_sessions_ok:
  "(\<And>d. d \<in> set ds \<Longrightarrow> requested d = 0) \<Longrightarrow> j + length ds \<le> nat kMaxMediaDcCount \<Longrightarrow> \<exists>calls. stop_sessions dc j ds s = Some (s\<lparr>dl_calls := dl_calls s @ calls\<rparr>)"
proof (induction dc j ds s rule: stop_sessions.induct)
  case (2 dc j d ds s)
  have "int j < kMaxMediaDcCount" using 2(3) by (simp add: kMaxMediaDcCount_def)
  then obtain sh where sh: "downloadDcId dc (int j) = Some sh" by (simp add: downloadDcId_def)
  then obtain calls where "stop_sessions dc (Suc j) ds (dl_call (StopSession sh) s) = Some ((dl_call (StopSession sh) s)\<lparr>dl_calls := dl_calls (dl_call (StopSession sh) s) @ calls\<rparr>)"
    using 2 by fastforce
  then show ?case using 2(2) sh by (auto simp: dl_call_def)
qed (auto intro: exI [of _ "[]"])

lemma killSessions_dc_books:
  assumes "books_ok s" "dc \<in> fst ` set (killSessionsWhen s)"
  shows "\<exists>s'. killSessions_dc dc s = Some s' \<and> books_ok s' \<and> tasks_same s s' \<and> dl_tasks s' = dl_tasks s \<and> killSessionsWhen s' = killSessionsWhen s"
proof (cases "map_of (balanceData s) dc")
  case None
  then show ?thesis using assms(1) by (simp add: killSessions_dc_def tasks_same_def)
next
  case (Some b)
  note ok = books_okD [OF assms(1)]
  note balance = downloads_okD(6) [OF ok(1) Some, unfolded balance_ok_def]
  have total: "totalRequested b = 0" using downloads_okD(9) [OF ok(1) assms(2) Some] .
  then have load: "load_of s dc i = 0" if "i < length (sessions b)" for i
    using total_positive [OF downloads_okD(6) [OF ok(1) Some] that] by force
  have idle: "requested d = 0" if "d \<in> set (sessions b)" for d using that balance load by (auto simp: in_set_conv_nth)
  have "0 + length (sessions b) \<le> nat kMaxMediaDcCount" using balance by (simp add: kMaxSessionsCount_def kMaxMediaDcCount_def)
  then obtain calls where stop: "stop_sessions dc 0 (sessions b) s = Some (s\<lparr>dl_calls := dl_calls s @ calls\<rparr>)"
    using stop_sessions_ok [of "sessions b" 0] idle by blast
  define b' where "b' = new_balance\<lparr>sessions := map (\<lambda>_. new_session) (sessions b)\<rparr>"
  have "room_ok s dc b'"
    using load no_load_fresh [OF ok(1)] balance
    by (auto simp: room_ok_def b'_def new_session_def kMaxParts_def)
  moreover have "map requested (sessions b') = map requested (sessions b)" using idle by (simp add: b'_def new_session_def)
  ultimately have "books_ok (put_balance dc b' s)"
    using total balance session_ok_new
    by (intro rebalance_ok(1) [OF assms(1) Some, of b' 0])
      (simp_all add: b'_def list_all_iff new_balance_def kRemoveSessionAfterTimeouts_def kMaxTrackedSessionRemoves_def)
  then have "books_ok (put_balance dc b' (s\<lparr>dl_calls := dl_calls s @ calls\<rparr>))"
    by (rule books_ok_same_queues) (simp_all add: put_balance_def)
  then show ?thesis
    using stop Some total by (simp add: killSessions_dc_def tasks_same_def queue_of_def flip: b'_def)
qed

lemma kill_loop_books:
  assumes "books_ok s" "fst ` set ws \<subseteq> fst ` set (killSessionsWhen s)" "flat_map_ok ws"
  shows "\<exists>ws' left' s'. kill_loop left ws s = Some (ws', left', s') \<and> books_ok s' \<and> tasks_same s s' \<and> dl_tasks s' = dl_tasks s
    \<and> killSessionsWhen s' = killSessionsWhen s \<and> set ws' = {w \<in> set ws. dl_now s < snd w} \<and> flat_map_ok ws'"
  using assms
proof (induction ws arbitrary: left s)
  case Nil
  then show ?case by (simp add: tasks_same_def)
next
  case (Cons w ws)
  obtain dc time where w: "w = (dc, time)" by (cases w)
  have rest: "fst ` set ws \<subseteq> fst ` set (killSessionsWhen s)" "flat_map_ok ws" "dc \<in> fst ` set (killSessionsWhen s)"
    using Cons.prems(2,3) w by (simp_all add: flat_map_ok_Cons)
  show ?case
  proof (cases "time \<le> dl_now s")
    case True
    obtain s1 where s1: "killSessions_dc dc s = Some s1" "books_ok s1" "tasks_same s s1" "dl_tasks s1 = dl_tasks s" "killSessionsWhen s1 = killSessionsWhen s"
      using killSessions_dc_books [OF Cons.prems(1) rest(3)] by blast
    have sub: "fst ` set ws \<subseteq> fst ` set (killSessionsWhen s1)" using rest(1) s1(5) by simp
    have now: "dl_now s1 = dl_now s" using s1(3) by (simp add: tasks_same_def)
    obtain ws' left' s2 where s2: "kill_loop left ws s1 = Some (ws', left', s2)" "books_ok s2" "tasks_same s1 s2" "dl_tasks s2 = dl_tasks s1"
      "killSessionsWhen s2 = killSessionsWhen s1" "set ws' = {w \<in> set ws. dl_now s1 < snd w}" "flat_map_ok ws'"
      using Cons.IH [OF s1(2) sub rest(2), of left] by (elim exE conjE)
    have loop: "kill_loop left (w # ws) s = Some (ws', left', s2)" using True s1(1) s2(1) w by simp
    have "set ws' = {v \<in> set (w # ws). dl_now s < snd v}" unfolding s2(6) now w using True by auto
    moreover have "tasks_same s s2" using s1(3) s2(3) by (simp add: tasks_same_def)
    ultimately show ?thesis
      using loop s2(2,7) trans [OF s2(4) s1(4)] trans [OF s2(5) s1(5)] by (intro exI conjI)
  next
    case False
    obtain ws' left' s2 where s2: "kill_loop (if time - dl_now s < left then time - dl_now s else left) ws s = Some (ws', left', s2)" "books_ok s2" "tasks_same s s2"
      "dl_tasks s2 = dl_tasks s" "killSessionsWhen s2 = killSessionsWhen s" "set ws' = {w \<in> set ws. dl_now s < snd w}" "flat_map_ok ws'"
      using Cons.IH [OF Cons.prems(1) rest(1,2)] by blast
    have "flat_map_ok ((dc, time) # ws')" using s2(6,7) Cons.prems(3) w by (auto simp: flat_map_ok_Cons)
    moreover have "set ((dc, time) # ws') = {v \<in> set (w # ws). dl_now s < snd v}" unfolding list.set(2) s2(6) w using False by auto
    ultimately show ?thesis using False s2 w by (simp add: Let_def del: list.set)
  qed
qed

lemma fewer_kills_books:
  assumes "books_ok s" "flat_map_ok ws" "fst ` set ws \<subseteq> fst ` set (killSessionsWhen s)"
  shows "books_ok (s\<lparr>killSessionsWhen := ws\<rparr>)"
proof -
  let ?s = "s\<lparr>killSessionsWhen := ws\<rparr>"
  note ok = books_okD [OF assms(1)]
  have same: "queue_of dc ?s = queue_of dc s" "load_of ?s = load_of s" "sessions_count ?s = sessions_count s" "balances ?s = balances s" for dc
    by (simp_all add: queue_of_def load_of_def sessions_count_def balances_def fun_eq_iff cong: if_cong)
  have "downloads_ok (\<lambda>_ _. 0) ?s"
  proof (intro downloads_okI)
    show "live_ok ?s t" if "t \<in> set (dl_live ?s)" for t
      using downloads_okD(5) [OF ok(1), of t] that by (simp add: live_ok_def queued_def same)
    show "totalRequested b = 0" if "dc \<in> fst ` set (killSessionsWhen ?s)" "map_of (balanceData ?s) dc = Some b" for dc b
      using downloads_okD(9) [OF ok(1), of dc b] that assms(3) by auto
    show "t \<in> set (dl_live ?s) \<and> task_dcId (dl_tasks ?s t) = dc" if "t \<in> fst ` set (queue_of dc ?s)" for dc t
      using downloads_okD(8) [OF ok(1), of t dc] that by (simp add: same)
  qed (use downloads_okD(1-4,6,7) [OF ok(1)] assms(2) in \<open>simp_all add: same\<close>)
  moreover have "rooms_ok ?s" "sent_past ?s"
    using ok(2,3) by (simp_all add: rooms_ok_def room_ok_def in_room_def fresh_in_def sent_past_def same)
  ultimately show ?thesis by (simp add: books_ok_def)
qed

lemma kill_books:
  assumes "books_ok s"
  shows "\<exists>s'. killSessions s = Some s' \<and> books_ok s' \<and> tasks_same s s' \<and> dl_tasks s' = dl_tasks s"
proof -
  let ?s = "s\<lparr>killSessionsTimer := None\<rparr>"
  have "books_ok ?s" using timer_books(2) [OF assms] .
  then obtain ws left s1 where s1: "kill_loop kKillSessionTimeout (killSessionsWhen s) ?s = Some (ws, left, s1)" "books_ok s1" "tasks_same ?s s1" "dl_tasks s1 = dl_tasks s"
    "killSessionsWhen s1 = killSessionsWhen s" "set ws = {w \<in> set (killSessionsWhen s). dl_now s < snd w}" "flat_map_ok ws"
    using kill_loop_books [of ?s "killSessionsWhen s" kKillSessionTimeout] downloads_okD(4) [OF books_okD(1) [OF assms]] by auto
  define s2 where "s2 = s1\<lparr>killSessionsWhen := ws\<rparr>"
  have "fst ` set ws \<subseteq> fst ` set (killSessionsWhen s1)" using s1(5,6) by auto
  then have "books_ok s2" unfolding s2_def by (rule fewer_kills_books [OF s1(2,7)])
  moreover have "tasks_same s s2" "dl_tasks s2 = dl_tasks s" using s1(3,4) by (simp_all add: tasks_same_def s2_def queue_of_def)
  ultimately show ?thesis
    using s1(1) timer_books(2) [of s2 "Some left"]
    by (cases "ws = []") (auto simp: killSessions_def s2_def tasks_same_def queue_of_def)
qed

section \<open>Tasks come and go\<close>

lemma new_task_books:
  assumes "books_ok s" "t \<notin> set (dl_live s)"
  shows "books_ok (new_task t dc u s)"
proof -
  note ok = books_okD [OF assms(1)]
  let ?s = "new_task t dc u s"
  have tasks: "dl_tasks ?s v = dl_tasks s v" if "v \<noteq> t" for v using that by (simp add: new_task_def)
  have same: "queue_of d ?s = queue_of d s" "sessions_count ?s = sessions_count s" "balances ?s = balances s" "balanceData ?s = balanceData s"
    "killSessionsWhen ?s = killSessionsWhen s" "queues ?s = queues s" "dl_now ?s = dl_now s" "dl_nextRequest ?s = dl_nextRequest s" for d
    by (simp_all add: new_task_def queue_of_def sessions_count_def balances_def fun_eq_iff)
  have live: "dl_live ?s = t # dl_live s" by (simp add: new_task_def)
  have empty: "sentRequests (dl_tasks ?s t) = []" "requestByOffset (dl_tasks ?s t) = []" "cdnUncheckedParts (dl_tasks ?s t) = []"
    by (simp_all add: new_task_def)
  have load: "load_of ?s = load_of s"
  proof (intro ext)
    fix d i
    have "load_of ?s d i = (\<Sum>v \<in> set (dl_live s). if task_dcId (dl_tasks ?s v) = d then sent_in i (dl_tasks ?s v) else 0)"
      using assms(2) empty(1) by (simp add: load_of_def live sent_in_def cong: if_cong)
    also have "\<dots> = load_of s d i" unfolding load_of_def
    proof (intro sum.cong refl)
      fix v assume "v \<in> set (dl_live s)"
      then have "dl_tasks ?s v = dl_tasks s v" using assms(2) by (intro tasks) blast
      then show "(if task_dcId (dl_tasks ?s v) = d then sent_in i (dl_tasks ?s v) else 0) = (if task_dcId (dl_tasks s v) = d then sent_in i (dl_tasks s v) else 0)"
        by simp
    qed
    finally show "load_of ?s d i = load_of s d i" .
  qed
  have tasks_live: "dl_tasks ?s v = dl_tasks s v" if "v \<in> set (dl_live s)" for v using that assms(2) by (intro tasks) blast
  have fresh: "fresh_in s d j b" if "fresh_in ?s d j b" for d j b
    using that empty(1) tasks_live unfolding fresh_in_def live by (simp cong: bex_cong)
  have not_queued: "t \<notin> fst ` set (queue_of d s)" for d using downloads_okD(8) [OF ok(1)] assms(2) by blast
  have "downloads_ok (\<lambda>_ _. 0) ?s"
  proof (intro downloads_okI)
    show "live_ok ?s v" if "v \<in> set (dl_live ?s)" for v
    proof (cases "v = t")
      case True
      then show ?thesis using empty by (simp add: live_ok_def task_ok_def haveSentRequests_def)
    next
      case False
      then show ?thesis using that downloads_okD(5) [OF ok(1), of v] by (simp add: live live_ok_def same tasks queued_def)
    qed
    show "v \<in> set (dl_live ?s) \<and> task_dcId (dl_tasks ?s v) = d" if "v \<in> fst ` set (queue_of d ?s)" for d v
      using that not_queued [of d] downloads_okD(8) [OF ok(1), of v d] tasks [of v] by (cases "v = t") (simp_all add: same live)
  qed (use downloads_okD(1-4,6,7,9) [OF ok(1)] assms(2) in \<open>simp_all add: same live load\<close>)
  moreover have "room_ok s d b \<Longrightarrow> room_ok ?s d b" for d b by (rule room_ok_less [where s = s]) (use load fresh in simp_all)
  then have "rooms_ok ?s" using ok(2) by (simp add: rooms_ok_def same)
  moreover have "sent_past ?s" using ok(3) empty(1) tasks_live unfolding sent_past_def live by (simp add: same)
  ultimately show ?thesis by (simp add: books_ok_def)
qed

text \<open>A task without requests that is in no queue can be deleted.\<close>

lemma drop_task_books:
  assumes "books_ok s" "\<not> haveSentRequests (dl_tasks s t)" "t \<notin> fst ` set (queue_of (task_dcId (dl_tasks s t)) s)"
  shows "books_ok (s\<lparr>dl_live := filter (\<lambda>u. u \<noteq> t) (dl_live s)\<rparr>)"
proof -
  note ok = books_okD [OF assms(1)]
  let ?s = "s\<lparr>dl_live := filter (\<lambda>u. u \<noteq> t) (dl_live s)\<rparr>"
  have same: "queue_of d ?s = queue_of d s" "sessions_count ?s = sessions_count s" "balances ?s = balances s" for d
    by (simp_all add: queue_of_def sessions_count_def balances_def fun_eq_iff)
  have not_queued: "t \<notin> fst ` set (queue_of d s)" for d using downloads_okD(8) [OF ok(1), of t d] assms(3) by blast
  have load: "load_of ?s = load_of s"
  proof (intro ext)
    fix d i
    have "sent_in i (dl_tasks s t) = 0" using assms(2) by (simp add: haveSentRequests_def sent_in_def)
    then show "load_of ?s d i = load_of s d i" unfolding load_of_def by (intro sum.mono_neutral_cong_left) auto
  qed
  have fresh: "fresh_in ?s d j b \<Longrightarrow> fresh_in s d j b" for d j b by (auto simp: fresh_in_def)
  have "downloads_ok (\<lambda>_ _. 0) ?s"
  proof (intro downloads_okI)
    show "live_ok ?s v" if "v \<in> set (dl_live ?s)" for v
      using that downloads_okD(5) [OF ok(1), of v] by (simp add: live_ok_def same queued_def)
    show "v \<in> set (dl_live ?s) \<and> task_dcId (dl_tasks ?s v) = d" if "v \<in> fst ` set (queue_of d ?s)" for d v
      using that not_queued [of d] downloads_okD(8) [OF ok(1), of v d] by (auto simp: same)
  qed (use downloads_okD(1-4,6,7,9) [OF ok(1)] in \<open>simp_all add: same load\<close>)
  moreover have "room_ok s d b \<Longrightarrow> room_ok ?s d b" for d b by (rule room_ok_less [where s = s]) (use load fresh in simp_all)
  then have "rooms_ok ?s" using ok(2) by (simp add: rooms_ok_def same)
  moreover have "sent_past ?s" using ok(3) by (auto simp: sent_past_def)
  ultimately show ?thesis by (simp add: books_ok_def)
qed

section \<open>Operations that send\<close>

lemma loaders_ok_same: "loaders_ok I s \<Longrightarrow> dl_tasks s' = dl_tasks s \<Longrightarrow> dl_live s' = dl_live s \<Longrightarrow> loaders_ok I s'"
  by (simp add: loaders_ok_def)

context download_loader
begin

lemma dl_enqueue_ok:
  assumes "books_ok s" "loaders_ok I s" "t \<in> set (dl_live s)" "-1 \<le> priority"
  shows "\<exists>s'. dl_enqueue ops t priority s = Some s' \<and> books_ok s' \<and> loaders_ok I s' \<and> same_live s s' \<and> idle ops (task_dcId (dl_tasks s t)) s'"
proof -
  define dc where "dc = task_dcId (dl_tasks s t)"
  define s1 where "s1 = put_queue dc (queue_enqueue t priority (queue_of dc s)) s"
  define s2 where "s2 = (if resetGenerationTimer s1 = None then s1\<lparr>resetGenerationTimer := Some kResetDownloadPrioritiesTimeout\<rparr> else s1)"
  have "books_ok s1" unfolding s1_def by (rule enqueue_books [OF assms(1,3) dc_def assms(4)])
  then have "books_ok s2" using timer_books(1) [of s1] by (simp add: s2_def)
  moreover have same: "dl_tasks s2 = dl_tasks s" "dl_live s2 = dl_live s" "dl_now s2 = dl_now s" by (simp_all add: s2_def s1_def)
  ultimately obtain s' where "checkSendNext ops dc s2 = Some s'" "books_ok s'" "loaders_ok I s'" "tasks_same s2 s'" "idle ops dc s'"
    using checkSendNext_ok [of s2 dc] loaders_ok_same [OF assms(2)] by blast
  moreover have "dl_enqueue ops t priority s = checkSendNext ops dc s2"
    by (simp only: dl_enqueue_def Let_def dc_def s1_def s2_def)
  ultimately show ?thesis
    using same by (intro exI [of _ s']) (simp add: same_live_def tasks_same_def flip: dc_def)
qed

lemma dl_remove_ok:
  assumes "books_ok s" "loaders_ok I s" "\<not> haveSentRequests (dl_tasks s t)"
  shows "\<exists>s'. dl_remove ops t s = Some s' \<and> books_ok s' \<and> loaders_ok I s' \<and> same_live s s' \<and> dl_tasks s' t = dl_tasks s t
    \<and> t \<notin> fst ` set (queue_of (task_dcId (dl_tasks s t)) s')"
proof -
  define dc where "dc = task_dcId (dl_tasks s t)"
  define s1 where "s1 = put_queue dc (queue_remove t (queue_of dc s)) s"
  have "books_ok s1" unfolding s1_def by (rule remove_books [OF assms(1,3)])
  moreover have same: "dl_tasks s1 = dl_tasks s" "dl_live s1 = dl_live s" "dl_now s1 = dl_now s" "t \<notin> fst ` set (queue_of dc s1)"
    by (auto simp: s1_def queue_remove_def)
  ultimately obtain s' where "checkSendNext ops dc s1 = Some s'" "books_ok s'" "loaders_ok I s'" "tasks_same s1 s'"
    "\<forall>u. u \<notin> fst ` set (queue_of dc s1) \<longrightarrow> dl_tasks s' u = dl_tasks s1 u"
    using checkSendNext_ok [of s1 dc] loaders_ok_same [OF assms(2)] by blast
  then show ?thesis
    using same by (intro exI [of _ s']) (simp add: dl_remove_def Let_def same_live_def tasks_same_def flip: dc_def s1_def)
qed

lemma checkSendNextAfterSuccess_ok:
  assumes "books_ok s" "loaders_ok I s"
  shows "\<exists>s'. checkSendNextAfterSuccess ops dc s = Some s' \<and> books_ok s' \<and> loaders_ok I s' \<and> same_live s s' \<and> idle ops dc s'"
proof -
  note ok = downloads_okD [OF books_okD(1) [OF assms(1)]]
  define s1 where "s1 = put_queue dc (queue_of dc s) s"
  have "books_ok s1" unfolding s1_def using ok(7,8) by (intro put_queue_books [OF assms(1)]) auto
  moreover have same: "dl_tasks s1 = dl_tasks s" "dl_live s1 = dl_live s" "dl_now s1 = dl_now s" by (simp_all add: s1_def)
  ultimately obtain s' where "checkSendNext ops dc s1 = Some s'" "books_ok s'" "loaders_ok I s'" "tasks_same s1 s'" "idle ops dc s'"
    using checkSendNext_ok [of s1 dc] loaders_ok_same [OF assms(2)] by blast
  then show ?thesis
    using same by (intro exI [of _ s']) (simp add: checkSendNextAfterSuccess_def same_live_def tasks_same_def flip: s1_def)
qed

lemma delete_task_ok:
  assumes "books_ok s" "loaders_ok I s" "t \<in> set (dl_live s)"
  shows "\<exists>s'. delete_task ops t s = Some s' \<and> books_ok s' \<and> loaders_ok I s' \<and> t \<notin> set (dl_live s')"
proof -
  obtain s1 where s1: "cancelAllRequests t s = Some s1" "books_ok s1" "tasks_shrink s s1" "\<not> haveSentRequests (dl_tasks s1 t)"
    using cancelAllRequests_books [OF assms(1,3)] by blast
  have loaders1: "loaders_ok I s1" using loaders_ok_frame [OF assms(2) fewer s1(3)] .
  obtain s2 where s2: "dl_remove ops t s1 = Some s2" "books_ok s2" "loaders_ok I s2" "same_live s1 s2" "dl_tasks s2 t = dl_tasks s1 t"
    "t \<notin> fst ` set (queue_of (task_dcId (dl_tasks s1 t)) s2)"
    using dl_remove_ok [OF s1(2) loaders1 s1(4)] by blast
  have "books_ok (s2\<lparr>dl_live := filter (\<lambda>u. u \<noteq> t) (dl_live s2)\<rparr>)"
    by (rule drop_task_books [OF s2(2)]) (use s1(4) s2(5,6) in simp_all)
  moreover have "loaders_ok I (s2\<lparr>dl_live := filter (\<lambda>u. u \<noteq> t) (dl_live s2)\<rparr>)" using s2(3) by (simp add: loaders_ok_def)
  ultimately show ?thesis using s1(1) s2(1) by (simp add: delete_task_def)
qed

end

end
