(* ===== verification/StreamQueue.thy ===== *)
theory StreamQueue
  imports Prelude
begin

text \<open>
  The queue of parts a streaming loader was asked for (\<open>PriorityQueue\<close> of
  media/streaming/media_streaming_loader.h and .cpp): offsets, those asked for since the last
  \<open>resetPriorities\<close> first, each generation by offset.
\<close>

section \<open>Definitions\<close>

text \<open>\<open>Entry\<close>: the value and its priority.\<close>

type_synonym Entry = "int \<times> int"

record PriorityQueue =
  pq_data :: "Entry list"
  pq_priority :: int

definition entry_less :: "Entry \<Rightarrow> Entry \<Rightarrow> bool" where
  "entry_less a b \<longleftrightarrow> (if snd a > snd b then True else if snd a < snd b then False else fst a < fst b)"

definition empty_queue :: PriorityQueue where
  "empty_queue = \<lparr>pq_data = [], pq_priority = 0\<rparr>"

text \<open>Inserting into the ordered set of entries.\<close>

fun entry_insert :: "Entry \<Rightarrow> Entry list \<Rightarrow> Entry list" where
  "entry_insert e [] = [e]"
| "entry_insert e (x # xs) =
     (if entry_less e x then e # x # xs else if entry_less x e then x # entry_insert e xs else x # xs)"

definition pq_add :: "int \<Rightarrow> PriorityQueue \<Rightarrow> bool \<times> PriorityQueue" where
  "pq_add value q =
     (case List.find (\<lambda>e. fst e = value) (pq_data q) of
        None \<Rightarrow> (True, q\<lparr>pq_data := entry_insert (value, pq_priority q) (pq_data q)\<rparr>)
      | Some e \<Rightarrow>
          if snd e \<noteq> pq_priority q
          then (True, q\<lparr>pq_data := entry_insert (value, pq_priority q) (remove1 e (pq_data q))\<rparr>)
          else (False, q))"

definition pq_remove :: "int \<Rightarrow> PriorityQueue \<Rightarrow> bool \<times> PriorityQueue" where
  "pq_remove value q =
     (case List.find (\<lambda>e. fst e = value) (pq_data q) of
        None \<Rightarrow> (False, q)
      | Some e \<Rightarrow> (True, q\<lparr>pq_data := remove1 e (pq_data q)\<rparr>))"

definition pq_empty :: "PriorityQueue \<Rightarrow> bool" where
  "pq_empty q \<longleftrightarrow> pq_data q = []"

definition pq_front :: "PriorityQueue \<Rightarrow> int option" where
  "pq_front q = (case pq_data q of [] \<Rightarrow> None | e # _ \<Rightarrow> Some (fst e))"

definition pq_take :: "PriorityQueue \<Rightarrow> int option \<times> PriorityQueue" where
  "pq_take q = (case pq_data q of [] \<Rightarrow> (None, q) | e # rest \<Rightarrow> (Some (fst e), q\<lparr>pq_data := rest\<rparr>))"

definition pq_takeInRange :: "int \<Rightarrow> int \<Rightarrow> PriorityQueue \<Rightarrow> int list \<times> PriorityQueue" where
  "pq_takeInRange low high q =
     (let inside = (\<lambda>e. fst e \<ge> low \<and> fst e < high)
      in (sort (remdups (map fst (filter inside (pq_data q)))), q\<lparr>pq_data := filter (\<lambda>e. \<not> inside e) (pq_data q)\<rparr>))"

definition pq_clear :: "PriorityQueue \<Rightarrow> PriorityQueue" where
  "pq_clear q = q\<lparr>pq_data := []\<rparr>"

definition pq_resetPriorities :: "PriorityQueue \<Rightarrow> PriorityQueue" where
  "pq_resetPriorities q = q\<lparr>pq_priority := pq_priority q + 1\<rparr>"

text \<open>Ordered, each value at most once.\<close>

definition pq_ok :: "PriorityQueue \<Rightarrow> bool" where
  "pq_ok q \<longleftrightarrow> sorted_wrt entry_less (pq_data q) \<and> distinct (map fst (pq_data q))"

definition pq_values :: "PriorityQueue \<Rightarrow> int set" where
  "pq_values q = fst ` set (pq_data q)"

section \<open>Lemmas\<close>

lemma entry_less_trans: "entry_less a b \<Longrightarrow> entry_less b c \<Longrightarrow> entry_less a c"
  by (auto simp: entry_less_def split: if_splits)

lemma entry_less_total: "\<not> entry_less a b \<Longrightarrow> \<not> entry_less b a \<Longrightarrow> a = b"
  by (cases a; cases b) (auto simp: entry_less_def split: if_splits)

lemma set_entry_insert: "set (entry_insert e xs) = insert e (set xs)"
  by (induction xs) (use entry_less_total in auto)

lemma entry_insert_sorted: "sorted_wrt entry_less xs \<Longrightarrow> sorted_wrt entry_less (entry_insert e xs)"
  by (induction xs) (auto simp: set_entry_insert intro: entry_less_trans)

lemma entry_insert_distinct: "distinct (map fst xs) \<Longrightarrow> fst e \<notin> fst ` set xs \<Longrightarrow> distinct (map fst (entry_insert e xs))"
  by (induction xs) (auto simp: set_entry_insert)

lemma remove1_ok:
  assumes "sorted_wrt entry_less xs" "distinct (map fst xs)" "e \<in> set xs"
  shows "sorted_wrt entry_less (remove1 e xs)" "distinct (map fst (remove1 e xs))" "fst ` set (remove1 e xs) = fst ` set xs - {fst e}"
proof -
  have rest: "remove1 e xs = filter (\<lambda>x. x \<noteq> e) xs" 
    using assms(2) by (simp add: distinct_map distinct_remove1_removeAll removeAll_filter_not_eq eq_commute)
  show "sorted_wrt entry_less (remove1 e xs)" unfolding rest using assms(1) by (rule sorted_wrt_filter)
  show "distinct (map fst (remove1 e xs))" unfolding rest using assms(2) by (rule distinct_map_filter)
  have "inj_on fst (set xs)" using assms(2) by (simp add: distinct_map)
  then show "fst ` set (remove1 e xs) = fst ` set xs - {fst e}"
    unfolding rest using assms(3) by (auto simp: inj_on_def)
qed

lemma find_value:
  "List.find (\<lambda>e. fst e = v) xs = None \<longleftrightarrow> v \<notin> fst ` set xs"
  "List.find (\<lambda>e. fst e = v) xs = Some e \<Longrightarrow> e \<in> set xs \<and> fst e = v"
  by (force simp: find_None_iff, auto simp: find_Some_iff)

lemma pq_add_ok:
  assumes "pq_ok q"
  shows "pq_ok (snd (pq_add v q))" "pq_values (snd (pq_add v q)) = insert v (pq_values q)"
proof -
  have "pq_ok (snd (pq_add v q)) \<and> pq_values (snd (pq_add v q)) = insert v (pq_values q)"
  proof (cases "List.find (\<lambda>e. fst e = v) (pq_data q)")
    case None
    then show ?thesis
      using assms find_value(1) [of v "pq_data q"]
      by (simp add: pq_add_def pq_ok_def pq_values_def set_entry_insert entry_insert_sorted entry_insert_distinct)
  next
    case (Some e)
    note e = find_value(2) [OF Some]
    note rest = remove1_ok [of "pq_data q" e]
    have "v \<in> pq_values q" using e by (auto simp: pq_values_def)
    then show ?thesis
      using assms Some e rest entry_insert_distinct [of "remove1 e (pq_data q)" "(v, pq_priority q)"]
      by (auto simp: pq_add_def pq_ok_def pq_values_def set_entry_insert entry_insert_sorted)
  qed
  then show "pq_ok (snd (pq_add v q))" "pq_values (snd (pq_add v q)) = insert v (pq_values q)" by simp_all
qed

lemma pq_remove_ok:
  assumes "pq_ok q"
  shows "pq_ok (snd (pq_remove v q))" "pq_values (snd (pq_remove v q)) = pq_values q - {v}"
proof -
  have "pq_ok (snd (pq_remove v q)) \<and> pq_values (snd (pq_remove v q)) = pq_values q - {v}"
  proof (cases "List.find (\<lambda>e. fst e = v) (pq_data q)")
    case None
    then show ?thesis using assms find_value(1) [of v "pq_data q"] by (simp add: pq_remove_def pq_values_def)
  next
    case (Some e)
    then show ?thesis
      using assms find_value(2) [OF Some] remove1_ok [of "pq_data q" e] by (simp add: pq_remove_def pq_ok_def pq_values_def)
  qed
  then show "pq_ok (snd (pq_remove v q))" "pq_values (snd (pq_remove v q)) = pq_values q - {v}" by simp_all
qed

text \<open>The value taken is the least one of the highest priority.\<close>

lemma pq_take_ok:
  assumes "pq_ok q" "\<not> pq_empty q"
  obtains v where "fst (pq_take q) = Some v" "v \<in> pq_values q" "pq_ok (snd (pq_take q))" "pq_values (snd (pq_take q)) = pq_values q - {v}"
    "\<exists>p. (v, p) \<in> set (pq_data q) \<and> (\<forall>e \<in> set (pq_data q). snd e \<le> p \<and> (snd e = p \<longrightarrow> v \<le> fst e))"
proof -
  obtain v p rest where q: "pq_data q = (v, p) # rest" using assms(2) by (cases "pq_data q") (auto simp: pq_empty_def)
  have "snd e \<le> p \<and> (snd e = p \<longrightarrow> v \<le> fst e)" if "e \<in> set rest" for e
    using assms(1) that q by (force simp: pq_ok_def entry_less_def split: if_splits)
  then show thesis
    using assms(1) q by (intro that [of v]) (auto simp: pq_take_def pq_ok_def pq_values_def intro!: exI [of _ p])
qed

lemma pq_clear_ok [simp]: "pq_ok (pq_clear q)" "pq_values (pq_clear q) = {}" "pq_ok empty_queue" "pq_values empty_queue = {}"
  by (simp_all add: pq_clear_def empty_queue_def pq_ok_def pq_values_def)

lemma pq_resetPriorities_ok [simp]: "pq_ok (pq_resetPriorities q) = pq_ok q" "pq_values (pq_resetPriorities q) = pq_values q"
  by (simp_all add: pq_resetPriorities_def pq_ok_def pq_values_def)

lemma pq_takeInRange_ok:
  assumes "pq_ok q"
  shows "pq_ok (snd (pq_takeInRange low high q))" "set (fst (pq_takeInRange low high q)) = {v \<in> pq_values q. low \<le> v \<and> v < high}"
    "pq_values (snd (pq_takeInRange low high q)) = {v \<in> pq_values q. \<not> (low \<le> v \<and> v < high)}"
  using assms by (auto simp: pq_takeInRange_def pq_ok_def pq_values_def sorted_wrt_filter distinct_map_filter)

end
