(* ===== verification/DownloadLoaders.thy ===== *)
theory DownloadLoaders
  imports DownloadOperations StreamQueue
begin

text \<open>
  The tasks of the download manager: \<open>mtpFileLoader\<close> (storage/file_download_mtproto.h and .cpp) with what it
  inherits from \<open>FileLoader\<close> (storage/file_download.h and .cpp), and the streaming \<open>LoaderMtproto\<close>
  (media/streaming/media_streaming_loader_mtproto.h and .cpp), with the answers to their requests
  (\<open>DownloadMtprotoTask\<close> of storage/download_manager_mtproto.cpp, without those of a CDN).
  Bytes are characters. Whether writing to a file on the disk succeeds is an argument.
\<close>

section \<open>Definitions: state\<close>

record file_loader =
  fl_finished :: bool
  fl_cancelled :: bool
  fl_lastComplete :: bool
  fl_nextRequestOffset :: int
  fl_loadSize :: int
  fl_fullSize :: int
  fl_fileIsOpen :: bool
  fl_fileSize :: int
  fl_data :: string
  fl_skippedBytes :: int

text \<open>Fired parts are kept in the order of time.\<close>

record stream_loader =
  sl_priority :: int
  sl_requested :: PriorityQueue
  sl_parts :: "(int \<times> string) list"

datatype loader = FileTask file_loader | StreamTask stream_loader

definition kMaxFileInMemory :: int where "kMaxFileInMemory = 10 * 1024 * 1024"

definition new_file :: "bool \<Rightarrow> int \<Rightarrow> int \<Rightarrow> loader option" where
  "new_file named loadSize fullSize =
     (if loadSize \<le> fullSize \<and> (named \<or> fullSize \<le> kMaxFileInMemory) then
        Some (FileTask \<lparr>fl_finished = False, fl_cancelled = False, fl_lastComplete = False, fl_nextRequestOffset = 0, fl_loadSize = loadSize,
          fl_fullSize = fullSize, fl_fileIsOpen = False, fl_fileSize = 0, fl_data = [], fl_skippedBytes = 0\<rparr>)
      else None)"

definition new_stream :: loader where
  "new_stream = StreamTask \<lparr>sl_priority = 0, sl_requested = empty_queue, sl_parts = []\<rparr>"

definition kFailedOffset :: int where "kFailedOffset = -1"

section \<open>Definitions: what the manager calls\<close>

definition task_ready :: "loader download_task \<Rightarrow> bool" where
  "task_ready x =
     (case task_loader x of
        FileTask f \<Rightarrow> \<not> fl_finished f \<and> \<not> fl_lastComplete f \<and> (fl_fullSize f \<noteq> 0 \<or> \<not> haveSentRequests x)
          \<and> (fl_fullSize f = 0 \<or> fl_nextRequestOffset f < fl_loadSize f)
      | StreamTask l \<Rightarrow> \<not> pq_empty (sl_requested l))"

definition task_take :: "loader download_task \<Rightarrow> (int \<times> loader) option" where
  "task_take x =
     (case task_loader x of
        FileTask f \<Rightarrow>
          if task_ready x
          then Some (fl_nextRequestOffset f, FileTask (f\<lparr>fl_nextRequestOffset := fl_nextRequestOffset f + kDownloadPartSize\<rparr>))
          else None
      | StreamTask l \<Rightarrow>
          (case pq_take (sl_requested l) of
             (None, _) \<Rightarrow> None
           | (Some offset, q) \<Rightarrow> Some (offset, StreamTask (l\<lparr>sl_requested := q\<rparr>))))"

definition loader_calls :: "loader loader_ops" where
  "loader_calls = \<lparr>readyToRequest = task_ready, takeNextRequestOffset = task_take\<rparr>"

definition update_file :: "task_id \<Rightarrow> (file_loader \<Rightarrow> file_loader) \<Rightarrow> loader downloads \<Rightarrow> loader downloads" where
  "update_file t g = update_task t (\<lambda>x. x\<lparr>task_loader := (case task_loader x of FileTask f \<Rightarrow> FileTask (g f) | StreamTask l \<Rightarrow> StreamTask l)\<rparr>)"

definition update_stream :: "task_id \<Rightarrow> (stream_loader \<Rightarrow> stream_loader) \<Rightarrow> loader downloads \<Rightarrow> loader downloads" where
  "update_stream t g = update_task t (\<lambda>x. x\<lparr>task_loader := (case task_loader x of FileTask f \<Rightarrow> FileTask f | StreamTask l \<Rightarrow> StreamTask (g l))\<rparr>)"

section \<open>Definitions: file loader\<close>

definition file_cancel :: "task_id \<Rightarrow> loader downloads \<Rightarrow> loader downloads option" where
  "file_cancel t s =
     map_option (update_file t (\<lambda>f. f\<lparr>fl_finished := True, fl_cancelled := True, fl_fileIsOpen := False, fl_data := []\<rparr>)) (cancelAllRequests t s)"

text \<open>\<open>writeResultPart\<close> without a file: new bytes that a later part fills are zero here.\<close>

definition grow :: "nat \<Rightarrow> string \<Rightarrow> string" where
  "grow n d = d @ replicate (n - length d) (CHR 0x00)"

definition write_memory :: "nat \<Rightarrow> string \<Rightarrow> file_loader \<Rightarrow> file_loader" where
  "write_memory offset buffer f =
     (let f = (if offset > length (fl_data f)
               then f\<lparr>fl_skippedBytes := fl_skippedBytes f + int (offset - length (fl_data f)), fl_data := grow offset (fl_data f)\<rparr> else f)
      in if offset = length (fl_data f) then f\<lparr>fl_data := fl_data f @ buffer\<rparr>
         else
           let d = (if offset + length buffer > length (fl_data f) then grow (offset + length buffer) (fl_data f) else fl_data f)
           in f\<lparr>fl_skippedBytes := fl_skippedBytes f - int (length buffer),
                fl_data := take offset d @ buffer @ drop (offset + length buffer) d\<rparr>)"

text \<open>With a file: what is skipped in it, and its size when everything was written.\<close>

definition skip_in_file :: "int \<Rightarrow> string \<Rightarrow> file_loader \<Rightarrow> file_loader" where
  "skip_in_file offset buffer f =
     (if offset < fl_fileSize f then f\<lparr>fl_skippedBytes := fl_skippedBytes f - int (length buffer)\<rparr>
      else if offset > fl_fileSize f then f\<lparr>fl_skippedBytes := fl_skippedBytes f + (offset - fl_fileSize f)\<rparr>
      else f)"

definition write_file :: "int \<Rightarrow> string \<Rightarrow> file_loader \<Rightarrow> file_loader" where
  "write_file offset buffer f = f\<lparr>fl_fileSize := max (fl_fileSize f) (offset + int (length buffer))\<rparr>"

definition writeResultPart :: "task_id \<Rightarrow> file_loader \<Rightarrow> int \<Rightarrow> string \<Rightarrow> bool \<Rightarrow> loader downloads \<Rightarrow> (bool \<times> loader downloads) option" where
  "writeResultPart t f offset buffer written s =
     (if fl_finished f then None
      else if buffer = [] then Some (True, s)
      else if fl_fileIsOpen f then
        let s = update_file t (skip_in_file offset buffer) s
        in if written then Some (True, update_file t (write_file offset buffer) s) else map_option (Pair False) (file_cancel t s)
      else Some (True, update_file t (write_memory (nat offset) buffer) s))"

definition finalizeResult :: "task_id \<Rightarrow> bool \<Rightarrow> loader downloads \<Rightarrow> (bool \<times> loader downloads) option" where
  "finalizeResult t stored s =
     (case task_loader (dl_tasks s t) of
        StreamTask l \<Rightarrow> None
      | FileTask f \<Rightarrow>
          if fl_finished f then None
          else if \<not> stored then map_option (Pair False) (file_cancel t s)
          else Some (True, update_file t (\<lambda>f. f\<lparr>fl_finished := True, fl_fileIsOpen := False\<rparr>) s))"

definition loading_done :: "loader download_task \<Rightarrow> bool" where
  "loading_done x =
     (case task_loader x of
        FileTask f \<Rightarrow> \<not> haveSentRequests x \<and> (fl_lastComplete f \<or> fl_fullSize f \<noteq> 0 \<and> fl_nextRequestOffset f \<ge> fl_loadSize f)
      | StreamTask l \<Rightarrow> False)"

definition file_feedPart :: "task_id \<Rightarrow> file_loader \<Rightarrow> int \<Rightarrow> string \<Rightarrow> bool \<Rightarrow> bool \<Rightarrow> loader downloads \<Rightarrow> (bool \<times> loader downloads) option" where
  "file_feedPart t f offset bytes written stored s =
     do { (ok, s) \<leftarrow> writeResultPart t f offset bytes written s;
          if \<not> ok then Some (False, s)
          else
            let s = (if bytes = [] \<or> length bytes mod 1024 \<noteq> 0 then update_file t (\<lambda>f. f\<lparr>fl_lastComplete := True\<rparr>) s else s)
            in if loading_done (dl_tasks s t) then do { s \<leftarrow> dl_remove loader_calls t s; finalizeResult t stored s }
               else Some (True, s) }"

definition startLoading :: "task_id \<Rightarrow> loader downloads \<Rightarrow> loader downloads option" where
  "startLoading t s = dl_enqueue loader_calls t 0 s"

text \<open>Whether the loader writes to a file only, and whether it could be opened.\<close>

definition checkForOpen :: "task_id \<Rightarrow> file_loader \<Rightarrow> bool \<Rightarrow> bool \<Rightarrow> loader downloads \<Rightarrow> (bool \<times> loader downloads) option" where
  "checkForOpen t f toFileOnly opened s =
     (if \<not> toFileOnly \<or> fl_fileIsOpen f then Some (True, s)
      else if opened then Some (True, update_file t (\<lambda>f. f\<lparr>fl_fileIsOpen := True, fl_fileSize := 0\<rparr>) s)
      else map_option (Pair False) (file_cancel t s))"

text \<open>The answer of \<open>tryLoadLocal\<close> is an argument.\<close>

definition file_start :: "task_id \<Rightarrow> file_loader \<Rightarrow> bool \<Rightarrow> bool \<Rightarrow> bool \<Rightarrow> bool \<Rightarrow> loader downloads \<Rightarrow> loader downloads option" where
  "file_start t f local localOnly toFileOnly opened s =
     (if fl_finished f \<or> local then Some s
      else if localOnly then file_cancel t s
      else do { (ok, s) \<leftarrow> checkForOpen t f toFileOnly opened s; if ok then startLoading t s else Some s })"

text \<open>The bytes without the prefix that marks them as a part.\<close>

definition startLoadingWithPartial :: "task_id \<Rightarrow> string \<Rightarrow> bool \<Rightarrow> bool \<Rightarrow> loader downloads \<Rightarrow> loader downloads option" where
  "startLoadingWithPartial t bytes written stored s =
     (let use = length bytes div nat kDownloadPartSize * nat kDownloadPartSize
      in do { s \<leftarrow> (if use > 0 then
                     let s = update_file t (\<lambda>f. f\<lparr>fl_nextRequestOffset := int use\<rparr>) s
                     in (case task_loader (dl_tasks s t) of
                           FileTask f \<Rightarrow> map_option snd (file_feedPart t f 0 (take use bytes) written stored s)
                         | StreamTask l \<Rightarrow> None)
                   else Some s);
              startLoading t s })"

definition finishWithBytes :: "task_id \<Rightarrow> string \<Rightarrow> bool \<Rightarrow> loader downloads \<Rightarrow> loader downloads option" where
  "finishWithBytes t bytes stored s =
     (let s = update_file t (\<lambda>f. f\<lparr>fl_data := bytes\<rparr>) s
      in if \<not> stored then file_cancel t s
         else Some (update_file t (\<lambda>f. f\<lparr>fl_finished := True, fl_fileIsOpen := False\<rparr>) s))"

text \<open>What the cache had: nothing, or bytes that are marked as a part or all of the file.\<close>

definition localLoaded :: "task_id \<Rightarrow> file_loader \<Rightarrow> (bool \<times> string) option \<Rightarrow> bool \<Rightarrow> bool \<Rightarrow> bool \<Rightarrow> bool \<Rightarrow> bool \<Rightarrow> loader downloads \<Rightarrow> loader downloads option" where
  "localLoaded t f result localOnly toFileOnly opened written stored s =
     (case result of
        None \<Rightarrow> file_start t f False localOnly toFileOnly opened s
      | Some (partial, bytes) \<Rightarrow>
          if partial \<and> int (length bytes) < fl_loadSize f then
            do { (ok, s) \<leftarrow> checkForOpen t f toFileOnly opened s;
                 if ok then startLoadingWithPartial t bytes written stored s else Some s }
          else finishWithBytes t bytes stored s)"

definition increaseLoadSize :: "task_id \<Rightarrow> int \<Rightarrow> loader downloads \<Rightarrow> loader downloads option" where
  "increaseLoadSize t newSize s =
     (case task_loader (dl_tasks s t) of
        FileTask f \<Rightarrow> if newSize > fl_loadSize f \<and> newSize \<le> fl_fullSize f then Some (update_file t (\<lambda>f. f\<lparr>fl_loadSize := newSize\<rparr>) s) else None
      | StreamTask l \<Rightarrow> None)"

definition setWebFileSizeHook :: "task_id \<Rightarrow> int \<Rightarrow> loader downloads \<Rightarrow> (bool \<times> loader downloads) option" where
  "setWebFileSizeHook t webSize s =
     (case task_loader (dl_tasks s t) of
        FileTask f \<Rightarrow>
          if fl_fullSize f = 0 \<or> fl_fullSize f = webSize
          then Some (True, update_file t (\<lambda>f. f\<lparr>fl_loadSize := webSize, fl_fullSize := webSize\<rparr>) s)
          else map_option (Pair False) (file_cancel t s)
      | StreamTask l \<Rightarrow> Some (True, s))"

section \<open>Definitions: streaming loader\<close>

definition addToQueueWithPriority :: "task_id \<Rightarrow> stream_loader \<Rightarrow> loader downloads \<Rightarrow> loader downloads option" where
  "addToQueueWithPriority t l s = dl_enqueue loader_calls t (sl_priority l) s"

definition fire_part :: "task_id \<Rightarrow> int \<Rightarrow> string \<Rightarrow> loader downloads \<Rightarrow> loader downloads" where
  "fire_part t offset bytes = update_stream t (\<lambda>l. l\<lparr>sl_parts := sl_parts l @ [(offset, bytes)]\<rparr>)"

definition cancelForOffset :: "task_id \<Rightarrow> stream_loader \<Rightarrow> int \<Rightarrow> loader downloads \<Rightarrow> loader downloads option" where
  "cancelForOffset t l offset s =
     (if haveSentRequestForOffset (dl_tasks s t) offset then
        do { s \<leftarrow> cancelRequestForOffset t offset s;
             if \<not> pq_empty (sl_requested l) then addToQueueWithPriority t l s else Some s }
      else Some (update_stream t (\<lambda>l. l\<lparr>sl_requested := snd (pq_remove offset (sl_requested l))\<rparr>) s))"

text \<open>The third argument: what the attached downloader has loaded of the part, if it is attached.\<close>

definition stream_load :: "task_id \<Rightarrow> stream_loader \<Rightarrow> string \<Rightarrow> int \<Rightarrow> loader downloads \<Rightarrow> loader downloads option" where
  "stream_load t l loaded offset s =
     (if loaded \<noteq> [] then map_option (fire_part t offset loaded) (cancelForOffset t l offset s)
      else if haveSentRequestForOffset (dl_tasks s t) offset then Some s
      else
        let (added, q) = pq_add offset (sl_requested l);
            s = update_stream t (\<lambda>l. l\<lparr>sl_requested := q\<rparr>) s
        in if added then addToQueueWithPriority t l s else Some s)"

definition stream_stop :: "task_id \<Rightarrow> loader downloads \<Rightarrow> loader downloads option" where
  "stream_stop t s =
     do { s \<leftarrow> cancelAllRequests t s;
          dl_remove loader_calls t (update_stream t (\<lambda>l. l\<lparr>sl_requested := pq_clear (sl_requested l)\<rparr>) s) }"

definition tryRemoveFromQueue :: "task_id \<Rightarrow> stream_loader \<Rightarrow> loader downloads \<Rightarrow> loader downloads option" where
  "tryRemoveFromQueue t l s =
     (if pq_empty (sl_requested l) \<and> \<not> haveSentRequests (dl_tasks s t) then dl_remove loader_calls t s else Some s)"

definition stream_resetPriorities :: "task_id \<Rightarrow> loader downloads \<Rightarrow> loader downloads" where
  "stream_resetPriorities t = update_stream t (\<lambda>l. l\<lparr>sl_requested := pq_resetPriorities (sl_requested l)\<rparr>)"

definition setPriority :: "task_id \<Rightarrow> stream_loader \<Rightarrow> int \<Rightarrow> loader downloads \<Rightarrow> loader downloads option" where
  "setPriority t l priority s =
     (if sl_priority l = priority then Some s
      else
        let s = update_stream t (\<lambda>l. l\<lparr>sl_priority := priority\<rparr>) s
        in if haveSentRequests (dl_tasks s t) then addToQueueWithPriority t (l\<lparr>sl_priority := priority\<rparr>) s else Some s)"

section \<open>Definitions: answers to requests\<close>

definition feedPart :: "task_id \<Rightarrow> int \<Rightarrow> string \<Rightarrow> bool \<Rightarrow> bool \<Rightarrow> loader downloads \<Rightarrow> (bool \<times> loader downloads) option" where
  "feedPart t offset bytes written stored s =
     (case task_loader (dl_tasks s t) of
        FileTask f \<Rightarrow> file_feedPart t f offset bytes written stored s
      | StreamTask l \<Rightarrow> Some (True, fire_part t offset bytes s))"

definition cancelOnFail :: "task_id \<Rightarrow> loader downloads \<Rightarrow> loader downloads option" where
  "cancelOnFail t s =
     (case task_loader (dl_tasks s t) of
        FileTask f \<Rightarrow> file_cancel t s
      | StreamTask l \<Rightarrow> Some (fire_part t kFailedOffset [] s))"

text \<open>The destructor of a loader.\<close>

definition delete_loader :: "task_id \<Rightarrow> loader downloads \<Rightarrow> loader downloads option" where
  "delete_loader t s =
     do { s \<leftarrow> (case task_loader (dl_tasks s t) of
                 FileTask f \<Rightarrow> if fl_finished f then Some s else file_cancel t s
               | StreamTask l \<Rightarrow> Some s);
          delete_task loader_calls t s }"

text \<open>The owner of a loader may delete it while it is told of the part.\<close>

definition delete_now :: "bool \<Rightarrow> task_id \<Rightarrow> loader downloads \<Rightarrow> loader downloads option" where
  "delete_now deleted t s = (if deleted then delete_loader t s else Some s)"

definition normalPartLoaded :: "task_id \<Rightarrow> int \<Rightarrow> string \<Rightarrow> bool \<Rightarrow> bool \<Rightarrow> bool \<Rightarrow> loader downloads \<Rightarrow> loader downloads option" where
  "normalPartLoaded t requestId bytes written stored deleted s =
     do { (requestData, s) \<leftarrow> finishSentRequest t requestId Success s;
          let dc = task_dcId (dl_tasks s t)
          in do { (_, s) \<leftarrow> feedPart t (rd_offset requestData) bytes written stored s;
                  s \<leftarrow> delete_now deleted t s;
                  checkSendNextAfterSuccess loader_calls dc s } }"

definition webPartLoaded :: "task_id \<Rightarrow> int \<Rightarrow> int \<Rightarrow> string \<Rightarrow> bool \<Rightarrow> bool \<Rightarrow> bool \<Rightarrow> loader downloads \<Rightarrow> loader downloads option" where
  "webPartLoaded t requestId webSize bytes written stored deleted s =
     do { (requestData, s) \<leftarrow> finishSentRequest t requestId Success s;
          let dc = task_dcId (dl_tasks s t)
          in do { (ok, s) \<leftarrow> setWebFileSizeHook t webSize s;
                  s \<leftarrow> (if ok then map_option snd (feedPart t (rd_offset requestData) bytes written stored s) else Some s);
                  s \<leftarrow> delete_now deleted t s;
                  checkSendNextAfterSuccess loader_calls dc s } }"

definition partFailed :: "task_id \<Rightarrow> bool \<Rightarrow> loader downloads \<Rightarrow> (bool \<times> loader downloads) option" where
  "partFailed t defaultHandled s = (if defaultHandled then Some (False, s) else map_option (Pair True) (cancelOnFail t s))"

text \<open>The request for a new reference of the file is answered later, by \<open>refreshFileReferenceFrom\<close>.\<close>

definition normalPartFailed :: "task_id \<Rightarrow> bool \<Rightarrow> bool \<Rightarrow> loader downloads \<Rightarrow> (bool \<times> loader downloads) option" where
  "normalPartFailed t defaultHandled referenceError s =
     (if defaultHandled then Some (False, s) else if referenceError then Some (True, s) else partFailed t defaultHandled s)"

text \<open>The reference of a stored file was refreshed: is it another one now?\<close>

definition refreshFileReferenceFrom :: "task_id \<Rightarrow> bool \<Rightarrow> bool \<Rightarrow> int \<Rightarrow> loader downloads \<Rightarrow> loader downloads option" where
  "refreshFileReferenceFrom t storageLocation same requestId s =
     (if \<not> storageLocation \<or> same then cancelOnFail t s
      else if requestId \<in> fst ` set (sentRequests (dl_tasks s t)) then resendRequest t requestId s
      else Some s)"

end
