(* ===== verification/DownloadRuns.thy ===== *)
theory DownloadRuns
  imports DownloadLoaders
begin

text \<open>
  The download manager with its tasks from the start on: whatever its users, the server and the timers do in which order, no
  check fails, every operation returns and the books stay in order.
\<close>

section \<open>Definitions\<close>

text \<open>What a loader knows of the offsets that are requested.\<close>

definition loader_inv :: "loader \<Rightarrow> int set \<Rightarrow> bool" where
  "loader_inv u K \<longleftrightarrow>
     (case u of
        FileTask f \<Rightarrow> (\<forall>offset \<in> K. offset < fl_nextRequestOffset f) \<and> (fl_finished f \<longrightarrow> K = {})
      | StreamTask l \<Rightarrow> pq_ok (sl_requested l) \<and> pq_values (sl_requested l) \<inter> K = {} \<and> -1 \<le> sl_priority l)"

definition good :: "loader downloads \<Rightarrow> bool" where
  "good s \<longleftrightarrow> books_ok s \<and> loaders_ok loader_inv s"

text \<open>An operation that returns, with everything in order and the same tasks as before.\<close>

definition handled :: "loader downloads \<Rightarrow> loader downloads option \<Rightarrow> bool" where
  "handled s r \<longleftrightarrow> (\<exists>s'. r = Some s' \<and> good s' \<and> same_live s s')"

section \<open>The loaders keep their contract\<close>

lemma haveSentRequests_offsets: "\<not> haveSentRequests x \<Longrightarrow> sentRequests x = [] \<and> cdnUncheckedParts x = []"
  by (simp add: haveSentRequests_def)

interpretation loaders: download_loader loader_calls loader_inv
proof unfold_locales
  fix x :: "loader download_task"
  assume inv: "loader_inv (task_loader x) (sent_offsets x)" and "readyToRequest loader_calls x"
  then have ready: "task_ready x" by (simp add: loader_calls_def)
  show "\<exists>offset u. takeNextRequestOffset loader_calls x = Some (offset, u) \<and> offset \<notin> sent_offsets x \<and> loader_inv u (insert offset (sent_offsets x))"
  proof (cases "task_loader x")
    case (FileTask f)
    then show ?thesis
      using inv ready part_positive by (fastforce simp: loader_calls_def task_take_def loader_inv_def task_ready_def)
  next
    case (StreamTask l)
    then have q: "pq_ok (sl_requested l)" "\<not> pq_empty (sl_requested l)" "pq_values (sl_requested l) \<inter> sent_offsets x = {}" "-1 \<le> sl_priority l"
      using inv ready by (simp_all add: loader_inv_def task_ready_def)
    obtain v where v: "fst (pq_take (sl_requested l)) = Some v" "v \<in> pq_values (sl_requested l)" "pq_ok (snd (pq_take (sl_requested l)))"
      "pq_values (snd (pq_take (sl_requested l))) = pq_values (sl_requested l) - {v}"
      using pq_take_ok [OF q(1,2)] by metis
    then obtain r where r: "pq_take (sl_requested l) = (Some v, r)" by (cases "pq_take (sl_requested l)") simp
    have "takeNextRequestOffset loader_calls x = Some (v, StreamTask (l\<lparr>sl_requested := r\<rparr>))"
      using StreamTask r by (simp add: loader_calls_def task_take_def)
    moreover have "v \<notin> sent_offsets x" "loader_inv (StreamTask (l\<lparr>sl_requested := r\<rparr>)) (insert v (sent_offsets x))"
      using v(2-4) q(3,4) r by (auto simp: loader_inv_def)
    ultimately show ?thesis by blast
  qed
next
  show "loader_inv u K'" if "loader_inv u K" "K' \<subseteq> K" for u K K'
    using that by (cases u) (auto simp: loader_inv_def)
qed

section \<open>File loaders\<close>

lemma goodD: "good s \<Longrightarrow> books_ok s" "good s \<Longrightarrow> loaders_ok loader_inv s"
  by (simp_all add: good_def)

lemma good_inv: "good s \<Longrightarrow> t \<in> set (dl_live s) \<Longrightarrow> loader_inv (task_loader (dl_tasks s t)) (sent_offsets (dl_tasks s t))"
  by (simp add: good_def loaders_ok_def)

lemma same_live_refl [simp]: "same_live s s"
  by (simp add: same_live_def)

lemma same_live_trans: "same_live s s' \<Longrightarrow> same_live s' s'' \<Longrightarrow> same_live s s''"
  by (simp add: same_live_def)

lemma tasks_shrink_live: "tasks_shrink s s' \<Longrightarrow> same_live s s'"
  by (simp add: same_live_def tasks_shrink_def)

lemma tasks_same_live: "tasks_same s s' \<Longrightarrow> same_live s s'"
  by (simp add: same_live_def tasks_same_def)

lemma same_live_set: "same_live s s' \<Longrightarrow> t \<in> set (dl_live s') \<longleftrightarrow> t \<in> set (dl_live s)"
  by (simp add: same_live_def)

lemma tasks_shrink_good: "good s \<Longrightarrow> books_ok s' \<Longrightarrow> tasks_shrink s s' \<Longrightarrow> good s'"
  using loaders_ok_frame [OF goodD(2) loaders.fewer] by (simp add: good_def)

lemma no_offsets:
  assumes "good s" "t \<in> set (dl_live s)" "\<not> haveSentRequests (dl_tasks s t)"
  shows "sent_offsets (dl_tasks s t) = {}"
  using no_sent_offsets [OF goodD(1) [OF assms(1)] assms(2)] haveSentRequests_offsets [OF assms(3)]
  by (simp add: sent_offsets_def haveSentRequestForOffset_def)

lemma update_loader_good:
  assumes "good s" "t \<in> set (dl_live s) \<Longrightarrow> loader_inv (h (dl_tasks s t)) (sent_offsets (dl_tasks s t))"
  shows "good (update_task t (\<lambda>x. x\<lparr>task_loader := h x\<rparr>) s)"
proof -
  have "books_ok (update_task t (\<lambda>x. x\<lparr>task_loader := h x\<rparr>) s)" by (rule update_task_books [OF goodD(1) [OF assms(1)]]) simp_all
  moreover have "sent_offsets (x\<lparr>task_loader := u\<rparr>) = sent_offsets x" for x :: "loader download_task" and u
    by (simp add: sent_offsets_def haveSentRequestForOffset_def)
  ultimately show ?thesis using assms good_inv [OF assms(1)] by (auto simp: good_def loaders_ok_def)
qed

lemma update_file_good:
  assumes "good s" "\<And>f. t \<in> set (dl_live s) \<Longrightarrow> task_loader (dl_tasks s t) = FileTask f \<Longrightarrow> loader_inv (FileTask (g f)) (sent_offsets (dl_tasks s t))"
  shows "good (update_file t g s)"
  unfolding update_file_def
proof (rule update_loader_good [OF assms(1)])
  assume "t \<in> set (dl_live s)"
  then show "loader_inv (case task_loader (dl_tasks s t) of FileTask f \<Rightarrow> FileTask (g f) | StreamTask l \<Rightarrow> StreamTask l) (sent_offsets (dl_tasks s t))"
    using assms(2) good_inv [OF assms(1)] by (cases "task_loader (dl_tasks s t)") fastforce+
qed

lemma update_file_simps [simp]:
  "dl_live (update_file t g s) = dl_live s" "same_live s (update_file t g s)" "u \<noteq> t \<Longrightarrow> dl_tasks (update_file t g s) u = dl_tasks s u"
  "sentRequests (dl_tasks (update_file t g s) u) = sentRequests (dl_tasks s u)" "haveSentRequests (dl_tasks (update_file t g s) u) = haveSentRequests (dl_tasks s u)"
  "sent_offsets (dl_tasks (update_file t g s) u) = sent_offsets (dl_tasks s u)" "task_dcId (dl_tasks (update_file t g s) u) = task_dcId (dl_tasks s u)"
  "task_loader (dl_tasks s t) = FileTask f \<Longrightarrow> task_loader (dl_tasks (update_file t g s) t) = FileTask (g f)"
  by (auto simp: update_file_def same_live_def haveSentRequests_def sent_offsets_def haveSentRequestForOffset_def)

lemma cancelAllRequests_good:
  assumes "good s" "t \<in> set (dl_live s)"
  shows "\<exists>s'. cancelAllRequests t s = Some s' \<and> good s' \<and> same_live s s' \<and> \<not> haveSentRequests (dl_tasks s' t) \<and> sent_offsets (dl_tasks s' t) = {}
    \<and> task_loader (dl_tasks s' t) = task_loader (dl_tasks s t)"
proof -
  obtain s' where "cancelAllRequests t s = Some s'" "books_ok s'" "tasks_shrink s s'" "\<not> haveSentRequests (dl_tasks s' t)" "sent_offsets (dl_tasks s' t) = {}"
    using cancelAllRequests_books [OF goodD(1) [OF assms(1)] assms(2)] by blast
  then show ?thesis using tasks_shrink_good [OF assms(1)] tasks_shrink_live by (intro exI [of _ s']) (simp add: tasks_shrink_def)
qed

lemma file_cancel_good:
  assumes "good s" "t \<in> set (dl_live s)"
  shows "\<exists>s'. file_cancel t s = Some s' \<and> good s' \<and> same_live s s'"
proof -
  obtain s1 where s1: "cancelAllRequests t s = Some s1" "good s1" "same_live s s1" "sent_offsets (dl_tasks s1 t) = {}"
    using cancelAllRequests_good [OF assms] by blast
  let ?g = "\<lambda>f. f\<lparr>fl_finished := True, fl_cancelled := True, fl_fileIsOpen := False, fl_data := []\<rparr>"
  have "good (update_file t ?g s1)" by (rule update_file_good [OF s1(2)]) (simp add: loader_inv_def s1(4))
  then show ?thesis using s1 same_live_trans [OF s1(3)] by (simp add: file_cancel_def)
qed

lemma write_memory_simps [simp]:
  "fl_finished (write_memory offset buffer f) = fl_finished f" "fl_nextRequestOffset (write_memory offset buffer f) = fl_nextRequestOffset f"
  by (simp_all add: write_memory_def Let_def)

lemma skip_in_file_simps [simp]:
  "fl_finished (skip_in_file offset buffer f) = fl_finished f" "fl_nextRequestOffset (skip_in_file offset buffer f) = fl_nextRequestOffset f"
  "fl_finished (write_file offset buffer f) = fl_finished f" "fl_nextRequestOffset (write_file offset buffer f) = fl_nextRequestOffset f"
  by (simp_all add: skip_in_file_def write_file_def)

lemma update_file_simple_good:
  assumes "good s" "\<And>f. fl_finished (g f) = fl_finished f" "\<And>f. fl_nextRequestOffset (g f) = fl_nextRequestOffset f"
  shows "good (update_file t g s)"
  by (rule update_file_good [OF assms(1)]) (use good_inv [OF assms(1), of t] in \<open>simp add: loader_inv_def assms(2,3)\<close>)

lemma writeResultPart_good:
  assumes "good s" "t \<in> set (dl_live s)" "task_loader (dl_tasks s t) = FileTask f" "\<not> fl_finished f"
  shows "\<exists>ok s'. writeResultPart t f offset buffer written s = Some (ok, s') \<and> good s' \<and> same_live s s'
    \<and> (ok \<longrightarrow> (\<exists>f'. task_loader (dl_tasks s' t) = FileTask f' \<and> \<not> fl_finished f'))"
proof -
  have "good (update_file t (write_memory (nat offset) buffer) s)" by (rule update_file_simple_good [OF assms(1)]) simp_all
  moreover define s1 where "s1 = update_file t (skip_in_file offset buffer) s"
  have s1: "good s1" "same_live s s1" "t \<in> set (dl_live s1)" "task_loader (dl_tasks s1 t) = FileTask (skip_in_file offset buffer f)"
    unfolding s1_def using assms(2,3) by (simp_all add: update_file_simple_good [OF assms(1)])
  moreover have "good (update_file t (write_file offset buffer) s1)" by (rule update_file_simple_good [OF s1(1)]) simp_all
  moreover obtain s' where "file_cancel t s1 = Some s'" "good s'" "same_live s1 s'" using file_cancel_good [OF s1(1,3)] by blast
  ultimately show ?thesis
    using assms same_live_trans [OF s1(2)] by (auto simp: writeResultPart_def Let_def simp flip: s1_def)
qed

lemma finalizeResult_good:
  assumes "good s" "t \<in> set (dl_live s)" "task_loader (dl_tasks s t) = FileTask f" "\<not> fl_finished f" "sent_offsets (dl_tasks s t) = {}"
  shows "\<exists>ok s'. finalizeResult t stored s = Some (ok, s') \<and> good s' \<and> same_live s s'"
proof -
  have "good (update_file t (\<lambda>f. f\<lparr>fl_finished := True, fl_fileIsOpen := False\<rparr>) s)"
    by (rule update_file_good [OF assms(1)]) (simp add: loader_inv_def assms(5))
  then show ?thesis using assms(3,4) file_cancel_good [OF assms(1,2)] by (auto simp: finalizeResult_def)
qed

lemma dl_remove_good:
  assumes "good s" "\<not> haveSentRequests (dl_tasks s t)"
  shows "\<exists>s'. dl_remove loader_calls t s = Some s' \<and> good s' \<and> same_live s s' \<and> dl_tasks s' t = dl_tasks s t"
  using loaders.dl_remove_ok [OF goodD [OF assms(1)] assms(2)] by (auto simp: good_def)

lemma file_feedPart_good:
  assumes "good s" "t \<in> set (dl_live s)" "task_loader (dl_tasks s t) = FileTask f" "\<not> fl_finished f"
  shows "\<exists>ok s'. file_feedPart t f offset bytes written stored s = Some (ok, s') \<and> good s' \<and> same_live s s'"
proof -
  obtain ok s1 where s1: "writeResultPart t f offset bytes written s = Some (ok, s1)" "good s1" "same_live s s1"
    "ok \<Longrightarrow> \<exists>f'. task_loader (dl_tasks s1 t) = FileTask f' \<and> \<not> fl_finished f'"
    using writeResultPart_good [OF assms] by blast
  define s2 where "s2 = (if bytes = [] \<or> length bytes mod 1024 \<noteq> 0 then update_file t (\<lambda>f. f\<lparr>fl_lastComplete := True\<rparr>) s1 else s1)"
  have live: "t \<in> set (dl_live s1)" using assms(2) s1(3) same_live_set by blast
  have "good (update_file t (\<lambda>f. f\<lparr>fl_lastComplete := True\<rparr>) s1)"
    by (rule update_file_good [OF s1(2)]) (use good_inv [OF s1(2) live] in \<open>simp add: loader_inv_def\<close>)
  then have s2: "good s2" "same_live s1 s2" using s1(2) by (simp_all add: s2_def)
  have unfold: "file_feedPart t f offset bytes written stored s =
      (if \<not> ok then Some (False, s1)
       else if loading_done (dl_tasks s2 t) then do { s \<leftarrow> dl_remove loader_calls t s2; finalizeResult t stored s } else Some (True, s2))"
    unfolding file_feedPart_def Let_def s1(1) s2_def by (simp only: Option.bind.bind_lunit prod.case)
  have last: "\<exists>ok s'. (if loading_done (dl_tasks s2 t) then do { s \<leftarrow> dl_remove loader_calls t s2; finalizeResult t stored s } else Some (True, s2)) = Some (ok, s')
    \<and> good s' \<and> same_live s2 s'" if yes: ok
  proof (cases "loading_done (dl_tasks s2 t)")
    case False
    then show ?thesis using s2 by (intro exI [of _ True] exI [of _ s2]) simp
  next
    case True
    obtain f1 where f1: "task_loader (dl_tasks s1 t) = FileTask f1" "\<not> fl_finished f1" using s1(4) [OF yes] by blast
    then have "\<exists>f2. task_loader (dl_tasks s2 t) = FileTask f2 \<and> \<not> fl_finished f2"
      unfolding s2_def by (cases "bytes = [] \<or> length bytes mod 1024 \<noteq> 0") simp_all
    then obtain f2 where f2: "task_loader (dl_tasks s2 t) = FileTask f2" "\<not> fl_finished f2" by blast
    have none: "\<not> haveSentRequests (dl_tasks s2 t)" using True f2(1) by (simp add: loading_done_def)
    obtain s3 where s3: "dl_remove loader_calls t s2 = Some s3" "good s3" "same_live s2 s3" "dl_tasks s3 t = dl_tasks s2 t"
      using dl_remove_good [OF s2(1) none] by blast
    have live3: "t \<in> set (dl_live s3)" "t \<in> set (dl_live s2)" using live s2(2) s3(3) same_live_set by blast+
    obtain ok' s4 where "finalizeResult t stored s3 = Some (ok', s4)" "good s4" "same_live s3 s4"
      using finalizeResult_good [OF s3(2) live3(1)] f2 s3(4) no_offsets [OF s2(1) live3(2) none] by metis
    then show ?thesis using True s3 same_live_trans by auto
  qed
  show ?thesis
  proof (cases ok)
    case True
    obtain ok' s' where s': "(if loading_done (dl_tasks s2 t) then do { s \<leftarrow> dl_remove loader_calls t s2; finalizeResult t stored s } else Some (True, s2)) = Some (ok', s')"
      "good s'" "same_live s2 s'" using last [OF True] by blast
    have "file_feedPart t f offset bytes written stored s = Some (ok', s')"
      using True unfolding unfold s'(1) by simp
    then show ?thesis using s'(2) same_live_trans [OF same_live_trans [OF s1(3) s2(2)] s'(3)] by blast
  next
    case False
    then show ?thesis using s1(2,3) unfolding unfold by auto
  qed
qed

section \<open>Starting a file\<close>

lemma handledI: "r = Some s' \<Longrightarrow> good s' \<Longrightarrow> same_live s s' \<Longrightarrow> handled s r"
  by (simp add: handled_def)

lemma handledE:
  assumes "handled s r"
  obtains s' where "r = Some s'" "good s'" "same_live s s'"
  using assms by (auto simp: handled_def)

lemma handled_Some [simp]: "handled s (Some s') \<longleftrightarrow> good s' \<and> same_live s s'"
  by (simp add: handled_def)

lemma handled_trans: "same_live s s' \<Longrightarrow> handled s' r \<Longrightarrow> handled s r"
  by (auto simp: handled_def intro: same_live_trans)

lemma handled_bind:
  assumes "handled s r" "\<And>s'. good s' \<Longrightarrow> same_live s s' \<Longrightarrow> handled s' (f s')"
  shows "handled s (r \<bind> f)"
  using assms(1) by (elim handledE) (use assms(2) handled_trans in auto)

lemma handled_map:
  assumes "handled s r" "\<And>s'. good s' \<Longrightarrow> same_live s s' \<Longrightarrow> good (f s') \<and> same_live s' (f s')"
  shows "handled s (map_option f r)"
  using assms(1) by (elim handledE) (use assms(2) same_live_trans in auto)

lemma file_cancel_handled: "good s \<Longrightarrow> t \<in> set (dl_live s) \<Longrightarrow> handled s (file_cancel t s)"
  using file_cancel_good by (simp add: handled_def)

lemma dl_remove_handled: "good s \<Longrightarrow> \<not> haveSentRequests (dl_tasks s t) \<Longrightarrow> handled s (dl_remove loader_calls t s)"
  using dl_remove_good by (fastforce simp: handled_def)

lemma dl_enqueue_handled:
  assumes "good s" "t \<in> set (dl_live s)" "-1 \<le> priority"
  shows "handled s (dl_enqueue loader_calls t priority s)"
  using loaders.dl_enqueue_ok [OF goodD [OF assms(1)] assms(2,3)] by (auto simp: handled_def good_def)

lemma startLoading_handled: "good s \<Longrightarrow> t \<in> set (dl_live s) \<Longrightarrow> handled s (startLoading t s)"
  by (simp add: startLoading_def dl_enqueue_handled)

lemma file_feedPart_handled:
  assumes "good s" "t \<in> set (dl_live s)" "task_loader (dl_tasks s t) = FileTask f" "\<not> fl_finished f"
  shows "handled s (map_option snd (file_feedPart t f offset bytes written stored s))"
  using file_feedPart_good [OF assms, of offset bytes written stored] by (elim exE conjE) simp

lemma checkForOpen_cases:
  assumes "good s" "t \<in> set (dl_live s)" "task_loader (dl_tasks s t) = FileTask f" "\<not> fl_finished f"
  obtains ok s' where "checkForOpen t f toFileOnly opened s = Some (ok, s')" "good s'" "same_live s s'"
    "ok \<Longrightarrow> \<exists>f'. task_loader (dl_tasks s' t) = FileTask f' \<and> \<not> fl_finished f'" "ok \<Longrightarrow> sent_offsets (dl_tasks s' t) = sent_offsets (dl_tasks s t)"
proof -
  obtain s1 where "file_cancel t s = Some s1" "good s1" "same_live s s1" using file_cancel_good [OF assms(1,2)] by blast
  moreover have "good (update_file t (\<lambda>f. f\<lparr>fl_fileIsOpen := True, fl_fileSize := 0\<rparr>) s)" by (rule update_file_simple_good [OF assms(1)]) simp_all
  ultimately show thesis
    using assms that [of True s] that [of True "update_file t (\<lambda>f. f\<lparr>fl_fileIsOpen := True, fl_fileSize := 0\<rparr>) s"] that [of False s1]
    by (cases "toFileOnly \<longrightarrow> fl_fileIsOpen f"; cases opened) (auto simp: checkForOpen_def)
qed

lemma file_start_handled:
  assumes "good s" "t \<in> set (dl_live s)" "task_loader (dl_tasks s t) = FileTask f"
  shows "handled s (file_start t f local localOnly toFileOnly opened s)"
proof (cases "fl_finished f \<or> local \<or> localOnly")
  case True
  then show ?thesis using assms(1) file_cancel_handled [OF assms(1,2)] by (auto simp: file_start_def)
next
  case False
  then have "\<not> fl_finished f" by simp
  then obtain ok s' where s': "checkForOpen t f toFileOnly opened s = Some (ok, s')" "good s'" "same_live s s'"
    using checkForOpen_cases [OF assms] by metis
  then have "handled s' (startLoading t s')" using startLoading_handled assms(2) same_live_set by blast
  then show ?thesis using False s' handled_trans [OF s'(3)] by (simp add: file_start_def)
qed

text \<open>What a loader does with bytes it had stored: nothing is requested for it yet.\<close>

lemma startLoadingWithPartial_handled:
  assumes "good s" "t \<in> set (dl_live s)" "task_loader (dl_tasks s t) = FileTask f" "\<not> fl_finished f" "sent_offsets (dl_tasks s t) = {}"
  shows "handled s (startLoadingWithPartial t bytes written stored s)"
proof -
  define n where "n = length bytes div nat kDownloadPartSize * nat kDownloadPartSize"
  define s1 where "s1 = update_file t (\<lambda>f. f\<lparr>fl_nextRequestOffset := int n\<rparr>) s"
  have "good s1" unfolding s1_def by (rule update_file_good [OF assms(1)]) (simp add: loader_inv_def assms(5))
  moreover have f: "task_loader (dl_tasks s1 t) = FileTask (f\<lparr>fl_nextRequestOffset := int n\<rparr>)" using assms(3) by (simp add: s1_def)
  ultimately have "handled s1 (map_option snd (file_feedPart t (f\<lparr>fl_nextRequestOffset := int n\<rparr>) 0 (take n bytes) written stored s1))"
    using assms(2,4) by (intro file_feedPart_handled) (simp_all add: s1_def)
  then have "handled s (map_option snd (file_feedPart t (f\<lparr>fl_nextRequestOffset := int n\<rparr>) 0 (take n bytes) written stored s1))"
    by (rule handled_trans [rotated]) (simp add: s1_def)
  then have first: "handled s (if n > 0 then case task_loader (dl_tasks s1 t) of
        FileTask f \<Rightarrow> map_option snd (file_feedPart t f 0 (take n bytes) written stored s1) | StreamTask l \<Rightarrow> None else Some s)"
    using assms(1) by (simp add: f)
  show ?thesis
    unfolding startLoadingWithPartial_def Let_def n_def [symmetric] s1_def [symmetric]
    using assms(2) by (intro handled_bind first startLoading_handled) (simp_all add: same_live_set)
qed

lemma finishWithBytes_handled:
  assumes "good s" "t \<in> set (dl_live s)" "sent_offsets (dl_tasks s t) = {}"
  shows "handled s (finishWithBytes t bytes stored s)"
proof -
  define s1 where "s1 = update_file t (\<lambda>f. f\<lparr>fl_data := bytes\<rparr>) s"
  have s1: "good s1" "same_live s s1" unfolding s1_def by (rule update_file_simple_good [OF assms(1)]) simp_all
  have "handled s1 (file_cancel t s1)" using file_cancel_handled [OF s1(1)] assms(2) by (simp add: s1_def)
  moreover have "good (update_file t (\<lambda>f. f\<lparr>fl_finished := True, fl_fileIsOpen := False\<rparr>) s1)"
    by (rule update_file_good [OF s1(1)]) (simp add: loader_inv_def s1_def assms(3))
  ultimately show ?thesis
    using handled_trans [OF s1(2)] same_live_trans [OF s1(2)] by (simp add: finishWithBytes_def Let_def flip: s1_def)
qed

lemma localLoaded_handled:
  assumes "good s" "t \<in> set (dl_live s)" "task_loader (dl_tasks s t) = FileTask f" "\<not> fl_finished f" "sent_offsets (dl_tasks s t) = {}"
  shows "handled s (localLoaded t f result localOnly toFileOnly opened written stored s)"
proof (cases result)
  case None
  then show ?thesis using file_start_handled [OF assms(1-3)] by (simp add: localLoaded_def)
next
  case (Some r)
  obtain partial bytes where r: "r = (partial, bytes)" by (cases r)
  obtain ok s' where s': "checkForOpen t f toFileOnly opened s = Some (ok, s')" "good s'" "same_live s s'"
    "ok \<Longrightarrow> \<exists>f'. task_loader (dl_tasks s' t) = FileTask f' \<and> \<not> fl_finished f'" "ok \<Longrightarrow> sent_offsets (dl_tasks s' t) = sent_offsets (dl_tasks s t)"
    using checkForOpen_cases [OF assms(1-4)] by metis
  have live: "t \<in> set (dl_live s')" using s'(3) assms(2) same_live_set by blast
  have "handled s' (if ok then startLoadingWithPartial t bytes written stored s' else Some s')"
    using s'(2,4,5) assms(5) startLoadingWithPartial_handled [OF s'(2) live] by auto
  then show ?thesis
    using s'(1) handled_trans [OF s'(3)] finishWithBytes_handled [OF assms(1,2,5)] by (simp add: localLoaded_def Some r)
qed

lemma increaseLoadSize_handled:
  assumes "good s" "task_loader (dl_tasks s t) = FileTask f" "fl_loadSize f < newSize" "newSize \<le> fl_fullSize f"
  shows "handled s (increaseLoadSize t newSize s)"
  using update_file_simple_good [OF assms(1)] assms(2-4) by (simp add: increaseLoadSize_def)

section \<open>Streaming loaders\<close>

lemma update_stream_good:
  assumes "good s" "\<And>l. t \<in> set (dl_live s) \<Longrightarrow> task_loader (dl_tasks s t) = StreamTask l \<Longrightarrow> loader_inv (StreamTask (g l)) (sent_offsets (dl_tasks s t))"
  shows "good (update_stream t g s)"
  unfolding update_stream_def
proof (rule update_loader_good [OF assms(1)])
  assume "t \<in> set (dl_live s)"
  then show "loader_inv (case task_loader (dl_tasks s t) of FileTask f \<Rightarrow> FileTask f | StreamTask l \<Rightarrow> StreamTask (g l)) (sent_offsets (dl_tasks s t))"
    using assms(2) good_inv [OF assms(1)] by (cases "task_loader (dl_tasks s t)") fastforce+
qed

lemma update_stream_simps [simp]:
  "dl_live (update_stream t g s) = dl_live s" "same_live s (update_stream t g s)"
  "haveSentRequests (dl_tasks (update_stream t g s) u) = haveSentRequests (dl_tasks s u)"
  "task_loader (dl_tasks s t) = StreamTask l \<Longrightarrow> task_loader (dl_tasks (update_stream t g s) t) = StreamTask (g l)"
  by (auto simp: update_stream_def same_live_def haveSentRequests_def)

lemma fire_part_good: "good s \<Longrightarrow> good (fire_part t offset bytes s)" "same_live s (fire_part t offset bytes s)"
  unfolding fire_part_def by (rule update_stream_good, simp, frule good_inv, simp) (simp_all add: loader_inv_def)

lemma stream_inv:
  assumes "good s" "t \<in> set (dl_live s)" "task_loader (dl_tasks s t) = StreamTask l"
  shows "pq_ok (sl_requested l)" "pq_values (sl_requested l) \<inter> sent_offsets (dl_tasks s t) = {}" "-1 \<le> sl_priority l"
  using good_inv [OF assms(1,2)] assms(3) by (simp_all add: loader_inv_def)

lemma cancelForOffset_handled:
  assumes "good s" "t \<in> set (dl_live s)" "task_loader (dl_tasks s t) = StreamTask l"
  shows "handled s (cancelForOffset t l offset s)"
proof -
  obtain s1 where s1: "cancelRequestForOffset t offset s = Some s1" "books_ok s1" "tasks_shrink s s1"
    using cancelRequestForOffset_books [OF goodD(1) [OF assms(1)] assms(2)] by blast
  have good1: "good s1" "same_live s s1" using tasks_shrink_good [OF assms(1) s1(2,3)] tasks_shrink_live [OF s1(3)] .
  have "handled s1 (addToQueueWithPriority t l s1)"
    unfolding addToQueueWithPriority_def
    using good1 assms(2) stream_inv(3) [OF assms] by (intro dl_enqueue_handled) (simp_all add: same_live_set)
  moreover have "good (update_stream t (\<lambda>l. l\<lparr>sl_requested := snd (pq_remove offset (sl_requested l))\<rparr>) s)"
    by (rule update_stream_good [OF assms(1)]) (use stream_inv [OF assms] assms(3) in \<open>auto simp: loader_inv_def pq_remove_ok\<close>)
  ultimately show ?thesis using s1(1) good1 handled_trans [OF good1(2)] by (simp add: cancelForOffset_def)
qed

lemma stream_load_handled:
  assumes "good s" "t \<in> set (dl_live s)" "task_loader (dl_tasks s t) = StreamTask l"
  shows "handled s (stream_load t l loaded offset s)"
proof (cases "loaded \<noteq> [] \<or> haveSentRequestForOffset (dl_tasks s t) offset")
  case True
  have "handled s (map_option (fire_part t offset loaded) (cancelForOffset t l offset s))"
    by (rule handled_map [OF cancelForOffset_handled [OF assms]]) (simp add: fire_part_good)
  then show ?thesis using True assms(1) by (auto simp: stream_load_def)
next
  case False
  obtain added q where q: "pq_add offset (sl_requested l) = (added, q)" by (cases "pq_add offset (sl_requested l)")
  note inv = stream_inv [OF assms]
  define s1 where "s1 = update_stream t (\<lambda>l. l\<lparr>sl_requested := q\<rparr>) s"
  have "offset \<notin> sent_offsets (dl_tasks s t)" using False by (simp add: sent_offsets_def)
  then have "good s1" unfolding s1_def
    using inv pq_add_ok [OF inv(1), of offset] q assms(3) by (intro update_stream_good [OF assms(1)]) (simp add: loader_inv_def)
  moreover have "same_live s s1" "t \<in> set (dl_live s1)" using assms(2) by (simp_all add: s1_def)
  ultimately have "handled s (if added then addToQueueWithPriority t l s1 else Some s1)"
    using inv(3) by (auto simp: addToQueueWithPriority_def intro!: handled_trans [of s s1] dl_enqueue_handled)
  then show ?thesis using False q by (simp add: stream_load_def flip: s1_def)
qed

lemma stream_stop_handled:
  assumes "good s" "t \<in> set (dl_live s)"
  shows "handled s (stream_stop t s)"
proof -
  obtain s1 where s1: "cancelAllRequests t s = Some s1" "good s1" "same_live s s1" "\<not> haveSentRequests (dl_tasks s1 t)"
    using cancelAllRequests_good [OF assms] by blast
  define s2 where "s2 = update_stream t (\<lambda>l. l\<lparr>sl_requested := pq_clear (sl_requested l)\<rparr>) s1"
  have "t \<in> set (dl_live s1)" using s1(3) assms(2) same_live_set by blast
  then have "good s2" unfolding s2_def
    by (intro update_stream_good [OF s1(2)]) (use stream_inv(3) [OF s1(2)] in \<open>simp add: loader_inv_def\<close>)
  then have "handled s2 (dl_remove loader_calls t s2)" using s1(4) by (intro dl_remove_handled) (simp_all add: s2_def)
  then have "handled s (dl_remove loader_calls t s2)"
    by (rule handled_trans [rotated]) (simp add: s2_def same_live_trans [OF s1(3)])
  then show ?thesis using s1(1) by (simp add: stream_stop_def flip: s2_def)
qed

lemma tryRemoveFromQueue_handled: "good s \<Longrightarrow> handled s (tryRemoveFromQueue t l s)"
  using dl_remove_handled by (auto simp: tryRemoveFromQueue_def)

lemma stream_resetPriorities_good: "good s \<Longrightarrow> good (stream_resetPriorities t s)" "same_live s (stream_resetPriorities t s)"
  unfolding stream_resetPriorities_def by (rule update_stream_good, simp, frule good_inv, simp) (simp_all add: loader_inv_def)

lemma setPriority_handled:
  assumes "good s" "t \<in> set (dl_live s)" "task_loader (dl_tasks s t) = StreamTask l" "-1 \<le> priority"
  shows "handled s (setPriority t l priority s)"
proof -
  define s1 where "s1 = update_stream t (\<lambda>l. l\<lparr>sl_priority := priority\<rparr>) s"
  have "good s1" unfolding s1_def
    by (rule update_stream_good [OF assms(1)]) (use stream_inv [OF assms(1-3)] assms(3,4) in \<open>simp add: loader_inv_def\<close>)
  moreover have "same_live s s1" "t \<in> set (dl_live s1)" using assms(2) by (simp_all add: s1_def)
  ultimately have "handled s (if haveSentRequests (dl_tasks s1 t) then addToQueueWithPriority t (l\<lparr>sl_priority := priority\<rparr>) s1 else Some s1)"
    using assms(4) by (auto simp: addToQueueWithPriority_def intro!: handled_trans [of s s1] dl_enqueue_handled)
  then show ?thesis using assms(1) by (simp add: setPriority_def Let_def flip: s1_def)
qed

section \<open>Answers\<close>

lemma request_not_finished:
  assumes "good s" "t \<in> set (dl_live s)" "map_of (sentRequests (dl_tasks s t)) r = Some rd" "task_loader (dl_tasks s t) = FileTask f"
  shows "\<not> fl_finished f"
proof -
  have "(r, rd) \<in> set (sentRequests (dl_tasks s t))" using assms(3) by (rule map_of_SomeD)
  then have "map_of (requestByOffset (dl_tasks s t)) (rd_offset rd) = Some r"
    using task_okD(5) [OF downloads_okD(5) [OF books_okD(1) [OF goodD(1) [OF assms(1)]] assms(2), unfolded live_ok_def]] by blast
  then have "rd_offset rd \<in> sent_offsets (dl_tasks s t)"
    by (auto simp: sent_offsets_def haveSentRequestForOffset_def dest!: map_of_SomeD intro: rev_image_eqI)
  then show ?thesis using good_inv [OF assms(1,2)] assms(4) by (auto simp: loader_inv_def)
qed

lemma finishSentRequest_cases:
  assumes "good s" "t \<in> set (dl_live s)" "map_of (sentRequests (dl_tasks s t)) r = Some rd"
  obtains s' where "finishSentRequest t r reason s = Some (rd, s')" "good s'" "same_live s s'"
    "\<And>f. task_loader (dl_tasks s' t) = FileTask f \<Longrightarrow> \<not> fl_finished f"
proof -
  obtain s' where s': "finishSentRequest t r reason s = Some (rd, s')" "books_ok s'" "tasks_shrink s s'"
    using finishSentRequest_books [OF goodD(1) [OF assms(1)] assms(2,3)] by blast
  show thesis
  proof (rule that [OF s'(1) tasks_shrink_good [OF assms(1) s'(2,3)] tasks_shrink_live [OF s'(3)]])
    fix f assume "task_loader (dl_tasks s' t) = FileTask f"
    then show "\<not> fl_finished f" using request_not_finished [OF assms] s'(3) by (simp add: tasks_shrink_def)
  qed
qed

lemma feedPart_handled:
  assumes "good s" "t \<in> set (dl_live s)" "\<And>f. task_loader (dl_tasks s t) = FileTask f \<Longrightarrow> \<not> fl_finished f"
  shows "handled s (map_option snd (feedPart t offset bytes written stored s))"
  using file_feedPart_handled [OF assms(1,2)] assms(1,3) fire_part_good
  by (cases "task_loader (dl_tasks s t)") (simp_all add: feedPart_def)

lemma checkSendNextAfterSuccess_handled:
  assumes "good s"
  shows "handled s (checkSendNextAfterSuccess loader_calls dc s)"
  using loaders.checkSendNextAfterSuccess_ok [OF goodD [OF assms]] by (auto simp: handled_def good_def)

lemma delete_loader_good:
  assumes "good s" "t \<in> set (dl_live s)"
  shows "\<exists>s'. delete_loader t s = Some s' \<and> good s' \<and> t \<notin> set (dl_live s')"
proof -
  have "handled s (case task_loader (dl_tasks s t) of FileTask f \<Rightarrow> if fl_finished f then Some s else file_cancel t s | StreamTask l \<Rightarrow> Some s)"
    using assms file_cancel_handled by (simp split: loader.split)
  then obtain s1 where s1: "(case task_loader (dl_tasks s t) of FileTask f \<Rightarrow> if fl_finished f then Some s else file_cancel t s | StreamTask l \<Rightarrow> Some s) = Some s1"
    "good s1" "same_live s s1" by (rule handledE)
  have "t \<in> set (dl_live s1)" using s1(3) assms(2) same_live_set by blast
  then show ?thesis
    using loaders.delete_task_ok [OF goodD [OF s1(2)]] unfolding delete_loader_def s1(1) by (auto simp: good_def)
qed

lemma handled_returns: "handled s r \<Longrightarrow> \<exists>s'. r = Some s' \<and> good s'"
  by (auto simp: handled_def)

text \<open>The end of an answer: the loader may be deleted, then the next parts are sent.\<close>

lemma after_answer_good:
  assumes "good s" "t \<in> set (dl_live s)"
  shows "\<exists>s'. (delete_now deleted t s \<bind> checkSendNextAfterSuccess loader_calls dc) = Some s' \<and> good s'"
proof -
  obtain s1 where "delete_now deleted t s = Some s1" "good s1"
    using delete_loader_good [OF assms] assms(1) by (cases deleted) (auto simp: delete_now_def)
  then show ?thesis using handled_returns [OF checkSendNextAfterSuccess_handled] by simp
qed

lemma bind_snd: "(r \<bind> (\<lambda>(_, s). f s)) = (map_option snd r \<bind> f)"
  by (cases r) auto

lemma normalPartLoaded_good:
  assumes "good s" "t \<in> set (dl_live s)" "map_of (sentRequests (dl_tasks s t)) r = Some rd"
  shows "\<exists>s'. normalPartLoaded t r bytes written stored deleted s = Some s' \<and> good s'"
proof -
  obtain s1 where s1: "finishSentRequest t r Success s = Some (rd, s1)" "good s1" "same_live s s1"
    "\<And>f. task_loader (dl_tasks s1 t) = FileTask f \<Longrightarrow> \<not> fl_finished f"
    using finishSentRequest_cases [OF assms] by metis
  have live: "t \<in> set (dl_live s1)" using s1(3) assms(2) same_live_set by blast
  obtain s2 where s2: "map_option snd (feedPart t (rd_offset rd) bytes written stored s1) = Some s2" "good s2" "same_live s1 s2"
    using handledE [OF feedPart_handled [OF s1(2) live s1(4)]] .
  have "t \<in> set (dl_live s2)" using s2(3) live same_live_set by blast
  then show ?thesis using s1(1) s2(1) after_answer_good [OF s2(2)] by (simp add: normalPartLoaded_def Let_def bind_snd del: map_option_eq_Some)
qed

lemma setWebFileSizeHook_cases:
  assumes "good s" "t \<in> set (dl_live s)" "\<And>f. task_loader (dl_tasks s t) = FileTask f \<Longrightarrow> \<not> fl_finished f"
  obtains ok s' where "setWebFileSizeHook t webSize s = Some (ok, s')" "good s'" "same_live s s'"
    "\<And>f. ok \<Longrightarrow> task_loader (dl_tasks s' t) = FileTask f \<Longrightarrow> \<not> fl_finished f"
proof (cases "task_loader (dl_tasks s t)")
  case (FileTask f)
  define s1 where "s1 = update_file t (\<lambda>f. f\<lparr>fl_loadSize := webSize, fl_fullSize := webSize\<rparr>) s"
  have "good s1" unfolding s1_def by (rule update_file_simple_good [OF assms(1)]) simp_all
  moreover have "same_live s s1" "task_loader (dl_tasks s1 t) = FileTask g \<Longrightarrow> \<not> fl_finished g" for g
    using FileTask assms(3) by (auto simp: s1_def)
  moreover obtain s2 where "file_cancel t s = Some s2" "good s2" "same_live s s2" using file_cancel_good [OF assms(1,2)] by blast
  ultimately show thesis
    using FileTask that [of True s1] that [of False s2]
    by (cases "fl_fullSize f = 0 \<or> fl_fullSize f = webSize") (auto simp: setWebFileSizeHook_def s1_def)
next
  case (StreamTask l)
  then show thesis using that [of True s] assms(1) by (simp add: setWebFileSizeHook_def)
qed

lemma webPartLoaded_good:
  assumes "good s" "t \<in> set (dl_live s)" "map_of (sentRequests (dl_tasks s t)) r = Some rd"
  shows "\<exists>s'. webPartLoaded t r webSize bytes written stored deleted s = Some s' \<and> good s'"
proof -
  obtain s1 where s1: "finishSentRequest t r Success s = Some (rd, s1)" "good s1" "same_live s s1"
    "\<And>f. task_loader (dl_tasks s1 t) = FileTask f \<Longrightarrow> \<not> fl_finished f"
    using finishSentRequest_cases [OF assms] by metis
  have live: "t \<in> set (dl_live s1)" using s1(3) assms(2) same_live_set by blast
  obtain ok s2 where s2: "setWebFileSizeHook t webSize s1 = Some (ok, s2)" "good s2" "same_live s1 s2"
    "\<And>f. ok \<Longrightarrow> task_loader (dl_tasks s2 t) = FileTask f \<Longrightarrow> \<not> fl_finished f"
    using setWebFileSizeHook_cases [OF s1(2) live s1(4)] by metis
  have live2: "t \<in> set (dl_live s2)" using s2(3) live same_live_set by blast
  have "handled s2 (if ok then map_option snd (feedPart t (rd_offset rd) bytes written stored s2) else Some s2)"
    using feedPart_handled [OF s2(2) live2 s2(4)] s2(2) by simp
  then obtain s3 where s3: "(if ok then map_option snd (feedPart t (rd_offset rd) bytes written stored s2) else Some s2) = Some s3" "good s3" "same_live s2 s3"
    by (rule handledE)
  have "t \<in> set (dl_live s3)" using s3(3) live2 same_live_set by blast
  then show ?thesis using s1(1) s2(1) after_answer_good [OF s3(2)] unfolding webPartLoaded_def by (simp add: Let_def s3(1))
qed

lemma cancelOnFail_handled: "good s \<Longrightarrow> t \<in> set (dl_live s) \<Longrightarrow> handled s (cancelOnFail t s)"
  using file_cancel_handled fire_part_good by (simp add: cancelOnFail_def split: loader.split)

lemma partFailed_handled: "good s \<Longrightarrow> t \<in> set (dl_live s) \<Longrightarrow> handled s (map_option snd (partFailed t defaultHandled s))"
  using cancelOnFail_handled by (simp add: partFailed_def option.map_comp comp_def option.map_ident)

lemma normalPartFailed_handled:
  "good s \<Longrightarrow> t \<in> set (dl_live s) \<Longrightarrow> handled s (map_option snd (normalPartFailed t defaultHandled referenceError s))"
  using partFailed_handled by (simp add: normalPartFailed_def)

lemma refreshFileReferenceFrom_handled:
  assumes "good s" "t \<in> set (dl_live s)"
  shows "handled s (refreshFileReferenceFrom t storageLocation same requestId s)"
proof (cases "requestId \<in> fst ` set (sentRequests (dl_tasks s t))")
  case True
  then obtain rd where "map_of (sentRequests (dl_tasks s t)) requestId = Some rd" by (metis map_of_eq_None_iff not_None_eq)
  then obtain s' where "resendRequest t requestId s = Some s'" "books_ok s'" "tasks_shrink s s'"
    using resendRequest_books [OF goodD(1) [OF assms(1)] assms(2)] by blast
  then show ?thesis
    using True cancelOnFail_handled [OF assms] tasks_shrink_good [OF assms(1)] tasks_shrink_live [of s s'] by (simp add: refreshFileReferenceFrom_def)
next
  case False
  then show ?thesis using cancelOnFail_handled [OF assms] assms(1) by (simp add: refreshFileReferenceFrom_def)
qed

end
