(* ===== verification/DownloadEvents.thy ===== *)
theory DownloadEvents
  imports DownloadRuns
begin

text \<open>
  What can happen to the download manager and its tasks, from an empty manager on: tasks are created, started,
  asked for parts, stopped and deleted, the server answers, timers fire and time passes, in any order. No check
  of the code fails, every operation returns, and what a session has as requested is what is requested.
\<close>

section \<open>Definitions\<close>

text \<open>
  The last arguments of an event are what the disk and the cache answer. A new task gets the number it is known
  by, \<open>t\<close>, which stands for its address.
\<close>

datatype event =
    NewFile task_id DcId bool int int
  | NewStream task_id DcId
  | StartFile task_id bool bool bool bool
  | LocalLoaded task_id "(bool \<times> string) option" bool bool bool bool bool
  | IncreaseLoadSize task_id int
  | CancelFile task_id
  | StreamLoad task_id string int
  | StreamCancel task_id int
  | StreamStop task_id
  | StreamTryRemove task_id
  | StreamResetPriorities task_id
  | StreamSetPriority task_id int
  | PartLoaded task_id int string bool bool bool
  | WebPartLoaded task_id int int string bool bool bool
  | PartFailed task_id bool
  | NormalPartFailed task_id bool bool
  | ReferenceRefreshed task_id bool bool int
  | DeleteTask task_id
  | SessionTimedOut DcId nat
  | ResetGeneration
  | KillSessions
  | TimePasses int

definition on_file :: "task_id \<Rightarrow> (file_loader \<Rightarrow> 'a option) \<Rightarrow> loader downloads \<Rightarrow> 'a option" where
  "on_file t g s = (case task_loader (dl_tasks s t) of FileTask f \<Rightarrow> g f | StreamTask l \<Rightarrow> None)"

definition on_stream :: "task_id \<Rightarrow> (stream_loader \<Rightarrow> 'a option) \<Rightarrow> loader downloads \<Rightarrow> 'a option" where
  "on_stream t g s = (case task_loader (dl_tasks s t) of FileTask f \<Rightarrow> None | StreamTask l \<Rightarrow> g l)"

fun handle :: "event \<Rightarrow> loader downloads \<Rightarrow> loader downloads option" where
  "handle (NewFile t dc named loadSize fullSize) s = map_option (\<lambda>u. new_task t dc u s) (new_file named loadSize fullSize)"
| "handle (NewStream t dc) s = Some (new_task t dc new_stream s)"
| "handle (StartFile t local localOnly toFileOnly opened) s = on_file t (\<lambda>f. file_start t f local localOnly toFileOnly opened s) s"
| "handle (LocalLoaded t result localOnly toFileOnly opened written stored) s =
     on_file t (\<lambda>f. localLoaded t f result localOnly toFileOnly opened written stored s) s"
| "handle (IncreaseLoadSize t newSize) s = increaseLoadSize t newSize s"
| "handle (CancelFile t) s = file_cancel t s"
| "handle (StreamLoad t loaded offset) s = on_stream t (\<lambda>l. stream_load t l loaded offset s) s"
| "handle (StreamCancel t offset) s = on_stream t (\<lambda>l. cancelForOffset t l offset s) s"
| "handle (StreamStop t) s = stream_stop t s"
| "handle (StreamTryRemove t) s = on_stream t (\<lambda>l. tryRemoveFromQueue t l s) s"
| "handle (StreamResetPriorities t) s = Some (stream_resetPriorities t s)"
| "handle (StreamSetPriority t priority) s = on_stream t (\<lambda>l. setPriority t l priority s) s"
| "handle (PartLoaded t requestId bytes written stored deleted) s = normalPartLoaded t requestId bytes written stored deleted s"
| "handle (WebPartLoaded t requestId webSize bytes written stored deleted) s = webPartLoaded t requestId webSize bytes written stored deleted s"
| "handle (PartFailed t defaultHandled) s = map_option snd (partFailed t defaultHandled s)"
| "handle (NormalPartFailed t defaultHandled referenceError) s = map_option snd (normalPartFailed t defaultHandled referenceError s)"
| "handle (ReferenceRefreshed t storageLocation same requestId) s = refreshFileReferenceFrom t storageLocation same requestId s"
| "handle (DeleteTask t) s = delete_loader t s"
| "handle (SessionTimedOut dc index) s = sessionTimedOut dc index s"
| "handle ResetGeneration s = dl_resetGeneration s"
| "handle KillSessions s = killSessions s"
| "handle (TimePasses now) s = Some (at_time now s)"

text \<open>
  Which events can happen: those of a task as long as it is there, of a kind that its loader has, and answers to
  requests that are sent. A file is not told what the cache had after it has started to load from the server.
  The conditions of \<open>increaseLoadSize\<close> and of the constructor are those their callers have to keep.
\<close>

definition file_event :: "task_id \<Rightarrow> (file_loader \<Rightarrow> bool) \<Rightarrow> loader downloads \<Rightarrow> bool" where
  "file_event t P s \<longleftrightarrow> t \<in> set (dl_live s) \<and> (case task_loader (dl_tasks s t) of FileTask f \<Rightarrow> P f | StreamTask l \<Rightarrow> False)"

definition stream_event :: "task_id \<Rightarrow> loader downloads \<Rightarrow> bool" where
  "stream_event t s \<longleftrightarrow> t \<in> set (dl_live s) \<and> (case task_loader (dl_tasks s t) of FileTask f \<Rightarrow> False | StreamTask l \<Rightarrow> True)"

definition answer_event :: "task_id \<Rightarrow> int \<Rightarrow> loader downloads \<Rightarrow> bool" where
  "answer_event t requestId s \<longleftrightarrow> t \<in> set (dl_live s) \<and> requestId \<in> fst ` set (sentRequests (dl_tasks s t))"

fun event_ok :: "event \<Rightarrow> loader downloads \<Rightarrow> bool" where
  "event_ok (NewFile t dc named loadSize fullSize) s \<longleftrightarrow>
     t \<notin> set (dl_live s) \<and> loadSize \<le> fullSize \<and> (named \<or> fullSize \<le> kMaxFileInMemory)"
| "event_ok (NewStream t dc) s \<longleftrightarrow> t \<notin> set (dl_live s)"
| "event_ok (StartFile t local localOnly toFileOnly opened) s \<longleftrightarrow> file_event t (\<lambda>f. True) s"
| "event_ok (LocalLoaded t result localOnly toFileOnly opened written stored) s \<longleftrightarrow>
     file_event t (\<lambda>f. \<not> fl_finished f) s \<and> \<not> haveSentRequests (dl_tasks s t)"
| "event_ok (IncreaseLoadSize t newSize) s \<longleftrightarrow> file_event t (\<lambda>f. fl_loadSize f < newSize \<and> newSize \<le> fl_fullSize f) s"
| "event_ok (CancelFile t) s \<longleftrightarrow> file_event t (\<lambda>f. True) s"
| "event_ok (StreamLoad t loaded offset) s \<longleftrightarrow> stream_event t s"
| "event_ok (StreamCancel t offset) s \<longleftrightarrow> stream_event t s"
| "event_ok (StreamStop t) s \<longleftrightarrow> stream_event t s"
| "event_ok (StreamTryRemove t) s \<longleftrightarrow> stream_event t s"
| "event_ok (StreamResetPriorities t) s \<longleftrightarrow> stream_event t s"
| "event_ok (StreamSetPriority t priority) s \<longleftrightarrow> stream_event t s \<and> -1 \<le> priority"
| "event_ok (PartLoaded t requestId bytes written stored deleted) s \<longleftrightarrow> answer_event t requestId s"
| "event_ok (WebPartLoaded t requestId webSize bytes written stored deleted) s \<longleftrightarrow> answer_event t requestId s"
| "event_ok (PartFailed t defaultHandled) s \<longleftrightarrow> t \<in> set (dl_live s)"
| "event_ok (NormalPartFailed t defaultHandled referenceError) s \<longleftrightarrow> t \<in> set (dl_live s)"
| "event_ok (ReferenceRefreshed t storageLocation same requestId) s \<longleftrightarrow> t \<in> set (dl_live s)"
| "event_ok (DeleteTask t) s \<longleftrightarrow> t \<in> set (dl_live s)"
| "event_ok (SessionTimedOut dc index) s \<longleftrightarrow> True"
| "event_ok ResetGeneration s \<longleftrightarrow> True"
| "event_ok KillSessions s \<longleftrightarrow> True"
| "event_ok (TimePasses now) s \<longleftrightarrow> dl_now s \<le> now"

definition empty_task :: "loader download_task" where
  "empty_task = \<lparr>task_dcId = 0, sentRequests = [], requestByOffset = [], cdnDcId = 0, cdnUncheckedParts = [],
     cdnHashesRequestId = 0, task_loader = new_stream\<rparr>"

text \<open>The constructor of the manager. Request ids start from one.\<close>

definition new_manager :: "loader downloads" where
  "new_manager = \<lparr>balanceData = [], queues = [], killSessionsWhen = [], killSessionsTimer = None, resetGenerationTimer = None,
     dl_tasks = (\<lambda>_. empty_task), dl_live = [], dl_nextRequest = 1, dl_now = 0, dl_calls = []\<rparr>"

inductive reachable :: "loader downloads \<Rightarrow> bool" where
  start: "reachable new_manager"
| step: "reachable s \<Longrightarrow> event_ok e s \<Longrightarrow> handle e s = Some s' \<Longrightarrow> reachable s'"

fun run :: "event list \<Rightarrow> loader downloads \<Rightarrow> loader downloads option" where
  "run [] s = Some s"
| "run (e # es) s = (if event_ok e s then do { s \<leftarrow> handle e s; run es s } else None)"

text \<open>A file of three parts on data center 2: it starts, all parts are requested, and the first one arrives.\<close>

definition example_events :: "event list" where
  "example_events = [NewFile 1 2 False 300000 300000, StartFile 1 False False False False, TimePasses 50]"

definition example_answer :: event where
  "example_answer = PartLoaded 1 1 (replicate 16 (CHR ''a'')) True True False"

declare checkSendNext.simps [code] cancel_loop.simps [code]

section \<open>Every event is handled\<close>

lemma new_manager_good: "good new_manager"
proof -
  have "queue_of dc new_manager = []" "balances new_manager dc = None" for dc
    by (simp_all add: queue_of_def balances_def new_manager_def)
  then show ?thesis
    by (simp add: good_def books_ok_def downloads_ok_def rooms_ok_def sent_past_def loaders_ok_def queue_ok_def) (simp add: new_manager_def)
qed

lemma new_task_good:
  assumes "good s" "t \<notin> set (dl_live s)" "loader_inv u {}"
  shows "good (new_task t dc u s)"
proof -
  have "sent_offsets (dl_tasks (new_task t dc u s) t) = {}"
    by (simp add: new_task_def sent_offsets_def haveSentRequestForOffset_def)
  moreover have "task_loader (dl_tasks (new_task t dc u s) t) = u" "dl_live (new_task t dc u s) = t # dl_live s" by (simp_all add: new_task_def)
  moreover have "dl_tasks (new_task t dc u s) v = dl_tasks s v" if "v \<in> set (dl_live s)" for v
    using that assms(2) by (auto simp: new_task_def)
  ultimately show ?thesis
    using new_task_books [OF goodD(1) [OF assms(1)] assms(2)] goodD(2) [OF assms(1)] assms(3) by (simp add: good_def loaders_ok_def)
qed

lemma file_eventE:
  assumes "file_event t P s"
  obtains f where "t \<in> set (dl_live s)" "task_loader (dl_tasks s t) = FileTask f" "P f"
  using assms by (auto simp: file_event_def split: loader.splits)

lemma stream_eventE:
  assumes "stream_event t s"
  obtains l where "t \<in> set (dl_live s)" "task_loader (dl_tasks s t) = StreamTask l"
  using assms by (auto simp: stream_event_def split: loader.splits)

lemma answer_eventE:
  assumes "answer_event t r s"
  obtains rd where "t \<in> set (dl_live s)" "map_of (sentRequests (dl_tasks s t)) r = Some rd"
  using assms by (metis answer_event_def map_of_eq_None_iff not_None_eq)

lemma resetGeneration_handled: "good s \<Longrightarrow> handled s (dl_resetGeneration s)"
  using resetGeneration_books [OF goodD(1), of s] loaders_ok_same [OF goodD(2), of s] by (fastforce simp: handled_def good_def same_live_def)

lemma killSessions_handled: "good s \<Longrightarrow> handled s (killSessions s)"
  using kill_books [OF goodD(1), of s] loaders_ok_same [OF goodD(2), of s] by (fastforce simp: handled_def good_def same_live_def tasks_same_def)

lemma sessionTimedOut_handled: "good s \<Longrightarrow> handled s (sessionTimedOut dc index s)"
  using sessionTimedOut_ok [OF goodD(1), of s dc index] tasks_shrink_good tasks_shrink_live by (fastforce simp: handled_def)

lemma at_time_good: "good s \<Longrightarrow> dl_now s \<le> now \<Longrightarrow> good (at_time now s)"
  using at_time_books [OF goodD(1)] goodD(2) [of s] by (simp add: good_def loaders_ok_def) (simp add: at_time_def)

lemma new_loaders_inv: "new_file named loadSize fullSize = Some u \<Longrightarrow> loader_inv u {}" "loader_inv new_stream {}"
  by (auto simp: new_file_def new_stream_def loader_inv_def split: if_splits)

lemma file_event_handled:
  assumes "good s"
  shows "event_ok (StartFile t a b c d) s \<Longrightarrow> handled s (handle (StartFile t a b c d) s)"
    and "event_ok (LocalLoaded t r a b c d e) s \<Longrightarrow> handled s (handle (LocalLoaded t r a b c d e) s)"
    and "event_ok (IncreaseLoadSize t n) s \<Longrightarrow> handled s (handle (IncreaseLoadSize t n) s)"
    and "event_ok (CancelFile t) s \<Longrightarrow> handled s (handle (CancelFile t) s)"
  using assms file_start_handled localLoaded_handled no_offsets increaseLoadSize_handled file_cancel_handled
  by (auto simp: on_file_def elim!: file_eventE)

lemma stream_event_handled:
  assumes "good s"
  shows "event_ok (StreamLoad t b n) s \<Longrightarrow> handled s (handle (StreamLoad t b n) s)"
    and "event_ok (StreamCancel t n) s \<Longrightarrow> handled s (handle (StreamCancel t n) s)"
    and "event_ok (StreamStop t) s \<Longrightarrow> handled s (handle (StreamStop t) s)"
    and "event_ok (StreamTryRemove t) s \<Longrightarrow> handled s (handle (StreamTryRemove t) s)"
    and "event_ok (StreamResetPriorities t) s \<Longrightarrow> handled s (handle (StreamResetPriorities t) s)"
    and "event_ok (StreamSetPriority t p) s \<Longrightarrow> handled s (handle (StreamSetPriority t p) s)"
  using assms stream_load_handled cancelForOffset_handled stream_stop_handled tryRemoveFromQueue_handled stream_resetPriorities_good setPriority_handled
  by (auto simp: on_stream_def elim!: stream_eventE)

lemma answer_event_handled:
  assumes "good s"
  shows "event_ok (PartFailed t d) s \<Longrightarrow> handled s (handle (PartFailed t d) s)"
    and "event_ok (NormalPartFailed t d a) s \<Longrightarrow> handled s (handle (NormalPartFailed t d a) s)"
    and "event_ok (ReferenceRefreshed t a c r) s \<Longrightarrow> handled s (handle (ReferenceRefreshed t a c r) s)"
  using assms partFailed_handled normalPartFailed_handled refreshFileReferenceFrom_handled by auto

lemma handle_good:
  assumes "good s" "event_ok e s"
  shows "\<exists>s'. handle e s = Some s' \<and> good s'"
proof (cases e)
  case (NewFile t dc named loadSize fullSize)
  then obtain u where "new_file named loadSize fullSize = Some u" using assms(2) by (simp add: new_file_def)
  then show ?thesis using NewFile assms new_task_good [OF assms(1)] new_loaders_inv(1) by simp
next
  case (NewStream t dc)
  then show ?thesis using assms new_task_good [OF assms(1)] new_loaders_inv(2) by simp
next
  case (PartLoaded t r bytes written stored deleted)
  then show ?thesis using assms normalPartLoaded_good by (auto elim!: answer_eventE)
next
  case (WebPartLoaded t r webSize bytes written stored deleted)
  then show ?thesis using assms webPartLoaded_good by (auto elim!: answer_eventE)
next
  case (DeleteTask t)
  then show ?thesis using assms delete_loader_good by auto
next
  case (TimePasses now)
  then show ?thesis using assms at_time_good by simp
next
  case (SessionTimedOut dc index)
  then show ?thesis using handled_returns [OF sessionTimedOut_handled [OF assms(1)]] by simp
next
  case ResetGeneration
  then show ?thesis using handled_returns [OF resetGeneration_handled [OF assms(1)]] by simp
next
  case KillSessions
  then show ?thesis using handled_returns [OF killSessions_handled [OF assms(1)]] by simp
qed (insert assms(2), hypsubst, rule handled_returns, erule file_event_handled [OF assms(1)] stream_event_handled [OF assms(1)] answer_event_handled [OF assms(1)])+

lemma reachable_good: "reachable s \<Longrightarrow> good s"
proof (induction rule: reachable.induct)
  case start
  show ?case by (rule new_manager_good)
next
  case (step s e s')
  then show ?case using handle_good [of s e] by simp
qed

lemma run_reachable: "run es s = Some s' \<Longrightarrow> reachable s \<Longrightarrow> reachable s'"
  by (induction es s rule: run.induct) (auto split: if_splits bind_splits intro: reachable.step)

section \<open>Properties\<close>

lemma good_sessions:
  assumes "good s" "map_of (balanceData s) dc = Some b"
  shows "kStartSessionsCount \<le> length (sessions b)" "length (sessions b) \<le> kMaxSessionsCount"
    and "i < length (sessions b) \<Longrightarrow> requested (sessions b ! i) = kDownloadPartSize * int (load_of s dc i)"
    and "totalRequested b = (\<Sum>i < length (sessions b). requested (sessions b ! i))"
    and "totalRequested b \<le> kMaxWaitedInSession * int kMaxSessionsCount"
proof -
  note ok = books_okD [OF goodD(1) [OF assms(1)]]
  note balance = downloads_okD(6) [OF ok(1) assms(2), unfolded balance_ok_def]
  show "kStartSessionsCount \<le> length (sessions b)" "length (sessions b) \<le> kMaxSessionsCount" using balance by blast+
  show "requested (sessions b ! i) = kDownloadPartSize * int (load_of s dc i)" if "i < length (sessions b)" for i using balance that by simp
  then show "totalRequested b = (\<Sum>i < length (sessions b). requested (sessions b ! i))" using balance by (simp add: sum_distrib_left)
  have "room_ok s dc b" using rooms_okD [OF ok(2) assms(2)] .
  moreover have "(\<Sum>j < length (sessions b). load_of s dc j) \<le> (\<Sum>j < length (sessions b). max (load_of s dc j) kMaxParts)" by (intro sum_mono) simp
  ultimately have "(\<Sum>j < length (sessions b). load_of s dc j) \<le> kMaxParts * kMaxSessionsCount" by (simp add: room_ok_def)
  then have "totalRequested b \<le> request_cap"
    using balance part_positive by (simp add: request_cap_parts del: of_nat_mult of_nat_sum)
  then show "totalRequested b \<le> kMaxWaitedInSession * int kMaxSessionsCount" by (simp add: request_cap_def)
qed

lemma good_offsets:
  assumes "good s" "t \<in> set (dl_live s)"
  shows "distinct (map (rd_offset \<circ> snd) (sentRequests (dl_tasks s t)))"
proof -
  note task = task_okD [OF downloads_okD(5) [OF books_okD(1) [OF goodD(1) [OF assms(1)]] assms(2), unfolded live_ok_def]]
  have "inj_on (rd_offset \<circ> snd) (set (sentRequests (dl_tasks s t)))"
  proof (rule inj_onI)
    fix e e' assume e: "e \<in> set (sentRequests (dl_tasks s t))" "e' \<in> set (sentRequests (dl_tasks s t))" "(rd_offset \<circ> snd) e = (rd_offset \<circ> snd) e'"
    then have "fst e = fst e'" using task(5) [of "fst e" "snd e"] task(5) [of "fst e'" "snd e'"] by simp
    then show "e = e'" using e flat_map_ok_distinct [OF task(1)] by (metis map_of_eq_Some_iff option.inject prod.collapse)
  qed
  moreover have "distinct (sentRequests (dl_tasks s t))" using flat_map_ok_distinct [OF task(1)] by (simp add: distinct_map)
  ultimately show ?thesis by (simp add: distinct_map)
qed

text \<open>
  C4. Whatever happened since the download manager was constructed, everything that can happen next is handled: no
  assertion, expectation or unexpected case of the manager, its tasks and the loaders is hit and every loop returns.
  Afterwards every session of a data center has as requested exactly the parts that the live tasks wait for in it,
  the sum of them is kept right and never above what the largest number of sessions may wait for, there are
  between one and eight sessions, and no task waits for a part twice.
\<close>

theorem downloads_never_fail:
  assumes "reachable s" "event_ok e s"
  shows "\<exists>s'. handle e s = Some s'
    \<and> (\<forall>dc b. map_of (balanceData s') dc = Some b \<longrightarrow>
          kStartSessionsCount \<le> length (sessions b) \<and> length (sessions b) \<le> kMaxSessionsCount
          \<and> (\<forall>i < length (sessions b). requested (sessions b ! i) = kDownloadPartSize * int (load_of s' dc i))
          \<and> totalRequested b = (\<Sum>i < length (sessions b). requested (sessions b ! i))
          \<and> totalRequested b \<le> kMaxWaitedInSession * int kMaxSessionsCount)
    \<and> (\<forall>t \<in> set (dl_live s'). distinct (map (rd_offset \<circ> snd) (sentRequests (dl_tasks s' t))))"
proof -
  obtain s' where "handle e s = Some s'" "good s'" using handle_good [OF reachable_good [OF assms(1)] assms(2)] by blast
  then show ?thesis using good_sessions good_offsets by (intro exI [of _ s'] conjI allI impI ballI) blast+
qed

lemma example_run: "case run example_events new_manager of None \<Rightarrow> False | Some s \<Rightarrow> event_ok example_answer s"
  by code_simp

lemma example_reachable:
  obtains s where "run example_events new_manager = Some s" "reachable s" "event_ok example_answer s"
  using example_run run_reachable [OF _ reachable.start] by (cases "run example_events new_manager") auto

theorem downloads_never_fail_witness:
  "\<exists>s s'. run example_events new_manager = Some s \<and> reachable s \<and> event_ok example_answer s \<and> handle example_answer s = Some s'
    \<and> (\<forall>t \<in> set (dl_live s'). distinct (map (rd_offset \<circ> snd) (sentRequests (dl_tasks s' t))))"
proof -
  obtain s where s: "run example_events new_manager = Some s" "reachable s" "event_ok example_answer s" by (rule example_reachable)
  then show ?thesis using downloads_never_fail [OF s(2,3)] by blast
qed

text \<open>
  C5. Sending always comes to an end: from every state the manager can get into, \<open>checkSendNext\<close> returns for every data
  center, and then nothing more can be sent to it, because every session waits for as much as it may or no task that
  is next in the queue is ready. The tasks and the queues are the same as before, and whatever can happen then is handled.
\<close>

theorem sending_comes_to_an_end:
  assumes "reachable s"
  shows "\<exists>s'. checkSendNext loader_calls dc s = Some s' \<and> idle loader_calls dc s' \<and> tasks_same s s'
    \<and> (\<forall>e. event_ok e s' \<longrightarrow> handle e s' \<noteq> None)"
proof -
  note good = goodD [OF reachable_good [OF assms]]
  obtain s' where "checkSendNext loader_calls dc s = Some s'" "books_ok s'" "loaders_ok loader_inv s'" "tasks_same s s'" "idle loader_calls dc s'"
    using loaders.checkSendNext_ok [OF good] by blast
  moreover from this have "handle e s' \<noteq> None" if "event_ok e s'" for e using handle_good [OF _ that] by (auto simp: good_def)
  ultimately show ?thesis by blast
qed

theorem sending_comes_to_an_end_witness:
  "\<exists>s s'. run example_events new_manager = Some s \<and> reachable s \<and> checkSendNext loader_calls 2 s = Some s' \<and> idle loader_calls 2 s'"
proof -
  obtain s where s: "run example_events new_manager = Some s" "reachable s" "event_ok example_answer s" by (rule example_reachable)
  then show ?thesis using sending_comes_to_an_end [OF s(2), of 2] by blast
qed

end
