(* ===== verification/DownloadFrames.thy ===== *)
theory DownloadFrames
  imports DownloadEvents
begin

text \<open>
  What the operations on one task of the download manager leave alone: the other tasks, up to what sending does
  to them, and that request ids only grow.
\<close>

section \<open>Definitions\<close>

text \<open>The requests of a task when no CDN is involved.\<close>

definition plain :: "int \<Rightarrow> 'u download_task \<Rightarrow> bool" where
  "plain next_id x \<longleftrightarrow>
     0 < next_id \<and> cdnHashesRequestId x = 0 \<and> cdnUncheckedParts x = [] \<and> flat_map_ok (sentRequests x)
     \<and> (\<forall>r \<in> fst ` set (sentRequests x). 0 < r \<and> r < next_id)"

definition waits_for :: "'u download_task \<Rightarrow> int set" where
  "waits_for x = fst ` set (requestByOffset x)"

text \<open>What holds of every result.\<close>

definition keeps :: "('a \<Rightarrow> bool) \<Rightarrow> 'a option \<Rightarrow> bool" where
  "keeps H r \<longleftrightarrow> (\<forall>s. r = Some s \<longrightarrow> H s)"

text \<open>The task an event is about.\<close>

fun event_task :: "event \<Rightarrow> task_id option" where
  "event_task (NewFile t dc named loadSize fullSize) = Some t"
| "event_task (NewStream t dc) = Some t"
| "event_task (StartFile t local localOnly toFileOnly opened) = Some t"
| "event_task (LocalLoaded t result localOnly toFileOnly opened written stored) = Some t"
| "event_task (IncreaseLoadSize t newSize) = Some t"
| "event_task (CancelFile t) = Some t"
| "event_task (StreamLoad t loaded offset) = Some t"
| "event_task (StreamCancel t offset) = Some t"
| "event_task (StreamStop t) = Some t"
| "event_task (StreamTryRemove t) = Some t"
| "event_task (StreamResetPriorities t) = Some t"
| "event_task (StreamSetPriority t priority) = Some t"
| "event_task (PartLoaded t requestId bytes written stored deleted) = Some t"
| "event_task (WebPartLoaded t requestId webSize bytes written stored deleted) = Some t"
| "event_task (PartFailed t defaultHandled) = Some t"
| "event_task (NormalPartFailed t defaultHandled referenceError) = Some t"
| "event_task (ReferenceRefreshed t storageLocation same requestId) = Some t"
| "event_task (DeleteTask t) = Some t"
| "event_task (SessionTimedOut dc index) = None"
| "event_task ResetGeneration = None"
| "event_task KillSessions = None"
| "event_task (TimePasses now) = None"

section \<open>Requests\<close>

lemma change_tasks: "changeRequestedAmount dc i d s = Some (a, s') \<Longrightarrow> dl_tasks s' = dl_tasks s \<and> dl_nextRequest s' = dl_nextRequest s"
  by (auto simp: changeRequestedAmount_def Let_def killSessionsCancel_def killSessionsSchedule_def split: option.splits if_splits)

lemma succeeded_tasks: "requestSucceeded dc i a b s = Some s' \<Longrightarrow> dl_tasks s' = dl_tasks s \<and> dl_nextRequest s' = dl_nextRequest s"
  by (auto simp: requestSucceeded_def Let_def split: option.splits if_splits)

lemma make_view:
  assumes "makeRequest u rd s = Some s'"
  shows "v \<noteq> u \<Longrightarrow> dl_tasks s' v = dl_tasks s v" "dl_nextRequest s' = dl_nextRequest s + 1"
    and "task_loader (dl_tasks s' u) = task_loader (dl_tasks s u)" "waits_for (dl_tasks s' u) = insert (rd_offset rd) (waits_for (dl_tasks s u))"
    and "\<exists>rd'. rd_offset rd' = rd_offset rd \<and> sentRequests (dl_tasks s' u) = flat_emplace (dl_nextRequest s) rd' (sentRequests (dl_tasks s u))"
    and "cdnHashesRequestId (dl_tasks s' u) = cdnHashesRequestId (dl_tasks s u)" "cdnUncheckedParts (dl_tasks s' u) = cdnUncheckedParts (dl_tasks s u)"
proof -
  obtain sh where sh: "downloadDcId (if cdnDcId (dl_tasks s u) \<noteq> 0 then cdnDcId (dl_tasks s u) else task_dcId (dl_tasks s u)) (int (rd_sessionIndex rd)) = Some sh"
    using assms by (auto simp: makeRequest_def sendRequest_def Let_def bind_eq_Some_conv split: if_splits)
  define s0 where "s0 = dl_call (SendRequest (dl_nextRequest s) sh (rd_offset rd)) (s\<lparr>dl_nextRequest := dl_nextRequest s + 1\<rparr>)"
  have "placeSentRequest u (dl_nextRequest s) rd s0 = Some s'"
    using assms unfolding makeRequest_def sendRequest_def Let_def sh s0_def by (simp only: Option.bind.bind_lunit prod.case)
  then obtain a s1 where s1: "changeRequestedAmount (task_dcId (dl_tasks s0 u)) (rd_sessionIndex rd) kDownloadPartSize s0 = Some (a, s1)"
    "s' = update_task u (\<lambda>x. x\<lparr>sentRequests := flat_emplace (dl_nextRequest s) (rd\<lparr>rd_requestedInSession := a, rd_sent := dl_now s1\<rparr>) (sentRequests x),
       requestByOffset := flat_emplace (rd_offset rd) (dl_nextRequest s) (requestByOffset x)\<rparr>) s1"
    by (auto simp: placeSentRequest_def Let_def bind_eq_Some_conv split: if_splits)
  have same: "dl_tasks s1 = dl_tasks s" "dl_nextRequest s1 = dl_nextRequest s + 1" using change_tasks [OF s1(1)] by (simp_all add: s0_def)
  show "v \<noteq> u \<Longrightarrow> dl_tasks s' v = dl_tasks s v" "dl_nextRequest s' = dl_nextRequest s + 1"
    "task_loader (dl_tasks s' u) = task_loader (dl_tasks s u)" "waits_for (dl_tasks s' u) = insert (rd_offset rd) (waits_for (dl_tasks s u))"
    "cdnHashesRequestId (dl_tasks s' u) = cdnHashesRequestId (dl_tasks s u)" "cdnUncheckedParts (dl_tasks s' u) = cdnUncheckedParts (dl_tasks s u)"
    using same by (simp_all add: s1(2) waits_for_def)
  show "\<exists>rd'. rd_offset rd' = rd_offset rd \<and> sentRequests (dl_tasks s' u) = flat_emplace (dl_nextRequest s) rd' (sentRequests (dl_tasks s u))"
    using same by (intro exI [of _ "rd\<lparr>rd_requestedInSession := a, rd_sent := dl_now s1\<rparr>"]) (simp add: s1(2))
qed

lemma bind_guard: "(r \<bind> (\<lambda>s. if b then Some (x, s) else None)) = Some (x', s') \<Longrightarrow> b \<and> r = Some s'"
  by (cases r; cases b) auto

lemma finish_view:
  assumes "finishSentRequest u r reason s = Some (rd, s')"
  shows "v \<noteq> u \<Longrightarrow> dl_tasks s' v = dl_tasks s v" "dl_nextRequest s' = dl_nextRequest s"
    and "map_of (sentRequests (dl_tasks s u)) r = Some rd" "rd_offset rd \<in> waits_for (dl_tasks s u)"
    and "task_loader (dl_tasks s' u) = task_loader (dl_tasks s u)" "waits_for (dl_tasks s' u) = waits_for (dl_tasks s u) - {rd_offset rd}"
    and "sentRequests (dl_tasks s' u) = flat_erase r (sentRequests (dl_tasks s u))"
    and "cdnHashesRequestId (dl_tasks s u) = 0 \<Longrightarrow> cdnHashesRequestId (dl_tasks s' u) = 0" "cdnUncheckedParts (dl_tasks s' u) = cdnUncheckedParts (dl_tasks s u)"
proof -
  define s0 where "s0 = update_task u (\<lambda>x. if cdnHashesRequestId x = r then x\<lparr>cdnHashesRequestId := 0\<rparr> else x) s"
  show sent: "map_of (sentRequests (dl_tasks s u)) r = Some rd"
    using assms by (auto simp: finishSentRequest_def Let_def bind_eq_Some_conv split: if_splits)
  let ?change = "changeRequestedAmount (task_dcId (dl_tasks s0 u)) (rd_sessionIndex rd) (- kDownloadPartSize) s0"
  let ?erase = "update_task u (\<lambda>x. x\<lparr>sentRequests := flat_erase r (sentRequests x), requestByOffset := flat_erase (rd_offset rd) (requestByOffset x)\<rparr>)"
  let ?close = "\<lambda>s. if reason = Success then requestSucceeded (task_dcId (dl_tasks s0 u)) (rd_sessionIndex rd) (rd_requestedInSession rd) (rd_sent rd) s else Some s"
  have body: "do { (_, s1) \<leftarrow> ?change; s3 \<leftarrow> ?close (?erase s1); if rd_offset rd \<in> fst ` set (requestByOffset (dl_tasks s1 u)) then Some (rd, s3) else None } = Some (rd, s')"
    using assms unfolding finishSentRequest_def sent s0_def [symmetric] Let_def by (simp only: Option.bind.bind_lunit)
  then obtain a s1 where s1: "?change = Some (a, s1)" by (cases ?change) auto
  define s2 where s2: "s2 = ?erase s1"
  have "do { s3 \<leftarrow> ?close s2; if rd_offset rd \<in> fst ` set (requestByOffset (dl_tasks s1 u)) then Some (rd, s3) else None } = Some (rd, s')"
    using body unfolding s1 s2 by (simp only: Option.bind.bind_lunit prod.case)
  then have ret: "?close s2 = Some s'" and ok: "rd_offset rd \<in> fst ` set (requestByOffset (dl_tasks s1 u))"
    by (blast dest: bind_guard)+
  have same: "dl_tasks s' = dl_tasks s2" "dl_nextRequest s' = dl_nextRequest s2" "dl_tasks s1 = dl_tasks s0" "dl_nextRequest s1 = dl_nextRequest s0"
    using change_tasks [OF s1] ret by (auto split: if_splits dest!: succeeded_tasks)
  show "v \<noteq> u \<Longrightarrow> dl_tasks s' v = dl_tasks s v" "dl_nextRequest s' = dl_nextRequest s" "rd_offset rd \<in> waits_for (dl_tasks s u)"
    "task_loader (dl_tasks s' u) = task_loader (dl_tasks s u)" "waits_for (dl_tasks s' u) = waits_for (dl_tasks s u) - {rd_offset rd}"
    "sentRequests (dl_tasks s' u) = flat_erase r (sentRequests (dl_tasks s u))"
    "cdnHashesRequestId (dl_tasks s u) = 0 \<Longrightarrow> cdnHashesRequestId (dl_tasks s' u) = 0" "cdnUncheckedParts (dl_tasks s' u) = cdnUncheckedParts (dl_tasks s u)"
    using ok by (simp_all add: same s2 s0_def waits_for_def keys_flat_erase split: if_splits)
qed

lemma cancel_view:
  assumes "cancelRequest u r s = Some s'"
  obtains rd where "\<And>v. v \<noteq> u \<Longrightarrow> dl_tasks s' v = dl_tasks s v" "dl_nextRequest s' = dl_nextRequest s"
    and "map_of (sentRequests (dl_tasks s u)) r = Some rd" "rd_offset rd \<in> waits_for (dl_tasks s u)"
    and "task_loader (dl_tasks s' u) = task_loader (dl_tasks s u)" "waits_for (dl_tasks s' u) = waits_for (dl_tasks s u) - {rd_offset rd}"
    and "sentRequests (dl_tasks s' u) = flat_erase r (sentRequests (dl_tasks s u))"
    and "cdnHashesRequestId (dl_tasks s u) = 0 \<Longrightarrow> cdnHashesRequestId (dl_tasks s' u) = 0" "cdnUncheckedParts (dl_tasks s' u) = cdnUncheckedParts (dl_tasks s u)"
proof -
  obtain rd s1 where s1: "finishSentRequest u r Cancel (dl_call (CancelRequest r) s) = Some (rd, s1)" "dl_tasks s' = dl_tasks s1" "dl_nextRequest s' = dl_nextRequest s1"
    using assms by (auto simp: cancelRequest_def Let_def split: bind_splits if_splits)
  show thesis by (rule that [of rd]) (use finish_view [OF s1(1)] s1(2,3) in simp_all)
qed

lemma plain_erase: "plain n x \<Longrightarrow> sentRequests x' = flat_erase r (sentRequests x) \<Longrightarrow> cdnHashesRequestId x' = 0 \<Longrightarrow> cdnUncheckedParts x' = cdnUncheckedParts x \<Longrightarrow> plain n x'"
  by (auto simp: plain_def flat_map_ok_erase keys_flat_erase)

lemma plain_emplace:
  assumes "plain n x" "sentRequests x' = flat_emplace n rd (sentRequests x)" "cdnHashesRequestId x' = cdnHashesRequestId x" "cdnUncheckedParts x' = cdnUncheckedParts x"
  shows "plain (n + 1) x'"
  using assms by (force simp: plain_def flat_map_ok_emplace)

lemma plain_cancel: "cancelRequest u r s = Some s' \<Longrightarrow> plain n (dl_tasks s u) \<Longrightarrow> plain n (dl_tasks s' u)"
  by (erule cancel_view) (rule plain_erase, auto simp: plain_def)

lemma plain_make: "makeRequest u rd s = Some s' \<Longrightarrow> plain (dl_nextRequest s) (dl_tasks s u) \<Longrightarrow> plain (dl_nextRequest s') (dl_tasks s' u)"
  using make_view [of u rd s s'] plain_emplace by metis

lemma plain_more: "plain n x \<Longrightarrow> n \<le> m \<Longrightarrow> plain m x"
  by (force simp: plain_def)

lemma cancel_loop_view:
  assumes "cancel_loop u s = Some s'"
  shows "(\<forall>v. v \<noteq> u \<longrightarrow> dl_tasks s' v = dl_tasks s v) \<and> dl_nextRequest s' = dl_nextRequest s
    \<and> task_loader (dl_tasks s' u) = task_loader (dl_tasks s u) \<and> (\<forall>n. plain n (dl_tasks s u) \<longrightarrow> plain n (dl_tasks s' u))"
proof (rule cancel_loop.raw_induct [where P = "\<lambda>u s s'. (\<forall>v. v \<noteq> u \<longrightarrow> dl_tasks s' v = dl_tasks s v) \<and> dl_nextRequest s' = dl_nextRequest s
    \<and> task_loader (dl_tasks s' u) = task_loader (dl_tasks s u) \<and> (\<forall>n. plain n (dl_tasks s u) \<longrightarrow> plain n (dl_tasks s' u))", OF _ assms])
  fix g u and s s' :: "'a downloads"
  assume IH: "\<And>u s s'. g u s = Some s' \<Longrightarrow> (\<forall>v. v \<noteq> u \<longrightarrow> dl_tasks s' v = dl_tasks s v) \<and> dl_nextRequest s' = dl_nextRequest s
      \<and> task_loader (dl_tasks s' u) = task_loader (dl_tasks s u) \<and> (\<forall>n. plain n (dl_tasks s u) \<longrightarrow> plain n (dl_tasks s' u))"
    and ret: "(if sentRequests (dl_tasks s u) = [] then Some s else do { s \<leftarrow> cancelRequest u (fst (hd (sentRequests (dl_tasks s u)))) s; g u s }) = Some s'"
  show "(\<forall>v. v \<noteq> u \<longrightarrow> dl_tasks s' v = dl_tasks s v) \<and> dl_nextRequest s' = dl_nextRequest s
      \<and> task_loader (dl_tasks s' u) = task_loader (dl_tasks s u) \<and> (\<forall>n. plain n (dl_tasks s u) \<longrightarrow> plain n (dl_tasks s' u))"
  proof (cases "sentRequests (dl_tasks s u) = []")
    case True
    then show ?thesis using ret by simp
  next
    case False
    then obtain s1 where s1: "cancelRequest u (fst (hd (sentRequests (dl_tasks s u)))) s = Some s1" "g u s1 = Some s'"
      using ret by (auto split: bind_splits)
    show ?thesis using cancel_view [OF s1(1)] IH [OF s1(2)] plain_cancel [OF s1(1)] by metis
  qed
qed

lemma cancelAll_view:
  assumes "cancelAllRequests u s = Some s'"
  shows "v \<noteq> u \<Longrightarrow> dl_tasks s' v = dl_tasks s v" "dl_nextRequest s' = dl_nextRequest s"
    and "task_loader (dl_tasks s' u) = task_loader (dl_tasks s u)" "plain n (dl_tasks s u) \<Longrightarrow> plain n (dl_tasks s' u)"
proof -
  obtain s1 where s1: "cancel_loop u s = Some s1" "s' = update_task u (\<lambda>task. task\<lparr>cdnUncheckedParts := []\<rparr>) s1"
    using assms by (auto simp: cancelAllRequests_def)
  note view = cancel_loop_view [OF s1(1)]
  show "v \<noteq> u \<Longrightarrow> dl_tasks s' v = dl_tasks s v" "dl_nextRequest s' = dl_nextRequest s" "task_loader (dl_tasks s' u) = task_loader (dl_tasks s u)"
    using view s1(2) by simp_all
  show "plain n (dl_tasks s' u)" if "plain n (dl_tasks s u)"
  proof -
    have "plain n (dl_tasks s1 u)" using view that by blast
    then show ?thesis using s1(2) by (simp add: plain_def)
  qed
qed

section \<open>Results\<close>

lemma keeps_simps [simp]: "keeps H None" "keeps H (Some s) \<longleftrightarrow> H s"
  by (simp_all add: keeps_def)

lemma keeps_bind [intro]: "keeps H r \<Longrightarrow> (\<And>s. r = Some s \<Longrightarrow> H s \<Longrightarrow> keeps H' (g s)) \<Longrightarrow> keeps H' (r \<bind> g)"
  by (cases r) auto

lemma keeps_map [intro]: "keeps H r \<Longrightarrow> (\<And>s. H s \<Longrightarrow> H (g s)) \<Longrightarrow> keeps H (map_option g r)"
  by (cases r) auto

lemma keeps_snd [intro]:
  "keeps H (map_option snd r) \<Longrightarrow> (\<And>b s. r = Some (b, s) \<Longrightarrow> H s \<Longrightarrow> keeps H' (g b s)) \<Longrightarrow> keeps H' (r \<bind> (\<lambda>(b, s). g b s))"
  by (cases r) auto

lemma keeps_snd_bind [intro]:
  "keeps H (map_option snd r) \<Longrightarrow> (\<And>b s. r = Some (b, s) \<Longrightarrow> H s \<Longrightarrow> keeps H' (map_option snd (g b s)))
    \<Longrightarrow> keeps H' (map_option snd (r \<bind> (\<lambda>(b, s). g b s)))"
  by (cases r) auto

lemma keeps_bind_snd [intro]:
  "keeps H r \<Longrightarrow> (\<And>s. r = Some s \<Longrightarrow> H s \<Longrightarrow> keeps H' (map_option snd (g s))) \<Longrightarrow> keeps H' (map_option snd (r \<bind> g))"
  by (cases r) auto

lemma snd_Pair [simp]: "map_option snd (map_option (Pair b) r) = r"
  by (cases r) simp_all

section \<open>Operations on one task\<close>

text \<open>What the handlers of the events of a task \<open>u\<close> keep, from what the operations they are made of keep.\<close>

locale untouched =
  fixes H :: "loader downloads \<Rightarrow> bool" and u :: task_id
  assumes task [simp]: "H (update_task u g s) = H s"
    and same [simp]: "H (put_queue dc q s) = H s" "H (s\<lparr>resetGenerationTimer := v\<rparr>) = H s" "H (s\<lparr>dl_live := ts\<rparr>) = H s"
    and send: "H s \<Longrightarrow> keeps H (checkSendNext loader_calls dc s)"
    and cancel: "H s \<Longrightarrow> keeps H (cancelRequest u r s)"
    and cancelAll: "H s \<Longrightarrow> keeps H (cancelAllRequests u s)"
    and finish: "H s \<Longrightarrow> keeps H (map_option snd (finishSentRequest u r reason s))"
    and make: "H s \<Longrightarrow> keeps H (makeRequest u rd s)"
begin

lemma loader [simp]: "H (update_file u g s) = H s" "H (update_stream u h s) = H s" "H (fire_part u k b s) = H s" "H (stream_resetPriorities u s) = H s"
  by (simp_all add: update_file_def update_stream_def fire_part_def stream_resetPriorities_def)

lemma new [simp]: "H (new_task u dc w s) = H s"
  using task [of "\<lambda>_. dl_tasks (new_task u dc w s) u" s] same(3) [of "u # dl_live s" "update_task u (\<lambda>_. dl_tasks (new_task u dc w s) u) s"]
  by (simp add: new_task_def update_task_def)

lemma new_keeps: "H s \<Longrightarrow> keeps H (map_option (\<lambda>w. new_task u dc w s) r)"
  by (cases r) simp_all

lemma queues: "H s \<Longrightarrow> keeps H (dl_enqueue loader_calls u p s)" "H s \<Longrightarrow> keeps H (dl_remove loader_calls u s)" "H s \<Longrightarrow> keeps H (checkSendNextAfterSuccess loader_calls dc s)"
  unfolding dl_enqueue_def dl_remove_def checkSendNextAfterSuccess_def Let_def by (rule send; simp)+

lemma file_cancel_keeps: "H s \<Longrightarrow> keeps H (file_cancel u s)"
  unfolding file_cancel_def by (rule keeps_map [OF cancelAll]) simp_all

lemma writeResultPart_keeps: "H s \<Longrightarrow> keeps H (map_option snd (writeResultPart u f k b w s))"
  by (simp add: writeResultPart_def Let_def file_cancel_keeps)

lemma finalizeResult_keeps: "H s \<Longrightarrow> keeps H (map_option snd (finalizeResult u st s))"
  by (simp add: finalizeResult_def file_cancel_keeps split: loader.split)

lemma file_feedPart_keeps:
  assumes "H s"
  shows "keeps H (map_option snd (file_feedPart u f k b w st s))"
  unfolding file_feedPart_def Let_def
proof (rule keeps_snd_bind [OF writeResultPart_keeps [OF assms]])
  fix ok s1 assume s1: "H s1"
  define s2 where "s2 = (if b = [] \<or> length b mod 1024 \<noteq> 0 then update_file u (\<lambda>f. f\<lparr>fl_lastComplete := True\<rparr>) s1 else s1)"
  have s2: "H s2" using s1 by (simp add: s2_def)
  have "keeps H (map_option snd (dl_remove loader_calls u s2 \<bind> finalizeResult u st))"
    by (rule keeps_bind_snd [OF queues(2) [OF s2] finalizeResult_keeps])
  then show "keeps H (map_option snd (if \<not> ok then Some (False, s1) else if loading_done (dl_tasks s2 u)
      then dl_remove loader_calls u s2 \<bind> finalizeResult u st else Some (True, s2)))"
    using s1 s2 by simp
qed

lemma checkForOpen_keeps: "H s \<Longrightarrow> keeps H (map_option snd (checkForOpen u f a b s))"
  by (simp add: checkForOpen_def file_cancel_keeps)

lemma file_start_keeps:
  assumes "H s"
  shows "keeps H (file_start u f a b d e s)"
proof -
  have "keeps H (checkForOpen u f d e s \<bind> (\<lambda>(ok, s). if ok then startLoading u s else Some s))"
    by (rule keeps_snd [OF checkForOpen_keeps [OF assms]]) (simp add: startLoading_def queues)
  then show ?thesis using assms file_cancel_keeps [OF assms] by (simp add: file_start_def)
qed

lemma startLoadingWithPartial_keeps:
  assumes "H s"
  shows "keeps H (startLoadingWithPartial u b w st s)"
proof -
  have "keeps H (if n then case task_loader (dl_tasks (update_file u g s) u) of
      FileTask f \<Rightarrow> map_option snd (file_feedPart u f 0 d w st (update_file u g s)) | StreamTask l \<Rightarrow> None else Some s)" for n g d
    using file_feedPart_keeps [of "update_file u g s"] assms by (simp split: loader.split)
  then show ?thesis
    unfolding startLoadingWithPartial_def Let_def startLoading_def by (intro keeps_bind [where H = H] queues(1))
qed

lemma localLoaded_keeps:
  assumes "H s"
  shows "keeps H (localLoaded u f r a b d e st s)"
proof -
  have "keeps H (checkForOpen u f b d s \<bind> (\<lambda>(ok, s). if ok then startLoadingWithPartial u x e st s else Some s))" for x
    by (rule keeps_snd [OF checkForOpen_keeps [OF assms]]) (simp add: startLoadingWithPartial_keeps)
  moreover have "keeps H (finishWithBytes u x st s)" for x using assms by (simp add: finishWithBytes_def Let_def file_cancel_keeps)
  ultimately show ?thesis using file_start_keeps [OF assms] by (simp add: localLoaded_def split: option.split)
qed

lemma sizes_keep: "H s \<Longrightarrow> keeps H (increaseLoadSize u n s)" "H s \<Longrightarrow> keeps H (map_option snd (setWebFileSizeHook u n s))"
  by (simp_all add: increaseLoadSize_def setWebFileSizeHook_def file_cancel_keeps split: loader.split)

lemma cancelForOffset_keeps:
  assumes "H s"
  shows "keeps H (cancelForOffset u l k s)"
proof -
  have "keeps H (case map_of (requestByOffset (dl_tasks s u)) k of Some r \<Rightarrow> cancelRequest u r s | None \<Rightarrow> Some s)"
    using assms cancel [OF assms] by (simp split: option.split)
  then have "keeps H (cancelRequestForOffset u k s)" unfolding cancelRequestForOffset_def by (rule keeps_bind) simp
  then show ?thesis using assms queues(1) by (auto simp: cancelForOffset_def addToQueueWithPriority_def)
qed

lemma stream_keeps:
  assumes "H s"
  shows "keeps H (stream_load u l b k s)" "keeps H (stream_stop u s)" "keeps H (tryRemoveFromQueue u l s)" "keeps H (setPriority u l n s)"
proof -
  have "keeps H (map_option (fire_part u k b) (cancelForOffset u l k s))" by (rule keeps_map [OF cancelForOffset_keeps [OF assms]]) simp
  then show "keeps H (stream_load u l b k s)"
    using assms queues(1) by (simp add: stream_load_def Let_def addToQueueWithPriority_def split: prod.split)
  show "keeps H (stream_stop u s)" unfolding stream_stop_def by (rule keeps_bind [OF cancelAll [OF assms]]) (simp add: queues)
  show "keeps H (tryRemoveFromQueue u l s)" "keeps H (setPriority u l n s)"
    using assms queues(1,2) by (simp_all add: tryRemoveFromQueue_def setPriority_def Let_def addToQueueWithPriority_def)
qed

lemma feedPart_keeps: "H s \<Longrightarrow> keeps H (map_option snd (feedPart u k b w st s))"
  by (simp add: feedPart_def file_feedPart_keeps split: loader.split)

lemma delete_loader_keeps:
  assumes "H s"
  shows "keeps H (delete_loader u s)"
proof -
  have "keeps H (delete_task loader_calls u s)" if "H s" for s
    unfolding delete_task_def by (rule keeps_bind [OF cancelAll [OF that]], rule keeps_bind [OF queues(2)]) simp_all
  moreover have "keeps H (case task_loader (dl_tasks s u) of FileTask f \<Rightarrow> if fl_finished f then Some s else file_cancel u s | StreamTask l \<Rightarrow> Some s)"
    using assms file_cancel_keeps by (simp split: loader.split)
  ultimately show ?thesis unfolding delete_loader_def by blast
qed

lemma after_answer_keeps:
  assumes "H s"
  shows "keeps H (delete_now deleted u s \<bind> checkSendNextAfterSuccess loader_calls dc)"
  by (rule keeps_bind [where H = H]) (use assms delete_loader_keeps queues(3) in \<open>simp_all add: delete_now_def\<close>)

lemma answers_keep:
  assumes "H s"
  shows "keeps H (normalPartLoaded u r b w st deleted s)" "keeps H (webPartLoaded u r n b w st deleted s)"
proof -
  show "keeps H (normalPartLoaded u r b w st deleted s)"
    unfolding normalPartLoaded_def Let_def
    by (rule keeps_snd [OF finish [OF assms]], rule keeps_snd [OF feedPart_keeps]) (simp_all add: after_answer_keeps)
  have "keeps H (if ok then map_option snd (feedPart u k b w st s) else Some s)" if "H s" for ok k s
    using feedPart_keeps [OF that] that by simp
  then show "keeps H (webPartLoaded u r n b w st deleted s)"
    unfolding webPartLoaded_def Let_def
    by (intro keeps_snd [OF finish [OF assms]] keeps_snd [OF sizes_keep(2)] keeps_bind [where H = H and H' = H] after_answer_keeps)
qed

lemma failures_keep:
  assumes "H s"
  shows "keeps H (cancelOnFail u s)" "keeps H (map_option snd (partFailed u d s))" "keeps H (map_option snd (normalPartFailed u d e s))"
    "keeps H (refreshFileReferenceFrom u a b r s)"
proof -
  show fail: "keeps H (cancelOnFail u s)" using assms file_cancel_keeps by (simp add: cancelOnFail_def split: loader.split)
  then show part: "keeps H (map_option snd (partFailed u d s))" for d using assms by (simp add: partFailed_def)
  then show "keeps H (map_option snd (normalPartFailed u d e s))" using assms by (simp add: normalPartFailed_def)
  have "keeps H (resendRequest u r s)" unfolding resendRequest_def by (rule keeps_snd [OF finish [OF assms] make])
  then show "keeps H (refreshFileReferenceFrom u a b r s)" using assms fail by (simp add: refreshFileReferenceFrom_def)
qed

theorem handle_keeps:
  assumes "H s" "event_task e = Some u"
  shows "keeps H (handle e s)"
  using assms
  by (cases e) (simp_all add: on_file_def on_stream_def file_start_keeps localLoaded_keeps sizes_keep(1) file_cancel_keeps stream_keeps cancelForOffset_keeps
    answers_keep failures_keep delete_loader_keeps new_keeps split: loader.split)

end

section \<open>Request ids\<close>

lemma later_send:
  assumes "n \<le> dl_nextRequest s" "checkSendNext ops dc s = Some s'"
  shows "n \<le> dl_nextRequest s'"
proof -
  have one: "dl_nextRequest s \<le> dl_nextRequest s'" if "trySendNextPart ops dc s = Some (sent, s')" for ops dc sent and s s' :: "'a downloads"
  proof -
    have "dl_nextRequest s0 \<le> dl_nextRequest s''" if "loadPart ops t j s0 = Some s''" for t j and s0 s'' :: "'a downloads"
      using that by (auto simp: loadPart_def bind_eq_Some_conv dest!: make_view(2))
    then have "dl_nextRequest s \<le> dl_nextRequest s''" if "loadPart ops t j (put_balance dc b s) = Some s''" for t j b s'' using that by fastforce
    then show ?thesis using that unfolding trySendNextPart_def Let_def by (auto split: if_splits option.splits)
  qed
  have "dl_nextRequest s \<le> dl_nextRequest s'"
  proof (rule checkSendNext.raw_induct [where P = "\<lambda>ops dc s s'. dl_nextRequest s \<le> dl_nextRequest s'", OF _ assms(2)])
    fix g and ops :: "'a loader_ops" and dc s s'
    assume IH: "\<And>ops dc s s'. g ops dc s = Some s' \<Longrightarrow> dl_nextRequest s \<le> dl_nextRequest s'"
      and ret: "do { (sent, s) \<leftarrow> trySendNextPart ops dc s; if sent then g ops dc s else Some s } = Some s'"
    obtain sent s1 where s1: "trySendNextPart ops dc s = Some (sent, s1)" "(if sent then g ops dc s1 else Some s1) = Some s'"
      using ret by (auto simp: bind_eq_Some_conv)
    then show "dl_nextRequest s \<le> dl_nextRequest s'" using one [OF s1(1)] IH [of ops dc s1 s'] by (cases sent) auto
  qed
  then show ?thesis using assms(1) by simp
qed

interpretation later: untouched "\<lambda>s. n \<le> dl_nextRequest s" u for n u
proof unfold_locales
  fix s :: "loader downloads"
  assume n: "n \<le> dl_nextRequest s"
  show "keeps (\<lambda>s. n \<le> dl_nextRequest s) (checkSendNext loader_calls dc s)" for dc using later_send [OF n] by (simp add: keeps_def)
  show "keeps (\<lambda>s. n \<le> dl_nextRequest s) (cancelRequest u r s)" for r unfolding keeps_def using cancel_view [of u r s] n by metis
  show "keeps (\<lambda>s. n \<le> dl_nextRequest s) (cancelAllRequests u s)" unfolding keeps_def using cancelAll_view(2) [of u s] n by metis
  show "keeps (\<lambda>s. n \<le> dl_nextRequest s) (map_option snd (finishSentRequest u r reason s))" for r reason
    unfolding keeps_def using finish_view(2) [of u r reason s] n by fastforce
  show "keeps (\<lambda>s. n \<le> dl_nextRequest s) (makeRequest u rd s)" for rd unfolding keeps_def using make_view(2) [of u rd s] n by fastforce
qed simp_all

lemma later_cancel: "cancelRequest u r s = Some s' \<Longrightarrow> dl_nextRequest s' = dl_nextRequest s"
  by (erule cancel_view)

lemma later_redirect: "redirect_requests u n rs s = Some s' \<Longrightarrow> dl_nextRequest s \<le> dl_nextRequest s'"
proof (induction u n rs s rule: redirect_requests.induct)
  case (2 u n r k rs s)
  obtain s1 where s1: "cancelRequest u r s = Some s1" using 2(2) by (auto simp: Let_def bind_eq_Some_conv)
  obtain s2 where s2: "(if r \<noteq> cdnHashesRequestId (dl_tasks s u) then do { newIndex \<leftarrow> chooseSessionIndex (task_dcId (dl_tasks s1 u)) s1;
      if newIndex < n then makeRequest u (new_request k newIndex) s1 else None } else Some s1) = Some s2" "redirect_requests u n rs s2 = Some s'"
    using 2(2) s1 by (auto simp: Let_def bind_eq_Some_conv)
  have "dl_nextRequest s1 \<le> dl_nextRequest s2" using s2(1) by (auto simp: bind_eq_Some_conv split: if_splits dest!: make_view(2))
  then show ?case using later_cancel [OF s1] 2(1) [OF refl s1 s2] by simp
qed simp

lemma later_remove: "remove_from_tasks n us s = Some s' \<Longrightarrow> dl_nextRequest s \<le> dl_nextRequest s'"
proof (induction n us s rule: remove_from_tasks.induct)
  case (2 n u us s)
  obtain s1 where s1: "task_removeSession n u s = Some s1" "remove_from_tasks n us s1 = Some s'" using 2(2) by (auto simp: bind_eq_Some_conv)
  have "dl_nextRequest s \<le> dl_nextRequest s1"
    using s1(1) by (auto simp: task_removeSession_def Let_def bind_eq_Some_conv dest!: later_redirect)
  then show ?case using 2(1) [OF s1] by simp
qed simp

lemma later_timedOut:
  assumes "sessionTimedOut dc i s = Some s'"
  shows "dl_nextRequest s \<le> dl_nextRequest s'"
proof -
  have "dl_nextRequest s0 \<le> dl_nextRequest s''" if "removeSession dc s0 = Some s''" for s0 s'' :: "'a downloads"
    using that unfolding removeSession_def Let_def by (auto simp: bind_eq_Some_conv split: if_splits dest!: later_remove)
  then have "dl_nextRequest s \<le> dl_nextRequest s''" if "removeSession dc (put_balance dc b s) = Some s''" for b s'' using that by fastforce
  then show ?thesis using assms by (auto simp: sessionTimedOut_def Let_def split: option.splits if_splits)
qed

lemma stop_same: "stop_sessions dc j ds s = Some s' \<Longrightarrow> dl_tasks s' = dl_tasks s \<and> dl_nextRequest s' = dl_nextRequest s"
  by (induction dc j ds s rule: stop_sessions.induct) (auto simp: bind_eq_Some_conv split: if_splits)

lemma kill_loop_same: "kill_loop left ws s = Some (ws', left', s') \<Longrightarrow> dl_tasks s' = dl_tasks s \<and> dl_nextRequest s' = dl_nextRequest s"
  by (induction left ws s arbitrary: ws' left' rule: kill_loop.induct)
    (fastforce simp: killSessions_dc_def Let_def bind_eq_Some_conv split: if_splits option.splits dest!: stop_same)+

lemma timers_same:
  "killSessions s = Some s' \<Longrightarrow> dl_tasks s' = dl_tasks s \<and> dl_nextRequest s' = dl_nextRequest s"
  "dl_resetGeneration s = Some s' \<Longrightarrow> dl_tasks s' = dl_tasks s \<and> dl_nextRequest s' = dl_nextRequest s"
  by (auto simp: killSessions_def dl_resetGeneration_def Let_def bind_eq_Some_conv split: if_splits dest!: kill_loop_same)

lemma reachable_later: "reachable s \<Longrightarrow> 0 < dl_nextRequest s"
proof (induction rule: reachable.induct)
  case start
  show ?case by (simp add: new_manager_def)
next
  case (step s e s')
  show ?case
  proof (cases "event_task e")
    case (Some u)
    then show ?thesis using later.handle_keeps [of 1 s e u] step by (simp add: keeps_def)
  next
    case None
    then have "dl_nextRequest s \<le> dl_nextRequest s'"
      using step(3) by (cases e) (auto simp: at_time_def dest: timers_same later_timedOut)
    then show ?thesis using step(4) by simp
  qed
qed

end
