(* ===== verification/DownloadContent.thy ===== *)
theory DownloadContent
  imports DownloadFrames
begin

text \<open>
  What a file loader has at the end: when the server and the cache tell the truth about a file, its loader
  ends with the bytes of the file, whatever else happens and in whichever order the parts arrive.
\<close>

section \<open>Definitions\<close>

text \<open>The part of a file at an offset, and whether a loader has it.\<close>

definition part_of :: "string \<Rightarrow> int \<Rightarrow> string" where
  "part_of c offset = take (nat kDownloadPartSize) (drop (nat offset) c)"

definition has_part :: "string \<Rightarrow> file_loader \<Rightarrow> int \<Rightarrow> bool" where
  "has_part c f k \<longleftrightarrow>
     (\<forall>p. nat k \<le> p \<and> p < nat k + nat kDownloadPartSize \<and> p < length c \<longrightarrow> p < length (fl_data f) \<and> fl_data f ! p = c ! p)"

text \<open>A loader in memory that waits for the parts at the offsets \<open>K\<close> and has all others it has asked for.\<close>

definition file_going :: "string \<Rightarrow> file_loader \<Rightarrow> int set \<Rightarrow> bool" where
  "file_going c f K \<longleftrightarrow>
     c \<noteq> [] \<and> \<not> fl_finished f \<and> \<not> fl_fileIsOpen f \<and> fl_loadSize f = int (length c) \<and> fl_fullSize f = int (length c)
     \<and> length (fl_data f) \<le> length c \<and> kDownloadPartSize dvd fl_nextRequestOffset f \<and> 0 \<le> fl_nextRequestOffset f
     \<and> (\<forall>k \<in> K. 0 \<le> k \<and> k < int (length c) \<and> k < fl_nextRequestOffset f \<and> kDownloadPartSize dvd k)
     \<and> (\<forall>k. 0 \<le> k \<and> k < fl_nextRequestOffset f \<and> kDownloadPartSize dvd k \<and> k \<notin> K \<longrightarrow> has_part c f k)
     \<and> (fl_lastComplete f \<longrightarrow> int (length c) \<le> fl_nextRequestOffset f)"

definition file_right :: "string \<Rightarrow> file_loader \<Rightarrow> int set \<Rightarrow> bool" where
  "file_right c f K \<longleftrightarrow>
     (if fl_finished f then fl_cancelled f \<or> fl_data f = c
      else file_going c f K \<and> (K \<noteq> {} \<or> fl_nextRequestOffset f < int (length c)))"

definition holds :: "(file_loader \<Rightarrow> int set \<Rightarrow> bool) \<Rightarrow> task_id \<Rightarrow> loader downloads \<Rightarrow> bool" where
  "holds Q t s \<longleftrightarrow>
     (\<exists>f. task_loader (dl_tasks s t) = FileTask f \<and> Q f (waits_for (dl_tasks s t))) \<and> plain (dl_nextRequest s) (dl_tasks s t)"

text \<open>Kept when the next part is asked for.\<close>

definition takes_ok :: "(file_loader \<Rightarrow> int set \<Rightarrow> bool) \<Rightarrow> bool" where
  "takes_ok Q \<longleftrightarrow>
     (\<forall>f K. Q f K \<and> \<not> fl_finished f \<and> \<not> fl_lastComplete f \<and> (fl_fullSize f = 0 \<or> fl_nextRequestOffset f < fl_loadSize f)
        \<longrightarrow> Q (f\<lparr>fl_nextRequestOffset := fl_nextRequestOffset f + kDownloadPartSize\<rparr>) (insert (fl_nextRequestOffset f) K))"

definition file_ended :: "string \<Rightarrow> file_loader \<Rightarrow> int set \<Rightarrow> bool" where
  "file_ended c f K \<longleftrightarrow> fl_finished f \<and> (fl_cancelled f \<or> fl_data f = c)"

text \<open>A file that waits for the part \<open>k\<close> no longer, before it has got it.\<close>

definition file_gets :: "string \<Rightarrow> int \<Rightarrow> file_loader \<Rightarrow> int set \<Rightarrow> bool" where
  "file_gets c k f K \<longleftrightarrow> file_going c f (insert k K) \<and> k \<notin> K"

section \<open>Parts of a file\<close>

lemma grow_simps [simp]: "length (grow n d) = max (length d) n"
  "p < max (length d) n \<Longrightarrow> grow n d ! p = (if p < length d then d ! p else CHR 0x00)"
  by (auto simp: grow_def nth_append)

lemma write_memory_data:
  "length (fl_data (write_memory k b f)) = max (length (fl_data f)) (k + length b)"
  "p < max (length (fl_data f)) (k + length b) \<Longrightarrow> fl_data (write_memory k b f) ! p =
     (if k \<le> p \<and> p < k + length b then b ! (p - k) else if p < length (fl_data f) then fl_data f ! p else CHR 0x00)"
  by (auto simp: write_memory_def Let_def nth_append min_def max_def)

lemma write_memory_same [simp]:
  "fl_fileIsOpen (write_memory k b f) = fl_fileIsOpen f" "fl_loadSize (write_memory k b f) = fl_loadSize f"
  "fl_fullSize (write_memory k b f) = fl_fullSize f" "fl_lastComplete (write_memory k b f) = fl_lastComplete f"
  by (simp_all add: write_memory_def Let_def)

lemma part_of_simps [simp]: "length (part_of c k) = min (nat kDownloadPartSize) (length c - nat k)"
  "p < length (part_of c k) \<Longrightarrow> part_of c k ! p = c ! (nat k + p)"
  by (auto simp: part_of_def)

lemma going_write:
  assumes "file_going c f (insert k K)"
  shows "file_going c (write_memory (nat k) (part_of c k) f) K"
proof -
  note going = assms [unfolded file_going_def]
  let ?g = "write_memory (nat k) (part_of c k) f"
  have k: "0 \<le> k" "k < int (length c)" "k < fl_nextRequestOffset f" using going by blast+
  have "fl_data ?g ! p = c ! p \<and> p < length (fl_data ?g)"
    if "nat k \<le> p \<and> p < nat k + nat kDownloadPartSize \<or> p < length (fl_data f) \<and> fl_data f ! p = c ! p" "p < length c" for p
  proof (cases "nat k \<le> p \<and> p < nat k + nat kDownloadPartSize")
    case True
    then have "p - nat k < length (part_of c k)" using that(2) by auto
    moreover from this have "p < nat k + length (part_of c k)" using True by linarith
    ultimately have "part_of c k ! (p - nat k) = c ! p" "p < nat k + length (part_of c k)" using True part_of_simps(2) [of "p - nat k" c k] by simp_all
    then show ?thesis using True by (simp add: write_memory_data del: part_of_simps(1))
  next
    case False
    then have "\<not> (nat k \<le> p \<and> p < nat k + length (part_of c k))" by auto
    moreover have "p < max (length (fl_data f)) (nat k + length (part_of c k))" using that(1) False by linarith
    ultimately show ?thesis using that(1) False unfolding write_memory_data(1) by (auto simp: write_memory_data(2) simp del: part_of_simps(1))
  qed
  then have "has_part c ?g j" if "j = k \<or> has_part c f j" for j
    using that unfolding has_part_def by blast
  then have "has_part c ?g j" if "0 \<le> j" "j < fl_nextRequestOffset f" "kDownloadPartSize dvd j" "j \<notin> K" for j
    using that going by blast
  moreover have "length (fl_data ?g) \<le> length c" using going k by (simp add: write_memory_data)
  ultimately show ?thesis using going unfolding file_going_def by simp
qed

lemma going_done:
  assumes "file_going c f {}" "int (length c) \<le> fl_nextRequestOffset f"
  shows "fl_data f = c"
proof -
  have part: "p < length (fl_data f) \<and> fl_data f ! p = c ! p" if "p < length c" for p
  proof -
    define P where "P = nat kDownloadPartSize"
    define k where "k = int (p div P * P)"
    have P: "0 < P" "kDownloadPartSize = int P" using part_positive by (simp_all add: P_def)
    have "p div P * P \<le> p" "p < p div P * P + P" using div_mult_mod_eq [of p P] mod_less_divisor [OF P(1), of p] by linarith+
    moreover have k: "nat k = p div P * P" "0 \<le> k" unfolding k_def by (rule nat_int, rule of_nat_0_le_iff)
    moreover have "kDownloadPartSize dvd k" by (simp add: k_def P(2))
    ultimately have p: "nat k \<le> p" "p < nat k + nat kDownloadPartSize" by (simp_all only: P_def)
    have "k < fl_nextRequestOffset f" using p(1) k(2) that assms(2) by linarith
    then have "has_part c f k" using assms(1) k(2) \<open>kDownloadPartSize dvd k\<close> by (simp add: file_going_def)
    then show ?thesis using that p by (simp add: has_part_def)
  qed
  have "length (fl_data f) \<le> length c" using assms(1) by (simp add: file_going_def)
  then have "length (fl_data f) = length c" using part [of "length (fl_data f)"] by force
  then show ?thesis using part by (simp add: nth_equalityI)
qed

lemma right_takes: "takes_ok (file_right c)"
  unfolding takes_ok_def
proof (intro allI impI, elim conjE)
  fix f K
  assume f: "file_right c f K" "\<not> fl_finished f" "\<not> fl_lastComplete f" "fl_fullSize f = 0 \<or> fl_nextRequestOffset f < fl_loadSize f"
  let ?n = "fl_nextRequestOffset f"
  have going: "file_going c f K" using f(1,2) by (simp add: file_right_def)
  note facts = going [unfolded file_going_def]
  have "?n < int (length c)" using facts f(4) by auto
  moreover have "has_part c (f\<lparr>fl_nextRequestOffset := ?n + kDownloadPartSize\<rparr>) j"
    if "0 \<le> j" "j < ?n + kDownloadPartSize" "kDownloadPartSize dvd j" "j \<noteq> ?n" "j \<notin> K" for j
  proof -
    have "j < ?n" using that(2-4) facts part_room [of j ?n] part_room [of ?n j] by fastforce
    then show ?thesis using facts that by (simp add: has_part_def)
  qed
  ultimately have "file_going c (f\<lparr>fl_nextRequestOffset := ?n + kDownloadPartSize\<rparr>) (insert ?n K)"
    using facts f(3) part_positive unfolding file_going_def by auto
  then show "file_right c (f\<lparr>fl_nextRequestOffset := ?n + kDownloadPartSize\<rparr>) (insert ?n K)" using f(2) by (simp add: file_right_def)
qed

section \<open>What holds of the file\<close>

lemma holds_cong:
  assumes "holds Q t s" "dl_tasks s' t = dl_tasks s t" "dl_nextRequest s \<le> dl_nextRequest s'"
  shows "holds Q t s'"
  using assms(1) plain_more [OF _ assms(3), of "dl_tasks s t"] unfolding holds_def assms(2) by simp

lemma holdsI:
  "task_loader (dl_tasks s t) = FileTask f \<Longrightarrow> Q f (waits_for (dl_tasks s t)) \<Longrightarrow> plain (dl_nextRequest s) (dl_tasks s t) \<Longrightarrow> holds Q t s"
  by (simp add: holds_def)

lemma holdsE:
  assumes "holds Q t s"
  obtains f where "task_loader (dl_tasks s t) = FileTask f" "Q f (waits_for (dl_tasks s t))" "plain (dl_nextRequest s) (dl_tasks s t)"
  using assms by (auto simp: holds_def)

section \<open>Sending\<close>

lemma loadPart_holds:
  assumes "takes_ok Q" "holds Q t s" "loadPart loader_calls u j s = Some s'"
  shows "holds Q t s'"
proof -
  obtain k w where take: "task_take (dl_tasks s u) = Some (k, w)"
    and make: "makeRequest u (new_request k j) (update_task u (\<lambda>x. x\<lparr>task_loader := w\<rparr>) s) = Some s'"
    using assms(3) by (auto simp: loadPart_def loader_calls_def split: bind_splits)
  obtain f where f: "task_loader (dl_tasks s t) = FileTask f" "Q f (waits_for (dl_tasks s t))" "plain (dl_nextRequest s) (dl_tasks s t)"
    using assms(2) by (rule holdsE)
  note view = make_view [OF make]
  show ?thesis
  proof (cases "u = t")
    case True
    then have ready: "task_ready (dl_tasks s t)" "k = fl_nextRequestOffset f" "w = FileTask (f\<lparr>fl_nextRequestOffset := fl_nextRequestOffset f + kDownloadPartSize\<rparr>)"
      using take f(1) by (auto simp: task_take_def split: if_splits)
    have "Q (f\<lparr>fl_nextRequestOffset := fl_nextRequestOffset f + kDownloadPartSize\<rparr>) (insert (fl_nextRequestOffset f) (waits_for (dl_tasks s t)))"
      using assms(1) f(2) ready(1) f(1) by (auto simp: takes_ok_def task_ready_def)
    moreover have "plain (dl_nextRequest s') (dl_tasks s' t)"
      using plain_make [OF make] f(3) True by (simp add: plain_def)
    ultimately show ?thesis
      using view(3,4) True ready(2,3) by (intro holdsI) (simp_all add: new_request_def waits_for_def)
  next
    case False
    then show ?thesis using view(1) [of t] view(2) by (intro holds_cong [OF assms(2)]) simp_all
  qed
qed

lemma trySendNextPart_holds:
  assumes "takes_ok Q" "holds Q t s" "trySendNextPart loader_calls dc s = Some (sent, s')"
  shows "holds Q t s'"
proof -
  have "holds Q t (put_balance dc b s)" for b by (rule holds_cong [OF assms(2)]) simp_all
  note start = this loadPart_holds [OF assms(1) this]
  show ?thesis
    using assms(3) start unfolding trySendNextPart_def Let_def by (auto split: if_splits option.splits)
qed

lemma checkSendNext_holds:
  assumes "takes_ok Q" "holds Q t s" "checkSendNext loader_calls dc s = Some s'"
  shows "holds Q t s'"
proof -
  have "ops = loader_calls \<longrightarrow> holds Q t s \<longrightarrow> holds Q t s'" if "checkSendNext ops dc s = Some s'" for ops dc s s'
  proof (rule checkSendNext.raw_induct [where P = "\<lambda>ops dc s s'. ops = loader_calls \<longrightarrow> holds Q t s \<longrightarrow> holds Q t s'", OF _ that])
    fix g and ops :: "loader loader_ops" and dc s s'
    assume IH: "\<And>ops dc s s'. g ops dc s = Some s' \<Longrightarrow> ops = loader_calls \<longrightarrow> holds Q t s \<longrightarrow> holds Q t s'"
      and ret: "do { (sent, s) \<leftarrow> trySendNextPart ops dc s; if sent then g ops dc s else Some s } = Some s'"
    obtain sent s1 where s1: "trySendNextPart ops dc s = Some (sent, s1)" "(if sent then g ops dc s1 else Some s1) = Some s'"
      using ret by (auto simp: bind_eq_Some_conv)
    have "holds Q t s1" if "ops = loader_calls" "holds Q t s" using trySendNextPart_holds [OF assms(1) that(2)] s1(1) that(1) by blast
    then show "ops = loader_calls \<longrightarrow> holds Q t s \<longrightarrow> holds Q t s'" using IH [of ops dc s1 s'] s1(2) by (cases sent) simp_all
  qed
  then show ?thesis using assms(2,3) by blast
qed

lemma holds_task: "u \<noteq> t \<Longrightarrow> holds Q t (update_task u g s) = holds Q t s"
  by (simp add: holds_def)

lemma holds_same [simp]:
  "holds Q t (put_queue dc q s) = holds Q t s" "holds Q t (put_balance dc b s) = holds Q t s" "holds Q t (dl_call a s) = holds Q t s"
  "holds Q t (s\<lparr>resetGenerationTimer := v\<rparr>) = holds Q t s" "holds Q t (s\<lparr>dl_live := ts\<rparr>) = holds Q t s" "holds Q t (at_time now s) = holds Q t s"
  by (simp_all add: holds_def at_time_def)

lemma checkSendNext_keeps: "takes_ok Q \<Longrightarrow> holds Q t s \<Longrightarrow> keeps (holds Q t) (checkSendNext loader_calls dc s)"
  using checkSendNext_holds by (auto simp: keeps_def)

lemma send_keeps:
  assumes "takes_ok Q" "holds Q t s"
  shows "keeps (holds Q t) (dl_enqueue loader_calls u priority s)" "keeps (holds Q t) (dl_remove loader_calls u s)" "keeps (holds Q t) (checkSendNextAfterSuccess loader_calls dc s)"
  unfolding dl_enqueue_def dl_remove_def checkSendNextAfterSuccess_def Let_def
  by (rule checkSendNext_keeps [OF assms(1)]; simp add: assms(2))+

lemma startLoading_keeps: "takes_ok Q \<Longrightarrow> holds Q t s \<Longrightarrow> keeps (holds Q t) (startLoading u s)"
  by (simp add: startLoading_def send_keeps)

text \<open>Events of other tasks leave it alone.\<close>

lemma untouched_holds:
  assumes "takes_ok Q" "u \<noteq> t"
  shows "untouched (holds Q t) u"
proof
  show "holds Q t (update_task u g s) = holds Q t s" for g s by (rule holds_task [OF assms(2)])
  fix s assume s: "holds Q t s"
  show "keeps (holds Q t) (checkSendNext loader_calls dc s)" for dc by (rule checkSendNext_keeps [OF assms(1) s])
  show "keeps (holds Q t) (cancelRequest u r s)" for r
    unfolding keeps_def using cancel_view [of u r s] holds_cong [OF s] assms(2) by (metis order_refl)
  show "keeps (holds Q t) (cancelAllRequests u s)"
    unfolding keeps_def using cancelAll_view(1,2) [of u s] holds_cong [OF s] assms(2) by (metis order_refl)
  show "keeps (holds Q t) (map_option snd (finishSentRequest u r reason s))" for r reason
    unfolding keeps_def using finish_view(1,2) [of u r reason s] holds_cong [OF s] assms(2) by fastforce
  show "keeps (holds Q t) (makeRequest u rd s)" for rd
    unfolding keeps_def using make_view(1,2) [of u rd s] holds_cong [OF s] assms(2) by fastforce
qed simp_all

section \<open>The file itself\<close>

lemma holds_mono: "holds Q t s \<Longrightarrow> (\<And>f K. Q f K \<Longrightarrow> R f K) \<Longrightarrow> holds R t s"
  by (auto simp: holds_def)

lemma ended_right: "file_ended c f K \<Longrightarrow> file_right c f K"
  by (simp add: file_ended_def file_right_def)

lemma ended_takes: "takes_ok (file_ended c)"
  by (simp add: takes_ok_def file_ended_def)

lemma plain_loader [simp]: "plain n (x\<lparr>task_loader := w\<rparr>) = plain n x" "waits_for (x\<lparr>task_loader := w\<rparr>) = waits_for x"
  by (simp_all add: plain_def waits_for_def)

lemma update_file_holds:
  assumes "holds Q t s" "\<And>f. task_loader (dl_tasks s t) = FileTask f \<Longrightarrow> Q f (waits_for (dl_tasks s t)) \<Longrightarrow> R (g f) (waits_for (dl_tasks s t))"
  shows "holds R t (update_file t g s)"
  using assms by (auto simp: holds_def update_file_def)

lemma file_cancel_ended:
  assumes "holds Q t s"
  shows "keeps (holds (file_ended c) t) (file_cancel t s)"
proof -
  have "holds (\<lambda>_ _. True) t s'" if "cancelAllRequests t s = Some s'" for s'
    using assms cancelAll_view(2-4) [OF that] by (auto simp: holds_def)
  then show ?thesis
    unfolding file_cancel_def keeps_def by (auto intro!: update_file_holds simp: file_ended_def)
qed

lemma file_cancel_right: "holds (file_right c) t s \<Longrightarrow> keeps (holds (file_right c) t) (file_cancel u s)"
  using file_cancel_ended [of "file_right c" t s c] untouched.file_cancel_keeps [OF untouched_holds [OF right_takes]]
  by (cases "u = t") (auto simp: keeps_def intro: holds_mono ended_right)

lemma cancelAll_ended: "holds (file_ended c) t s \<Longrightarrow> keeps (holds (file_ended c) t) (cancelAllRequests t s)"
  unfolding keeps_def using cancelAll_view(2-4) by (fastforce simp: holds_def file_ended_def)

lemma delete_loader_right:
  assumes "holds (file_right c) t s"
  shows "keeps (holds (file_right c) t) (delete_loader u s)"
proof (cases "u = t")
  case True
  obtain f where f: "task_loader (dl_tasks s t) = FileTask f" using assms by (rule holdsE)
  have "holds (file_ended c) t s" if "fl_finished f" using assms that f by (auto simp: holds_def file_right_def file_ended_def)
  then have "keeps (holds (file_ended c) t) (delete_loader t s)"
    unfolding delete_loader_def delete_task_def
    using f file_cancel_ended [OF assms] ended_takes by (intro keeps_bind [where H = "holds (file_ended c) t"] cancelAll_ended send_keeps) simp_all
  then show ?thesis using True by (auto simp: keeps_def intro: holds_mono ended_right)
next
  case False
  then show ?thesis by (rule untouched.delete_loader_keeps [OF untouched_holds [OF right_takes] assms])
qed

lemma after_answer_right:
  assumes "holds (file_right c) t s"
  shows "keeps (holds (file_right c) t) (delete_now deleted u s \<bind> checkSendNextAfterSuccess loader_calls dc)"
  using assms delete_loader_right [OF assms] right_takes by (intro keeps_bind [where H = "holds (file_right c) t"] send_keeps(3)) (simp_all add: delete_now_def)

lemma finish_gets:
  assumes "holds (file_right c) t s" "good s" "t \<in> set (dl_live s)" "finishSentRequest t r reason s = Some (rd, s')"
  shows "holds (file_gets c (rd_offset rd)) t s'"
proof -
  note view = finish_view [OF assms(4)]
  obtain f where f: "task_loader (dl_tasks s t) = FileTask f" "file_right c f (waits_for (dl_tasks s t))" "plain (dl_nextRequest s) (dl_tasks s t)"
    using assms(1) by (rule holdsE)
  have "\<not> fl_finished f" by (rule request_not_finished [OF assms(2,3) view(3) f(1)])
  then have "file_gets c (rd_offset rd) f (waits_for (dl_tasks s' t))"
    using f(2) view(4) by (simp add: file_right_def file_gets_def view(6) insert_absorb)
  moreover have "cdnHashesRequestId (dl_tasks s t) = 0" using f(3) by (simp add: plain_def)
  then have "plain (dl_nextRequest s') (dl_tasks s' t)" unfolding view(2) by (rule plain_erase [OF f(3) view(7) view(8) view(9)])
  ultimately show ?thesis using f(1) view(5) by (intro holdsI) simp_all
qed

lemma not_ready_takes:
  assumes "fl_lastComplete f \<or> fl_fullSize f \<noteq> 0 \<and> fl_loadSize f \<le> fl_nextRequestOffset f"
  shows "takes_ok (\<lambda>g K. g = f \<and> K = {})"
  using assms by (auto simp: takes_ok_def)

lemma finalizeResult_right:
  assumes "holds (\<lambda>g K. g = f \<and> K = {}) t s" "file_going c f {}" "int (length c) \<le> fl_nextRequestOffset f"
  shows "keeps (holds (file_right c) t) (map_option snd (finalizeResult t stored s))"
proof -
  have f: "task_loader (dl_tasks s t) = FileTask f" using assms(1) by (auto simp: holds_def)
  have "fl_data f = c" by (rule going_done [OF assms(2,3)])
  then have "holds (file_ended c) t (update_file t (\<lambda>f. f\<lparr>fl_finished := True, fl_fileIsOpen := False\<rparr>) s)"
    by (intro update_file_holds [OF assms(1)]) (simp add: file_ended_def)
  then show ?thesis
    using f assms(2) file_cancel_ended [OF assms(1), of c] by (auto simp: finalizeResult_def file_going_def keeps_def intro: holds_mono ended_right)
qed

lemma no_requests_wait:
  assumes "good s" "t \<in> set (dl_live s)" "\<not> haveSentRequests (dl_tasks s t)"
  shows "waits_for (dl_tasks s t) = {}"
  using no_sent_offsets [OF goodD(1) [OF assms(1)] assms(2)] haveSentRequests_offsets [OF assms(3)] by (simp add: waits_for_def)

lemma feed_right:
  assumes "good s" "t \<in> set (dl_live s)" "holds (file_gets c k) t s" "task_loader (dl_tasks s t) = FileTask f"
  shows "keeps (holds (file_right c) t) (map_option snd (file_feedPart t f k (part_of c k) written stored s))"
proof -
  define K where "K = waits_for (dl_tasks s t)"
  define g where "g = write_memory (nat k) (part_of c k) f"
  define g2 where "g2 = (if length (part_of c k) mod 1024 \<noteq> 0 then g\<lparr>fl_lastComplete := True\<rparr> else g)"
  define s2 where "s2 = update_file t (\<lambda>_. g2) s"
  have gets: "file_going c f (insert k K)" "k \<notin> K" using assms(3,4) by (auto simp: holds_def file_gets_def K_def)
  note facts = gets(1) [unfolded file_going_def]
  have k: "0 \<le> k" "k < int (length c)" "k < fl_nextRequestOffset f" "kDownloadPartSize dvd k" "kDownloadPartSize dvd fl_nextRequestOffset f" using facts by blast+
  have some: "part_of c k \<noteq> []" using k(1,2) part_positive by (auto simp: part_of_def)
  have going: "file_going c g K" unfolding g_def by (rule going_write [OF gets(1)])
  have "int (length c) \<le> fl_nextRequestOffset f" if "length (part_of c k) mod 1024 \<noteq> 0"
  proof -
    have "nat kDownloadPartSize mod 1024 = 0" by (simp add: kDownloadPartSize_def)
    then have "length (part_of c k) \<noteq> nat kDownloadPartSize" using that by metis
    then have "int (length c) < k + kDownloadPartSize" using k(1,2) by (simp add: min_def split: if_splits)
    then show ?thesis using part_room [OF k(4,5,3)] by linarith
  qed
  then have going2: "file_going c g2 K" using going by (simp add: g2_def g_def file_going_def has_part_def)
  have s2: "task_loader (dl_tasks s2 t) = FileTask g2" "waits_for (dl_tasks s2 t) = K" "haveSentRequests (dl_tasks s2 t) = haveSentRequests (dl_tasks s t)"
    "plain (dl_nextRequest s2) (dl_tasks s2 t)" "dl_live s2 = dl_live s"
    using assms(3,4) by (auto simp: s2_def update_file_def K_def haveSentRequests_def holds_def)
  have good2: "good s2" unfolding s2_def
    by (rule update_file_good [OF assms(1)]) (use good_inv [OF assms(1,2)] assms(4) in \<open>simp add: loader_inv_def g2_def g_def\<close>)
  have twice: "update_file t h (update_file t h' s) = update_file t (\<lambda>_. h (h' f)) s" "update_file t h' s = update_file t (\<lambda>_. h' f) s" for h h'
    using assms(4) by (simp_all add: update_file_def update_task_def)
  have feed: "file_feedPart t f k (part_of c k) written stored s =
      (if loading_done (dl_tasks s2 t) then dl_remove loader_calls t s2 \<bind> finalizeResult t stored else Some (True, s2))"
    using facts some twice by (simp add: file_feedPart_def writeResultPart_def s2_def g2_def g_def)
  show ?thesis
  proof (cases "loading_done (dl_tasks s2 t)")
    case True
    then have fin: "\<not> haveSentRequests (dl_tasks s2 t)" "fl_lastComplete g2 \<or> fl_fullSize g2 \<noteq> 0 \<and> fl_loadSize g2 \<le> fl_nextRequestOffset g2"
      using s2(1) by (auto simp: loading_done_def)
    then have K: "K = {}" using no_requests_wait [OF good2] s2(2,5) assms(2) by simp
    have "holds (\<lambda>g K. g = g2 \<and> K = {}) t s2" using s2 K by (simp add: holds_def)
    then have removed: "keeps (holds (\<lambda>g K. g = g2 \<and> K = {}) t) (dl_remove loader_calls t s2)" by (rule send_keeps(2) [OF not_ready_takes [OF fin(2)]])
    have last: "int (length c) \<le> fl_nextRequestOffset g2" using fin(2) going2 by (auto simp: file_going_def)
    have "keeps (holds (file_right c) t) (map_option snd (finalizeResult t stored s3))" if "dl_remove loader_calls t s2 = Some s3" for s3
      using removed that going2 K by (intro finalizeResult_right [OF _ _ last]) (simp_all add: keeps_def)
    then show ?thesis using True feed by (cases "dl_remove loader_calls t s2") simp_all
  next
    case False
    have "K \<noteq> {} \<or> fl_nextRequestOffset g2 < int (length c)"
    proof (rule ccontr)
      assume stuck: "\<not> ?thesis"
      have "sentRequests (dl_tasks s2 t) = []"
      proof (rule ccontr)
        assume "sentRequests (dl_tasks s2 t) \<noteq> []"
        then obtain r rd where r: "(r, rd) \<in> set (sentRequests (dl_tasks s2 t))" by (cases "sentRequests (dl_tasks s2 t)") auto
        have "map_of (requestByOffset (dl_tasks s2 t)) (rd_offset rd) = Some r"
          using task_okD(5) [OF downloads_okD(5) [OF books_okD(1) [OF goodD(1) [OF good2]], unfolded live_ok_def] r] assms(2) s2(5) by simp
        then show False using stuck s2(2) by (auto simp: waits_for_def dest!: map_of_SomeD)
      qed
      then have "\<not> haveSentRequests (dl_tasks s2 t)" using s2(4) by (simp add: haveSentRequests_def plain_def)
      then show False using False stuck s2(1) going2 by (simp add: loading_done_def file_going_def)
    qed
    moreover have "\<not> fl_finished g2" using going2 by (simp add: file_going_def)
    ultimately have "file_right c g2 K" using going2 by (simp add: file_right_def)
    then have "holds (file_right c) t s2" using s2 by (intro holdsI) simp_all
    then show ?thesis using False feed by simp
  qed
qed

section \<open>Stored bytes of the file\<close>

lemma going_prefix:
  assumes "file_going c f {}" "\<not> fl_lastComplete f" "n < length c" "kDownloadPartSize dvd int n"
  shows "file_going c (write_memory 0 (take n c) (f\<lparr>fl_nextRequestOffset := int n\<rparr>)) {}"
proof -
  let ?g = "write_memory 0 (take n c) (f\<lparr>fl_nextRequestOffset := int n\<rparr>)"
  have len: "length (take n c) = n" using assms(3) by simp
  have "p < length (fl_data ?g) \<and> fl_data ?g ! p = c ! p" if "p < n" for p
  proof -
    have "p < max (length (fl_data (f\<lparr>fl_nextRequestOffset := int n\<rparr>))) (0 + length (take n c))" using that len by linarith
    then show ?thesis using write_memory_data(2) [of p _ 0 "take n c"] that len assms(3) by (simp add: write_memory_data(1))
  qed
  moreover have "k + kDownloadPartSize \<le> int n" if "k < int n" "kDownloadPartSize dvd k" for k
    using part_room [OF that(2) assms(4) that(1)] .
  ultimately have "has_part c ?g k" if "0 \<le> k" "k < int n" "kDownloadPartSize dvd k" for k
    unfolding has_part_def using that part_positive by (fastforce simp: nat_less_iff zless_nat_eq_int_zless)
  then show ?thesis using assms len by (simp add: file_going_def write_memory_data)
qed

lemma startLoadingWithPartial_right:
  assumes "holds (file_right c) t s" "task_loader (dl_tasks s t) = FileTask f" "\<not> fl_finished f" "waits_for (dl_tasks s t) = {}"
    and "take (length bytes) c = bytes" "length bytes < length c"
  shows "keeps (holds (file_right c) t) (startLoadingWithPartial t bytes written stored s)"
proof -
  define P where "P = nat kDownloadPartSize"
  define n where "n = length bytes div P * P"
  define h where "h = write_memory 0 (take n bytes) (f\<lparr>fl_nextRequestOffset := int n\<rparr>)"
  define s1 where "s1 = update_file t (\<lambda>f. f\<lparr>fl_nextRequestOffset := int n\<rparr>) s"
  define s2 where "s2 = update_file t (\<lambda>_. h) s"
  have f: "file_going c f {}" "fl_nextRequestOffset f < int (length c)" "\<not> fl_lastComplete f"
    using assms(1-4) by (auto simp: holds_def file_right_def file_going_def)
  have n: "n \<le> length bytes" by (simp add: n_def)
  then have prefix: "take n bytes = take n c" using assms(5) by (metis min.absorb1 take_take)
  have dvd: "kDownloadPartSize dvd int n" using part_positive by (simp add: n_def P_def)
  have going: "file_going c h {}" unfolding h_def prefix using n assms(6) by (intro going_prefix [OF f(1,3) _ dvd]) simp
  have h: "fl_nextRequestOffset h = int n" "\<not> fl_lastComplete h" "\<not> fl_finished h" "fl_loadSize h = int (length c)" using going f(3) by (simp_all add: h_def file_going_def)
  have "n mod 1024 = 0" by (simp add: n_def P_def kDownloadPartSize_def)
  have s1: "task_loader (dl_tasks s1 t) = FileTask (f\<lparr>fl_nextRequestOffset := int n\<rparr>)" "update_file t (write_memory 0 (take n bytes)) s1 = s2"
    using assms(2) by (simp_all add: s1_def s2_def h_def update_file_def update_task_def)
  have s2: "task_loader (dl_tasks s2 t) = FileTask h" using assms(2) by (simp add: s2_def)
  then have "\<not> loading_done (dl_tasks s2 t)" using h n assms(6) by (simp add: loading_done_def)
  then have feed: "file_feedPart t (f\<lparr>fl_nextRequestOffset := int n\<rparr>) 0 (take n bytes) written stored s1 = Some (True, s2)" if "0 < n"
    using that f(1) n s1(2) \<open>n mod 1024 = 0\<close> by (auto simp: file_feedPart_def writeResultPart_def file_going_def min_def)
  have "holds (file_right c) t s2" unfolding s2_def
    by (rule update_file_holds [OF assms(1)]) (use going h n assms(4,6) in \<open>simp add: file_right_def\<close>)
  then have "keeps (holds (file_right c) t) (if n > 0 then case task_loader (dl_tasks s1 t) of
      FileTask f \<Rightarrow> map_option snd (file_feedPart t f 0 (take n bytes) written stored s1) | StreamTask l \<Rightarrow> None else Some s)"
    using assms(1) feed by (simp add: s1(1))
  then show ?thesis
    unfolding startLoadingWithPartial_def Let_def P_def [symmetric] n_def [symmetric] s1_def [symmetric]
    by (intro keeps_bind [where H = "holds (file_right c) t"] startLoading_keeps [OF right_takes])
qed

lemma file_start_right:
  assumes "holds (file_right c) t s" "\<not> toFileOnly"
  shows "keeps (holds (file_right c) t) (file_start t f local localOnly toFileOnly opened s)"
  using assms file_cancel_right [OF assms(1), of t] startLoading_keeps [OF right_takes assms(1)] by (simp add: file_start_def checkForOpen_def)

lemma finishWithBytes_right:
  assumes "holds (file_right c) t s"
  shows "keeps (holds (file_right c) t) (finishWithBytes t c stored s)"
proof -
  have s1: "holds (\<lambda>f K. fl_data f = c) t (update_file t (\<lambda>f. f\<lparr>fl_data := c\<rparr>) s)" by (rule update_file_holds [OF assms]) simp
  have "holds (file_ended c) t (update_file t (\<lambda>f. f\<lparr>fl_finished := True, fl_fileIsOpen := False\<rparr>) (update_file t (\<lambda>f. f\<lparr>fl_data := c\<rparr>) s))"
    by (rule update_file_holds [OF s1]) (simp add: file_ended_def)
  then show ?thesis
    using file_cancel_ended [OF s1, of c] by (auto simp: finishWithBytes_def Let_def keeps_def intro: holds_mono ended_right)
qed

text \<open>What the cache says of the file: nothing, a prefix that is marked as a part, or all of it.\<close>

lemma localLoaded_right:
  assumes "holds (file_right c) t s" "task_loader (dl_tasks s t) = FileTask f" "\<not> fl_finished f" "waits_for (dl_tasks s t) = {}"
    and "\<not> toFileOnly" "\<And>partial bytes. result = Some (partial, bytes) \<Longrightarrow> if partial then take (length bytes) c = bytes else bytes = c"
  shows "keeps (holds (file_right c) t) (localLoaded t f result localOnly toFileOnly opened written stored s)"
proof (cases result)
  case None
  then show ?thesis using file_start_right [OF assms(1,5)] by (simp add: localLoaded_def)
next
  case (Some r)
  obtain partial bytes where r: "r = (partial, bytes)" by (cases r)
  have told: "if partial then take (length bytes) c = bytes else bytes = c" using assms(6) Some r by blast
  have size: "fl_loadSize f = int (length c)" using assms(1-3) by (auto simp: holds_def file_right_def file_going_def)
  show ?thesis
  proof (cases "partial \<and> length bytes < length c")
    case True
    then show ?thesis
      using told startLoadingWithPartial_right [OF assms(1-4)] assms(5) size by (simp add: localLoaded_def Some r checkForOpen_def)
  next
    case False
    then have "bytes = c" using told by (auto simp: not_less split: if_splits)
    then show ?thesis using False finishWithBytes_right [OF assms(1)] size by (auto simp: localLoaded_def Some r)
  qed
qed

section \<open>Requests that move\<close>

lemma cancel_other: "u \<noteq> t \<Longrightarrow> holds Q t s \<Longrightarrow> cancelRequest u r s = Some s' \<Longrightarrow> holds Q t s'"
  by (erule cancel_view, rule holds_cong) auto

lemma make_other: "u \<noteq> t \<Longrightarrow> holds Q t s \<Longrightarrow> makeRequest u rd s = Some s' \<Longrightarrow> holds Q t s'"
  by (rule holds_cong) (use make_view(1,2) [of u rd s s'] in auto)

text \<open>A request of the file that is replaced by a new one for the same part.\<close>

lemma replace_holds:
  assumes "holds Q t s" "waits_for (dl_tasks s1 t) = waits_for (dl_tasks s t) - {k}" "k \<in> waits_for (dl_tasks s t)"
    and "task_loader (dl_tasks s1 t) = task_loader (dl_tasks s t)" "plain (dl_nextRequest s1) (dl_tasks s1 t)"
    and "makeRequest t rd s1 = Some s2" "rd_offset rd = k"
  shows "holds Q t s2"
proof -
  note view = make_view [OF assms(6)]
  have "waits_for (dl_tasks s2 t) = waits_for (dl_tasks s t)" using view(4) assms(2,3,7) by auto
  moreover have "plain (dl_nextRequest s2) (dl_tasks s2 t)" by (rule plain_make [OF assms(6,5)])
  ultimately show ?thesis using assms(1,4) view(3) by (simp add: holds_def)
qed

lemma resend_holds:
  assumes "holds Q t s" "resendRequest u r s = Some s'"
  shows "holds Q t s'"
proof -
  obtain rd s1 where s1: "finishSentRequest u r Redirect s = Some (rd, s1)" "makeRequest u rd s1 = Some s'"
    using assms(2) by (auto simp: resendRequest_def bind_eq_Some_conv)
  note view = finish_view [OF s1(1)]
  show ?thesis
  proof (cases "u = t")
    case True
    have plain: "plain (dl_nextRequest s) (dl_tasks s t)" using assms(1) by (simp add: holds_def)
    then have "plain (dl_nextRequest s1) (dl_tasks s1 t)"
      unfolding view(2) using True view(7-9) by (intro plain_erase [OF plain]) (auto simp: plain_def)
    then show ?thesis using True view(4-6) s1(2) by (intro replace_holds [OF assms(1), of s1 "rd_offset rd" rd]) simp_all
  next
    case False
    then have "holds Q t s1" using view(1,2) by (intro holds_cong [OF assms(1)]) simp_all
    then show ?thesis by (rule make_other [OF False _ s1(2)])
  qed
qed

lemma redirect_holds:
  assumes "holds Q t s" "redirect_requests u n rs s = Some s'" "u = t \<Longrightarrow> distinct (map fst rs)"
    and "\<And>r k. u = t \<Longrightarrow> (r, k) \<in> set rs \<Longrightarrow> \<exists>rd. map_of (sentRequests (dl_tasks s t)) r = Some rd \<and> rd_offset rd = k"
  shows "holds Q t s'"
  using assms
proof (induction u n rs s rule: redirect_requests.induct)
  case (2 u n r k rs s)
  obtain s1 where s1: "cancelRequest u r s = Some s1"
    using 2(3) by (auto simp: Let_def bind_eq_Some_conv)
  obtain s2 where s2: "(if r \<noteq> cdnHashesRequestId (dl_tasks s u) then do { newIndex \<leftarrow> chooseSessionIndex (task_dcId (dl_tasks s1 u)) s1;
      if newIndex < n then makeRequest u (new_request k newIndex) s1 else None } else Some s1) = Some s2" "redirect_requests u n rs s2 = Some s'"
    using 2(3) s1 by (auto simp: Let_def bind_eq_Some_conv)
  have rest: "distinct (map fst rs)" "r \<notin> fst ` set rs" if "u = t" using 2(4) that by simp_all
  have follow: "holds Q t s2 \<and> (\<forall>r' k'. u = t \<longrightarrow> (r', k') \<in> set rs \<longrightarrow> (\<exists>rd. map_of (sentRequests (dl_tasks s2 t)) r' = Some rd \<and> rd_offset rd = k'))"
  proof (cases "u = t")
    case True
    have plain: "plain (dl_nextRequest s) (dl_tasks s t)" using 2(2) by (simp add: holds_def)
    obtain rd where rd: "map_of (sentRequests (dl_tasks s t)) r = Some rd" "rd_offset rd = k" using 2(5) [of r k] True by auto
    have "0 < r" using plain rd(1) map_of_SomeD by (fastforce simp: plain_def)
    then have "r \<noteq> cdnHashesRequestId (dl_tasks s t)" using plain by (simp add: plain_def)
    then obtain j where make: "makeRequest t (new_request k j) s1 = Some s2" using s2(1) True by (auto simp: bind_eq_Some_conv split: if_splits)
    obtain rd' where view: "dl_nextRequest s1 = dl_nextRequest s" "map_of (sentRequests (dl_tasks s t)) r = Some rd'" "rd_offset rd' \<in> waits_for (dl_tasks s t)"
      "task_loader (dl_tasks s1 t) = task_loader (dl_tasks s t)" "waits_for (dl_tasks s1 t) = waits_for (dl_tasks s t) - {rd_offset rd'}"
      "sentRequests (dl_tasks s1 t) = flat_erase r (sentRequests (dl_tasks s t))"
      using cancel_view [OF s1] True by metis
    have plain1: "plain (dl_nextRequest s1) (dl_tasks s1 t)" unfolding view(1) using plain_cancel [OF s1] plain True by blast
    have "holds Q t s2"
      by (rule replace_holds [OF 2(2) view(5) view(3) view(4) plain1 make]) (use rd view(2) in \<open>simp add: new_request_def\<close>)
    moreover have "\<exists>rd. map_of (sentRequests (dl_tasks s2 t)) r' = Some rd \<and> rd_offset rd = k'" if e: "(r', k') \<in> set rs" for r' k'
    proof -
      obtain rd'' where rd'': "map_of (sentRequests (dl_tasks s t)) r' = Some rd''" "rd_offset rd'' = k'" using 2(5) [of r' k'] True e by auto
      have "r' \<noteq> r" using e rest(2) True by force
      moreover have "r' < dl_nextRequest s" using plain map_of_SomeD [OF rd''(1)] by (force simp: plain_def)
      moreover obtain rd3 where "sentRequests (dl_tasks s2 t) = flat_emplace (dl_nextRequest s) rd3 (flat_erase r (sentRequests (dl_tasks s t)))"
        using make_view(5) [OF make] view(1,6) by auto
      moreover have "flat_map_ok (flat_erase r (sentRequests (dl_tasks s t)))" using plain by (auto simp: plain_def)
      ultimately show ?thesis using rd'' by (simp add: map_of_flat_emplace map_of_flat_erase)
    qed
    ultimately show ?thesis by blast
  next
    case False
    have "holds Q t s1" by (rule cancel_other [OF False 2(2) s1])
    then show ?thesis using s2(1) make_other [OF False] False by (auto simp: bind_eq_Some_conv split: if_splits)
  qed
  show ?case
  proof (rule 2(1) [OF refl s1 s2(1) conjunct1 [OF follow] s2(2) rest(1)])
    show "\<exists>rd. map_of (sentRequests (dl_tasks s2 t)) r' = Some rd \<and> rd_offset rd = k'" if "u = t" "(r', k') \<in> set rs" for r' k'
      using conjunct2 [OF follow] that by simp
  qed
qed simp

lemma task_removeSession_holds:
  assumes "holds Q t s" "task_removeSession n u s = Some s'"
  shows "holds Q t s'"
proof -
  define rs where "rs = map (\<lambda>(r, rd). (r, rd_offset rd)) (filter (\<lambda>(r, rd). rd_sessionIndex rd = n) (sentRequests (dl_tasks s u)))"
  obtain parts where parts: "move_unchecked (task_dcId (dl_tasks s u)) n s (cdnUncheckedParts (dl_tasks s u)) = Some parts"
    "redirect_requests u n rs (update_task u (\<lambda>x. x\<lparr>cdnUncheckedParts := parts\<rparr>) s) = Some s'"
    using assms(2) by (auto simp: task_removeSession_def Let_def bind_eq_Some_conv rs_def)
  have plain: "plain (dl_nextRequest s) (dl_tasks s t)" using assms(1) by (simp add: holds_def)
  show ?thesis
  proof (cases "u = t")
    case True
    then have none: "parts = []" "cdnUncheckedParts (dl_tasks s t) = []" using parts(1) plain by (simp_all add: plain_def)
    then have same: "(dl_tasks s t)\<lparr>cdnUncheckedParts := parts\<rparr> = dl_tasks s t" by simp
    have sorted: "distinct (map fst (sentRequests (dl_tasks s t)))" using plain flat_map_ok_distinct by (auto simp: plain_def)
    have "distinct (map fst rs)" using distinct_map_filter [OF sorted] True by (simp add: rs_def comp_def case_prod_unfold)
    moreover have "\<exists>rd. map_of (sentRequests (dl_tasks s t)) r = Some rd \<and> rd_offset rd = k" if "(r, k) \<in> set rs" for r k
      using that sorted True by (auto simp: rs_def)
    ultimately show ?thesis
      using True same by (intro redirect_holds [OF _ parts(2)] holds_cong [OF assms(1)]) simp_all
  next
    case False
    then show ?thesis using assms(1) by (intro redirect_holds [OF _ parts(2)]) (simp_all add: holds_task)
  qed
qed

lemma remove_from_tasks_holds: "remove_from_tasks n us s = Some s' \<Longrightarrow> holds Q t s \<Longrightarrow> holds Q t s'"
  by (induction n us s rule: remove_from_tasks.induct) (auto simp: bind_eq_Some_conv intro: task_removeSession_holds)

lemma sessionTimedOut_holds:
  assumes "holds Q t s"
  shows "keeps (holds Q t) (sessionTimedOut dc i s)"
proof -
  have "keeps (holds Q t) (removeSession dc s)" if "holds Q t s" for s
    unfolding removeSession_def Let_def using that remove_from_tasks_holds
    by (auto simp: keeps_def bind_eq_Some_conv split: if_splits)
  then show ?thesis using assms by (simp add: sessionTimedOut_def Let_def split: option.split)
qed

end
