(* ===== verification/DownloadFiles.thy ===== *)
theory DownloadFiles
  imports DownloadContent
begin

text \<open>
  Files are loaded whole: a file that is told the truth by the server and by the cache has all its bytes when it
  is finished, and until then it waits for a part or can ask for the next one.
\<close>

section \<open>Definitions\<close>

text \<open>
  An event tells the truth about the file \<open>c\<close> of the task \<open>t\<close>: a part that arrives is the part of \<open>c\<close> at the offset
  that was asked for, and what the cache has is \<open>c\<close> or a prefix of it that is marked as a part. The file is kept in memory.
\<close>

definition truthful :: "string \<Rightarrow> task_id \<Rightarrow> event \<Rightarrow> loader downloads \<Rightarrow> bool" where
  "truthful c t e s \<longleftrightarrow> event_task e = Some t \<longrightarrow>
     (let told = (\<lambda>requestId bytes. case map_of (sentRequests (dl_tasks s t)) requestId of None \<Rightarrow> True | Some rd \<Rightarrow> bytes = part_of c (rd_offset rd))
      in case e of
           NewFile u dc named loadSize fullSize \<Rightarrow> False
         | NewStream u dc \<Rightarrow> False
         | StartFile u local localOnly toFileOnly opened \<Rightarrow> \<not> toFileOnly
         | LocalLoaded u result localOnly toFileOnly opened written stored \<Rightarrow>
             \<not> toFileOnly \<and> (case result of None \<Rightarrow> True | Some (partial, bytes) \<Rightarrow> if partial then take (length bytes) c = bytes else bytes = c)
         | PartLoaded u requestId bytes written stored deleted \<Rightarrow> told requestId bytes
         | WebPartLoaded u requestId webSize bytes written stored deleted \<Rightarrow> webSize = int (length c) \<and> told requestId bytes
         | _ \<Rightarrow> True)"

fun all_truthful :: "string \<Rightarrow> task_id \<Rightarrow> event list \<Rightarrow> loader downloads \<Rightarrow> bool" where
  "all_truthful c t [] s \<longleftrightarrow> True"
| "all_truthful c t (e # es) s \<longleftrightarrow> truthful c t e s \<and> (case handle e s of None \<Rightarrow> False | Some s' \<Rightarrow> all_truthful c t es s')"

text \<open>A file of six bytes, loaded from the server beside another one.\<close>

definition example_file :: string where "example_file = ''abcdef''"

definition example_loading :: "event list" where
  "example_loading = [NewFile 2 2 True 100000 100000, StartFile 1 False False False False, TimePasses 20, PartLoaded 1 1 example_file True True False]"

section \<open>Answers for the file\<close>

lemma feedPart_right:
  assumes "good s" "t \<in> set (dl_live s)" "holds (file_gets c k) t s" "bytes = part_of c k"
  shows "keeps (holds (file_right c) t) (map_option snd (feedPart t k bytes written stored s))"
proof -
  obtain f where f: "task_loader (dl_tasks s t) = FileTask f" using assms(3) by (rule holdsE)
  then show ?thesis using feed_right [OF assms(1-3) f] assms(4) by (simp add: feedPart_def)
qed

lemma normalPartLoaded_right:
  assumes "good s" "t \<in> set (dl_live s)" "holds (file_right c) t s"
    and "\<And>rd. map_of (sentRequests (dl_tasks s t)) r = Some rd \<Longrightarrow> bytes = part_of c (rd_offset rd)"
  shows "keeps (holds (file_right c) t) (normalPartLoaded t r bytes written stored deleted s)"
proof (cases "finishSentRequest t r Success s")
  case None
  then show ?thesis by (simp add: normalPartLoaded_def)
next
  case (Some p)
  obtain rd s1 where finish: "finishSentRequest t r Success s = Some (rd, s1)" using Some by (cases p) simp
  note sent = finish_view(3) [OF finish]
  obtain s1' where "finishSentRequest t r Success s = Some (rd, s1')" "good s1'" "same_live s s1'" using finishSentRequest_cases [OF assms(1,2) sent] by metis
  then have s1: "good s1" "same_live s s1" using finish by auto
  then have live: "t \<in> set (dl_live s1)" using assms(2) same_live_set by blast
  have "holds (file_gets c (rd_offset rd)) t s1" by (rule finish_gets [OF assms(3,1,2) finish])
  then have "keeps (holds (file_right c) t) (map_option snd (feedPart t (rd_offset rd) bytes written stored s1))"
    by (rule feedPart_right [OF s1(1) live _ assms(4) [OF sent]])
  then have "keeps (holds (file_right c) t) (feedPart t (rd_offset rd) bytes written stored s1 \<bind>
      (\<lambda>(_, s). delete_now deleted t s \<bind> checkSendNextAfterSuccess loader_calls (task_dcId (dl_tasks s1 t))))"
    by (rule keeps_snd) (rule after_answer_right)
  then show ?thesis using finish by (simp add: normalPartLoaded_def Let_def)
qed

lemma gets_sizes:
  assumes "holds (file_gets c k) t s"
  shows "setWebFileSizeHook t (int (length c)) s = Some (True, update_file t (\<lambda>f. f\<lparr>fl_loadSize := int (length c), fl_fullSize := int (length c)\<rparr>) s)"
    and "holds (file_gets c k) t (update_file t (\<lambda>f. f\<lparr>fl_loadSize := int (length c), fl_fullSize := int (length c)\<rparr>) s)"
proof -
  obtain f where "task_loader (dl_tasks s t) = FileTask f" "file_gets c k f (waits_for (dl_tasks s t))" using assms by (rule holdsE)
  then show "setWebFileSizeHook t (int (length c)) s = Some (True, update_file t (\<lambda>f. f\<lparr>fl_loadSize := int (length c), fl_fullSize := int (length c)\<rparr>) s)"
    by (simp add: setWebFileSizeHook_def file_gets_def file_going_def)
  show "holds (file_gets c k) t (update_file t (\<lambda>f. f\<lparr>fl_loadSize := int (length c), fl_fullSize := int (length c)\<rparr>) s)"
    by (rule update_file_holds [OF assms]) (simp add: file_gets_def file_going_def has_part_def)
qed

lemma webPartLoaded_right:
  assumes "good s" "t \<in> set (dl_live s)" "holds (file_right c) t s"
    and "\<And>rd. map_of (sentRequests (dl_tasks s t)) r = Some rd \<Longrightarrow> bytes = part_of c (rd_offset rd)"
  shows "keeps (holds (file_right c) t) (webPartLoaded t r (int (length c)) bytes written stored deleted s)"
proof (cases "finishSentRequest t r Success s")
  case None
  then show ?thesis by (simp add: webPartLoaded_def)
next
  case (Some p)
  obtain rd s1 where finish: "finishSentRequest t r Success s = Some (rd, s1)" using Some by (cases p) simp
  note sent = finish_view(3) [OF finish]
  obtain s1' where "finishSentRequest t r Success s = Some (rd, s1')" "good s1'" "same_live s s1'" using finishSentRequest_cases [OF assms(1,2) sent] by metis
  then have s1: "good s1" "same_live s s1" using finish by auto
  have gets: "holds (file_gets c (rd_offset rd)) t s1" by (rule finish_gets [OF assms(3,1,2) finish])
  define s2 where "s2 = update_file t (\<lambda>f. f\<lparr>fl_loadSize := int (length c), fl_fullSize := int (length c)\<rparr>) s1"
  have "good s2" unfolding s2_def by (rule update_file_simple_good [OF s1(1)]) simp_all
  moreover have "t \<in> set (dl_live s2)" using s1(2) assms(2) same_live_set by (auto simp: s2_def)
  ultimately have "keeps (holds (file_right c) t) (map_option snd (feedPart t (rd_offset rd) bytes written stored s2))"
    using gets_sizes(2) [OF gets] by (intro feedPart_right assms(4) [OF sent]) (simp_all add: s2_def)
  then have "keeps (holds (file_right c) t) (map_option snd (feedPart t (rd_offset rd) bytes written stored s2) \<bind>
      (\<lambda>s. delete_now deleted t s \<bind> checkSendNextAfterSuccess loader_calls (task_dcId (dl_tasks s1 t))))"
    by (rule keeps_bind) (rule after_answer_right)
  then show ?thesis using finish gets_sizes(1) [OF gets] by (simp add: webPartLoaded_def Let_def flip: s2_def)
qed

lemma cancelOnFail_right:
  assumes "holds (file_right c) t s"
  shows "keeps (holds (file_right c) t) (cancelOnFail t s)" "keeps (holds (file_right c) t) (map_option snd (partFailed t d s))"
    "keeps (holds (file_right c) t) (map_option snd (normalPartFailed t d e s))" "keeps (holds (file_right c) t) (refreshFileReferenceFrom t a b r s)"
proof -
  obtain f where "task_loader (dl_tasks s t) = FileTask f" using assms by (rule holdsE)
  then show fail: "keeps (holds (file_right c) t) (cancelOnFail t s)" using file_cancel_right [OF assms] by (simp add: cancelOnFail_def)
  then show "keeps (holds (file_right c) t) (map_option snd (partFailed t d s))" "keeps (holds (file_right c) t) (map_option snd (normalPartFailed t d e s))"
    using assms by (simp_all add: partFailed_def normalPartFailed_def)
  have "keeps (holds (file_right c) t) (resendRequest t r s)" using resend_holds [OF assms] by (simp add: keeps_def)
  then show "keeps (holds (file_right c) t) (refreshFileReferenceFrom t a b r s)" using assms fail by (simp add: refreshFileReferenceFrom_def)
qed

lemma increaseLoadSize_right:
  assumes "holds (file_right c) t s" "event_ok (IncreaseLoadSize t n) s"
  shows "keeps (holds (file_right c) t) (increaseLoadSize t n s)"
proof -
  obtain f where f: "task_loader (dl_tasks s t) = FileTask f" "file_right c f (waits_for (dl_tasks s t))" using assms(1) by (rule holdsE)
  have size: "fl_loadSize f < n" "n \<le> fl_fullSize f" using assms(2) f(1) by (auto simp: file_event_def)
  have "fl_finished f"
  proof (rule ccontr)
    assume "\<not> fl_finished f"
    then show False using f(2) size by (simp add: file_right_def file_going_def)
  qed
  then have "holds (file_right c) t (update_file t (\<lambda>f. f\<lparr>fl_loadSize := n\<rparr>) s)"
    by (intro update_file_holds [OF assms(1)]) (use f(1) in \<open>simp add: file_right_def\<close>)
  then show ?thesis using f(1) size by (simp add: increaseLoadSize_def)
qed

section \<open>Events\<close>

lemma file_not_stream: "holds Q t s \<Longrightarrow> \<not> stream_event t s"
  by (auto simp: holds_def stream_event_def)

lemma event_of_file:
  assumes "good s" "event_ok e s" "truthful c t e s" "holds (file_right c) t s" "event_task e = Some t"
  shows "keeps (holds (file_right c) t) (handle e s)"
proof -
  obtain f where f: "task_loader (dl_tasks s t) = FileTask f" using assms(4) by (rule holdsE)
  note no_stream = file_not_stream [OF assms(4)]
  show ?thesis
  proof (cases e)
    case (StartFile u a b d g)
    then show ?thesis using assms(3,5) file_start_right [OF assms(4)] f by (simp add: truthful_def on_file_def)
  next
    case (LocalLoaded u r a b d g h)
    then have ok: "t \<in> set (dl_live s)" "\<not> fl_finished f" "\<not> haveSentRequests (dl_tasks s t)" using assms(2,5) f by (auto simp: file_event_def)
    have "keeps (holds (file_right c) t) (localLoaded t f r a b d g h s)"
      using assms(3,5) LocalLoaded
      by (intro localLoaded_right [OF assms(4) f ok(2) no_requests_wait [OF assms(1) ok(1,3)]]) (auto simp: truthful_def split: option.splits if_splits)
    then show ?thesis using LocalLoaded assms(5) f by (simp add: on_file_def)
  next
    case (IncreaseLoadSize u n)
    then show ?thesis using assms(2,5) increaseLoadSize_right [OF assms(4)] by simp
  next
    case (PartLoaded u r b w st d)
    then have "t \<in> set (dl_live s)" using assms(2,5) by (simp add: answer_event_def)
    then show ?thesis
      using PartLoaded assms(3,5) by (auto simp: truthful_def Let_def intro!: normalPartLoaded_right [OF assms(1) _ assms(4)] split: option.splits)
  next
    case (WebPartLoaded u r n b w st d)
    then have "t \<in> set (dl_live s)" using assms(2,5) by (simp add: answer_event_def)
    then show ?thesis
      using WebPartLoaded assms(3,5) by (auto simp: truthful_def Let_def intro!: webPartLoaded_right [OF assms(1) _ assms(4)] split: option.splits)
  qed (use assms(2,3,5) no_stream cancelOnFail_right [OF assms(4)] file_cancel_right [OF assms(4)] delete_loader_right [OF assms(4)] in \<open>simp_all add: truthful_def\<close>)
qed

lemma event_right:
  assumes "good s" "event_ok e s" "truthful c t e s" "holds (file_right c) t s"
  shows "keeps (holds (file_right c) t) (handle e s)"
proof (cases "event_task e")
  case (Some u)
  then show ?thesis
    using event_of_file [OF assms] untouched.handle_keeps [OF untouched_holds [OF right_takes] assms(4)] by (cases "u = t") simp_all
next
  case None
  have "keeps (holds (file_right c) t) (killSessions s)" "keeps (holds (file_right c) t) (dl_resetGeneration s)"
    unfolding keeps_def using timers_same holds_cong [OF assms(4)] by (metis order_refl)+
  then show ?thesis using None assms(4) sessionTimedOut_holds [OF assms(4)] by (cases e) simp_all
qed

lemma run_right:
  "run es s = Some s' \<Longrightarrow> reachable s \<Longrightarrow> all_truthful c t es s \<Longrightarrow> holds (file_right c) t s \<Longrightarrow> holds (file_right c) t s'"
proof (induction es arbitrary: s)
  case (Cons e es)
  obtain s1 where s1: "event_ok e s" "handle e s = Some s1" "run es s1 = Some s'"
    using Cons.prems(1) by (auto simp: bind_eq_Some_conv split: if_splits)
  have "truthful c t e s" "all_truthful c t es s1" using Cons.prems(3) s1(2) by simp_all
  moreover have "reachable s1" by (rule reachable.step [OF Cons.prems(2) s1(1,2)])
  ultimately show ?case
    using Cons.IH [OF s1(3)] event_right [OF reachable_good [OF Cons.prems(2)] s1(1) _ Cons.prems(4)] s1(2) by (simp add: keeps_def)
qed simp

lemma new_file_right:
  assumes "reachable s" "handle (NewFile t dc named (int (length c)) (int (length c))) s = Some s'" "c \<noteq> []"
  shows "holds (file_right c) t s'"
proof -
  obtain f where f: "new_file named (int (length c)) (int (length c)) = Some (FileTask f)" "s' = new_task t dc (FileTask f) s"
    using assms(2) by (auto simp: new_file_def split: if_splits)
  have "file_right c f {}" using f(1) assms(3) by (auto simp: new_file_def file_right_def file_going_def split: if_splits)
  moreover have "plain (dl_nextRequest s) (dl_tasks s' t)" using reachable_later [OF assms(1)] by (simp add: f(2) new_task_def plain_def)
  moreover have "task_loader (dl_tasks s' t) = FileTask f" "waits_for (dl_tasks s' t) = {}" "dl_nextRequest s' = dl_nextRequest s"
    by (simp_all add: f(2) new_task_def waits_for_def)
  ultimately show ?thesis by (intro holdsI) simp_all
qed

section \<open>Properties\<close>

text \<open>
  C3. A file that is created with its size, kept in memory and told the truth by the server and the cache is loaded whole. However the
  parts are ordered, whichever sessions they are moved between and whatever happens to other tasks meanwhile: when the
  file is finished and was not cancelled it has exactly its bytes, and as long as it is not finished it waits for a
  part or is ready to ask for the next one.
\<close>

theorem file_loaded_whole:
  assumes "reachable s" "c \<noteq> []" "event_ok (NewFile t dc named (int (length c)) (int (length c))) s"
    and "handle (NewFile t dc named (int (length c)) (int (length c))) s = Some s1" "all_truthful c t es s1" "run es s1 = Some s'"
  shows "\<exists>f. task_loader (dl_tasks s' t) = FileTask f
    \<and> (if fl_finished f then fl_cancelled f \<or> fl_data f = c else requestByOffset (dl_tasks s' t) \<noteq> [] \<or> task_ready (dl_tasks s' t))"
proof -
  have "reachable s1" by (rule reachable.step [OF assms(1,3,4)])
  then have "holds (file_right c) t s'" by (rule run_right [OF assms(6) _ assms(5) new_file_right [OF assms(1,4,2)]])
  then obtain f where f: "task_loader (dl_tasks s' t) = FileTask f" "file_right c f (waits_for (dl_tasks s' t))" by (rule holdsE)
  then show ?thesis by (auto simp: file_right_def file_going_def waits_for_def task_ready_def split: if_splits)
qed

lemma part_of_code [code]:
  "part_of c offset = (if int (length c) \<le> max 0 offset + kDownloadPartSize then drop (nat offset) c else take (nat kDownloadPartSize) (drop (nat offset) c))"
  using part_positive by (auto simp: part_of_def)

lemma example_loaded:
  "case run [NewFile 1 2 False 6 6] new_manager of None \<Rightarrow> False | Some s1 \<Rightarrow>
     all_truthful example_file 1 example_loading s1 \<and> (case run example_loading s1 of None \<Rightarrow> False
       | Some s' \<Rightarrow> (case task_loader (dl_tasks s' 1) of FileTask f \<Rightarrow> fl_finished f \<and> \<not> fl_cancelled f | StreamTask l \<Rightarrow> False))"
  by code_simp

theorem file_loaded_whole_witness:
  "\<exists>s1 s' f. run [NewFile 1 2 False 6 6] new_manager = Some s1 \<and> run example_loading s1 = Some s'
     \<and> task_loader (dl_tasks s' 1) = FileTask f \<and> fl_finished f \<and> fl_data f = ''abcdef''"
proof -
  obtain s1 s' f where run: "run [NewFile 1 2 False 6 6] new_manager = Some s1" "all_truthful example_file 1 example_loading s1"
    "run example_loading s1 = Some s'" "task_loader (dl_tasks s' 1) = FileTask f" "fl_finished f" "\<not> fl_cancelled f"
    using example_loaded by (auto split: option.splits loader.splits)
  have size: "int (length example_file) = 6" "example_file \<noteq> []" by (simp_all add: example_file_def)
  have first: "event_ok (NewFile 1 2 False 6 6) new_manager" "handle (NewFile 1 2 False 6 6) new_manager = Some s1"
    using run(1) by (auto simp: bind_eq_Some_conv simp del: event_ok.simps handle.simps split: if_splits)
  then have "fl_data f = example_file"
    using file_loaded_whole [OF reachable.start size(2), unfolded size(1), OF first run(2,3)] run(4-6) by auto
  then show ?thesis using run by (auto simp: example_file_def)
qed

end
