(* ===== verification/Spec2Isabelle.thy ===== *)
theory Spec2Isabelle
  imports ReceivedIds PtsWaiter SparseIdsList MessagesList SparseIds MessagesBuilder LangStorage PeerIds TcpStream DcStorage DownloadFiles
begin

text \<open>
  A verification library for the core of a Telegram desktop client (C++, Telegram/SourceFiles).

  \<^bold>\<open>The program.\<close> The client is a large graphical program around a few engines without a user
  interface. A session of the network protocol (mtproto/) finds the servers of a data center in
  \<open>DcOptions\<close>, opens connections to them, cuts their byte streams into packets, and drops messages
  it has seen. What the server says about the state of the account arrives as numbered updates,
  which \<open>PtsWaiter\<close> puts in order before they are applied. Files are
  loaded in parts through several sessions by a manager that balances the requests. Long histories are known in parts only:
  lists of slices keep what is known, viewers ask them for a window around a message and request
  what is missing. Phrases of the interface are made from language packs with tags and plural forms.

  \<^bold>\<open>How it is modelled.\<close> Every theory models one part as functions on records, named after the
  functions and classes of the source. A failed \<open>Expects\<close> or \<open>Assert\<close>, a read of an empty
  \<open>std::optional\<close> and a read through an end iterator are \<open>None\<close>; events fired, calls made on an owner
  and requests sent are appended to lists in the state. \<open>base::flat_map\<close> and \<open>base::flat_set\<close> are
  strictly increasing lists, machine integers are words where their width matters and integers
  elsewhere. Qt, OpenSSL and random numbers are arguments, with what the code relies on as
  hypotheses that an example meets. All definitions are total functions without fuel, except where
  a text says so; loops are recursions with a termination proof.

  \<^item> \<open>Prelude\<close>: machine integers, ordered sets and maps, binary search.
  \<^item> \<open>ReceivedIds\<close> (mtproto/details/mtproto_received_ids_manager): no message id is accepted
    twice in any run of the session, and shrinking forgets only the oldest ids.
  \<^item> \<open>PtsWaiter\<close> (data/data_pts_waiter): updates that arrive in any order, any number of times
    ahead, are applied once each and in the order of their numbers.
  \<^item> \<open>SliceCore\<close>, \<open>MsgIds\<close>, \<open>SparseIdsList\<close>, \<open>MessagesList\<close> (storage/storage_sparse_ids_list,
    data/data_messages, data/data_msg_id): the interface \<open>history_store\<close> of a store that agrees with the
    true history on every range it knows; both lists interpret it, and a query gives a window of the history.
  \<^item> \<open>SliceBuilder\<close>, \<open>SparseIds\<close>, \<open>MessagesBuilder\<close> (data/data_sparse_ids, data/data_abstract_sparse_ids,
    data/data_messages): the builders of the views keep a window around their key with exact
    counts, and as soon as they ask for nothing more they show all that was wanted; indices and
    counts of merged slices.
  \<^item> \<open>PluralRules\<close>, \<open>LangTags\<close> (lang/lang_tag): the plural rules with their categories, the choice
    of the rule of a language, tags of phrases and the formatting of counts.
  \<^item> \<open>LangFiles\<close> (lang/lang_file_parser, lang/lang_instance.cpp): the pairs of a language file and the
    tags of their values; files are read back as they were written, and the values accepted are
    exactly the phrases, which tag replacement then fills.
  \<^item> \<open>LangInstance\<close>, \<open>LangStorage\<close> (lang/lang_instance): the values of all phrases as layers, the instance
    over its base over the program. Differences of the server change one layer, switching clears
    both, and a new instance filled from the stored form shows the same. Reading the stored form has fuel for nested
    bases, of which two levels are enough for everything that is written.
  \<^item> \<open>PeerIds\<close> (data/data_peer_id): identifiers of users, chats and channels, their kinds and forms.
  \<^item> \<open>TcpProtocol\<close>, \<open>TcpStream\<close> (mtproto/connection_tcp): the three framings of packets with their round
    trip, and the receiving side of a connection, which cuts any split of the stream into the same packets.
  \<^item> \<open>DcOptions\<close>, \<open>DcStorage\<close> (mtproto/mtproto_dc_options, mtproto/core_types.h, mtproto/facade.h,
    storage/serialize_common.h): shifted data center ids, the sets of endpoints under every
    operation, the choice of endpoints for a connection, and both stored forms.
  \<^item> \<open>DownloadQueue\<close>, \<open>StreamQueue\<close> (storage/download_manager_mtproto, media/streaming/media_streaming_loader): the
    queue of the tasks of a data center, and the queue of the parts a streaming loader was asked for.
  \<^item> \<open>DownloadManager\<close> (storage/download_manager_mtproto): the state of the manager as one record, with the balance
    of every data center, the queues, the timers and all tasks by number; one function for each operation of the
    manager and of a task. The books \<open>downloads_ok\<close>: a session has as requested one part for each request of a live task in it.
  \<^item> \<open>DownloadSessions\<close>, \<open>DownloadRooms\<close>: a session is removed with all its requests moved to others, and
    what bounds the requests of all sessions, so that none of them goes to the session that is removed.
  \<^item> \<open>DownloadSending\<close>, \<open>DownloadOperations\<close>: the interface \<open>download_loader\<close> of what a manager needs from its tasks;
    with it sending returns, because every request takes some of the free room, and all operations keep the books.
  \<^item> \<open>DownloadLoaders\<close>, \<open>DownloadRuns\<close> (storage/file_download, storage/file_download_mtproto,
    media/streaming/media_streaming_loader_mtproto): loaders of files and of streams with the answers of the server,
    which interpret the interface. What the disk and the cache answer are arguments.
  \<^item> \<open>DownloadEvents\<close>: everything that can happen as an event, the states reachable from the construction of the
    manager, and that no check fails and no loop runs forever in any of them. The loops over requests are partial
    functions, for which \<open>None\<close> also stands for not returning; that they return is proved.
  \<^item> \<open>DownloadFrames\<close>, \<open>DownloadContent\<close>, \<open>DownloadFiles\<close>: the interface \<open>untouched\<close> of what operations on one task
    leave alone, and that a file which is told the truth is loaded whole, whatever happens to other tasks.

  \<^bold>\<open>Not modelled.\<close> The answers of a content delivery network to downloads (redirects, decryption with OpenSSL, hashes),
  for which the state of a task has its unchecked parts only. Everything that draws, lays out or reacts to the mouse (boxes, dialogs, history and
  info widgets, window, settings, ui), the platform code, calls, audio and video with their libraries,
  the files of the local storage and their encryption, generated code of the API scheme, and the
  sessions that glue the parts to requests of the network: they are glue over code that is not part
  of the sources or have no result a definition could state.
\<close>

end
